(* ===== verification/Prelude.thy ===== *)
theory Prelude
  imports Main "HOL-Library.Word" "HOL-Library.Multiset" "HOL-Library.Monad_Syntax"
begin

text \<open>
  Shared vocabulary of the development: the C integer types at their widths, the theorem
  collections the component theories fill, and generic lemmas on lists, words and the option
  monad. Undefined behaviour of C (a stray pointer, an access past the end of an array, a failed
  \<^verbatim>\<open>assert\<close>) is the value \<^const>\<open>None\<close> throughout, so a theorem that an operation returns
  \<^const>\<open>Some\<close> is a theorem that it is free of undefined behaviour.
\<close>

unbundle bit_operations_syntax

section \<open>Integer types\<close>

type_synonym u8 = "8 word"
type_synonym u16 = "16 word"
type_synonym u32 = "32 word"
type_synonym u64 = "64 word"

text \<open>Addresses are natural numbers; 0 is \<^verbatim>\<open>NULL\<close>.\<close>

type_synonym uptr = nat

section \<open>Theorem collections\<close>

named_theorems osi_ops \<open>equations of the C heap, the Scheme lock table and the calls to libuv\<close>
named_theorems osi_queue \<open>equations of the callback queue\<close>

section \<open>Lists\<close>

lemma drop_mult_append:
  assumes "k * (length xs div k) = length xs"
  shows "drop (k * (length xs div k)) (xs @ ys) = ys"
  using assms by simp

lemma take_drop_snoc:
  "i < length xs \<Longrightarrow> take (Suc i) (xs[i := y]) = take i xs @ [y]"
  by (simp add: take_Suc_conv_app_nth)

lemma length_fold_append1:
  "length (fold (\<lambda>t W. W @ [f t W]) ts W) = length W + length ts"
  by (induction ts arbitrary: W) auto

section \<open>Words\<close>

lemma unat_u32_less: "unat (w :: u32) < 2 ^ 32"
  using unsigned_less [of w, where ?'a = nat] by simp

lemma unat_u64_less: "unat (w :: u64) < 2 ^ 64"
  using unsigned_less [of w, where ?'a = nat] by simp

section \<open>The option monad\<close>

lemma bind_Some_eq_Some [simp]: "(Some x \<bind> f) = f x"
  by simp

end
