(* ===== verification/Sha1.thy ===== *)
theory Sha1
  imports Prelude
begin

text \<open>
  The message digest of \<^verbatim>\<open>sha1.c\<close>, \<^verbatim>\<open>sha.h\<close> and \<^verbatim>\<open>sha-private.h\<close>. The first part translates
  the C code: the context record, the length counter of two 32-bit words, the block buffer that is
  filled a byte at a time, the compression of a full block, padding and the extraction of the
  digest. The second part states the Secure Hash Standard on bit strings, independently of the
  code, and the third part proves that the code computes it for every way of cutting a message
  into pieces, with the error states of the interface and the range in which the code is free of
  undefined behaviour.
\<close>

section \<open>The code\<close>

subsection \<open>Constants and the context\<close>

definition shaSuccess :: int where "shaSuccess = 0"
definition shaNull :: int where "shaNull = 1"
definition shaInputTooLong :: int where "shaInputTooLong = 2"
definition shaStateError :: int where "shaStateError = 3"
definition shaBadParam :: int where "shaBadParam = 4"

lemmas sha_codes = shaSuccess_def shaNull_def shaInputTooLong_def shaStateError_def shaBadParam_def

definition SHA1_Message_Block_Size :: nat where "SHA1_Message_Block_Size = 64"
definition SHA1HashSize :: nat where "SHA1HashSize = 20"

lemmas sha_sizes = SHA1_Message_Block_Size_def SHA1HashSize_def

text \<open>
  \<^verbatim>\<open>Message_Block_Index\<close> is an \<^verbatim>\<open>int_least16_t\<close>; a store through an index of 64 or more is undefined
  and ends the run, so the index stays in 0..64 in every defined run and a \<^typ>\<open>nat\<close> is exact.
\<close>

record SHA1Context =
  Intermediate_Hash :: "u32 list"
  Length_High :: u32
  Length_Low :: u32
  Message_Block_Index :: nat
  Message_Block :: "u8 list"
  Computed :: int
  Corrupted :: int

subsection \<open>Macros\<close>

definition SHA1_ROTL :: "nat \<Rightarrow> u32 \<Rightarrow> u32" where
  "SHA1_ROTL bits word = push_bit bits word OR drop_bit (32 - bits) word"

definition SHA_Ch :: "u32 \<Rightarrow> u32 \<Rightarrow> u32 \<Rightarrow> u32" where
  "SHA_Ch x y z = (x AND y) XOR (NOT x AND z)"

definition SHA_Maj :: "u32 \<Rightarrow> u32 \<Rightarrow> u32 \<Rightarrow> u32" where
  "SHA_Maj x y z = (x AND y) XOR (x AND z) XOR (y AND z)"

text \<open>The forms selected by \<^verbatim>\<open>USE_MODIFIED_MACROS\<close>.\<close>

definition SHA_Ch_modified :: "u32 \<Rightarrow> u32 \<Rightarrow> u32 \<Rightarrow> u32" where
  "SHA_Ch_modified x y z = (x AND (y XOR z)) XOR z"

definition SHA_Maj_modified :: "u32 \<Rightarrow> u32 \<Rightarrow> u32 \<Rightarrow> u32" where
  "SHA_Maj_modified x y z = (x AND (y OR z)) OR (y AND z)"

definition SHA_Parity :: "u32 \<Rightarrow> u32 \<Rightarrow> u32 \<Rightarrow> u32" where
  "SHA_Parity x y z = x XOR y XOR z"

text \<open>
  \<^verbatim>\<open>SHA1AddLength\<close> adds to the low word and carries into the high word; a carry out of the high word
  sets \<^verbatim>\<open>Corrupted\<close>. The value of the macro is the new \<^verbatim>\<open>Corrupted\<close>.
\<close>

definition SHA1AddLength :: "SHA1Context \<Rightarrow> u32 \<Rightarrow> SHA1Context" where
  "SHA1AddLength context len =
     (let addTemp = Length_Low context;
          low = addTemp + len;
          c = context\<lparr>Length_Low := low\<rparr>
      in if low < addTemp
         then let hi = Length_High c + 1
              in c\<lparr>Length_High := hi,
                   Corrupted := (if hi = 0 then shaInputTooLong else Corrupted c)\<rparr>
         else c)"

subsection \<open>Compression of one block\<close>

definition sha1_K :: "u32 list" where
  "sha1_K = [0x5A827999, 0x6ED9EBA1, 0x8F1BBCDC, 0xCA62C1D6]"

text \<open>The array \<^verbatim>\<open>W\<close> is a list that grows by one word per iteration of the two filling loops.\<close>

definition sha1_load_word :: "u8 list \<Rightarrow> nat \<Rightarrow> u32" where
  "sha1_load_word block t =
     push_bit 24 (ucast (block ! (t * 4))) OR push_bit 16 (ucast (block ! (t * 4 + 1)))
       OR push_bit 8 (ucast (block ! (t * 4 + 2))) OR ucast (block ! (t * 4 + 3))"

definition sha1_W :: "u8 list \<Rightarrow> u32 list" where
  "sha1_W block =
     fold (\<lambda>t W. W @ [SHA1_ROTL 1 (W ! (t - 3) XOR W ! (t - 8) XOR W ! (t - 14) XOR W ! (t - 16))])
       [16..<80]
       (fold (\<lambda>t W. W @ [sha1_load_word block t]) [0..<16] [])"

type_synonym sha1_regs = "u32 \<times> u32 \<times> u32 \<times> u32 \<times> u32"

text \<open>The body shared by the four round loops; \<open>f\<close> and \<open>k\<close> are the loop's function and constant.\<close>

fun sha1_round :: "(u32 \<Rightarrow> u32 \<Rightarrow> u32 \<Rightarrow> u32) \<Rightarrow> u32 \<Rightarrow> u32 list \<Rightarrow> nat \<Rightarrow> sha1_regs \<Rightarrow> sha1_regs" where
  "sha1_round f k W t (A, B, C, D, E) =
     (let temp = SHA1_ROTL 5 A + f B C D + E + W ! t + k
      in (temp, A, SHA1_ROTL 30 B, C, D))"

definition SHA1ProcessMessageBlock :: "SHA1Context \<Rightarrow> SHA1Context" where
  "SHA1ProcessMessageBlock context =
     (let W = sha1_W (Message_Block context);
          h = Intermediate_Hash context;
          r0 = (h ! 0, h ! 1, h ! 2, h ! 3, h ! 4);
          r1 = fold (sha1_round SHA_Ch (sha1_K ! 0) W) [0..<20] r0;
          r2 = fold (sha1_round SHA_Parity (sha1_K ! 1) W) [20..<40] r1;
          r3 = fold (sha1_round SHA_Maj (sha1_K ! 2) W) [40..<60] r2;
          r4 = fold (sha1_round SHA_Parity (sha1_K ! 3) W) [60..<80] r3
      in case r4 of (A, B, C, D, E) \<Rightarrow>
           context\<lparr>Intermediate_Hash := [h ! 0 + A, h ! 1 + B, h ! 2 + C, h ! 3 + D, h ! 4 + E],
                   Message_Block_Index := 0\<rparr>)"

subsection \<open>Reset and input\<close>

text \<open>
  A \<^verbatim>\<open>NULL\<close> context is \<^const>\<open>None\<close> of the inner option; the functions that take a context return
  the status with the context as it is afterwards. \<open>SHA1Reset\<close> keeps the bytes of the block buffer,
  which a fresh allocation leaves indeterminate.
\<close>

definition SHA1Reset :: "SHA1Context option \<Rightarrow> int \<times> SHA1Context option" where
  "SHA1Reset context =
     (case context of None \<Rightarrow> (shaNull, None)
      | Some c \<Rightarrow>
          (shaSuccess,
           Some (c\<lparr>Length_High := 0, Length_Low := 0, Message_Block_Index := 0,
                   Intermediate_Hash := [0x67452301, 0xEFCDAB89, 0x98BADCFE, 0x10325476, 0xC3D2E1F0],
                   Computed := 0, Corrupted := shaSuccess\<rparr>)))"

text \<open>The store \<^verbatim>\<open>Message_Block[Message_Block_Index++] = b\<close>, undefined past the end of the array.\<close>

definition sha1_store :: "u8 \<Rightarrow> SHA1Context \<Rightarrow> SHA1Context option" where
  "sha1_store b c =
     (if Message_Block_Index c < SHA1_Message_Block_Size
      then Some (c\<lparr>Message_Block := (Message_Block c)[Message_Block_Index c := b],
                   Message_Block_Index := Suc (Message_Block_Index c)\<rparr>)
      else None)"

text \<open>One iteration of the loop of \<^verbatim>\<open>SHA1Input\<close>.\<close>

definition sha1_input_byte :: "u8 \<Rightarrow> SHA1Context \<Rightarrow> SHA1Context option" where
  "sha1_input_byte b c = do {
     c \<leftarrow> sha1_store b c;
     let c = SHA1AddLength c 8;
     Some (if Corrupted c = shaSuccess \<and> Message_Block_Index c = SHA1_Message_Block_Size
           then SHA1ProcessMessageBlock c else c)
   }"

fun sha1_input_loop :: "u8 list \<Rightarrow> SHA1Context \<Rightarrow> SHA1Context option" where
  "sha1_input_loop [] c = Some c"
| "sha1_input_loop (b # bs) c = do { c \<leftarrow> sha1_input_byte b c; sha1_input_loop bs c }"

text \<open>
  The message array is \<^const>\<open>None\<close> when the pointer is \<^verbatim>\<open>NULL\<close>; \<open>length\<close> is the number of bytes to
  read from it. Reading past the end of the array is undefined.
\<close>

definition SHA1Input ::
  "SHA1Context option \<Rightarrow> u8 list option \<Rightarrow> u32 \<Rightarrow> (int \<times> SHA1Context option) option" where
  "SHA1Input context message_array len =
     (case context of None \<Rightarrow> Some (shaNull, None)
      | Some c \<Rightarrow>
          if len = 0 then Some (shaSuccess, Some c)
          else case message_array of None \<Rightarrow> Some (shaNull, Some c)
          | Some bytes \<Rightarrow>
              if Computed c \<noteq> 0 then Some (shaStateError, Some (c\<lparr>Corrupted := shaStateError\<rparr>))
              else if Corrupted c \<noteq> 0 then Some (Corrupted c, Some c)
              else if length bytes < unat len then None
              else do {
                c \<leftarrow> sha1_input_loop (take (unat len) bytes) c;
                Some (Corrupted c, Some c)
              })"

subsection \<open>Padding, final bits and result\<close>

text \<open>The loops \<^verbatim>\<open>while (Message_Block_Index < limit) Message_Block[Message_Block_Index++] = 0\<close>.\<close>

function sha1_zero_to :: "nat \<Rightarrow> SHA1Context \<Rightarrow> SHA1Context option" where
  "sha1_zero_to limit c =
     (if Message_Block_Index c < limit
      then (case sha1_store 0 c of None \<Rightarrow> None | Some c' \<Rightarrow> sha1_zero_to limit c')
      else Some c)"
  by pat_completeness auto
termination
  by (relation "measure (\<lambda>(limit, c). limit - Message_Block_Index c)")
     (auto simp: sha1_store_def split: if_splits)

declare sha1_zero_to.simps [simp del]

definition sha1_store_length :: "SHA1Context \<Rightarrow> SHA1Context" where
  "sha1_store_length c =
     c\<lparr>Message_Block := (Message_Block c)
        [56 := ucast (drop_bit 24 (Length_High c)), 57 := ucast (drop_bit 16 (Length_High c)),
         58 := ucast (drop_bit 8 (Length_High c)), 59 := ucast (Length_High c),
         60 := ucast (drop_bit 24 (Length_Low c)), 61 := ucast (drop_bit 16 (Length_Low c)),
         62 := ucast (drop_bit 8 (Length_Low c)), 63 := ucast (Length_Low c)]\<rparr>"

definition SHA1PadMessage :: "SHA1Context \<Rightarrow> u8 \<Rightarrow> SHA1Context option" where
  "SHA1PadMessage context Pad_Byte = do {
     c \<leftarrow> (if Message_Block_Index context \<ge> SHA1_Message_Block_Size - 8
           then do {
             c \<leftarrow> sha1_store Pad_Byte context;
             c \<leftarrow> sha1_zero_to SHA1_Message_Block_Size c;
             Some (SHA1ProcessMessageBlock c)
           }
           else sha1_store Pad_Byte context);
     c \<leftarrow> sha1_zero_to (SHA1_Message_Block_Size - 8) c;
     Some (SHA1ProcessMessageBlock (sha1_store_length c))
   }"

definition SHA1Finalize :: "SHA1Context \<Rightarrow> u8 \<Rightarrow> SHA1Context option" where
  "SHA1Finalize context Pad_Byte = do {
     c \<leftarrow> SHA1PadMessage context Pad_Byte;
     Some (c\<lparr>Message_Block := replicate SHA1_Message_Block_Size 0,
             Length_High := 0, Length_Low := 0, Computed := 1\<rparr>)
   }"

definition sha1_masks :: "u8 list" where
  "sha1_masks = [0x00, 0x80, 0xC0, 0xE0, 0xF0, 0xF8, 0xFC, 0xFE]"

definition sha1_markbit :: "u8 list" where
  "sha1_markbit = [0x80, 0x40, 0x20, 0x10, 0x08, 0x04, 0x02, 0x01]"

definition SHA1FinalBits ::
  "SHA1Context option \<Rightarrow> u8 \<Rightarrow> u32 \<Rightarrow> (int \<times> SHA1Context option) option" where
  "SHA1FinalBits context message_bits len =
     (case context of None \<Rightarrow> Some (shaNull, None)
      | Some c \<Rightarrow>
          if len = 0 then Some (shaSuccess, Some c)
          else if Corrupted c \<noteq> 0 then Some (Corrupted c, Some c)
          else if Computed c \<noteq> 0 then Some (shaStateError, Some (c\<lparr>Corrupted := shaStateError\<rparr>))
          else if len \<ge> 8 then Some (shaBadParam, Some (c\<lparr>Corrupted := shaBadParam\<rparr>))
          else do {
            c \<leftarrow> SHA1Finalize (SHA1AddLength c len)
                  ((message_bits AND sha1_masks ! unat len) OR sha1_markbit ! unat len);
            Some (Corrupted c, Some c)
          })"

definition sha1_digest_bytes :: "u32 list \<Rightarrow> u8 list" where
  "sha1_digest_bytes h =
     map (\<lambda>i. ucast (drop_bit (8 * (3 - i mod 4)) (h ! (i div 4)))) [0..<SHA1HashSize]"

text \<open>
  \<open>SHA1Result\<close> also returns the digest it wrote, or \<^const>\<open>None\<close> when it wrote nothing. The flag says
  whether the caller's \<^verbatim>\<open>Message_Digest\<close> pointer is non-null.
\<close>

definition SHA1Result ::
  "SHA1Context option \<Rightarrow> bool \<Rightarrow> (int \<times> SHA1Context option \<times> u8 list option) option" where
  "SHA1Result context digest_ok =
     (case context of None \<Rightarrow> Some (shaNull, None, None)
      | Some c \<Rightarrow>
          if \<not> digest_ok then Some (shaNull, Some c, None)
          else if Corrupted c \<noteq> 0 then Some (Corrupted c, Some c, None)
          else do {
            c \<leftarrow> (if Computed c = 0 then SHA1Finalize c 0x80 else Some c);
            Some (shaSuccess, Some c, Some (sha1_digest_bytes (Intermediate_Hash c)))
          })"


section \<open>The standard\<close>

text \<open>
  The Secure Hash Standard on bit strings, most significant bit first: padding to a multiple of
  512 bits, parsing into words, the message schedule, the eighty steps and the running hash value.
  Nothing here refers to the code above.
\<close>

definition bits_of_word :: "'a::len word \<Rightarrow> bool list" where
  "bits_of_word w = map (bit w) (rev [0..<LENGTH('a)])"

definition word_of_bits :: "bool list \<Rightarrow> 'a::len word" where
  "word_of_bits bs = horner_sum of_bool 2 (rev bs)"

definition fips_pad :: "bool list \<Rightarrow> bool list" where
  "fips_pad m =
     m @ [True] @ replicate ((959 - length m mod 512) mod 512) False
       @ bits_of_word (of_nat (length m) :: u64)"

definition fips_f :: "nat \<Rightarrow> u32 \<Rightarrow> u32 \<Rightarrow> u32 \<Rightarrow> u32" where
  "fips_f t x y z =
     (if t < 20 then (x AND y) XOR (NOT x AND z)
      else if t < 40 then x XOR y XOR z
      else if t < 60 then (x AND y) XOR (x AND z) XOR (y AND z)
      else x XOR y XOR z)"

definition fips_K :: "nat \<Rightarrow> u32" where
  "fips_K t =
     (if t < 20 then 0x5A827999 else if t < 40 then 0x6ED9EBA1
      else if t < 60 then 0x8F1BBCDC else 0xCA62C1D6)"

fun fips_W :: "(nat \<Rightarrow> u32) \<Rightarrow> nat \<Rightarrow> u32" where
  "fips_W M t =
     (if t < 16 then M t
      else word_rotl 1 (fips_W M (t - 3) XOR fips_W M (t - 8) XOR fips_W M (t - 14) XOR fips_W M (t - 16)))"

declare fips_W.simps [simp del]

fun fips_step :: "(nat \<Rightarrow> u32) \<Rightarrow> nat \<Rightarrow> sha1_regs \<Rightarrow> sha1_regs" where
  "fips_step M t (a, b, c, d, e) =
     (word_rotl 5 a + fips_f t b c d + e + fips_K t + fips_W M t, a, word_rotl 30 b, c, d)"

fun fips_steps :: "(nat \<Rightarrow> u32) \<Rightarrow> nat \<Rightarrow> sha1_regs \<Rightarrow> sha1_regs" where
  "fips_steps M 0 r = r"
| "fips_steps M (Suc t) r = fips_step M t (fips_steps M t r)"

fun fips_add :: "sha1_regs \<Rightarrow> sha1_regs \<Rightarrow> sha1_regs" where
  "fips_add (a, b, c, d, e) (h0, h1, h2, h3, h4) = (a + h0, b + h1, c + h2, d + h3, e + h4)"

definition fips_compress :: "(nat \<Rightarrow> u32) \<Rightarrow> sha1_regs \<Rightarrow> sha1_regs" where
  "fips_compress M h = fips_add (fips_steps M 80 h) h"

definition fips_H0 :: sha1_regs where
  "fips_H0 = (0x67452301, 0xEFCDAB89, 0x98BADCFE, 0x10325476, 0xC3D2E1F0)"

definition fips_block_word :: "bool list \<Rightarrow> nat \<Rightarrow> u32" where
  "fips_block_word blk t = word_of_bits (take 32 (drop (32 * t) blk))"

function fips_blocks :: "sha1_regs \<Rightarrow> bool list \<Rightarrow> sha1_regs" where
  "fips_blocks h bs =
     (if length bs < 512 then h
      else fips_blocks (fips_compress (fips_block_word (take 512 bs)) h) (drop 512 bs))"
  by pat_completeness auto
termination
  by (relation "measure (\<lambda>(h, bs). length bs)") auto

declare fips_blocks.simps [simp del]

fun fips_digest :: "sha1_regs \<Rightarrow> bool list" where
  "fips_digest (a, b, c, d, e) = concat (map bits_of_word [a, b, c, d, e])"

definition fips_sha1 :: "bool list \<Rightarrow> bool list" where
  "fips_sha1 m = fips_digest (fips_blocks fips_H0 (fips_pad m))"

definition bits_of_bytes :: "u8 list \<Rightarrow> bool list" where
  "bits_of_bytes bs = concat (map bits_of_word bs)"

section \<open>The code computes the standard\<close>

subsection \<open>Words and bits\<close>

lemma length_bits_of_word [simp]: "length (bits_of_word (w :: 'a::len word)) = LENGTH('a)"
  by (simp add: bits_of_word_def)

lemma nth_bits_of_word:
  "i < LENGTH('a) \<Longrightarrow> bits_of_word (w :: 'a::len word) ! i = bit w (LENGTH('a) - Suc i)"
  by (simp add: bits_of_word_def rev_nth)

lemma bit_word_of_bits:
  "bit (word_of_bits bs :: 'a::len word) n \<longleftrightarrow> n < LENGTH('a) \<and> n < length bs \<and> bs ! (length bs - Suc n)"
  by (auto simp: word_of_bits_def bit_horner_sum_bit_word_iff rev_nth)

lemma word_of_bits_of_word [simp]: "word_of_bits (bits_of_word w) = (w :: 'a::len word)"
  by (rule bit_word_eqI) (auto simp: bit_word_of_bits nth_bits_of_word)

lemma SHA1_ROTL_word_rotl:
  assumes "n < 32"
  shows "SHA1_ROTL n w = word_rotl n w"
proof (rule bit_word_eqI)
  fix k assume "k < LENGTH(32)"
  then have k: "k < 32" by simp
  show "bit (SHA1_ROTL n w) k \<longleftrightarrow> bit (word_rotl n w) k"
  proof (cases "n \<le> k")
    case True
    then have "(k + 32 - n) mod 32 = k - n" using k assms by (simp add: mod_if)
    moreover have "\<not> bit w (32 - n + k)" using True by (auto dest: bit_imp_le_length)
    ultimately show ?thesis
      using True k by (simp add: SHA1_ROTL_def bit_word_rotl_iff bit_or_iff bit_push_bit_iff bit_drop_bit_eq)
  next
    case False
    then have "(k + 32 - n) mod 32 = 32 - n + k" using k assms by simp
    then show ?thesis
      using False k assms by (simp add: SHA1_ROTL_def bit_word_rotl_iff bit_or_iff bit_push_bit_iff bit_drop_bit_eq)
  qed
qed

lemma SHA_Ch_modified_eq: "SHA_Ch_modified x y z = SHA_Ch x y z"
  by (rule bit_word_eqI)
     (auto simp: SHA_Ch_modified_def SHA_Ch_def bit_xor_iff bit_and_iff bit_not_iff)

lemma SHA_Maj_modified_eq: "SHA_Maj_modified x y z = SHA_Maj x y z"
  by (rule bit_word_eqI)
     (auto simp: SHA_Maj_modified_def SHA_Maj_def bit_xor_iff bit_and_iff bit_or_iff)


subsection \<open>The message schedule and the rounds\<close>

abbreviation block_words :: "u8 list \<Rightarrow> nat \<Rightarrow> u32" where
  "block_words \<equiv> sha1_load_word"

lemma sha1_load_fold:
  "fold (\<lambda>t W. W @ [f t]) [0..<n] [] = map f [0..<n]"
  by (induction n) auto

lemma fips_W_schedule:
  "16 \<le> n \<Longrightarrow>
   fold (\<lambda>t W. W @ [SHA1_ROTL 1 (W ! (t - 3) XOR W ! (t - 8) XOR W ! (t - 14) XOR W ! (t - 16))])
     [16..<n] (map (fips_W M) [0..<16]) = map (fips_W M) [0..<n]"
proof (induction n rule: dec_induct)
  case base
  show ?case by simp
next
  case (step n)
  have "fips_W M n = SHA1_ROTL 1
          (fips_W M (n - 3) XOR fips_W M (n - 8) XOR fips_W M (n - 14) XOR fips_W M (n - 16))"
    using step.hyps by (subst fips_W.simps) (simp add: SHA1_ROTL_word_rotl)
  with step show ?case by simp
qed

lemma sha1_W_eq: "sha1_W block = map (fips_W (block_words block)) [0..<80]"
proof -
  have "map (block_words block) [0..<16] = map (fips_W (block_words block)) [0..<16]"
    by (rule map_cong [OF refl]) (simp add: fips_W.simps)
  then show ?thesis
    unfolding sha1_W_def sha1_load_fold
    using fips_W_schedule [of 80 "block_words block"] by (metis numeral_le_iff semiring_norm(68,69,71))
qed

lemma fold_rounds:
  assumes "lo \<le> hi" and "\<And>t. lo \<le> t \<Longrightarrow> t < hi \<Longrightarrow> fips_f t = f \<and> fips_K t = k"
    and "hi \<le> 80"
  shows "fold (sha1_round f k (map (fips_W M) [0..<80])) [lo..<hi] (fips_steps M lo r) = fips_steps M hi r"
  using assms
proof (induction hi rule: dec_induct)
  case base
  show ?case by simp
next
  case (step n)
  obtain a b c d e where abc: "fips_steps M n r = (a, b, c, d, e)" by (cases "fips_steps M n r") auto
  have "fips_f n = f" "fips_K n = k" using step.prems(1) [of n] step.hyps by auto
  moreover have "fold (sha1_round f k (map (fips_W M) [0..<80])) [lo..<n] (fips_steps M lo r) = (a, b, c, d, e)"
    using step abc by auto
  ultimately show ?case
    using step abc by (simp add: SHA1_ROTL_word_rotl ac_simps Let_def)
qed

definition regs_list :: "sha1_regs \<Rightarrow> u32 list" where
  "regs_list r = (case r of (a, b, c, d, e) \<Rightarrow> [a, b, c, d, e])"

lemma length_regs_list [simp]: "length (regs_list r) = 5"
  by (cases r) (simp add: regs_list_def)

lemma SHA1ProcessMessageBlock_eq:
  assumes "Intermediate_Hash c = regs_list h"
  shows "SHA1ProcessMessageBlock c =
           c\<lparr>Intermediate_Hash := regs_list (fips_compress (block_words (Message_Block c)) h),
             Message_Block_Index := 0\<rparr>"
proof -
  let ?M = "block_words (Message_Block c)"
  obtain a b c' d e where h: "h = (a, b, c', d, e)" by (cases h) auto
  note f = fips_f_def fips_K_def SHA_Ch_def SHA_Parity_def SHA_Maj_def sha1_K_def fun_eq_iff
  have r1: "fold (sha1_round SHA_Ch (sha1_K ! 0) (sha1_W (Message_Block c))) [0..<20] h = fips_steps ?M 20 h"
    unfolding sha1_W_eq
    by (rule fold_rounds [of 0 20 SHA_Ch "sha1_K ! 0" ?M h, unfolded fips_steps.simps(1)]) (simp_all add: f)
  have r2: "fold (sha1_round SHA_Parity (sha1_K ! 1) (sha1_W (Message_Block c))) [20..<40] (fips_steps ?M 20 h) = fips_steps ?M 40 h"
    unfolding sha1_W_eq
    by (rule fold_rounds [of 20 40]) (simp_all add: f)
  have r3: "fold (sha1_round SHA_Maj (sha1_K ! 2) (sha1_W (Message_Block c))) [40..<60] (fips_steps ?M 40 h) = fips_steps ?M 60 h"
    unfolding sha1_W_eq
    by (rule fold_rounds [of 40 60]) (simp_all add: f)
  have r4: "fold (sha1_round SHA_Parity (sha1_K ! 3) (sha1_W (Message_Block c))) [60..<80] (fips_steps ?M 60 h) = fips_steps ?M 80 h"
    unfolding sha1_W_eq
    by (rule fold_rounds [of 60 80]) (simp_all add: f)
  obtain p q r s t where final: "fips_steps ?M 80 h = (p, q, r, s, t)" by (cases "fips_steps ?M 80 h") auto
  have hh: "(Intermediate_Hash c ! 0, Intermediate_Hash c ! 1, Intermediate_Hash c ! 2,
       Intermediate_Hash c ! 3, Intermediate_Hash c ! 4) = h"
    using assms h by (simp add: regs_list_def)
  show ?thesis
    unfolding SHA1ProcessMessageBlock_def Let_def hh r1 r2 r3 r4 final
    using assms h final by (simp add: regs_list_def fips_compress_def ac_simps)
qed


subsection \<open>Whole blocks of bytes\<close>

text \<open>The running hash after all complete 64-byte blocks of a byte string.\<close>

function sha1_blocks :: "sha1_regs \<Rightarrow> u8 list \<Rightarrow> sha1_regs" where
  "sha1_blocks h bs =
     (if length bs < 64 then h
      else sha1_blocks (fips_compress (block_words (take 64 bs)) h) (drop 64 bs))"
  by pat_completeness auto
termination
  by (relation "measure (\<lambda>(h, bs). length bs)") auto

declare sha1_blocks.simps [simp del]

lemma sha1_blocks_short [simp]: "length bs < 64 \<Longrightarrow> sha1_blocks h bs = h"
  by (simp add: sha1_blocks.simps)

lemma sha1_blocks_one: "length b = 64 \<Longrightarrow> sha1_blocks h (b @ bs) = sha1_blocks (fips_compress (block_words b) h) bs"
  by (subst sha1_blocks.simps) simp

lemma sha1_blocks_append:
  "length xs mod 64 = 0 \<Longrightarrow> sha1_blocks h (xs @ ys) = sha1_blocks (sha1_blocks h xs) ys"
proof (induction h xs rule: sha1_blocks.induct)
  case (1 h xs)
  show ?case
  proof (cases "length xs < 64")
    case True
    with "1.prems" have "xs = []" by simp
    then show ?thesis by simp
  next
    case False
    have split: "xs = take 64 xs @ drop 64 xs" by simp
    have len: "length (take 64 xs) = 64" using False by simp
    have "length (drop 64 xs) mod 64 = 0" using "1.prems" False by (simp add: le_mod_geq)
    then have IH: "sha1_blocks (fips_compress (block_words (take 64 xs)) h) (drop 64 xs @ ys)
        = sha1_blocks (sha1_blocks (fips_compress (block_words (take 64 xs)) h) (drop 64 xs)) ys"
      by (rule "1.IH" [OF False])
    have "sha1_blocks h (xs @ ys) = sha1_blocks h (take 64 xs @ (drop 64 xs @ ys))"
      by (metis append_assoc append_take_drop_id)
    also have "\<dots> = sha1_blocks (fips_compress (block_words (take 64 xs)) h) (drop 64 xs @ ys)"
      by (rule sha1_blocks_one [OF len])
    also have "\<dots> = sha1_blocks (sha1_blocks h xs) ys"
      using IH False by (simp add: sha1_blocks.simps [of h xs])
    finally show ?thesis .
  qed
qed

text \<open>The bytes of a message that lie in complete blocks, and the remaining ones.\<close>

definition full_part :: "u8 list \<Rightarrow> u8 list" where
  "full_part m = take (64 * (length m div 64)) m"

definition rest_part :: "u8 list \<Rightarrow> u8 list" where
  "rest_part m = drop (64 * (length m div 64)) m"

lemma full_rest: "full_part m @ rest_part m = m"
  by (simp add: full_part_def rest_part_def)

lemma length_rest_part: "length (rest_part m) = length m mod 64"
  by (simp add: rest_part_def minus_mult_div_eq_mod)

lemma length_full_part_mod: "length (full_part m) mod 64 = 0"
  by (simp add: full_part_def)

lemma sha1_blocks_full: "sha1_blocks h (full_part m) = sha1_blocks h m"
proof -
  have "sha1_blocks h (full_part m @ rest_part m) = sha1_blocks (sha1_blocks h (full_part m)) (rest_part m)"
    by (rule sha1_blocks_append [OF length_full_part_mod])
  then show ?thesis by (simp add: full_rest length_rest_part)
qed

lemma sha1_blocks_rest: "sha1_blocks h (m @ ys) = sha1_blocks (sha1_blocks h m) (rest_part m @ ys)"
proof -
  have "sha1_blocks h (full_part m @ (rest_part m @ ys))
      = sha1_blocks (sha1_blocks h (full_part m)) (rest_part m @ ys)"
    by (rule sha1_blocks_append [OF length_full_part_mod])
  then show ?thesis by (simp only: append_assoc [symmetric] full_rest sha1_blocks_full)
qed

lemma rest_part_snoc:
  "rest_part (m @ [b]) = (if Suc (length m) mod 64 = 0 then [] else rest_part m @ [b])"
proof (cases "Suc (length m) mod 64 = 0")
  case True
  then have "64 * (Suc (length m) div 64) = Suc (length m)" by (simp add: minus_mod_eq_mult_div [symmetric])
  with True show ?thesis by (simp add: rest_part_def)
next
  case False
  then have "Suc (length m) div 64 = length m div 64"
    by (metis div_Suc)
  with False show ?thesis by (simp add: rest_part_def)
qed


subsection \<open>Input keeps the context in step with the message\<close>

text \<open>
  The representation invariant: the context stands for the byte string \<open>m\<close> absorbed so far.
\<close>

definition sha1_repr :: "SHA1Context \<Rightarrow> u8 list \<Rightarrow> bool" where
  "sha1_repr c m \<longleftrightarrow>
     Computed c = 0 \<and> Corrupted c = shaSuccess
     \<and> unat (Length_High c) * 2 ^ 32 + unat (Length_Low c) = 8 * length m
     \<and> Intermediate_Hash c = regs_list (sha1_blocks fips_H0 m)
     \<and> length (Message_Block c) = 64 \<and> Message_Block_Index c = length m mod 64
     \<and> take (length m mod 64) (Message_Block c) = rest_part m"

lemma SHA1AddLength_ok:
  assumes "unat (Length_High c) * 2 ^ 32 + unat (Length_Low c) + unat len < 2 ^ 64"
  shows "\<exists>hi lo. SHA1AddLength c len = c\<lparr>Length_High := hi, Length_Low := lo\<rparr>
           \<and> unat hi * 2 ^ 32 + unat lo
             = unat (Length_High c) * 2 ^ 32 + unat (Length_Low c) + unat len"
proof (cases "Length_Low c + len < Length_Low c")
  case False
  then have "unat (Length_Low c + len) = unat (Length_Low c) + unat len"
    by (simp add: unat_plus_simple not_less)
  with False show ?thesis
    by (intro exI [of _ "Length_High c"] exI [of _ "Length_Low c + len"])
       (simp add: SHA1AddLength_def Let_def)
next
  case True
  then have big: "2 ^ 32 \<le> unat (Length_Low c) + unat len"
    using no_olen_add_nat [of "Length_Low c" len] by (auto simp: not_less [symmetric])
  have b: "unat (Length_Low c) < 2 ^ 32" "unat len < 2 ^ 32" by (rule unat_u32_less)+
  have low: "unat (Length_Low c + len) + 2 ^ 32 = unat (Length_Low c) + unat len"
  proof -
    have "(unat (Length_Low c) + unat len) mod 2 ^ 32 = unat (Length_Low c) + unat len - 2 ^ 32"
      using big b by (subst le_mod_geq) auto
    then show ?thesis using big by (simp add: unat_word_ariths)
  qed
  have hi: "unat (Length_High c) + 1 < 2 ^ 32"
    using assms big by simp
  then have hi': "unat (Length_High c + 1) = unat (Length_High c) + 1"
    by (simp add: unat_word_ariths)
  then have "Length_High c + 1 \<noteq> 0" by (metis Suc_eq_plus1 nat.distinct(1) unat_0)
  with True hi' low show ?thesis
    by (intro exI [of _ "Length_High c + 1"] exI [of _ "Length_Low c + len"])
       (simp add: SHA1AddLength_def Let_def)
qed

lemma sha1_input_byte_repr:
  assumes r: "sha1_repr c m" and len: "Suc (length m) < 2 ^ 61"
  shows "\<exists>c'. sha1_input_byte b c = Some c' \<and> sha1_repr c' (m @ [b])"
proof -
  let ?i = "length m mod 64"
  let ?c1 = "c\<lparr>Message_Block := (Message_Block c)[?i := b], Message_Block_Index := Suc ?i\<rparr>"
  have i: "?i < 64" by simp
  have store: "sha1_store b c = Some ?c1"
    using r by (simp add: sha1_repr_def sha1_store_def sha_sizes)
  have "unat (Length_High ?c1) * 2 ^ 32 + unat (Length_Low ?c1) + unat (8 :: u32) < 2 ^ 64"
    using r len by (simp add: sha1_repr_def)
  from SHA1AddLength_ok [OF this] obtain hi lo where
    add: "SHA1AddLength ?c1 8 = ?c1\<lparr>Length_High := hi, Length_Low := lo\<rparr>"
    and sum: "unat hi * 2 ^ 32 + unat lo = 8 * Suc (length m)"
    using r by (auto simp: sha1_repr_def)
  let ?c2 = "?c1\<lparr>Length_High := hi, Length_Low := lo\<rparr>"
  have blk: "take (Suc ?i) ((Message_Block c)[?i := b]) = rest_part m @ [b]"
    using r i by (simp add: sha1_repr_def take_drop_snoc)
  show ?thesis
  proof (cases "Suc ?i = 64")
    case False
    then have "Suc (length m) mod 64 = Suc ?i" "Suc (length m) mod 64 \<noteq> 0"
      by (auto simp: mod_Suc)
    moreover have "sha1_blocks fips_H0 (m @ [b]) = sha1_blocks fips_H0 m"
      using False i by (simp add: sha1_blocks_rest [of _ m "[b]"] length_rest_part)
    ultimately have "sha1_repr ?c2 (m @ [b])"
      using r sum blk by (simp add: sha1_repr_def rest_part_snoc)
    with False show ?thesis
      by (simp add: sha1_input_byte_def store add sha_sizes)
  next
    case True
    then have z: "Suc (length m) mod 64 = 0" by (simp add: mod_Suc)
    have full: "(Message_Block c)[?i := b] = rest_part m @ [b]"
      using blk True r by (simp add: sha1_repr_def)
    have h: "Intermediate_Hash ?c2 = regs_list (sha1_blocks fips_H0 m)"
      using r by (simp add: sha1_repr_def)
    have "sha1_blocks fips_H0 (m @ [b]) = sha1_blocks (sha1_blocks fips_H0 m) ((rest_part m @ [b]) @ [])"
      by (simp add: sha1_blocks_rest [of _ m "[b]"])
    also have "\<dots> = fips_compress (block_words (rest_part m @ [b])) (sha1_blocks fips_H0 m)"
      using True by (subst sha1_blocks_one) (auto simp: length_rest_part)
    finally have hash: "sha1_blocks fips_H0 (m @ [b]) = \<dots>" .
    have p: "SHA1ProcessMessageBlock ?c2 = ?c2\<lparr>Intermediate_Hash := regs_list (sha1_blocks fips_H0 (m @ [b])), Message_Block_Index := 0\<rparr>"
      using SHA1ProcessMessageBlock_eq [OF h] by (simp add: hash full)
    have repr: "sha1_repr (SHA1ProcessMessageBlock ?c2) (m @ [b])"
      using r sum z unfolding p by (simp add: sha1_repr_def rest_part_snoc)
    have corr: "Corrupted ?c2 = shaSuccess \<and> Message_Block_Index ?c2 = 64"
      using r True by (simp add: sha1_repr_def)
    have "sha1_input_byte b c = Some (SHA1ProcessMessageBlock ?c2)"
      using corr by (simp only: sha1_input_byte_def store bind_Some_eq_Some Let_def add sha_sizes) simp
    with repr show ?thesis by blast
  qed
qed

lemma sha1_input_loop_repr:
  "sha1_repr c m \<Longrightarrow> length m + length bs < 2 ^ 61 \<Longrightarrow>
   \<exists>c'. sha1_input_loop bs c = Some c' \<and> sha1_repr c' (m @ bs)"
proof (induction bs arbitrary: c m)
  case Nil
  then show ?case by simp
next
  case (Cons b bs)
  from Cons.prems obtain c1 where c1: "sha1_input_byte b c = Some c1" "sha1_repr c1 (m @ [b])"
    using sha1_input_byte_repr [of c m b] by auto
  with Cons.IH [OF c1(2)] Cons.prems show ?case by auto
qed


subsection \<open>Padding\<close>

lemma sha1_zero_to_eq:
  "Message_Block_Index c \<le> limit \<Longrightarrow> limit \<le> 64 \<Longrightarrow> length (Message_Block c) = 64 \<Longrightarrow>
   sha1_zero_to limit c =
     Some (c\<lparr>Message_Block := take (Message_Block_Index c) (Message_Block c)
                @ replicate (limit - Message_Block_Index c) 0 @ drop limit (Message_Block c),
             Message_Block_Index := limit\<rparr>)"
proof (induction limit c rule: sha1_zero_to.induct)
  case (1 limit c)
  let ?i = "Message_Block_Index c"
  show ?case
  proof (cases "?i < limit")
    case False
    with "1.prems" have "?i = limit" by simp
    then show ?thesis by (subst sha1_zero_to.simps) simp
  next
    case True
    let ?c = "c\<lparr>Message_Block := (Message_Block c)[?i := 0], Message_Block_Index := Suc ?i\<rparr>"
    have st: "sha1_store 0 c = Some ?c" using True "1.prems" by (simp add: sha1_store_def sha_sizes)
    have "limit - ?i = Suc (limit - Suc ?i)" using True by simp
    then have rep: "replicate (limit - ?i) 0 = (0 :: u8) # replicate (limit - Suc ?i) 0" by simp
    have "sha1_zero_to limit ?c =
        Some (?c\<lparr>Message_Block := take (Suc ?i) ((Message_Block c)[?i := 0])
                @ replicate (limit - Suc ?i) 0 @ drop limit ((Message_Block c)[?i := 0]),
                Message_Block_Index := limit\<rparr>)"
      using "1.IH" [OF True st] True "1.prems" by simp
    then show ?thesis
      using True "1.prems"
      by (subst sha1_zero_to.simps) (simp add: st take_drop_snoc rep)
  qed
qed

definition sha1_len_bytes :: "u32 \<Rightarrow> u32 \<Rightarrow> u8 list" where
  "sha1_len_bytes hi lo =
     [ucast (drop_bit 24 hi), ucast (drop_bit 16 hi), ucast (drop_bit 8 hi), ucast hi,
      ucast (drop_bit 24 lo), ucast (drop_bit 16 lo), ucast (drop_bit 8 lo), ucast lo]"

lemma length_sha1_len_bytes [simp]: "length (sha1_len_bytes hi lo) = 8"
  by (simp add: sha1_len_bytes_def)

lemma list8_eq: "length zs = 8 \<Longrightarrow> \<exists>a b c d e f g h. zs = [a, b, c, d, e, f, g, h]"
  by (auto simp: eval_nat_numeral length_Suc_conv)

lemma sha1_store_length_block:
  assumes "length ys = 56" and "length zs = 8" and "Message_Block c = ys @ zs"
  shows "Message_Block (sha1_store_length c) = ys @ sha1_len_bytes (Length_High c) (Length_Low c)"
proof -
  obtain a1 a2 a3 a4 a5 a6 a7 a8 where "zs = [a1, a2, a3, a4, a5, a6, a7, a8]"
    using list8_eq assms(2) by metis
  with assms show ?thesis
    by (simp add: sha1_store_length_def sha1_len_bytes_def list_update_append)
qed

text \<open>The bytes that padding appends to a message that leaves \<open>i\<close> bytes in the block buffer.\<close>

definition sha1_pad_tail :: "nat \<Rightarrow> u8 \<Rightarrow> u32 \<Rightarrow> u32 \<Rightarrow> u8 list" where
  "sha1_pad_tail i p hi lo = p # replicate ((119 - i) mod 64) 0 @ sha1_len_bytes hi lo"

lemma SHA1PadMessage_eq:
  assumes h: "Intermediate_Hash c = regs_list h" and len: "length (Message_Block c) = 64"
    and i: "Message_Block_Index c < 64"
  shows "\<exists>c'. SHA1PadMessage c p = Some c'
     \<and> Intermediate_Hash c' = regs_list (sha1_blocks h
         (take (Message_Block_Index c) (Message_Block c)
            @ sha1_pad_tail (Message_Block_Index c) p (Length_High c) (Length_Low c)))
     \<and> Corrupted c' = Corrupted c \<and> length (Message_Block c') = 64"
proof -
  let ?i = "Message_Block_Index c"
  let ?r = "take ?i (Message_Block c)"
  let ?L = "sha1_len_bytes (Length_High c) (Length_Low c)"
  let ?c1 = "c\<lparr>Message_Block := (Message_Block c)[?i := p], Message_Block_Index := Suc ?i\<rparr>"
  have st: "sha1_store p c = Some ?c1" using i by (simp add: sha1_store_def sha_sizes)
  have tk: "take (Suc ?i) ((Message_Block c)[?i := p]) = ?r @ [p]"
    using i len by (simp add: take_drop_snoc)
  show ?thesis
  proof (cases "?i \<ge> 56")
    case False
    let ?B = "(?r @ [p]) @ replicate (55 - ?i) 0"
    let ?c2 = "?c1\<lparr>Message_Block := ?B @ drop 56 ((Message_Block c)[?i := p]), Message_Block_Index := 56\<rparr>"
    have z: "sha1_zero_to 56 ?c1 = Some ?c2"
      using False len by (subst sha1_zero_to_eq) (simp_all add: tk)
    have B: "length ?B = 56" using False len i by simp
    have blk: "Message_Block (sha1_store_length ?c2) = ?B @ ?L"
      using sha1_store_length_block [OF B, of "drop 56 ((Message_Block c)[?i := p])" ?c2] len by simp
    have hh: "Intermediate_Hash (sha1_store_length ?c2) = regs_list h"
      using h by (simp add: sha1_store_length_def)
    have m: "(119 - ?i) mod 64 = 55 - ?i" using False by (simp add: mod_if)
    have hash: "sha1_blocks h (?B @ ?L) = fips_compress (block_words (?B @ ?L)) h"
      using sha1_blocks_one [of "?B @ ?L" h "[]"] B by simp
    have tail: "?r @ sha1_pad_tail ?i p (Length_High c) (Length_Low c) = ?B @ ?L"
      unfolding sha1_pad_tail_def m by simp
    have run: "SHA1PadMessage c p = Some (SHA1ProcessMessageBlock (sha1_store_length ?c2))"
      using False by (simp only: SHA1PadMessage_def sha_sizes st) (simp add: z)
    show ?thesis
      unfolding run SHA1ProcessMessageBlock_eq [OF hh] blk tail hash
      using B len by (simp add: sha1_store_length_def)
  next
    case True
    let ?B = "(?r @ [p]) @ replicate (63 - ?i) 0"
    let ?c2 = "?c1\<lparr>Message_Block := ?B, Message_Block_Index := 64\<rparr>"
    have z: "sha1_zero_to 64 ?c1 = Some ?c2"
      using i len by (subst sha1_zero_to_eq) (simp_all add: tk)
    have B: "length ?B = 64" using len i by simp
    let ?h1 = "fips_compress (block_words ?B) h"
    let ?c3 = "?c2\<lparr>Intermediate_Hash := regs_list ?h1, Message_Block_Index := 0\<rparr>"
    have p: "SHA1ProcessMessageBlock ?c2 = ?c3"
      using SHA1ProcessMessageBlock_eq [of ?c2 h] h by simp
    let ?c4 = "?c3\<lparr>Message_Block := replicate 56 0 @ drop 56 ?B, Message_Block_Index := 56\<rparr>"
    have z2: "sha1_zero_to 56 ?c3 = Some ?c4"
      using B by (subst sha1_zero_to_eq) simp_all
    have blk: "Message_Block (sha1_store_length ?c4) = replicate 56 0 @ ?L"
      using sha1_store_length_block [of "replicate 56 0" "drop 56 ?B" ?c4] B by simp
    have hh: "Intermediate_Hash (sha1_store_length ?c4) = regs_list ?h1"
      by (simp add: sha1_store_length_def)
    have e: "(64 :: nat) - 8 = 56" by simp
    have m: "(119 - ?i) mod 64 = (63 - ?i) + 56" using True i by simp
    have "sha1_blocks h (?B @ (replicate 56 0 @ ?L)) = sha1_blocks ?h1 (replicate 56 0 @ ?L)"
      by (rule sha1_blocks_one [OF B])
    also have "\<dots> = fips_compress (block_words (replicate 56 0 @ ?L)) ?h1"
      using sha1_blocks_one [of "replicate 56 0 @ ?L" ?h1 "[]"] by simp
    finally have hash: "sha1_blocks h (?B @ (replicate 56 0 @ ?L)) = \<dots>" .
    have tail: "?r @ sha1_pad_tail ?i p (Length_High c) (Length_Low c) = ?B @ (replicate 56 0 @ ?L)"
      unfolding sha1_pad_tail_def m by (simp add: replicate_add)
    have run: "SHA1PadMessage c p = Some (SHA1ProcessMessageBlock (sha1_store_length ?c4))"
      using True by (simp only: SHA1PadMessage_def sha_sizes e st bind_Some_eq_Some z p z2 if_True)
    show ?thesis
      unfolding run SHA1ProcessMessageBlock_eq [OF hh] blk tail hash
      using B len by (simp add: sha1_store_length_def)
  qed
qed


subsection \<open>From bytes to bits\<close>

lemma length_bits_of_bytes [simp]: "length (bits_of_bytes bs) = 8 * length bs"
  by (induction bs) (auto simp: bits_of_bytes_def)

lemma bits_of_bytes_append [simp]: "bits_of_bytes (xs @ ys) = bits_of_bytes xs @ bits_of_bytes ys"
  by (simp add: bits_of_bytes_def)

lemma bits_of_bytes_Nil [simp]: "bits_of_bytes [] = []"
  by (simp add: bits_of_bytes_def)

lemma bits_of_bytes_Cons [simp]: "bits_of_bytes (b # bs) = bits_of_word b @ bits_of_bytes bs"
  by (simp add: bits_of_bytes_def)

lemma take_bits_of_bytes: "take (8 * n) (bits_of_bytes bs) = bits_of_bytes (take n bs)"
proof (induction bs arbitrary: n)
  case Nil
  then show ?case by simp
next
  case (Cons b bs)
  then show ?case by (cases n) (simp_all add: take_Cons')
qed

lemma drop_bits_of_bytes: "drop (8 * n) (bits_of_bytes bs) = bits_of_bytes (drop n bs)"
proof (induction bs arbitrary: n)
  case Nil
  then show ?case by simp
next
  case (Cons b bs)
  then show ?case by (cases n) simp_all
qed

lemma bits_of_bytes_zeros: "bits_of_bytes (replicate n 0) = replicate (8 * n) False"
proof (induction n)
  case (Suc n)
  have "bits_of_word (0 :: u8) = replicate 8 False"
    by (rule nth_equalityI) (simp_all add: nth_bits_of_word)
  with Suc show ?case by (simp add: replicate_add)
qed simp

lemma word_of_four_bytes:
  "word_of_bits (bits_of_bytes [a, b, c, d]) =
     (push_bit 24 (ucast a) OR push_bit 16 (ucast b) OR push_bit 8 (ucast c) OR ucast d :: u32)"
proof (rule bit_word_eqI)
  fix n assume "n < LENGTH(32)"
  then have n: "n < 32" by simp
  have "bit (word_of_bits (bits_of_bytes [a, b, c, d]) :: u32) n \<longleftrightarrow>
      (if n < 8 then bit d n else if n < 16 then bit c (n - 8)
       else if n < 24 then bit b (n - 16) else bit a (n - 24))"
    using n by (auto simp: bit_word_of_bits nth_append nth_bits_of_word)
  also have "\<dots> \<longleftrightarrow> bit (push_bit 24 (ucast a) OR push_bit 16 (ucast b) OR push_bit 8 (ucast c) OR ucast d :: u32) n"
    using n by (auto simp: bit_or_iff bit_push_bit_iff bit_ucast_iff dest: bit_imp_le_length)
  finally show "bit (word_of_bits (bits_of_bytes [a, b, c, d]) :: u32) n \<longleftrightarrow>
      bit (push_bit 24 (ucast a) OR push_bit 16 (ucast b) OR push_bit 8 (ucast c) OR ucast d :: u32) n" .
qed

lemma take4_drop:
  "n + 3 < length xs \<Longrightarrow> take 4 (drop n xs) = [xs ! n, xs ! (n + 1), xs ! (n + 2), xs ! (n + 3)]"
  by (rule nth_equalityI) (auto simp: less_Suc_eq numeral_eq_Suc nth_Cons')

lemma fips_block_word_bytes:
  assumes "length b = 64" and "t < 16"
  shows "fips_block_word (bits_of_bytes b) t = sha1_load_word b t"
proof -
  have "take 32 (drop (32 * t) (bits_of_bytes b)) = bits_of_bytes (take 4 (drop (4 * t) b))"
    using drop_bits_of_bytes [of "4 * t" b] take_bits_of_bytes [of 4 "drop (4 * t) b"] by simp
  also have "take 4 (drop (4 * t) b) = [b ! (4 * t), b ! (4 * t + 1), b ! (4 * t + 2), b ! (4 * t + 3)]"
    using assms by (intro take4_drop) simp
  finally show ?thesis
    by (simp only: fips_block_word_def word_of_four_bytes sha1_load_word_def mult.commute [of t 4])
qed

lemma fips_W_cong: "(\<And>t. t < 16 \<Longrightarrow> M t = M' t) \<Longrightarrow> fips_W M n = fips_W M' n"
proof (induction n rule: less_induct)
  case (less n)
  show ?case
  proof (cases "n < 16")
    case True
    with less.prems show ?thesis by (simp add: fips_W.simps)
  next
    case False
    with less.IH less.prems show ?thesis
      by (simp add: fips_W.simps [of M n] fips_W.simps [of M' n])
  qed
qed

lemma fips_compress_cong:
  assumes "\<And>t. t < 16 \<Longrightarrow> M t = M' t"
  shows "fips_compress M h = fips_compress M' h"
proof -
  have w: "fips_W M = fips_W M'" using fips_W_cong [of M M'] assms by blast
  have step: "fips_step M t r = fips_step M' t r" for t r by (cases r) (simp add: w)
  have "fips_steps M n h = fips_steps M' n h" for n by (induction n) (simp_all add: step)
  then show ?thesis by (simp add: fips_compress_def)
qed

lemma sha1_blocks_fips: "sha1_blocks h bs = fips_blocks h (bits_of_bytes bs)"
proof (induction h bs rule: sha1_blocks.induct)
  case (1 h bs)
  show ?case
  proof (cases "length bs < 64")
    case True
    then show ?thesis by (simp add: fips_blocks.simps)
  next
    case False
    have t: "take 512 (bits_of_bytes bs) = bits_of_bytes (take 64 bs)"
      and d: "drop 512 (bits_of_bytes bs) = bits_of_bytes (drop 64 bs)"
      using take_bits_of_bytes [of 64 bs] drop_bits_of_bytes [of 64 bs] by simp_all
    have "fips_compress (fips_block_word (bits_of_bytes (take 64 bs))) h
        = fips_compress (block_words (take 64 bs)) h"
      using False by (intro fips_compress_cong fips_block_word_bytes) simp_all
    with "1.IH" False t d show ?thesis
      by (simp add: sha1_blocks.simps [of h bs] fips_blocks.simps [of h "bits_of_bytes bs"])
  qed
qed


lemma bits_of_word_u8:
  "bits_of_word (w :: u8) = [bit w 7, bit w 6, bit w 5, bit w 4, bit w 3, bit w 2, bit w 1, bit w 0]"
  by (simp add: bits_of_word_def upt_rec numeral_eq_Suc)

lemma of_nat_two_words:
  "(of_nat (unat (hi :: u32) * 2 ^ 32 + unat (lo :: u32)) :: u64) = push_bit 32 (ucast hi) OR ucast lo"
proof -
  have "push_bit 32 (ucast hi) AND (ucast lo :: u64) = 0"
    by (rule bit_word_eqI) (auto simp: bit_and_iff bit_push_bit_iff bit_ucast_iff dest: bit_imp_le_length)
  then have "push_bit 32 (ucast hi) OR (ucast lo :: u64) = push_bit 32 (ucast hi) + ucast lo"
    by (simp add: disjunctive_add_eq_or)
  then show ?thesis
    by (simp add: push_bit_eq_mult mult.commute)
qed

lemma bit_two_words:
  "n < 64 \<Longrightarrow> bit (push_bit 32 (ucast (hi :: u32)) OR ucast (lo :: u32) :: u64) n \<longleftrightarrow>
     (if n < 32 then bit lo n else bit hi (n - 32))"
  by (auto simp: bit_or_iff bit_push_bit_iff bit_ucast_iff dest: bit_imp_le_length)

lemma nth_bits_of_bytes:
  "i < 8 * length bs \<Longrightarrow> bits_of_bytes bs ! i = bit (bs ! (i div 8)) (7 - i mod 8)"
proof (induction bs arbitrary: i)
  case (Cons b bs)
  show ?case
  proof (cases "i < 8")
    case True
    then show ?thesis by (simp add: nth_append nth_bits_of_word)
  next
    case False
    then have "bits_of_bytes bs ! (i - 8) = bit (bs ! ((i - 8) div 8)) (7 - (i - 8) mod 8)"
      using Cons.prems by (intro Cons.IH) simp
    with False show ?thesis by (simp add: nth_append nth_Cons' le_div_geq le_mod_geq)
  qed
qed simp

lemma sha1_len_bytes_nth:
  "j < 8 \<Longrightarrow> k < 8 \<Longrightarrow> bit (sha1_len_bytes hi lo ! j) k \<longleftrightarrow>
     (if j < 4 then bit hi (8 * (3 - j) + k) else bit lo (8 * (7 - j) + k))"
proof -
  assume "j < 8" and k: "k < 8"
  then consider "j = 0" | "j = 1" | "j = 2" | "j = 3" | "j = 4" | "j = 5" | "j = 6" | "j = 7"
    by linarith
  then show ?thesis
    by cases (simp_all add: sha1_len_bytes_def k bit_ucast_iff bit_drop_bit_eq)
qed

lemma bits_of_len_bytes:
  "bits_of_bytes (sha1_len_bytes hi lo) = bits_of_word (of_nat (unat hi * 2 ^ 32 + unat lo) :: u64)"
proof (rule nth_equalityI)
  fix i assume "i < length (bits_of_bytes (sha1_len_bytes hi lo))"
  then have i: "i < 64" by simp
  then have j: "i div 8 < 8" by simp
  have split: "i = 8 * (i div 8) + i mod 8" "i mod 8 < 8" by simp_all
  then have pos: "63 - i = 8 * (7 - i div 8) + (7 - i mod 8)" using j by linarith
  have "bits_of_bytes (sha1_len_bytes hi lo) ! i = bit (sha1_len_bytes hi lo ! (i div 8)) (7 - i mod 8)"
    using i by (intro nth_bits_of_bytes) simp
  also have "\<dots> = (if 63 - i < 32 then bit lo (63 - i) else bit hi (63 - i - 32))"
  proof (cases "i div 8 < 4")
    case True
    then have "8 * (3 - i div 8) + (7 - i mod 8) = 63 - i - 32" "\<not> 63 - i < 32" using split by linarith+
    then show ?thesis using True j by (simp add: sha1_len_bytes_nth)
  next
    case False
    then have "63 - i < 32" using split by linarith
    then show ?thesis using False sha1_len_bytes_nth [OF j, of "7 - i mod 8" hi lo] by (simp add: pos)
  qed
  also have "\<dots> = bits_of_word (of_nat (unat hi * 2 ^ 32 + unat lo) :: u64) ! i"
    using i by (simp only: of_nat_two_words) (simp add: nth_bits_of_word bit_two_words del: of_nat_add of_nat_mult)
  finally show "bits_of_bytes (sha1_len_bytes hi lo) ! i = \<dots>" .
qed simp

lemma pad_zero_count:
  fixes n k :: nat
  assumes "k < 8"
  shows "7 - k + 8 * ((119 - n mod 64) mod 64) = (959 - (8 * n + k) mod 512) mod 512"
proof -
  define q r where "q = n div 64" and "r = n mod 64"
  have n: "n = 64 * q + r" and r: "r < 64" by (simp_all add: q_def r_def)
  have e: "8 * n + k = 512 * q + (8 * r + k)" by (simp add: n)
  have m: "(8 * n + k) mod 512 = 8 * r + k"
    unfolding e mod_mult_self4 using r assms by simp
  show ?thesis
  proof (cases "r < 56")
    case True
    then have "(119 - r) mod 64 = 55 - r" by (simp add: mod_if)
    moreover have "(959 - (8 * r + k)) mod 512 = 447 - (8 * r + k)" using True assms by (simp add: mod_if)
    ultimately show ?thesis unfolding m r_def [symmetric] using True assms by simp
  next
    case False
    then have "(119 - r) mod 64 = 119 - r" using r by simp
    moreover have "(959 - (8 * r + k)) mod 512 = 959 - (8 * r + k)" using False assms by simp
    ultimately show ?thesis unfolding m r_def [symmetric] using False r assms by simp
  qed
qed

lemma fips_pad_bytes:
  assumes fb: "length fb < 8" and p: "bits_of_word p = fb @ True # replicate (7 - length fb) False"
    and len: "unat hi * 2 ^ 32 + unat lo = 8 * length m + length fb"
  shows "bits_of_bytes (m @ sha1_pad_tail (length m mod 64) p hi lo) = fips_pad (bits_of_bytes m @ fb)"
proof -
  have "bits_of_bytes (sha1_pad_tail (length m mod 64) p hi lo) =
      fb @ [True] @ replicate (7 - length fb + 8 * ((119 - length m mod 64) mod 64)) False
        @ bits_of_word (of_nat (8 * length m + length fb) :: u64)"
    by (simp add: sha1_pad_tail_def p bits_of_bytes_zeros bits_of_len_bytes replicate_add
        flip: len)
  then show ?thesis
    by (simp only: bits_of_bytes_append pad_zero_count [OF fb] fips_pad_def length_append
        length_bits_of_bytes append_assoc)
qed

lemma digest_bytes_fips: "bits_of_bytes (sha1_digest_bytes (regs_list h)) = fips_digest h"
proof -
  have w: "bits_of_word (x :: u32) =
      bits_of_bytes [ucast (drop_bit 24 x), ucast (drop_bit 16 x), ucast (drop_bit 8 x), ucast x]" for x
  proof (rule nth_equalityI)
    fix i assume "i < length (bits_of_word x)"
    then have i: "i < 32" by simp
    let ?bs = "[ucast (drop_bit 24 x), ucast (drop_bit 16 x), ucast (drop_bit 8 x), ucast x] :: u8 list"
    have "i div 8 < 4" using i by simp
    then consider "i div 8 = 0" | "i div 8 = 1" | "i div 8 = 2" | "i div 8 = 3" by linarith
    then have "?bs ! (i div 8) = ucast (drop_bit (8 * (3 - i div 8)) x)"
      by cases simp_all
    moreover have "8 * (3 - i div 8) + (7 - i mod 8) = 31 - i"
    proof -
      have "i = 8 * (i div 8) + i mod 8" "i mod 8 < 8" "i div 8 < 4" using i by simp_all
      then show ?thesis by linarith
    qed
    moreover have "7 - i mod 8 < 8" by simp
    ultimately show "bits_of_word x ! i = bits_of_bytes ?bs ! i"
      using i by (simp add: nth_bits_of_word nth_bits_of_bytes bit_ucast_iff bit_drop_bit_eq
          del: bits_of_bytes_Cons)
  qed simp
  obtain a b c d e where h: "h = (a, b, c, d, e)" by (cases h) auto
  have "sha1_digest_bytes (regs_list h) = concat (map (\<lambda>x.
      [ucast (drop_bit 24 x), ucast (drop_bit 16 x), ucast (drop_bit 8 x), ucast x]) [a, b, c, d, e])"
    by (simp add: h regs_list_def sha1_digest_bytes_def sha_sizes upt_rec)
  then show ?thesis by (simp add: h w)
qed


subsection \<open>Finalizing\<close>

lemma SHA1Finalize_fips:
  assumes "Intermediate_Hash c = regs_list (sha1_blocks fips_H0 m)"
    and "length (Message_Block c) = 64" and "Message_Block_Index c = length m mod 64"
    and "take (length m mod 64) (Message_Block c) = rest_part m"
    and "length fb < 8" and "bits_of_word p = fb @ True # replicate (7 - length fb) False"
    and "unat (Length_High c) * 2 ^ 32 + unat (Length_Low c) = 8 * length m + length fb"
  shows "\<exists>c'. SHA1Finalize c p = Some c' \<and> Computed c' = 1 \<and> Corrupted c' = Corrupted c
           \<and> length (Message_Block c') = 64
           \<and> bits_of_bytes (sha1_digest_bytes (Intermediate_Hash c')) = fips_sha1 (bits_of_bytes m @ fb)"
proof -
  obtain c1 where c1: "SHA1PadMessage c p = Some c1" "Corrupted c1 = Corrupted c"
    "Intermediate_Hash c1 = regs_list (sha1_blocks (sha1_blocks fips_H0 m)
         (rest_part m @ sha1_pad_tail (length m mod 64) p (Length_High c) (Length_Low c)))"
    using SHA1PadMessage_eq [of c "sha1_blocks fips_H0 m" p] assms(1-4) by auto
  then have "Intermediate_Hash c1 = regs_list (fips_blocks fips_H0 (fips_pad (bits_of_bytes m @ fb)))"
    by (simp only: sha1_blocks_rest [symmetric]) (simp only: sha1_blocks_fips fips_pad_bytes [OF assms(5-7)])
  with c1(1,2) show ?thesis
    by (simp add: SHA1Finalize_def digest_bytes_fips fips_sha1_def sha_sizes)
qed

lemma bits_0x80: "bits_of_word (0x80 :: u8) = [] @ True # replicate (7 - length ([] :: bool list)) False"
  by (simp add: bits_of_word_u8 numeral_eq_Suc)

lemma length_sha1_digest_bytes [simp]: "length (sha1_digest_bytes h) = 20"
  by (simp add: sha1_digest_bytes_def sha_sizes)

lemma SHA1Result_repr:
  assumes "sha1_repr c m"
  shows "\<exists>c' d. SHA1Result (Some c) True = Some (shaSuccess, Some c', Some d) \<and> length d = 20
           \<and> Computed c' = 1 \<and> Corrupted c' = shaSuccess \<and> length (Message_Block c') = 64
           \<and> d = sha1_digest_bytes (Intermediate_Hash c')
           \<and> bits_of_bytes d = fips_sha1 (bits_of_bytes m)"
proof -
  obtain c' where "SHA1Finalize c 0x80 = Some c'" "Computed c' = 1" "Corrupted c' = Corrupted c"
    "length (Message_Block c') = 64"
    "bits_of_bytes (sha1_digest_bytes (Intermediate_Hash c')) = fips_sha1 (bits_of_bytes m @ [])"
    using SHA1Finalize_fips [of c m "[]" "0x80"] assms bits_0x80 by (auto simp: sha1_repr_def)
  with assms show ?thesis
    by (simp add: SHA1Result_def sha1_repr_def sha_codes)
qed

lemma SHA1Input_repr:
  assumes "sha1_repr c m" and "length m + length bs < 2 ^ 61" and "length bs < 2 ^ 32"
  shows "\<exists>c'. SHA1Input (Some c) (Some bs) (of_nat (length bs)) = Some (shaSuccess, Some c')
           \<and> sha1_repr c' (m @ bs)"
proof -
  have u: "unat (of_nat (length bs) :: u32) = length bs"
    using assms(3) by (simp add: unat_of_nat)
  then have z: "(of_nat (length bs) :: u32) = 0 \<longleftrightarrow> bs = []"
    by (metis length_0_conv unat_eq_zero)
  obtain c' where "sha1_input_loop bs c = Some c'" "sha1_repr c' (m @ bs)"
    using sha1_input_loop_repr [OF assms(1,2)] by blast
  with assms(1) u z show ?thesis
    by (auto simp: SHA1Input_def sha1_repr_def sha_codes)
qed

lemma SHA1Reset_repr:
  "length (Message_Block c) = 64 \<Longrightarrow>
   \<exists>c'. SHA1Reset (Some c) = (shaSuccess, Some c') \<and> sha1_repr c' []"
  by (simp add: SHA1Reset_def sha1_repr_def fips_H0_def regs_list_def rest_part_def)

section \<open>Streaming digests\<close>

text \<open>
  What a client of a streaming digest relies on: a context stands for the bytes it has absorbed,
  absorbing appends, finishing returns the digest of what was absorbed. The lemma proved here once
  is that cutting a message into pieces does not matter.
\<close>

locale stream_digest =
  fixes repr :: "'c \<Rightarrow> u8 list \<Rightarrow> bool"
    and absorb :: "u8 list \<Rightarrow> 'c \<Rightarrow> 'c option"
    and finish :: "'c \<Rightarrow> u8 list option"
    and digest_of :: "u8 list \<Rightarrow> u8 list \<Rightarrow> bool"
    and chunk_limit :: nat
    and total_limit :: nat
  assumes absorb_repr: "repr c m \<Longrightarrow> length bs < chunk_limit \<Longrightarrow> length m + length bs < total_limit
      \<Longrightarrow> \<exists>c'. absorb bs c = Some c' \<and> repr c' (m @ bs)"
    and finish_repr: "repr c m \<Longrightarrow> \<exists>d. finish c = Some d \<and> digest_of m d"
begin

primrec absorb_all :: "u8 list list \<Rightarrow> 'c \<Rightarrow> 'c option" where
  "absorb_all [] c = Some c"
| "absorb_all (bs # bss) c = Option.bind (absorb bs c) (absorb_all bss)"

lemma absorb_all_repr:
  "repr c m \<Longrightarrow> \<forall>bs \<in> set bss. length bs < chunk_limit \<Longrightarrow> length m + length (concat bss) < total_limit
   \<Longrightarrow> \<exists>c'. absorb_all bss c = Some c' \<and> repr c' (m @ concat bss)"
proof (induction bss arbitrary: c m)
  case Nil
  then show ?case by simp
next
  case (Cons bs bss)
  from Cons.prems obtain c1 where c1: "absorb bs c = Some c1" "repr c1 (m @ bs)"
    using absorb_repr [of c m bs] by auto
  with Cons.IH [OF c1(2)] Cons.prems show ?case by auto
qed

lemma absorb_all_finish:
  assumes "repr c []" and "\<forall>bs \<in> set bss. length bs < chunk_limit" and "length (concat bss) < total_limit"
  shows "\<exists>c' d. absorb_all bss c = Some c' \<and> finish c' = Some d \<and> digest_of (concat bss) d"
  using absorb_all_repr [OF assms(1,2)] assms(3) finish_repr by fastforce

end

definition sha1_absorb :: "u8 list \<Rightarrow> SHA1Context \<Rightarrow> SHA1Context option" where
  "sha1_absorb bs c =
     (case SHA1Input (Some c) (Some bs) (of_nat (length bs)) of
        Some (rc, Some c') \<Rightarrow> if rc = shaSuccess then Some c' else None
      | _ \<Rightarrow> None)"

definition sha1_finish :: "SHA1Context \<Rightarrow> u8 list option" where
  "sha1_finish c =
     (case SHA1Result (Some c) True of
        Some (rc, _, d) \<Rightarrow> if rc = shaSuccess then d else None
      | None \<Rightarrow> None)"

definition is_sha1_digest :: "u8 list \<Rightarrow> u8 list \<Rightarrow> bool" where
  "is_sha1_digest m d \<longleftrightarrow> length d = 20 \<and> bits_of_bytes d = fips_sha1 (bits_of_bytes m)"

interpretation sha1: stream_digest sha1_repr sha1_absorb sha1_finish is_sha1_digest "2 ^ 32" "2 ^ 61"
proof
  show "\<exists>c'. sha1_absorb bs c = Some c' \<and> sha1_repr c' (m @ bs)"
    if "sha1_repr c m" "length bs < 2 ^ 32" "length m + length bs < 2 ^ 61" for c m bs
    using SHA1Input_repr [OF that(1,3,2)] by (auto simp: sha1_absorb_def)
  show "\<exists>d. sha1_finish c = Some d \<and> is_sha1_digest m d" if "sha1_repr c m" for c m
    using SHA1Result_repr [OF that] by (auto simp: sha1_finish_def is_sha1_digest_def)
qed


text \<open>Feeding a message in pieces, one \<^verbatim>\<open>SHA1Input\<close> call each.\<close>

fun sha1_inputs :: "u8 list list \<Rightarrow> SHA1Context \<Rightarrow> SHA1Context option" where
  "sha1_inputs [] c = Some c"
| "sha1_inputs (bs # bss) c = do { c \<leftarrow> sha1_absorb bs c; sha1_inputs bss c }"

lemma sha1_inputs_eq: "sha1_inputs bss = sha1.absorb_all bss"
  by (induction bss) (rule ext, simp)+

lemma sha1_inputs_repr:
  assumes "length (Message_Block c0) = 64" and "\<forall>bs \<in> set bss. length bs < 2 ^ 32"
    and "length (concat bss) < 2 ^ 61"
  shows "\<exists>c. Option.bind (snd (SHA1Reset (Some c0))) (sha1_inputs bss) = Some c
           \<and> sha1_repr c (concat bss)"
proof -
  obtain c1 where "SHA1Reset (Some c0) = (shaSuccess, Some c1)" "sha1_repr c1 []"
    using SHA1Reset_repr [OF assms(1)] by blast
  with sha1.absorb_all_repr [of c1 "[]" bss] assms(2,3) show ?thesis
    by (simp add: sha1_inputs_eq)
qed

section \<open>Properties\<close>

text \<open>C5: Whatever the pieces in which a message of fewer than \<open>2 ^ 61\<close> bytes is fed to
  \<^verbatim>\<open>SHA1Input\<close> after \<^verbatim>\<open>SHA1Reset\<close>, every call succeeds without undefined behaviour and
  \<^verbatim>\<open>SHA1Result\<close> returns the twenty bytes of the standard's digest of the whole message.\<close>

theorem sha1_computes_standard:
  assumes "length (Message_Block c0) = 64" and "\<forall>bs \<in> set bss. length bs < 2 ^ 32"
    and "length (concat bss) < 2 ^ 61"
  shows "\<exists>c d. Option.bind (snd (SHA1Reset (Some c0))) (sha1_inputs bss) = Some c
           \<and> sha1_finish c = Some d \<and> length d = 20
           \<and> bits_of_bytes d = fips_sha1 (bits_of_bytes (concat bss))"
proof -
  obtain c where "Option.bind (snd (SHA1Reset (Some c0))) (sha1_inputs bss) = Some c"
    and "sha1_repr c (concat bss)"
    using sha1_inputs_repr [OF assms] by blast
  with sha1.finish_repr [of c] show ?thesis by (auto simp: is_sha1_digest_def)
qed

definition sha1_blank :: SHA1Context where
  "sha1_blank = \<lparr>Intermediate_Hash = [], Length_High = 0, Length_Low = 0, Message_Block_Index = 0,
     Message_Block = replicate 64 0, Computed = 0, Corrupted = 0\<rparr>"

theorem sha1_computes_standard_witness:
  "\<exists>c d. Option.bind (snd (SHA1Reset (Some sha1_blank))) (sha1_inputs [[97], [98, 99]]) = Some c
     \<and> sha1_finish c = Some d \<and> length d = 20
     \<and> bits_of_bytes d = fips_sha1 (bits_of_bytes [97, 98, 99])"
  using sha1_computes_standard [of sha1_blank "[[97], [98, 99]]"] by (simp add: sha1_blank_def)

lemma final_byte_bits:
  assumes "0 < n" and "n < 8"
  shows "bits_of_word ((b AND sha1_masks ! n) OR sha1_markbit ! n) =
           take n (bits_of_word b) @ True # replicate (7 - n) False"
proof -
  from assms consider "n = 1" | "n = 2" | "n = 3" | "n = 4" | "n = 5" | "n = 6" | "n = 7" by linarith
  then show ?thesis
    by cases (simp_all add: bits_of_word_u8 sha1_masks_def sha1_markbit_def bit_and_iff bit_or_iff
        numeral_eq_Suc)
qed

text \<open>C20: A message whose length is not a multiple of eight bits: after the whole bytes,
  \<^verbatim>\<open>SHA1FinalBits\<close> with 1 to 7 bits in the upper part of a byte succeeds, and the following
  \<^verbatim>\<open>SHA1Result\<close> returns the standard's digest of the bytes followed by those bits.\<close>

theorem sha1_final_bits_standard:
  assumes "length (Message_Block c0) = 64" and "\<forall>bs \<in> set bss. length bs < 2 ^ 32"
    and "length (concat bss) < 2 ^ 61" and "0 < n" and "n < 8"
  shows "\<exists>c c' d. Option.bind (snd (SHA1Reset (Some c0))) (sha1_inputs bss) = Some c
           \<and> SHA1FinalBits (Some c) b (of_nat n) = Some (shaSuccess, Some c')
           \<and> sha1_finish c' = Some d
           \<and> bits_of_bytes d = fips_sha1 (bits_of_bytes (concat bss) @ take n (bits_of_word b))"
proof -
  let ?m = "concat bss" and ?fb = "take n (bits_of_word b)"
  obtain c where c: "Option.bind (snd (SHA1Reset (Some c0))) (sha1_inputs bss) = Some c"
    and r: "sha1_repr c ?m"
    using sha1_inputs_repr [OF assms(1-3)] by blast
  have n: "unat (of_nat n :: u32) = n" and n0: "(of_nat n :: u32) \<noteq> 0" and n8: "(of_nat n :: u32) < 8"
    using assms(4,5) by (simp_all add: unat_of_nat word_less_nat_alt unat_eq_zero [symmetric])
  have "unat (Length_High c) * 2 ^ 32 + unat (Length_Low c) + unat (of_nat n :: u32) < 2 ^ 64"
    using r assms(3,5) n by (simp add: sha1_repr_def)
  from SHA1AddLength_ok [OF this] obtain hi lo where
    add: "SHA1AddLength c (of_nat n) = c\<lparr>Length_High := hi, Length_Low := lo\<rparr>"
    and sum: "unat hi * 2 ^ 32 + unat lo = 8 * length ?m + n"
    using r n by (auto simp: sha1_repr_def)
  have len: "length ?fb = n" using assms(5) by simp
  obtain c' where c': "SHA1Finalize (SHA1AddLength c (of_nat n))
       ((b AND sha1_masks ! n) OR sha1_markbit ! n) = Some c'"
    "Computed c' = 1" "Corrupted c' = shaSuccess"
    "bits_of_bytes (sha1_digest_bytes (Intermediate_Hash c')) = fips_sha1 (bits_of_bytes ?m @ ?fb)"
    using SHA1Finalize_fips [of "c\<lparr>Length_High := hi, Length_Low := lo\<rparr>" ?m ?fb
        "(b AND sha1_masks ! n) OR sha1_markbit ! n"] r sum add len assms(4,5) final_byte_bits
    by (auto simp: sha1_repr_def)
  then have "SHA1FinalBits (Some c) b (of_nat n) = Some (shaSuccess, Some c')"
    using r n n0 n8 by (simp add: SHA1FinalBits_def sha1_repr_def sha_codes not_le)
  moreover have "sha1_finish c' = Some (sha1_digest_bytes (Intermediate_Hash c'))"
    using c' by (simp add: sha1_finish_def SHA1Result_def sha_codes)
  ultimately show ?thesis using c c'(4) by auto
qed

theorem sha1_final_bits_standard_witness:
  "\<exists>c c' d. Option.bind (snd (SHA1Reset (Some sha1_blank))) (sha1_inputs [[97]]) = Some c
     \<and> SHA1FinalBits (Some c) 0xA0 (of_nat 3) = Some (shaSuccess, Some c')
     \<and> sha1_finish c' = Some d
     \<and> bits_of_bytes d = fips_sha1 (bits_of_bytes [97] @ [True, False, True])"
  using sha1_final_bits_standard [of sha1_blank "[[97]]" 3 "0xA0"]
  by (simp add: sha1_blank_def bits_of_word_u8)


lemma sha1_store_Corrupted: "sha1_store b c = Some c' \<Longrightarrow> Corrupted c' = Corrupted c"
  by (auto simp: sha1_store_def split: if_splits)

lemma sha1_zero_to_Corrupted: "sha1_zero_to l c = Some c' \<Longrightarrow> Corrupted c' = Corrupted c"
proof (induction l c rule: sha1_zero_to.induct)
  case (1 l c)
  then show ?case
    by (subst (asm) (2) sha1_zero_to.simps)
       (auto split: if_splits option.splits dest: sha1_store_Corrupted)
qed

lemma SHA1ProcessMessageBlock_Corrupted: "Corrupted (SHA1ProcessMessageBlock c) = Corrupted c"
  by (simp add: SHA1ProcessMessageBlock_def Let_def split: prod.splits)

lemma SHA1PadMessage_Corrupted: "SHA1PadMessage c p = Some c' \<Longrightarrow> Corrupted c' = Corrupted c"
  by (auto simp: SHA1PadMessage_def SHA1ProcessMessageBlock_Corrupted sha1_store_length_def
      dest!: sha1_store_Corrupted sha1_zero_to_Corrupted
      split: if_splits Option.bind_splits)

text \<open>Using a context after its digest was taken. A second \<^verbatim>\<open>SHA1Result\<close> returns the same
  digest and leaves the context alone; a non-empty \<^verbatim>\<open>SHA1Input\<close> is refused with
  \<^verbatim>\<open>shaStateError\<close>, and from then on \<^verbatim>\<open>SHA1Input\<close>, \<^verbatim>\<open>SHA1FinalBits\<close> and \<^verbatim>\<open>SHA1Result\<close> all
  report that error without touching the context, until \<^verbatim>\<open>SHA1Reset\<close> makes it usable again.\<close>

theorem sha1_use_after_result:
  assumes "SHA1Result (Some c) True = Some (shaSuccess, Some c1, Some d)" and "len \<noteq> 0" and "n \<noteq> 0"
    and "length (Message_Block c) = 64"
  shows "SHA1Result (Some c1) True = Some (shaSuccess, Some c1, Some d)
     \<and> (\<exists>c2. SHA1Input (Some c1) (Some bytes) len = Some (shaStateError, Some c2)
          \<and> SHA1Input (Some c2) (Some bytes') len = Some (shaStateError, Some c2)
          \<and> SHA1FinalBits (Some c2) b n = Some (shaStateError, Some c2)
          \<and> SHA1Result (Some c2) True = Some (shaStateError, Some c2, None)
          \<and> (\<exists>c3. SHA1Reset (Some c2) = (shaSuccess, Some c3) \<and> sha1_repr c3 []))"
proof -
  have ok: "Corrupted c = 0"
    using assms(1) by (auto simp: SHA1Result_def sha_codes split: if_splits)
  have c1: "Computed c1 \<noteq> 0 \<and> Corrupted c1 = 0 \<and> d = sha1_digest_bytes (Intermediate_Hash c1)
      \<and> length (Message_Block c1) = 64"
  proof (cases "Computed c = 0")
    case False
    with assms(1,4) ok show ?thesis by (auto simp: SHA1Result_def sha_codes)
  next
    case True
    with assms(1) ok have fin: "SHA1Finalize c 0x80 = Some c1"
      and d: "d = sha1_digest_bytes (Intermediate_Hash c1)"
      by (auto simp: SHA1Result_def sha_codes split: Option.bind_splits)
    from fin obtain p where "SHA1PadMessage c 0x80 = Some p"
      and c1: "c1 = p\<lparr>Message_Block := replicate 64 0, Length_High := 0, Length_Low := 0, Computed := 1\<rparr>"
      by (auto simp: SHA1Finalize_def sha_sizes split: Option.bind_splits)
    moreover have "Corrupted p = Corrupted c"
      using \<open>SHA1PadMessage c 0x80 = Some p\<close> by (rule SHA1PadMessage_Corrupted)
    ultimately show ?thesis using d ok by simp
  qed
  let ?c2 = "c1\<lparr>Corrupted := shaStateError\<rparr>"
  have "\<exists>c3. SHA1Reset (Some ?c2) = (shaSuccess, Some c3) \<and> sha1_repr c3 []"
    using SHA1Reset_repr [of ?c2] c1 by simp
  then show ?thesis
    using c1 assms(2,3)
    by (auto simp: SHA1Result_def SHA1Input_def SHA1FinalBits_def sha_codes)
qed


theorem sha1_use_after_result_witness:
  "\<exists>c1 d. SHA1Result (Some (sha1_blank\<lparr>Computed := 1\<rparr>)) True = Some (shaSuccess, Some c1, Some d)
     \<and> SHA1Result (Some c1) True = Some (shaSuccess, Some c1, Some d)
     \<and> (\<exists>c2. SHA1Input (Some c1) (Some [97]) 1 = Some (shaStateError, Some c2)
          \<and> SHA1Input (Some c2) (Some [98]) 1 = Some (shaStateError, Some c2)
          \<and> SHA1FinalBits (Some c2) 0 3 = Some (shaStateError, Some c2)
          \<and> SHA1Result (Some c2) True = Some (shaStateError, Some c2, None)
          \<and> (\<exists>c3. SHA1Reset (Some c2) = (shaSuccess, Some c3) \<and> sha1_repr c3 []))"
proof -
  let ?c = "sha1_blank\<lparr>Computed := 1\<rparr>"
  have r: "SHA1Result (Some ?c) True = Some (shaSuccess, Some ?c, Some (sha1_digest_bytes (Intermediate_Hash ?c)))"
    by (simp add: SHA1Result_def sha1_blank_def sha_codes)
  show ?thesis
    using r sha1_use_after_result [OF r, of 1 3 "[97]" "[98]" 0] by (auto simp: sha1_blank_def)
qed

lemma sha1_overflow_byte:
  assumes r: "sha1_repr c m" and len: "Suc (length m) = 2 ^ 61"
  shows "\<exists>c'. sha1_input_byte b c = Some c' \<and> Corrupted c' = shaInputTooLong \<and> Message_Block_Index c' = 64"
proof -
  have idx: "Message_Block_Index c = 63"
  proof -
    have "length m = 63 + 64 * (2 ^ 55 - 1)" using len by simp
    then have "length m mod 64 = 63" by (simp only: mod_mult_self2) simp
    with r show ?thesis by (simp add: sha1_repr_def)
  qed
  have sum: "unat (Length_High c) * 2 ^ 32 + unat (Length_Low c) = 2 ^ 64 - 8"
    using r len by (simp add: sha1_repr_def)
  then have "unat (Length_Low c) = (2 ^ 64 - 8) mod 2 ^ 32" "unat (Length_High c) = (2 ^ 64 - 8) div 2 ^ 32"
    using unat_u32_less [of "Length_Low c"] by (metis mod_less mod_mult_self3, metis add.commute div_less
        div_mult_self1 add_0 numeral_power_eq_nat_cancel_iff zero_neq_numeral power_not_zero)
  then have lo: "unat (Length_Low c) = 2 ^ 32 - 8" and hi: "unat (Length_High c) = 2 ^ 32 - 1"
    by simp_all
  have "Length_Low c + 8 = 0" and "Length_High c + 1 = 0"
    using lo hi by (simp_all add: word_unat_eq_iff unat_word_ariths)
  moreover have "Length_Low c \<noteq> 0" using lo by auto
  ultimately have "Corrupted (SHA1AddLength (c\<lparr>Message_Block := x, Message_Block_Index := 64\<rparr>) 8) = shaInputTooLong
      \<and> Message_Block_Index (SHA1AddLength (c\<lparr>Message_Block := x, Message_Block_Index := 64\<rparr>) 8) = 64" for x
    by (simp add: SHA1AddLength_def word_gt_0)
  then show ?thesis
    using idx by (simp add: sha1_input_byte_def sha1_store_def sha_sizes sha_codes Let_def)
qed

text \<open>C21: The other side of the length limit. After \<open>2 ^ 61 - 1\<close> bytes the next byte
  overflows the 64-bit length counter: \<^verbatim>\<open>SHA1AddLength\<close> records \<^verbatim>\<open>shaInputTooLong\<close> but leaves the
  full block buffer unprocessed and the loop of \<^verbatim>\<open>SHA1Input\<close> does not stop, so a call with two or
  more bytes stores past the end of \<^verbatim>\<open>Message_Block\<close>, which is undefined.\<close>

theorem sha1_length_overflow_overruns:
  assumes "length (Message_Block c0) = 64" and "\<forall>bs \<in> set bss. length bs < 2 ^ 32"
    and "Suc (length (concat bss)) = 2 ^ 61" and "2 \<le> length bs" and "length bs < 2 ^ 32"
  shows "\<exists>c. Option.bind (snd (SHA1Reset (Some c0))) (sha1_inputs bss) = Some c
           \<and> SHA1Input (Some c) (Some bs) (of_nat (length bs)) = None"
proof -
  obtain c where c: "Option.bind (snd (SHA1Reset (Some c0))) (sha1_inputs bss) = Some c"
    and r: "sha1_repr c (concat bss)"
    using sha1_inputs_repr [OF assms(1,2)] assms(3) by auto
  obtain x y zs where bs: "bs = x # y # zs"
    using assms(4) by (cases bs; cases "tl bs") auto
  obtain c' where c': "sha1_input_byte x c = Some c'" "Message_Block_Index c' = 64"
    using sha1_overflow_byte [OF r assms(3)] by blast
  have "sha1_input_loop bs c = None"
    using bs c' by (simp add: sha1_input_byte_def [of y] sha1_store_def sha_sizes)
  moreover have u: "unat (of_nat (length bs) :: u32) = length bs"
    using assms(5) by (simp add: unat_of_nat)
  moreover have "(of_nat (length bs) :: u32) \<noteq> 0"
    using u assms(4) unat_eq_zero by (metis not_numeral_le_zero)
  ultimately have "SHA1Input (Some c) (Some bs) (of_nat (length bs)) = None"
    using r by (simp add: SHA1Input_def sha1_repr_def sha_codes)
  with c show ?thesis by blast
qed

theorem sha1_length_overflow_overruns_witness:
  "\<exists>c. Option.bind (snd (SHA1Reset (Some sha1_blank)))
         (sha1_inputs (replicate (2 ^ 30 - 1) (replicate (2 ^ 31) 0) @ [replicate (2 ^ 31 - 1) 0])) = Some c
       \<and> SHA1Input (Some c) (Some [0, 0]) 2 = None"
  using sha1_length_overflow_overruns [of sha1_blank
      "replicate (2 ^ 30 - 1) (replicate (2 ^ 31) 0) @ [replicate (2 ^ 31 - 1) 0]" "[0, 0]"]
  by (simp add: sha1_blank_def length_concat sum_list_replicate)

text \<open>The two versions of the selection and majority functions, of which the build chooses one, are the same functions.\<close>

theorem sha_macros_equivalent:
  "SHA_Ch_modified x y z = SHA_Ch x y z \<and> SHA_Maj_modified x y z = SHA_Maj x y z"
  by (simp add: SHA_Ch_modified_eq SHA_Maj_modified_eq)

end
