(* ===== verification/Utf8.thy ===== *)
theory Utf8
  imports Prelude
begin

text \<open>
  \<^verbatim>\<open>osi_string_to_utf8\<close> of \<^verbatim>\<open>osi.c\<close>, which every path from a Scheme string to C goes through: a first
  pass that adds up the encoded length in a \<^verbatim>\<open>size_t\<close>, one allocation, and a second pass that stores
  the bytes through a moving pointer. A freshly allocated buffer is uninitialised
  (\<^const>\<open>None\<close> cells) and a store outside it is undefined. The reference is the encoding form
  itself and a strict decoder for it.
\<close>

section \<open>The code\<close>

text \<open>A Scheme string is its list of \<^verbatim>\<open>string_char\<close> values.\<close>

type_synonym scheme_string = "u32 list"

fun utf8_length_loop :: "scheme_string \<Rightarrow> u64 \<Rightarrow> u64" where
  "utf8_length_loop [] len = len"
| "utf8_length_loop (c # s) len =
     utf8_length_loop s
       (if c < 0x80 then len + 1
        else if c < 0x800 then len + 2
        else if c < 0x10000 then len + 3
        else len + 4)"

text \<open>The bytes one iteration of the second loop stores, in order.\<close>

definition utf8_bytes :: "u32 \<Rightarrow> u8 list" where
  "utf8_bytes c =
     (if c < 0x80 then [ucast c]
      else if c < 0x800 then
        [ucast (drop_bit 6 c OR 0xC0), ucast ((c AND 0x3F) OR 0x80)]
      else if c < 0x10000 then
        [ucast (drop_bit 12 c OR 0xE0), ucast ((drop_bit 6 c AND 0x3F) OR 0x80),
         ucast ((c AND 0x3F) OR 0x80)]
      else
        [ucast (drop_bit 18 c OR 0xF0), ucast ((drop_bit 12 c AND 0x3F) OR 0x80),
         ucast ((drop_bit 6 c AND 0x3F) OR 0x80), ucast ((c AND 0x3F) OR 0x80)])"

type_synonym c_buffer = "u8 option list"

text \<open>\<^verbatim>\<open>*utf8++ = b\<close>; the pointer is an offset into the buffer.\<close>

definition buf_put :: "u8 \<Rightarrow> nat \<times> c_buffer \<Rightarrow> (nat \<times> c_buffer) option" where
  "buf_put b st = (case st of (i, buf) \<Rightarrow> if i < length buf then Some (Suc i, buf[i := Some b]) else None)"

fun buf_puts :: "u8 list \<Rightarrow> nat \<times> c_buffer \<Rightarrow> (nat \<times> c_buffer) option" where
  "buf_puts [] st = Some st"
| "buf_puts (b # bs) st = do { st \<leftarrow> buf_put b st; buf_puts bs st }"

fun utf8_store_loop :: "scheme_string \<Rightarrow> nat \<times> c_buffer \<Rightarrow> (nat \<times> c_buffer) option" where
  "utf8_store_loop [] st = Some st"
| "utf8_store_loop (c # s) st = do { st \<leftarrow> buf_puts (utf8_bytes c) st; utf8_store_loop s st }"

text \<open>
  The result is the allocated string with its terminator, or \<^const>\<open>None\<close> for \<^verbatim>\<open>NULL\<close>, and the value
  stored through \<^verbatim>\<open>utf8_len\<close>. \<open>malloc_ok\<close> says whether the allocation succeeds. The outer
  \<^const>\<open>None\<close> is undefined behaviour: a store out of bounds or an uninitialised byte in the result.
\<close>

definition osi_string_to_utf8 :: "bool \<Rightarrow> scheme_string \<Rightarrow> (u8 list option \<times> u64) option" where
  "osi_string_to_utf8 malloc_ok s =
     (let len = utf8_length_loop s 0
      in if \<not> malloc_ok then Some (None, 0)
         else do {
           (i, buf) \<leftarrow> utf8_store_loop s (0, replicate (unat (len + 1)) None);
           (i, buf) \<leftarrow> buf_put 0 (i, buf);
           bytes \<leftarrow> those buf;
           Some (Some bytes, len)
         })"

section \<open>The encoding form and a strict decoder\<close>

definition utf8_encode :: "scheme_string \<Rightarrow> u8 list" where
  "utf8_encode s = concat (map utf8_bytes s)"

text \<open>Unicode scalar values: what a Scheme character can be.\<close>

definition scalar_value :: "u32 \<Rightarrow> bool" where
  "scalar_value c \<longleftrightarrow> c < 0xD800 \<or> (0xE000 \<le> c \<and> c < 0x110000)"

definition is_cont :: "u8 \<Rightarrow> bool" where
  "is_cont b \<longleftrightarrow> 0x80 \<le> unat b \<and> unat b < 0xC0"

text \<open>
  Decoding by the table of well-formed sequences, in arithmetic: shortest forms only, no
  surrogates, nothing above \<open>0x10FFFF\<close>.
\<close>

fun utf8_decode :: "u8 list \<Rightarrow> u32 list option" where
  "utf8_decode [] = Some []"
| "utf8_decode (a # r) =
     (if unat a < 0x80 then map_option ((#) (of_nat (unat a))) (utf8_decode r)
      else if 0xC0 \<le> unat a \<and> unat a < 0xE0 then
        (case r of
           b # r1 \<Rightarrow>
             let v = (unat a - 0xC0) * 64 + (unat b - 0x80)
             in if is_cont b \<and> 0x80 \<le> v then map_option ((#) (of_nat v)) (utf8_decode r1) else None
         | _ \<Rightarrow> None)
      else if 0xE0 \<le> unat a \<and> unat a < 0xF0 then
        (case r of
           b # c # r2 \<Rightarrow>
             let v = (unat a - 0xE0) * 4096 + (unat b - 0x80) * 64 + (unat c - 0x80)
             in if is_cont b \<and> is_cont c \<and> 0x800 \<le> v \<and> \<not> (0xD800 \<le> v \<and> v < 0xE000)
                then map_option ((#) (of_nat v)) (utf8_decode r2) else None
         | _ \<Rightarrow> None)
      else if 0xF0 \<le> unat a \<and> unat a < 0xF8 then
        (case r of
           b # c # d # r3 \<Rightarrow>
             let v = (unat a - 0xF0) * 262144 + (unat b - 0x80) * 4096 + (unat c - 0x80) * 64 + (unat d - 0x80)
             in if is_cont b \<and> is_cont c \<and> is_cont d \<and> 0x10000 \<le> v \<and> v < 0x110000
                then map_option ((#) (of_nat v)) (utf8_decode r3) else None
         | _ \<Rightarrow> None)
      else None)"

section \<open>The buffer is filled exactly\<close>

definition utf8_size :: "u32 \<Rightarrow> nat" where
  "utf8_size c = (if c < 0x80 then 1 else if c < 0x800 then 2 else if c < 0x10000 then 3 else 4)"

lemma length_utf8_bytes: "length (utf8_bytes c) = utf8_size c"
  by (simp add: utf8_bytes_def utf8_size_def)

lemma utf8_size_le: "utf8_size c \<le> 4"
  by (simp add: utf8_size_def)

lemma length_utf8_encode_le: "length (utf8_encode s) \<le> 4 * length s"
proof (induction s)
  case (Cons c s)
  then show ?case using utf8_size_le [of c] by (simp add: utf8_encode_def length_utf8_bytes)
qed (simp add: utf8_encode_def)

lemma utf8_length_loop_eq:
  "utf8_length_loop s len = len + of_nat (length (utf8_encode s))"
  by (induction s arbitrary: len)
     (auto simp: utf8_encode_def length_utf8_bytes utf8_size_def)

lemma buf_puts_append:
  "buf_puts bs (length xs, map Some xs @ replicate (length bs + n) None)
     = Some (length xs + length bs, map Some (xs @ bs) @ replicate n None)"
proof (induction bs arbitrary: xs)
  case Nil
  then show ?case by simp
next
  case (Cons b bs)
  from Cons [of "xs @ [b]"] show ?case by (simp add: buf_put_def list_update_append)
qed

lemma utf8_store_loop_eq:
  "utf8_store_loop s (length xs, map Some xs @ replicate (length (utf8_encode s) + n) None)
     = Some (length xs + length (utf8_encode s), map Some (xs @ utf8_encode s) @ replicate n None)"
proof (induction s arbitrary: xs)
  case Nil
  then show ?case by (simp add: utf8_encode_def)
next
  case (Cons c s)
  have e: "utf8_encode (c # s) = utf8_bytes c @ utf8_encode s" by (simp add: utf8_encode_def)
  show ?case
    using Cons.IH [of "xs @ utf8_bytes c"] buf_puts_append [of "utf8_bytes c" xs "length (utf8_encode s) + n"]
    by (simp add: e add.assoc)
qed

lemma those_map_Some [simp]: "those (map Some xs) = Some xs"
  by (induction xs) auto

lemma osi_string_to_utf8_ok:
  assumes "4 * length s + 1 < 2 ^ 64"
  shows "osi_string_to_utf8 True s = Some (Some (utf8_encode s @ [0]), of_nat (length (utf8_encode s)))"
proof -
  let ?n = "length (utf8_encode s)"
  have "?n + 1 < 2 ^ 64" using length_utf8_encode_le [of s] assms by linarith
  then have n: "unat (utf8_length_loop s 0 + 1) = ?n + 1"
    by (simp add: utf8_length_loop_eq unat_word_ariths unat_of_nat)
  have "utf8_store_loop s (0, replicate (?n + 1) None) = Some (?n, map Some (utf8_encode s) @ [None])"
    using utf8_store_loop_eq [of s "[]" 1] by simp
  moreover have "buf_put 0 (?n, map Some (utf8_encode s) @ [None]) = Some (Suc ?n, map Some (utf8_encode s @ [0]))"
    by (simp add: buf_put_def list_update_append)
  moreover have "those (map Some (utf8_encode s @ [0])) = Some (utf8_encode s @ [0])"
    by (rule those_map_Some)
  ultimately show ?thesis
    unfolding osi_string_to_utf8_def Let_def n by (simp add: utf8_length_loop_eq del: map_append)
qed


section \<open>The bytes in arithmetic\<close>

lemma unat_or_push:
  fixes x y z :: u32
  assumes "unat x < 2 ^ k" and "y = push_bit k z" and "unat x + unat y < 2 ^ 32"
  shows "unat (x OR y) = unat x + unat y"
proof -
  have lt: "bit x n \<Longrightarrow> n < k" for n
  proof (rule ccontr)
    assume b: "bit x n" and "\<not> n < k"
    have "bit (unat x) n" using b by (simp add: bit_unsigned_iff)
    moreover have "take_bit k (unat x) = unat x" using assms(1) by (simp add: take_bit_nat_eq_self_iff)
    ultimately show False using \<open>\<not> n < k\<close> by (metis bit_take_bit_iff)
  qed
  have "x AND y = 0"
    by (intro bit_word_eqI) (auto simp: assms(2) bit_and_iff bit_push_bit_iff dest: lt)
  then have "x OR y = x + y" by (simp add: disjunctive_add_eq_or)
  then show ?thesis using assms(3) by (simp add: unat_word_ariths)
qed

lemma unat_and_63: "unat (x AND 0x3F :: u32) = unat x mod 64"
proof -
  have "x AND 0x3F = take_bit 6 x" by (simp add: take_bit_eq_mask mask_eq_exp_minus_1)
  then show ?thesis by (simp add: take_bit_eq_mod unat_mod_distrib)
qed

lemma unat_drop: "unat (drop_bit k (x :: u32)) = unat x div 2 ^ k"
proof -
  have "take_bit 32 (unat x) = unat x" by (rule take_bit_nat_eq_self [OF unat_u32_less])
  then show ?thesis by (subst unsigned_drop_bit_eq) (simp add: drop_bit_eq_div)
qed

lemma digits3: "n div 4096 * 4096 + n div 64 mod 64 * 64 + n mod 64 = (n :: nat)"
proof -
  have "n div 4096 = n div 64 div 64" by (simp add: div_mult2_eq [symmetric])
  moreover have "n div 64 div 64 * 64 + n div 64 mod 64 = n div 64" by (rule div_mult_mod_eq)
  moreover have "n div 64 * 64 + n mod 64 = n" by (rule div_mult_mod_eq)
  ultimately show ?thesis by linarith
qed

lemma digits4: "n div 262144 * 262144 + n div 4096 mod 64 * 4096 + n div 64 mod 64 * 64 + n mod 64 = (n :: nat)"
proof -
  have "n div 262144 = n div 4096 div 64" by (simp add: div_mult2_eq [symmetric])
  moreover have "n div 4096 div 64 * 64 + n div 4096 mod 64 = n div 4096" by (rule div_mult_mod_eq)
  ultimately show ?thesis using digits3 [of n] by linarith
qed

lemma cont_byte: "unat (ucast ((x AND 0x3F) OR 0x80 :: u32) :: u8) = 0x80 + unat x mod 64"
proof -
  have "(0x80 :: u32) = push_bit 6 2" by (simp add: push_bit_eq_mult)
  then have "unat ((x AND 0x3F) OR 0x80 :: u32) = unat (x AND 0x3F) + 0x80"
    by (subst unat_or_push [of _ 6 _ 2]) (simp_all add: unat_and_63)
  moreover have "unat x mod 64 + 0x80 < 256" by (simp add: less_imp_le_nat)
  ultimately show ?thesis by (simp add: unsigned_ucast_eq take_bit_eq_mod unat_and_63)
qed

lemma lead_byte:
  assumes "unat (x :: u32) < 2 ^ k" and "(y :: u32) = push_bit k z" and "unat x + unat y < 256"
  shows "unat (ucast (x OR y) :: u8) = unat y + unat x"
  using assms unat_or_push [OF assms(1,2)] by (simp add: unsigned_ucast_eq take_bit_eq_mod)

lemma utf8_decode_bytes:
  assumes "scalar_value c"
  shows "utf8_decode (utf8_bytes c @ r) = map_option ((#) c) (utf8_decode r)"
proof -
  let ?n = "unat c"
  have n: "?n < 0x110000" "\<not> (0xD800 \<le> ?n \<and> ?n < 0xE000)"
    using assms by (auto simp: scalar_value_def word_less_nat_alt word_le_nat_alt)
  have pb: "(0xC0 :: u32) = push_bit 6 3" "(0xE0 :: u32) = push_bit 5 7" "(0xF0 :: u32) = push_bit 4 15"
    by (simp_all add: push_bit_eq_mult)
  consider (a) "?n < 0x80" | (b) "0x80 \<le> ?n" "?n < 0x800" | (c) "0x800 \<le> ?n" "?n < 0x10000" | (d) "0x10000 \<le> ?n"
    by linarith
  then show ?thesis
  proof cases
    case a
    then have "unat (ucast c :: u8) = ?n" by (simp add: unsigned_ucast_eq take_bit_eq_mod)
    moreover have "utf8_bytes c = [ucast c]" using a by (simp add: utf8_bytes_def word_less_nat_alt)
    ultimately show ?thesis using a by simp
  next
    case b
    let ?b0 = "ucast (drop_bit 6 c OR 0xC0) :: u8" and ?b1 = "ucast ((c AND 0x3F) OR 0x80) :: u8"
    have "utf8_bytes c = [?b0, ?b1]" using b by (simp add: utf8_bytes_def word_less_nat_alt)
    moreover have "unat ?b0 = 0xC0 + ?n div 64"
      using b by (subst lead_byte [OF _ pb(1)]) (simp_all add: unat_drop div_less_iff_less_mult)
    moreover have "?n div 64 < 32" using b by (simp add: div_less_iff_less_mult)
    moreover have "?n div 64 * 64 + ?n mod 64 = ?n" by simp
    ultimately show ?thesis using b cont_byte [of c] by (simp add: is_cont_def Let_def div_less_iff_less_mult)
  next
    case c
    let ?b0 = "ucast (drop_bit 12 c OR 0xE0) :: u8" and ?b1 = "ucast ((drop_bit 6 c AND 0x3F) OR 0x80) :: u8"
      and ?b2 = "ucast ((c AND 0x3F) OR 0x80) :: u8"
    have "utf8_bytes c = [?b0, ?b1, ?b2]" using c by (simp add: utf8_bytes_def word_less_nat_alt)
    moreover have "unat ?b0 = 0xE0 + ?n div 4096"
      using c by (subst lead_byte [OF _ pb(2)]) (simp_all add: unat_drop div_less_iff_less_mult)
    moreover have "?n div 4096 < 16" using c by (simp add: div_less_iff_less_mult)
    moreover have "?n div 4096 * 4096 + ?n div 64 mod 64 * 64 + ?n mod 64 = ?n" by (rule digits3)
    ultimately show ?thesis
      using c n cont_byte [of c] cont_byte [of "drop_bit 6 c"] by (simp add: is_cont_def Let_def unat_drop)
  next
    case d
    let ?b0 = "ucast (drop_bit 18 c OR 0xF0) :: u8" and ?b1 = "ucast ((drop_bit 12 c AND 0x3F) OR 0x80) :: u8"
      and ?b2 = "ucast ((drop_bit 6 c AND 0x3F) OR 0x80) :: u8" and ?b3 = "ucast ((c AND 0x3F) OR 0x80) :: u8"
    have "utf8_bytes c = [?b0, ?b1, ?b2, ?b3]" using d by (simp add: utf8_bytes_def word_less_nat_alt)
    moreover have "unat ?b0 = 0xF0 + ?n div 262144"
      using n by (subst lead_byte [OF _ pb(3)]) (simp_all add: unat_drop div_less_iff_less_mult)
    moreover have "?n div 262144 < 8" using n by (simp add: div_less_iff_less_mult)
    moreover have "?n div 262144 * 262144 + ?n div 4096 mod 64 * 4096 + ?n div 64 mod 64 * 64 + ?n mod 64 = ?n"
      by (rule digits4)
    ultimately show ?thesis
      using d n cont_byte [of c] cont_byte [of "drop_bit 6 c"] cont_byte [of "drop_bit 12 c"]
      by (simp add: is_cont_def Let_def unat_drop)
  qed
qed

lemma utf8_decode_encode:
  "\<forall>c \<in> set s. scalar_value c \<Longrightarrow> utf8_decode (utf8_encode s) = Some s"
  by (induction s) (simp_all add: utf8_encode_def utf8_decode_bytes)


section \<open>Properties\<close>

text \<open>C18: \<^verbatim>\<open>osi_string_to_utf8\<close> never stores outside the buffer it allocates and leaves no
  byte of it unset: the length pass counts exactly the bytes the store pass writes. The result is
  the encoding of the string with a terminating zero byte, and the reported length excludes the
  terminator; when the allocation fails the result is \<^verbatim>\<open>NULL\<close> with length 0.\<close>

theorem osi_string_to_utf8_fills_buffer:
  assumes "4 * length s + 1 < 2 ^ 64"
  shows "\<exists>bytes len. osi_string_to_utf8 True s = Some (Some bytes, len)
           \<and> bytes = utf8_encode s @ [0] \<and> length bytes = unat len + 1
           \<and> osi_string_to_utf8 False s = Some (None, 0)"
proof -
  have "length (utf8_encode s) < 2 ^ 64" using length_utf8_encode_le [of s] assms by linarith
  then have "unat (of_nat (length (utf8_encode s)) :: u64) = length (utf8_encode s)"
    by (simp add: unat_of_nat)
  then show ?thesis
    by (simp add: osi_string_to_utf8_ok [OF assms]) (simp add: osi_string_to_utf8_def Let_def)
qed

theorem osi_string_to_utf8_fills_buffer_witness:
  "\<exists>bytes len. osi_string_to_utf8 True [0x48, 0x20AC, 0x1F600] = Some (Some bytes, len)
     \<and> bytes = utf8_encode [0x48, 0x20AC, 0x1F600] @ [0] \<and> length bytes = unat len + 1
     \<and> osi_string_to_utf8 False [0x48, 0x20AC, 0x1F600] = Some (None, 0)"
  using osi_string_to_utf8_fills_buffer [of "[0x48, 0x20AC, 0x1F600]"] by simp

text \<open>C12: Encoding loses nothing: for a string of Unicode scalar values, a strict decoder
  applied to the bytes before the terminator gives the string back.\<close>

theorem osi_string_to_utf8_roundtrip:
  assumes "4 * length s + 1 < 2 ^ 64" and "\<forall>c \<in> set s. scalar_value c"
  shows "\<exists>bytes len. osi_string_to_utf8 True s = Some (Some bytes, len)
           \<and> utf8_decode (take (unat len) bytes) = Some s"
proof -
  have "length (utf8_encode s) < 2 ^ 64" using length_utf8_encode_le [of s] assms(1) by linarith
  then have "unat (of_nat (length (utf8_encode s)) :: u64) = length (utf8_encode s)"
    by (simp add: unat_of_nat)
  with utf8_decode_encode [OF assms(2)] show ?thesis
    by (simp add: osi_string_to_utf8_ok [OF assms(1)])
qed

theorem osi_string_to_utf8_roundtrip_witness:
  "\<exists>bytes len. osi_string_to_utf8 True [0x48, 0xE9, 0x20AC, 0x1F600] = Some (Some bytes, len)
     \<and> utf8_decode (take (unat len) bytes) = Some [0x48, 0xE9, 0x20AC, 0x1F600]"
  by (rule osi_string_to_utf8_roundtrip) (simp_all add: scalar_value_def)

end
