(* ===== verification/Osi_State.thy ===== *)
theory Osi_State
  imports Utf8 Sha1
begin

text \<open>
  The state of the operating-system interface (\<^verbatim>\<open>osi.c\<close> and \<^verbatim>\<open>sqlite.c\<close>): Scheme objects as the C code sees them,
  the C structures it allocates, the table of locked Scheme objects, the callback queue, and what
  has been asked of libuv. libuv, the allocator and the Scheme run time are reached only through
  the record \<open>env\<close>, an argument of every operation that uses them: the status each libuv call
  returns, which allocations fail, the values of the \<^verbatim>\<open>UV_\<close> error constants, and the decoder
  behind \<^verbatim>\<open>Sstring_utf8\<close>. The second half accounts for ownership: which Scheme objects each
  C structure keeps locked and which callbacks it still owes.
\<close>

section \<open>Scheme objects\<close>

text \<open>
  Strings are lists of characters, bytevectors are addresses into a store because C reads and
  writes their bytes in place, procedures are known by identity only. \<open>Sinteger\<close> covers fixnums
  and bignums.
\<close>

datatype ptr =
    Snil | Sfalse | Strue | Svoid
  | Sinteger int
  | Sflonum u64
  | Ssymbol string
  | Sstring scheme_string
  | Sbytevector nat
  | Sprocedure nat
  | Scons ptr ptr
  | Svector "ptr list"

fun Spairp :: "ptr \<Rightarrow> bool" where
  "Spairp (Scons _ _) = True"
| "Spairp _ = False"

fun Sstringp :: "ptr \<Rightarrow> bool" where
  "Sstringp (Sstring _) = True"
| "Sstringp _ = False"

fun Sbytevectorp :: "ptr \<Rightarrow> bool" where
  "Sbytevectorp (Sbytevector _) = True"
| "Sbytevectorp _ = False"

fun Sprocedurep :: "ptr \<Rightarrow> bool" where
  "Sprocedurep (Sprocedure _) = True"
| "Sprocedurep _ = False"

definition Sunsigned :: "uptr \<Rightarrow> ptr" where
  "Sunsigned a = Sinteger (int a)"

text \<open>
  The integer constructors of the Scheme interface take C integers of the width in their name; an
  argument of another width is converted, so \<^verbatim>\<open>Sinteger32\<close> of a wider value keeps its low 32 bits.
\<close>

definition Sinteger32 :: "int \<Rightarrow> ptr" where
  "Sinteger32 n = Sinteger (sint (of_int n :: u32))"

definition Sunsigned32 :: "u32 \<Rightarrow> ptr" where
  "Sunsigned32 n = Sinteger (uint n)"

definition Sunsigned64 :: "u64 \<Rightarrow> ptr" where
  "Sunsigned64 n = Sinteger (uint n)"

definition Sinteger64 :: "u64 \<Rightarrow> ptr" where
  "Sinteger64 n = Sinteger (sint n)"

text \<open>A Scheme list of a HOL list.\<close>

fun scheme_list :: "ptr list \<Rightarrow> ptr" where
  "scheme_list [] = Snil"
| "scheme_list (x # xs) = Scons x (scheme_list xs)"

section \<open>Structures of the C code\<close>

datatype errno = EINVAL | ENOMEM | EBUSY | EPERM | EOF | EAI_FAMILY

text \<open>The four \<^verbatim>\<open>osi_port_vtable_t\<close> objects, which are compared by address.\<close>

datatype vtable = Fd_vtable | File_vtable | Pipe_vtable | Tcp_vtable

record fs_port_t =
  fs_vtable :: vtable
  fs_file :: int

text \<open>
  Fields that a fresh port leaves unset are \<^const>\<open>None\<close>; a callback or second buffer of 0 is
  \<^const>\<open>None\<close> as well.
\<close>

record stream_port_t =
  vtable :: vtable
  close_callback :: "ptr option"
  read_buffer :: "ptr option"
  read_start_index :: u64
  read_size :: u32
  read_callback :: "ptr option"
  write_buffer :: "ptr option"
  write_buffer2 :: "ptr option"
  write_size :: u32
  write_callback :: "ptr option"

text \<open>The C functions registered with libuv for a \<^verbatim>\<open>uv_fs_t\<close> request and for closing a handle.\<close>

datatype fs_cb = Open_fs_cb | Get_file_size_cb | Get_real_path_cb | Return_fs_result_cb | Stat_cb | List_directory_cb

datatype close_cb = Close_stream_cb | Close_handle_data_cb | Close_async_cb | Close_signal_cb | Close_free_cb

record tcp_connect_t =
  conn_callback :: ptr
  conn_ai :: "nat list"
  conn_stream_port :: uptr

text \<open>
  The structures of \<^verbatim>\<open>sqlite.c\<close>. SQLite's own objects, connections and prepared statements, are known
  by a number, 0 for \<^verbatim>\<open>NULL\<close>. A binding is a tagged union; a text or blob binding has the address and the
  size of its bytes.
\<close>

datatype binding_t =
    Binding_null
  | Binding_integer u64
  | Binding_float u64
  | Binding_text uptr u64
  | Binding_blob uptr u64
  | Binding_other int

record bulk_t =
  bulk_count :: nat
  bulk_statements :: uptr
  bulk_mbindings :: uptr
  bulk_who :: "string option"

text \<open>The work functions of the database thread and the completion each is paired with.\<close>

datatype db_work = Close_worker | Prepare_worker | Step_worker | Bulk_worker

datatype db_cb = Close_cb | Prepare_cb | Step_cb | Bulk_cb

datatype db_union = Db_null | Db_sql uptr | Db_stmt nat | Db_bulk uptr

text \<open>
  Where the database thread is in \<^verbatim>\<open>database_worker\<close>: about to look for work with the mutex held, running
  a work function without it, waiting on the condition variable, or gone.
\<close>

datatype db_thread = At_top | Running db_work | Waiting | Gone

text \<open>
  The union of \<^verbatim>\<open>sql\<close>, \<^verbatim>\<open>stmt\<close> and \<^verbatim>\<open>bulk\<close> is \<open>d_arg\<close>; the \<^verbatim>\<open>data\<close> field of the async handle is \<open>d_async_data\<close>,
  and \<open>d_async_sent\<close> says that \<^verbatim>\<open>uv_async_send\<close> was called and its callback has not run yet.
\<close>

record database_t =
  d_db :: nat
  d_statement :: uptr
  d_thread :: db_thread
  d_async_data :: "db_cb option"
  d_async_sent :: bool
  d_busy :: bool
  d_work :: "db_work option"
  d_callback :: ptr
  d_arg :: db_union
  d_sql_len :: int
  d_sqlite_rc :: int

record statement_t =
  st_stmt :: nat
  st_database :: uptr
  st_prev :: uptr
  st_next :: uptr

record open_req_t =
  or_filename :: uptr
  or_flags :: int
  or_callback :: ptr
  or_db :: nat
  or_sqlite_rc :: int

text \<open>
  What an allocated block holds. \<open>Raw\<close> is a block nothing has been stored in yet. The flag of
  \<open>Uv_async\<close> records that its callback has run, after which the \<^verbatim>\<open>data\<close> field is never read again; the
  flag of \<open>Uv_process\<close> records that libuv has a child process to report for the handle.
\<close>

datatype cobj =
    Raw
  | Fs_port fs_port_t
  | Stream_port stream_port_t
  | Rw_fs_req ptr ptr
  | Close_fs_req uptr ptr
  | Uv_fs fs_cb ptr
  | Tcp_connect tcp_connect_t
  | Uv_async "ptr option" bool
  | Uv_tcp "ptr option"
  | Uv_fs_event "ptr option"
  | Uv_process "ptr option" bool
  | Uv_signal
  | C_string "u8 list"
  | C_argv "uptr list"
  | Sha1_ctxt SHA1Context
  | Database database_t
  | Statement statement_t
  | Bindings "binding_t list"
  | Bulk bulk_t
  | Pointers "uptr list"
  | Open_req open_req_t

section \<open>Calls to libuv\<close>

text \<open>
  The libuv functions the code calls, with the arguments that matter. A buffer argument is the
  bytevector with the offset and length of the region handed over.
\<close>

type_synonym uv_buf = "ptr \<times> u64 \<times> u32"

text \<open>File-system requests; the first argument is the request object.\<close>

datatype uv_fs_call =
    Uv_fs_read uptr int uv_buf int
  | Uv_fs_write uptr int uv_buf int
  | Uv_fs_close uptr int
  | Uv_fs_open uptr "u8 list" int int
  | Uv_fs_fstat uptr int
  | Uv_fs_realpath uptr "u8 list"
  | Uv_fs_chmod uptr "u8 list" int
  | Uv_fs_mkdir uptr "u8 list" int
  | Uv_fs_rmdir uptr "u8 list"
  | Uv_fs_rename uptr "u8 list" "u8 list"
  | Uv_fs_stat uptr "u8 list"
  | Uv_fs_lstat uptr "u8 list"
  | Uv_fs_scandir uptr "u8 list"
  | Uv_fs_unlink uptr "u8 list"
  | Uv_fs_req_cleanup uptr

text \<open>Streams and sockets.\<close>

datatype uv_net_call =
    Uv_read_start uptr
  | Uv_read_stop uptr
  | Uv_write uptr "uv_buf list"
  | Uv_tcp_init uptr
  | Uv_tcp_bind uptr
  | Uv_listen uptr
  | Uv_accept uptr uptr
  | Uv_tcp_connect uptr uptr nat
  | Uv_getaddrinfo uptr "u8 list" "u8 list"
  | Uv_freeaddrinfo uptr
  | Uv_ip4_addr "u8 list" u16
  | Uv_ip6_addr "u8 list" u16
  | Uv_tcp_nodelay uptr int
  | Uv_pipe_init uptr

text \<open>Processes, signals and other handles.\<close>

datatype uv_handle_call =
    Uv_spawn uptr "u8 list" "u8 list list" bool "uptr list"
  | Uv_kill int int
  | Uv_signal_init uptr
  | Uv_signal_start uptr int
  | Uv_signal_stop uptr
  | Uv_fs_event_init uptr
  | Uv_fs_event_start uptr "u8 list"
  | Uv_fs_event_stop uptr
  | Uv_async_init uptr
  | Uv_async_send uptr
  | Uv_close uptr close_cb
  | Uv_mutex_init uptr
  | Uv_mutex_destroy uptr
  | Uv_cond_init uptr
  | Uv_cond_destroy uptr
  | Uv_thread_create uptr
  | Uv_thread_join uptr
  | Uv_queue_work uptr

text \<open>
  SQLite functions, with the connection or statement first. A bound value is given as SQLite sees it.
\<close>

datatype sqlite_value =
    Value_null
  | Value_int64 u64
  | Value_double u64
  | Value_text "u8 list"
  | Value_blob "u8 list"

datatype sqlite_call =
    Sqlite3_open_v2 "u8 list" int
  | Sqlite3_close nat
  | Sqlite3_extended_result_codes nat
  | Sqlite3_prepare_v2 nat "u8 list"
  | Sqlite3_finalize nat
  | Sqlite3_bind nat int sqlite_value
  | Sqlite3_clear_bindings nat
  | Sqlite3_reset nat
  | Sqlite3_step nat
  | Sqlite3_interrupt nat
  | Sqlite3_status64 int int

datatype uv_call = Fs uv_fs_call | Net uv_net_call | Hnd uv_handle_call | Sql sqlite_call

record env =
  uv :: "uv_call \<Rightarrow> nat \<Rightarrow> int"
  uv_errno :: "errno \<Rightarrow> int"
  oom :: "nat \<Rightarrow> bool"
  Sstring_utf8 :: "u8 list \<Rightarrow> ptr"

section \<open>The state\<close>

text \<open>
  \<open>g_callbacks\<close> is the C global, \<^const>\<open>None\<close> when it is 0. \<open>locked\<close> counts \<^verbatim>\<open>Slock_object\<close> against
  \<^verbatim>\<open>Sunlock_object\<close>. The block returned by the \<open>n\<close>-th allocation has address \<open>n + 1\<close>: an address is
  never used twice, so that a stale pointer is never mistaken for a live one. \<open>calls\<close> is the
  sequence of libuv and SQLite calls made so far and \<open>closing\<close> the handles given to \<^verbatim>\<open>uv_close\<close> whose close
  callback has not run yet. \<open>sqlite_objs\<close> is the set of SQLite connections and statements that exist; the
  object made by the \<open>n\<close>-th call has number \<open>n + 1\<close>.
\<close>

record osi =
  g_callbacks :: "ptr option"
  locked :: "ptr multiset"
  heap :: "uptr \<Rightarrow> cobj option"
  mallocs :: nat
  calls :: "uv_call list"
  closing :: "uptr \<Rightarrow> close_cb option"
  bytevectors :: "nat \<Rightarrow> u8 list"
  sqlite_objs :: "nat set"

subsection \<open>Memory\<close>

definition malloc_container :: "env \<Rightarrow> osi \<Rightarrow> uptr \<times> osi" where
  "malloc_container E s =
     (if oom E (mallocs s) then (0, s\<lparr>mallocs := Suc (mallocs s)\<rparr>)
      else (Suc (mallocs s),
            s\<lparr>mallocs := Suc (mallocs s), heap := (heap s)(Suc (mallocs s) \<mapsto> Raw)\<rparr>))"

definition store :: "uptr \<Rightarrow> cobj \<Rightarrow> osi \<Rightarrow> osi option" where
  "store a x s = (if heap s a = None then None else Some (s\<lparr>heap := (heap s)(a \<mapsto> x)\<rparr>))"

definition c_free :: "uptr \<Rightarrow> osi \<Rightarrow> osi option" where
  "c_free a s =
     (if a = 0 then Some s
      else if heap s a = None then None
      else Some (s\<lparr>heap := (heap s)(a := None)\<rparr>))"

definition load_fs_port :: "uptr \<Rightarrow> osi \<Rightarrow> fs_port_t option" where
  "load_fs_port a s = (case heap s a of Some (Fs_port p) \<Rightarrow> Some p | _ \<Rightarrow> None)"

definition load_stream_port :: "uptr \<Rightarrow> osi \<Rightarrow> stream_port_t option" where
  "load_stream_port a s = (case heap s a of Some (Stream_port p) \<Rightarrow> Some p | _ \<Rightarrow> None)"

subsection \<open>Locking Scheme objects\<close>

text \<open>Unlocking an object that is not locked is an error of the caller.\<close>

definition Slock_object :: "ptr \<Rightarrow> osi \<Rightarrow> osi" where
  "Slock_object x s = s\<lparr>locked := add_mset x (locked s)\<rparr>"

definition Sunlock_object :: "ptr \<Rightarrow> osi \<Rightarrow> osi option" where
  "Sunlock_object x s = (if x \<in># locked s then Some (s\<lparr>locked := locked s - {#x#}\<rparr>) else None)"

definition Sbytevector_length :: "ptr \<Rightarrow> osi \<Rightarrow> nat" where
  "Sbytevector_length bv s = (case bv of Sbytevector i \<Rightarrow> length (bytevectors s i) | _ \<Rightarrow> 0)"

subsection \<open>Calling libuv\<close>

definition uv_do :: "env \<Rightarrow> uv_call \<Rightarrow> osi \<Rightarrow> int \<times> osi" where
  "uv_do E c s = (uv E c (length (calls s)), s\<lparr>calls := calls s @ [c]\<rparr>)"

text \<open>A call whose result does not exist or is ignored.\<close>

definition uv_void :: "uv_call \<Rightarrow> osi \<Rightarrow> osi" where
  "uv_void c s = s\<lparr>calls := calls s @ [c]\<rparr>"

text \<open>libuv requires that a handle is closed at most once.\<close>

definition uv_close :: "uptr \<Rightarrow> close_cb \<Rightarrow> osi \<Rightarrow> osi option" where
  "uv_close h cb s =
     (if heap s h = None \<or> closing s h \<noteq> None then None
      else Some (s\<lparr>calls := calls s @ [Hnd (Uv_close h cb)], closing := (closing s)(h \<mapsto> cb)\<rparr>))"

section \<open>Callbacks and errors\<close>

definition osi_add_callback_list :: "ptr \<Rightarrow> ptr \<Rightarrow> osi \<Rightarrow> osi option" where
  "osi_add_callback_list callback args s =
     (case g_callbacks s of None \<Rightarrow> None
      | Some q \<Rightarrow> Some (s\<lparr>g_callbacks := Some (Scons (Scons callback args) q)\<rparr>))"

definition osi_add_callback1 :: "ptr \<Rightarrow> ptr \<Rightarrow> osi \<Rightarrow> osi option" where
  "osi_add_callback1 callback arg = osi_add_callback_list callback (Scons arg Snil)"

definition osi_add_callback2 :: "ptr \<Rightarrow> ptr \<Rightarrow> ptr \<Rightarrow> osi \<Rightarrow> osi option" where
  "osi_add_callback2 callback arg1 arg2 = osi_add_callback_list callback (Scons arg1 (Scons arg2 Snil))"

definition osi_add_callback3 :: "ptr \<Rightarrow> ptr \<Rightarrow> ptr \<Rightarrow> ptr \<Rightarrow> osi \<Rightarrow> osi option" where
  "osi_add_callback3 callback arg1 arg2 arg3 =
     osi_add_callback_list callback (Scons arg1 (Scons arg2 (Scons arg3 Snil)))"

definition osi_make_error_pair :: "string \<Rightarrow> int \<Rightarrow> ptr" where
  "osi_make_error_pair who error = Scons (Ssymbol who) (Sinteger error)"


section \<open>Ownership\<close>

text \<open>
  The Scheme objects a C structure keeps locked while it lives, and the callbacks it has promised
  to deliver exactly once. A listener or a path watcher keeps its callback locked but calls it any
  number of times, so it owes nothing.
\<close>

definition opt_mset :: "'a option \<Rightarrow> 'a multiset" where
  "opt_mset x = (case x of None \<Rightarrow> {#} | Some y \<Rightarrow> {#y#})"

lemma opt_mset_simps [simp]: "opt_mset None = {#}" "opt_mset (Some y) = {#y#}"
  by (simp_all add: opt_mset_def)

definition stream_held :: "stream_port_t \<Rightarrow> ptr multiset" where
  "stream_held p =
     opt_mset (close_callback p)
       + (if read_callback p = None then {#} else opt_mset (read_callback p) + opt_mset (read_buffer p))
       + (if write_callback p = None then {#}
          else opt_mset (write_callback p) + opt_mset (write_buffer p) + opt_mset (write_buffer2 p))"

definition stream_owed :: "stream_port_t \<Rightarrow> ptr multiset" where
  "stream_owed p = opt_mset (close_callback p) + opt_mset (read_callback p) + opt_mset (write_callback p)"

fun obj_held :: "cobj \<Rightarrow> ptr multiset" where
  "obj_held (Stream_port p) = stream_held p"
| "obj_held (Rw_fs_req b c) = {#b, c#}"
| "obj_held (Close_fs_req _ c) = {#c#}"
| "obj_held (Uv_fs _ c) = {#c#}"
| "obj_held (Tcp_connect t) = {#conn_callback t#}"
| "obj_held (Uv_async d fired) = (if fired then {#} else opt_mset d)"
| "obj_held (Uv_tcp d) = opt_mset d"
| "obj_held (Uv_fs_event d) = opt_mset d"
| "obj_held (Uv_process d running) = opt_mset d"
| "obj_held (Database d) = (if d_busy d then {#d_callback d#} else {#})"
| "obj_held (Open_req r) = {#or_callback r#}"
| "obj_held _ = {#}"

fun obj_owed :: "cobj \<Rightarrow> ptr multiset" where
  "obj_owed (Stream_port p) = stream_owed p"
| "obj_owed (Rw_fs_req b c) = {#c#}"
| "obj_owed (Close_fs_req _ c) = {#c#}"
| "obj_owed (Uv_fs _ c) = {#c#}"
| "obj_owed (Tcp_connect t) = {#conn_callback t#}"
| "obj_owed (Uv_async d fired) = (if fired then {#} else opt_mset d)"
| "obj_owed (Uv_process d running) = (if running then opt_mset d else {#})"
| "obj_owed (Database d) = (if d_busy d then {#d_callback d#} else {#})"
| "obj_owed (Open_req r) = {#or_callback r#}"
| "obj_owed _ = {#}"

definition heap_sum :: "(cobj \<Rightarrow> ptr multiset) \<Rightarrow> (uptr \<Rightarrow> cobj option) \<Rightarrow> ptr multiset" where
  "heap_sum f h = (\<Sum>a \<in> dom h. f (the (h a)))"

lemma heap_sum_new:
  "finite (dom h) \<Longrightarrow> h a = None \<Longrightarrow> heap_sum f (h(a \<mapsto> x)) = heap_sum f h + f x"
proof -
  assume fin: "finite (dom h)" and "h a = None"
  then have "a \<notin> dom h" by auto
  then have "(\<Sum>b \<in> dom h. f (the ((h(a \<mapsto> x)) b))) = (\<Sum>b \<in> dom h. f (the (h b)))"
    by (intro sum.cong) auto
  with fin \<open>a \<notin> dom h\<close> show ?thesis by (simp add: heap_sum_def add.commute)
qed

lemma heap_sum_del:
  "finite (dom h) \<Longrightarrow> h a = Some x \<Longrightarrow> heap_sum f h = heap_sum f (h(a := None)) + f x"
  using heap_sum_new [of "h(a := None)" a f x] by (simp add: fun_upd_idem)

lemma heap_sum_upd:
  "finite (dom h) \<Longrightarrow> h a = Some x \<Longrightarrow> heap_sum f (h(a \<mapsto> y)) + f x = heap_sum f h + f y"
  using heap_sum_new [of "h(a := None)" a f y] heap_sum_del [of h a x f]
  by (simp add: fun_upd_upd add_ac)

definition owed :: "osi \<Rightarrow> ptr multiset" where
  "owed s = heap_sum obj_owed (heap s)"

text \<open>Which close callback belongs to which kind of handle.\<close>

fun closes :: "close_cb \<Rightarrow> cobj \<Rightarrow> bool" where
  "closes Close_stream_cb (Stream_port _) = True"
| "closes Close_handle_data_cb (Uv_tcp _) = True"
| "closes Close_handle_data_cb (Uv_fs_event _) = True"
| "closes Close_handle_data_cb (Uv_process _ False) = True"
| "closes Close_async_cb (Uv_async _ True) = True"
| "closes Close_signal_cb Uv_signal = True"
| "closes Close_free_cb (Database d) = (\<not> d_busy d)"
| "closes _ _ = False"

text \<open>
  Two kinds of structure refer to a port: a pending close request to the file port it will free and
  a pending connection to the stream it is connecting. Each has its port to itself, the port is
  still allocated, and the stream of a pending connection is not being closed.
\<close>

fun obj_link :: "cobj \<Rightarrow> (uptr \<times> bool) option" where
  "obj_link (Close_fs_req p _) = Some (p, False)"
| "obj_link (Tcp_connect t) = Some (conn_stream_port t, True)"
| "obj_link _ = None"

fun port_kind :: "cobj \<Rightarrow> bool option" where
  "port_kind (Fs_port _) = Some False"
| "port_kind (Stream_port _) = Some True"
| "port_kind _ = None"

definition links_to :: "(uptr \<Rightarrow> cobj option) \<Rightarrow> uptr \<Rightarrow> bool \<Rightarrow> uptr \<Rightarrow> bool" where
  "links_to h p k a \<longleftrightarrow> (\<exists>x. h a = Some x \<and> obj_link x = Some (p, k))"

text \<open>
  A port has the virtual table of its kind, and a stream with a read or write pending has the buffer
  to go with it.
\<close>

fun obj_ok :: "cobj \<Rightarrow> bool" where
  "obj_ok (Fs_port p) \<longleftrightarrow> fs_vtable p \<in> {Fd_vtable, File_vtable}"
| "obj_ok (Stream_port p) \<longleftrightarrow> vtable p \<in> {Pipe_vtable, Tcp_vtable}
     \<and> (read_callback p \<noteq> None \<longrightarrow> read_buffer p \<noteq> None) \<and> (write_callback p \<noteq> None \<longrightarrow> write_buffer p \<noteq> None)"
| "obj_ok _ \<longleftrightarrow> True"

definition heap_ok :: "(uptr \<Rightarrow> cobj option) \<Rightarrow> bool" where
  "heap_ok h \<longleftrightarrow>
     (\<forall>a x. h a = Some x \<longrightarrow> obj_ok x) \<and>
     (\<forall>a p k. links_to h p k a \<longrightarrow>
        (\<exists>y. h p = Some y \<and> port_kind y = Some k) \<and> (\<forall>b. links_to h p k b \<longrightarrow> b = a))"

definition closing_ok :: "(uptr \<Rightarrow> close_cb option) \<Rightarrow> (uptr \<Rightarrow> cobj option) \<Rightarrow> bool" where
  "closing_ok cl h \<longleftrightarrow>
     (\<forall>a cb. cl a = Some cb \<longrightarrow>
        (\<exists>x. h a = Some x \<and> closes cb x) \<and> (\<forall>b. \<not> links_to h a True b))"

lemma links_to_upd:
  "links_to (h(a \<mapsto> x)) p k b \<longleftrightarrow> (if b = a then obj_link x = Some (p, k) else links_to h p k b)"
  by (simp add: links_to_def)

lemma links_to_del: "links_to (h(a := None)) p k b \<longleftrightarrow> b \<noteq> a \<and> links_to h p k b"
  by (simp add: links_to_def)

lemma heap_ok_port: "heap_ok h \<Longrightarrow> links_to h p k a \<Longrightarrow> \<exists>y. h p = Some y \<and> port_kind y = Some k"
  unfolding heap_ok_def by blast

lemma heap_ok_unique: "heap_ok h \<Longrightarrow> links_to h p k a \<Longrightarrow> links_to h p k b \<Longrightarrow> b = a"
  unfolding heap_ok_def by blast

lemma heap_ok_obj: "heap_ok h \<Longrightarrow> h a = Some x \<Longrightarrow> obj_ok x"
  unfolding heap_ok_def by blast

lemma heap_okI:
  assumes "\<And>a x. h a = Some x \<Longrightarrow> obj_ok x"
    and "\<And>a p k. links_to h p k a \<Longrightarrow> \<exists>y. h p = Some y \<and> port_kind y = Some k"
    and "\<And>a b p k. links_to h p k a \<Longrightarrow> links_to h p k b \<Longrightarrow> b = a"
  shows "heap_ok h"
  using assms unfolding heap_ok_def by blast

lemma heap_ok_no_link:
  "heap_ok h \<Longrightarrow> h p = Some x \<Longrightarrow> port_kind x \<noteq> Some k \<Longrightarrow> \<not> links_to h p k a"
  using heap_ok_port [of h p k a] by auto

lemma heap_ok_add:
  assumes "heap_ok h" and "h a = None" and "\<forall>p k. obj_link x = Some (p, k) \<longrightarrow>
      (\<exists>y. h p = Some y \<and> port_kind y = Some k) \<and> (\<forall>b. \<not> links_to h p k b)" and "obj_ok x"
  shows "heap_ok (h(a \<mapsto> x))"
proof (rule heap_okI)
  show "obj_ok z" if "(h(a \<mapsto> x)) b = Some z" for b z
    using that assms(4) heap_ok_obj [OF assms(1), of b z] by (simp split: if_splits)
  show "\<exists>y. (h(a \<mapsto> x)) p = Some y \<and> port_kind y = Some k" if "links_to (h(a \<mapsto> x)) p k b" for b p k
  proof -
    have "\<exists>y. h p = Some y \<and> port_kind y = Some k"
      using that assms(3) heap_ok_port [OF assms(1), of p k b] by (auto simp: links_to_upd split: if_splits)
    with assms(2) show ?thesis by (metis fun_upd_apply option.distinct(1))
  qed
  show "c = b" if "links_to (h(a \<mapsto> x)) p k b" "links_to (h(a \<mapsto> x)) p k c" for b c p k
    using that assms(3) heap_ok_unique [OF assms(1), of p k b c] by (auto simp: links_to_upd split: if_splits)
qed

lemma heap_ok_new: "heap_ok h \<Longrightarrow> h a = None \<Longrightarrow> obj_link x = None \<Longrightarrow> obj_ok x \<Longrightarrow>
   heap_ok (h(a \<mapsto> x))"
  by (rule heap_ok_add) auto

lemma heap_ok_upd:
  assumes "heap_ok h" and "h a = Some x" and "port_kind x = None \<or> port_kind y = port_kind x"
    and "obj_link y = None \<or> obj_link y = obj_link x" and "obj_ok y"
  shows "heap_ok (h(a \<mapsto> y))"
proof (rule heap_okI)
  show "obj_ok z" if "(h(a \<mapsto> y)) b = Some z" for b z
    using that assms(5) heap_ok_obj [OF assms(1), of b z] by (simp split: if_splits)
  have old: "links_to h p k b" if "links_to (h(a \<mapsto> y)) p k b" for b p k
    using that assms(2,4) by (auto simp: links_to_upd links_to_def split: if_splits)
  show "\<exists>z. (h(a \<mapsto> y)) p = Some z \<and> port_kind z = Some k" if "links_to (h(a \<mapsto> y)) p k b" for b p k
    using heap_ok_port [OF assms(1) old [OF that]] assms(2,3) by auto
  show "c = b" if "links_to (h(a \<mapsto> y)) p k b" "links_to (h(a \<mapsto> y)) p k c" for b c p k
    by (rule heap_ok_unique [OF assms(1) old old]) (fact that)+
qed

lemma heap_ok_del_port:
  assumes "heap_ok h" and "\<forall>k b. \<not> links_to h a k b"
  shows "heap_ok (h(a := None))"
  using assms
  by (intro heap_okI) (auto simp: links_to_del dest: heap_ok_port heap_ok_unique heap_ok_obj split: if_splits)

lemma heap_ok_del:
  assumes "heap_ok h" and "h a = Some x" and "port_kind x = None"
  shows "heap_ok (h(a := None))"
  using heap_ok_no_link [OF assms(1,2)] assms(3) by (intro heap_ok_del_port [OF assms(1)]) simp

lemma closing_ok_closes: "closing_ok cl h \<Longrightarrow> cl a = Some cb \<Longrightarrow> \<exists>x. h a = Some x \<and> closes cb x"
  unfolding closing_ok_def by blast

lemma closing_ok_link: "closing_ok cl h \<Longrightarrow> links_to h p True b \<Longrightarrow> cl p = None"
  unfolding closing_ok_def by (metis option.exhaust)

text \<open>
  The invariant of the interface. \<open>X\<close> is what other parts of the program keep locked. Every lock
  is owned by a live structure, addresses come from the allocator, only live handles are being
  closed, by their own close callback, and close requests are linked to their ports.
\<close>

definition osi_inv :: "ptr multiset \<Rightarrow> osi \<Rightarrow> bool" where
  "osi_inv X s \<longleftrightarrow>
     finite (dom (heap s)) \<and> (\<forall>a \<in> dom (heap s). 0 < a \<and> a \<le> mallocs s)
     \<and> closing_ok (closing s) (heap s) \<and> heap_ok (heap s)
     \<and> locked s = heap_sum obj_held (heap s) + X"

lemma osi_inv_fresh: "osi_inv X s \<Longrightarrow> heap s (Suc (mallocs s)) = None"
  by (auto simp: osi_inv_def dom_def)

lemma osi_inv_finite: "osi_inv X s \<Longrightarrow> finite (dom (heap s))"
  by (simp add: osi_inv_def)

lemma osi_inv_null: "osi_inv X s \<Longrightarrow> heap s 0 = None"
  by (auto simp: osi_inv_def dom_def)

lemma osi_invI:
  "finite (dom (heap s)) \<Longrightarrow> (\<And>a. a \<in> dom (heap s) \<Longrightarrow> 0 < a \<and> a \<le> mallocs s) \<Longrightarrow>
   closing_ok (closing s) (heap s) \<Longrightarrow> heap_ok (heap s) \<Longrightarrow>
   locked s = heap_sum obj_held (heap s) + X \<Longrightarrow> osi_inv X s"
  unfolding osi_inv_def by blast

lemma osi_inv_addr: "osi_inv X s \<Longrightarrow> a \<in> dom (heap s) \<Longrightarrow> 0 < a \<and> a \<le> mallocs s"
  unfolding osi_inv_def by blast

lemma osi_inv_above: "osi_inv X s \<Longrightarrow> mallocs s < a \<Longrightarrow> heap s a = None"
  using osi_inv_addr [of X s a] by (cases "heap s a") auto

lemma osi_inv_closing: "osi_inv X s \<Longrightarrow> closing_ok (closing s) (heap s)"
  unfolding osi_inv_def by blast

lemma osi_inv_heap: "osi_inv X s \<Longrightarrow> heap_ok (heap s)"
  unfolding osi_inv_def by blast

lemma osi_inv_locked: "osi_inv X s \<Longrightarrow> locked s = heap_sum obj_held (heap s) + X"
  unfolding osi_inv_def by blast

lemma osi_inv_not_closing:
  "osi_inv X s \<Longrightarrow> heap s a = Some x \<Longrightarrow> \<forall>cb. \<not> closes cb x \<Longrightarrow> closing s a = None"
  using osi_inv_closing [of X s] by (cases "closing s a") (fastforce simp: closing_ok_def)+

lemma osi_inv_fresh_closing: "osi_inv X s \<Longrightarrow> closing s (Suc (mallocs s)) = None"
  using osi_inv_closing [of X s] osi_inv_fresh [of X s]
  by (cases "closing s (Suc (mallocs s))") (fastforce simp: closing_ok_def)+

lemma osi_inv_same:
  assumes "osi_inv X s" and "heap s' = heap s" and "locked s' = locked s" and "mallocs s \<le> mallocs s'"
    and "closing s' = closing s"
  shows "osi_inv X s'"
proof (rule osi_invI)
  show "0 < a \<and> a \<le> mallocs s'" if "a \<in> dom (heap s')" for a
    using osi_inv_addr [OF assms(1), of a] that assms(2,4) by auto
qed (use assms osi_inv_finite osi_inv_locked osi_inv_closing osi_inv_heap in auto)

lemma osi_inv_free_closing: "osi_inv X s \<Longrightarrow> heap s a = None \<Longrightarrow> closing s a = None"
  using closing_ok_closes [OF osi_inv_closing, of X s a] by (cases "closing s a") auto

lemma osi_inv_add:
  assumes "osi_inv X s" and "heap s a = None" and "0 < a \<and> a \<le> mallocs s'" and "mallocs s \<le> mallocs s'"
    and "heap s' = (heap s)(a \<mapsto> x)" and "locked s' = locked s + obj_held x"
    and "closing s' = closing s" and "heap_ok (heap s')"
    and "\<forall>p. obj_link x = Some (p, True) \<longrightarrow> closing s p = None"
  shows "osi_inv X s'"
proof (rule osi_invI)
  show "finite (dom (heap s'))" using assms(5) osi_inv_finite [OF assms(1)] by simp
  show "0 < b \<and> b \<le> mallocs s'" if "b \<in> dom (heap s')" for b
    using that assms(3-5) osi_inv_addr [OF assms(1), of b] by (cases "b = a") auto
  show "closing_ok (closing s') (heap s')"
    using osi_inv_closing [OF assms(1)] osi_inv_free_closing [OF assms(1,2)] assms(5,7,9)
    by (auto simp: closing_ok_def links_to_upd split: if_splits)
  have "heap_sum obj_held (heap s') = heap_sum obj_held (heap s) + obj_held x"
    unfolding assms(5) by (rule heap_sum_new [OF osi_inv_finite [OF assms(1)] assms(2)])
  then show "locked s' = heap_sum obj_held (heap s') + X"
    unfolding assms(6) osi_inv_locked [OF assms(1)] by simp
qed (rule assms(8))

lemma osi_inv_new:
  assumes "osi_inv X s" and "heap s' = (heap s)(Suc (mallocs s) \<mapsto> x)" and "locked s' = locked s + obj_held x"
    and "Suc (mallocs s) \<le> mallocs s'" and "closing s' = closing s" and "heap_ok (heap s')"
    and "\<forall>p. obj_link x = Some (p, True) \<longrightarrow> closing s p = None"
  shows "osi_inv X s'"
  using assms by (intro osi_inv_add [OF assms(1) osi_inv_fresh [OF assms(1)]]) simp_all

lemma osi_inv_upd:
  assumes "osi_inv X s" and "heap s a = Some x" and "heap s' = (heap s)(a \<mapsto> y)"
    and "locked s' + obj_held x = locked s + obj_held y"
    and "mallocs s \<le> mallocs s'" and "closing s' = closing s" and "\<forall>cb. closing s a = Some cb \<longrightarrow> closes cb y"
    and "port_kind x = None \<or> port_kind y = port_kind x" and "obj_link y = None \<or> obj_link y = obj_link x"
    and "obj_ok y"
  shows "osi_inv X s'"
proof (rule osi_invI)
  show "finite (dom (heap s'))" using assms(3) osi_inv_finite [OF assms(1)] by simp
  have dom: "dom (heap s') = dom (heap s)" using assms(2,3) by auto
  show "0 < b \<and> b \<le> mallocs s'" if "b \<in> dom (heap s')" for b
    using osi_inv_addr [OF assms(1), of b] that dom assms(5) by auto
  have old: "links_to (heap s) p True b" if "links_to (heap s') p True b" for p b
    using that assms(2,3,9) by (auto simp: links_to_upd links_to_def split: if_splits)
  have "\<not> links_to (heap s') p True b" if "closing s p = Some cb" for p b cb
    using closing_ok_link [OF osi_inv_closing [OF assms(1)] old, of p b] that by auto
  moreover have "\<exists>z. heap s' b = Some z \<and> closes cb z" if "closing s b = Some cb" for b cb
  proof (cases "b = a")
    case True
    then show ?thesis using assms(3,7) that by simp
  next
    case False
    then show ?thesis using closing_ok_closes [OF osi_inv_closing [OF assms(1)] that] assms(3) by simp
  qed
  ultimately show "closing_ok (closing s') (heap s')"
    unfolding closing_ok_def assms(6) by blast
  show "heap_ok (heap s')"
    unfolding assms(3) by (rule heap_ok_upd [OF osi_inv_heap [OF assms(1)] assms(2,8,9,10)])
  have "heap_sum obj_held (heap s') + obj_held x = heap_sum obj_held (heap s) + obj_held y"
    unfolding assms(3) by (rule heap_sum_upd [OF osi_inv_finite [OF assms(1)] assms(2)])
  then have "locked s' + obj_held x = (heap_sum obj_held (heap s') + X) + obj_held x"
    unfolding assms(4) osi_inv_locked [OF assms(1)] by (simp add: add_ac)
  then show "locked s' = heap_sum obj_held (heap s') + X" by simp
qed

lemma osi_inv_del_linked:
  assumes "osi_inv X s" and "heap s a = Some x" and "heap s' = (heap s)(a := None)"
    and "locked s' + obj_held x = locked s"
    and "mallocs s \<le> mallocs s'" and "closing s' = (closing s)(a := None)" and "heap_ok (heap s')"
  shows "osi_inv X s'"
proof (rule osi_invI)
  show "finite (dom (heap s'))" using assms(3) osi_inv_finite [OF assms(1)] by simp
  show "0 < b \<and> b \<le> mallocs s'" if "b \<in> dom (heap s')" for b
    using osi_inv_addr [OF assms(1), of b] that assms(3,5) by (auto split: if_splits)
  show "closing_ok (closing s') (heap s')"
    using osi_inv_closing [OF assms(1)] assms(3,6) by (auto simp: closing_ok_def links_to_del)
  have "heap_sum obj_held (heap s) = heap_sum obj_held (heap s') + obj_held x"
    unfolding assms(3) by (rule heap_sum_del [OF osi_inv_finite [OF assms(1)] assms(2)])
  then have "locked s' + obj_held x = (heap_sum obj_held (heap s') + X) + obj_held x"
    unfolding assms(4) osi_inv_locked [OF assms(1)] by (simp add: add_ac)
  then show "locked s' = heap_sum obj_held (heap s') + X" by simp
qed (rule assms(7))

lemma osi_inv_del:
  assumes "osi_inv X s" and "heap s a = Some x" and "heap s' = (heap s)(a := None)"
    and "locked s' + obj_held x = locked s"
    and "mallocs s \<le> mallocs s'" and "closing s' = (closing s)(a := None)" and "port_kind x = None"
  shows "osi_inv X s'"
proof -
  have "heap_ok (heap s')"
    unfolding assms(3) by (rule heap_ok_del [OF osi_inv_heap [OF assms(1)] assms(2,7)])
  then show ?thesis by (rule osi_inv_del_linked [OF assms(1-6)])
qed

lemma osi_inv_close:
  assumes "osi_inv X s" and "heap s a = Some x" and "closes cb x" and "heap s' = heap s"
    and "locked s' = locked s" and "mallocs s' = mallocs s" and "closing s' = (closing s)(a \<mapsto> cb)"
    and "\<forall>b. \<not> links_to (heap s) a True b"
  shows "osi_inv X s'"
  using assms unfolding osi_inv_def closing_ok_def by auto

lemma owed_new: "osi_inv X s \<Longrightarrow> heap s' = (heap s)(Suc (mallocs s) \<mapsto> x) \<Longrightarrow> owed s' = owed s + obj_owed x"
  by (simp add: owed_def heap_sum_new osi_inv_finite osi_inv_fresh)

lemma owed_add: "osi_inv X s \<Longrightarrow> heap s a = None \<Longrightarrow> heap s' = (heap s)(a \<mapsto> x) \<Longrightarrow> owed s' = owed s + obj_owed x"
  by (simp add: owed_def heap_sum_new osi_inv_finite)

lemma owed_del: "osi_inv X s \<Longrightarrow> heap s a = Some x \<Longrightarrow> heap s' = (heap s)(a := None) \<Longrightarrow> owed s = owed s' + obj_owed x"
  using heap_sum_del [of "heap s" a x obj_owed] by (simp add: owed_def osi_inv_finite)

lemma owed_upd: "osi_inv X s \<Longrightarrow> heap s a = Some x \<Longrightarrow> heap s' = (heap s)(a \<mapsto> y) \<Longrightarrow> owed s' + obj_owed x = owed s + obj_owed y"
  using heap_sum_upd [of "heap s" a x obj_owed y] by (simp add: owed_def osi_inv_finite)

lemma held_locked:
  assumes "osi_inv X s" and "heap s a = Some x" and "v \<in># obj_held x"
  shows "v \<in># locked s"
  using assms heap_sum_del [of "heap s" a x obj_held] by (simp add: osi_inv_def)

lemma held_locked_sub:
  assumes "osi_inv X s" and "heap s a = Some x"
  shows "obj_held x \<subseteq># locked s"
  using assms heap_sum_del [of "heap s" a x obj_held] by (simp add: osi_inv_def)

section \<open>Contracts of asynchronous operations\<close>

text \<open>
  An operation with a callback either accepts it, returning \<open>#t\<close> and owing exactly that callback, or
  refuses it, returning an error pair and keeping nothing: no lock and no callback owed.
\<close>

definition error_pair :: "ptr \<Rightarrow> bool" where
  "error_pair r \<longleftrightarrow> (\<exists>who e. r = osi_make_error_pair who e)"

lemma error_pair_make [simp]: "error_pair (osi_make_error_pair who e)"
  by (auto simp: error_pair_def)

lemma error_pair_not_true [simp]: "osi_make_error_pair who e \<noteq> Strue" "Strue \<noteq> osi_make_error_pair who e"
  by (simp_all add: osi_make_error_pair_def)

definition accepts_or_refuses :: "ptr multiset \<Rightarrow> ptr \<Rightarrow> osi \<Rightarrow> (ptr \<times> osi) option \<Rightarrow> bool" where
  "accepts_or_refuses X cb s res \<longleftrightarrow>
     (\<exists>r s'. res = Some (r, s') \<and> osi_inv X s' \<and> g_callbacks s' = g_callbacks s
        \<and> bytevectors s' = bytevectors s
        \<and> (if r = Strue then owed s' = add_mset cb (owed s)
           else error_pair r \<and> owed s' = owed s \<and> locked s' = locked s))"

text \<open>
  A libuv callback that completes one promise: the callback is queued with its argument, it is no
  longer owed, and the invariant is kept.
\<close>

definition completes :: "ptr multiset \<Rightarrow> ptr \<Rightarrow> osi \<Rightarrow> osi option \<Rightarrow> bool" where
  "completes X cb s res \<longleftrightarrow>
     (\<exists>s' q args. res = Some s' \<and> osi_inv X s' \<and> g_callbacks s = Some q
        \<and> g_callbacks s' = Some (Scons (Scons cb args) q) \<and> owed s = add_mset cb (owed s'))"


text \<open>
  The callbacks waiting in the queue. What is owed plus what is queued never changes when a
  promise is kept; \<open>conserves\<close> is that law for a libuv callback that may keep several.
\<close>

fun queued :: "ptr \<Rightarrow> ptr multiset" where
  "queued (Scons (Scons cb args) q) = add_mset cb (queued q)"
| "queued _ = {#}"

definition in_flight :: "osi \<Rightarrow> ptr multiset" where
  "in_flight s = owed s + (case g_callbacks s of None \<Rightarrow> {#} | Some q \<Rightarrow> queued q)"

definition conserves :: "ptr multiset \<Rightarrow> osi \<Rightarrow> osi option \<Rightarrow> bool" where
  "conserves X s res \<longleftrightarrow>
     (\<exists>s'. res = Some s' \<and> osi_inv X s' \<and> g_callbacks s' \<noteq> None \<and> in_flight s' = in_flight s)"

lemma completes_conserves: "completes X cb s res \<Longrightarrow> conserves X s res"
  by (auto simp: completes_def conserves_def in_flight_def)

lemma completesI2:
  assumes "osi_inv X s'" and "owed s = add_mset cb (owed s')" and "g_callbacks s = Some q"
    and "g_callbacks s' = Some (Scons (Scons cb args) q)"
  shows "completes X cb s (Some s')"
  using assms by (auto simp: completes_def)

lemma refusesI:
  assumes "osi_inv X s" and "heap s' = heap s" and "locked s' = locked s" and "mallocs s \<le> mallocs s'"
    and "closing s' = closing s" and "g_callbacks s' = g_callbacks s" and "bytevectors s' = bytevectors s"
  shows "accepts_or_refuses X cb s (Some (osi_make_error_pair who e, s'))"
  using assms osi_inv_same [OF assms(1-4)] osi_inv_closing [OF assms(1)]
  by (simp add: accepts_or_refuses_def owed_def)

lemma acceptsI_linked:
  assumes "osi_inv X s" and "heap s' = (heap s)(Suc (mallocs s) \<mapsto> x)" and "locked s' = locked s + obj_held x"
    and "mallocs s' = Suc (mallocs s)" and "closing s' = closing s" and "g_callbacks s' = g_callbacks s"
    and "bytevectors s' = bytevectors s" and "obj_owed x = {#cb#}" and "heap_ok (heap s')"
    and "\<forall>p. obj_link x = Some (p, True) \<longrightarrow> closing s p = None"
  shows "accepts_or_refuses X cb s (Some (Strue, s'))"
proof -
  have "osi_inv X s'" using assms(4,5,9,10) by (intro osi_inv_new [OF assms(1-3)]) auto
  with owed_new [OF assms(1,2)] assms(6-8) show ?thesis by (simp add: accepts_or_refuses_def)
qed

lemma acceptsI:
  assumes "osi_inv X s" and "heap s' = (heap s)(Suc (mallocs s) \<mapsto> x)" and "locked s' = locked s + obj_held x"
    and "mallocs s' = Suc (mallocs s)" and "closing s' = closing s" and "g_callbacks s' = g_callbacks s"
    and "bytevectors s' = bytevectors s" and "obj_owed x = {#cb#}" and "obj_link x = None" and "obj_ok x"
  shows "accepts_or_refuses X cb s (Some (Strue, s'))"
proof -
  have "heap_ok (heap s')"
    unfolding assms(2) by (rule heap_ok_new [OF osi_inv_heap [OF assms(1)] osi_inv_fresh [OF assms(1)] assms(9,10)])
  then show ?thesis using assms(9) by (intro acceptsI_linked [OF assms(1-8)]) simp_all
qed

lemma completesI:
  assumes "osi_inv X s" and "heap s a = Some x" and "heap s' = (heap s)(a := None)"
    and "locked s' + obj_held x = locked s" and "mallocs s' = mallocs s" and "closing s' = closing s"
    and "g_callbacks s = Some q" and "g_callbacks s' = Some (Scons (Scons cb args) q)" and "obj_owed x = {#cb#}"
    and "port_kind x = None" and "\<forall>cb. \<not> closes cb x"
  shows "completes X cb s (Some s')"
proof -
  have "closing s a = None" by (rule osi_inv_not_closing [OF assms(1,2,11)])
  then have "osi_inv X s'"
    using assms(5,6,10) by (intro osi_inv_del [OF assms(1-4)]) auto
  with owed_del [OF assms(1-3)] assms(7-9) show ?thesis by (auto simp: completes_def)
qed

lemmas osi_ops_defs [osi_ops] =
  malloc_container_def store_def c_free_def load_fs_port_def load_stream_port_def
  Slock_object_def Sunlock_object_def uv_do_def uv_void_def uv_close_def Let_def

lemmas osi_queue_defs [osi_queue] =
  osi_add_callback_list_def osi_add_callback1_def osi_add_callback2_def osi_add_callback3_def


section \<open>A concrete environment\<close>

text \<open>
  An environment in which every allocation and every libuv call succeeds, and the empty state:
  the instance at which theorems with hypotheses are exercised.
\<close>

definition quiet_env :: env where
  "quiet_env = \<lparr>uv = (\<lambda>_ _. 0), uv_errno = (\<lambda>_. - 1), oom = (\<lambda>_. False),
     Sstring_utf8 = (\<lambda>bs. case utf8_decode bs of Some s \<Rightarrow> Sstring s | None \<Rightarrow> Sfalse)\<rparr>"

definition osi_start :: osi where
  "osi_start = \<lparr>g_callbacks = None, locked = {#}, heap = Map.empty, mallocs = 0, calls = [],
     closing = Map.empty, bytevectors = (\<lambda>_. []), sqlite_objs = {}\<rparr>"

lemma osi_inv_start: "osi_inv {#} osi_start"
  by (simp add: osi_inv_def osi_start_def heap_sum_def closing_ok_def heap_ok_def links_to_def)

lemma osi_inv_start_set: "osi_inv {#} (osi_start\<lparr>g_callbacks := q, bytevectors := b\<rparr>)"
  by (rule osi_inv_same [OF osi_inv_start]) simp_all

end
