(* ===== verification/Fs_Ports.thy ===== *)
theory Fs_Ports
  imports Osi_State
begin

text \<open>
  File ports and the other file-system requests of \<^verbatim>\<open>osi.c\<close>. Each operation allocates a request
  object, locks what the request refers to, submits it, and undoes everything if libuv refuses;
  the matching libuv callback releases the request and queues the Scheme callback.
\<close>

section \<open>Operations\<close>

subsection \<open>Reading and writing\<close>

definition rw_fs_cb :: "uptr \<Rightarrow> int \<Rightarrow> osi \<Rightarrow> osi option" where
  "rw_fs_cb req result s =
     (case heap s req of
        Some (Rw_fs_req buffer callback) \<Rightarrow> do {
          let s = uv_void (Fs (Uv_fs_req_cleanup req)) s;
          s \<leftarrow> Sunlock_object buffer s;
          s \<leftarrow> Sunlock_object callback s;
          s \<leftarrow> c_free req s;
          osi_add_callback1 callback (Sinteger result) s
        }
      | _ \<Rightarrow> None)"

definition read_fs_port ::
  "env \<Rightarrow> uptr \<Rightarrow> ptr \<Rightarrow> u64 \<Rightarrow> u32 \<Rightarrow> int \<Rightarrow> ptr \<Rightarrow> osi \<Rightarrow> (ptr \<times> osi) option" where
  "read_fs_port E port buffer start_index sz offset callback s =
     (let (req, s) = malloc_container E s
      in if req = 0 then Some (osi_make_error_pair ''osi_read_port'' (uv_errno E ENOMEM), s)
         else do {
           let s = Slock_object buffer s;
           let s = Slock_object callback s;
           s \<leftarrow> store req (Rw_fs_req buffer callback) s;
           p \<leftarrow> load_fs_port port s;
           let (rc, s) = uv_do E (Fs (Uv_fs_read req (fs_file p) (buffer, start_index, sz) offset)) s;
           if rc < 0 then do {
             s \<leftarrow> Sunlock_object buffer s;
             s \<leftarrow> Sunlock_object callback s;
             s \<leftarrow> c_free req s;
             Some (osi_make_error_pair ''uv_fs_read'' rc, s)
           } else Some (Strue, s)
         })"

definition write_fs_port ::
  "env \<Rightarrow> uptr \<Rightarrow> ptr \<Rightarrow> u64 \<Rightarrow> u32 \<Rightarrow> int \<Rightarrow> ptr \<Rightarrow> osi \<Rightarrow> (ptr \<times> osi) option" where
  "write_fs_port E port buffer start_index sz offset callback s =
     (let (req, s) = malloc_container E s
      in if req = 0 then Some (osi_make_error_pair ''osi_write_port'' (uv_errno E ENOMEM), s)
         else do {
           let s = Slock_object buffer s;
           let s = Slock_object callback s;
           s \<leftarrow> store req (Rw_fs_req buffer callback) s;
           p \<leftarrow> load_fs_port port s;
           let (rc, s) = uv_do E (Fs (Uv_fs_write req (fs_file p) (buffer, start_index, sz) offset)) s;
           if rc < 0 then do {
             s \<leftarrow> Sunlock_object buffer s;
             s \<leftarrow> Sunlock_object callback s;
             s \<leftarrow> c_free req s;
             Some (osi_make_error_pair ''uv_fs_write'' rc, s)
           } else Some (Strue, s)
         })"

subsection \<open>Closing\<close>

definition close_fs_cb :: "uptr \<Rightarrow> int \<Rightarrow> osi \<Rightarrow> osi option" where
  "close_fs_cb req result s =
     (case heap s req of
        Some (Close_fs_req port callback) \<Rightarrow> do {
          let s = uv_void (Fs (Uv_fs_req_cleanup req)) s;
          s \<leftarrow> Sunlock_object callback s;
          s \<leftarrow> c_free port s;
          s \<leftarrow> c_free req s;
          osi_add_callback1 callback (Sinteger result) s
        }
      | _ \<Rightarrow> None)"

definition close_fs_port :: "env \<Rightarrow> uptr \<Rightarrow> ptr \<Rightarrow> osi \<Rightarrow> (ptr \<times> osi) option" where
  "close_fs_port E port callback s =
     (let (req, s) = malloc_container E s
      in if req = 0 then Some (osi_make_error_pair ''osi_close_port'' (uv_errno E ENOMEM), s)
         else do {
           let s = Slock_object callback s;
           s \<leftarrow> store req (Close_fs_req port callback) s;
           p \<leftarrow> load_fs_port port s;
           let (rc, s) = uv_do E (Fs (Uv_fs_close req (fs_file p))) s;
           if rc < 0 then do {
             s \<leftarrow> Sunlock_object callback s;
             s \<leftarrow> c_free req s;
             Some (osi_make_error_pair ''uv_fs_close'' rc, s)
           } else Some (Strue, s)
         })"

text \<open>\<^verbatim>\<open>close_async_cb\<close> and \<^verbatim>\<open>close_signal_cb\<close> are the same function.\<close>

definition close_async_cb :: "uptr \<Rightarrow> osi \<Rightarrow> osi option" where
  "close_async_cb handle s = c_free handle (s\<lparr>closing := (closing s)(handle := None)\<rparr>)"

definition close_fd_cb :: "uptr \<Rightarrow> osi \<Rightarrow> osi option" where
  "close_fd_cb async s =
     (case heap s async of
        Some (Uv_async (Some callback) fired) \<Rightarrow> do {
          s \<leftarrow> Sunlock_object callback s;
          s \<leftarrow> uv_close async Close_async_cb s;
          s \<leftarrow> store async (Uv_async (Some callback) True) s;
          osi_add_callback1 callback (Sinteger 0) s
        }
      | _ \<Rightarrow> None)"

definition close_fd_port :: "env \<Rightarrow> uptr \<Rightarrow> ptr \<Rightarrow> osi \<Rightarrow> (ptr \<times> osi) option" where
  "close_fd_port E port callback s =
     (let (async, s) = malloc_container E s
      in if async = 0 then Some (osi_make_error_pair ''osi_close_fd_port'' (uv_errno E ENOMEM), s)
         else let (rc, s) = uv_do E (Hnd (Uv_async_init async)) s
         in if rc < 0 then Some (osi_make_error_pair ''uv_async_init'' rc, s)
         else let (rc, s) = uv_do E (Hnd (Uv_async_send async)) s
         in if rc < 0 then Some (osi_make_error_pair ''uv_async_send'' rc, s)
         else do {
           let s = Slock_object callback s;
           s \<leftarrow> store async (Uv_async (Some callback) False) s;
           s \<leftarrow> c_free port s;
           Some (Strue, s)
         })"

subsection \<open>Opening\<close>

definition open_fs_cb :: "env \<Rightarrow> uptr \<Rightarrow> int \<Rightarrow> osi \<Rightarrow> osi option" where
  "open_fs_cb E req result s =
     (case heap s req of
        Some (Uv_fs cb callback) \<Rightarrow> do {
          let s = uv_void (Fs (Uv_fs_req_cleanup req)) s;
          s \<leftarrow> Sunlock_object callback s;
          s \<leftarrow> c_free req s;
          if result < 0 then osi_add_callback1 callback (osi_make_error_pair ''uv_fs_open'' result) s
          else let (port, s) = malloc_container E s
          in if port = 0
             then osi_add_callback1 callback (osi_make_error_pair ''uv_fs_open'' (uv_errno E ENOMEM)) s
             else do {
               s \<leftarrow> store port (Fs_port \<lparr>fs_vtable = File_vtable, fs_file = result\<rparr>) s;
               osi_add_callback1 callback (Sunsigned port) s
             }
        }
      | _ \<Rightarrow> None)"

definition osi_open_fd :: "env \<Rightarrow> int \<Rightarrow> bool \<Rightarrow> osi \<Rightarrow> (ptr \<times> osi) option" where
  "osi_open_fd E fd close s =
     (if fd < 0 \<or> (close \<and> fd \<le> 2)
      then Some (osi_make_error_pair ''osi_open_fd'' (uv_errno E EINVAL), s)
      else let (port, s) = malloc_container E s
      in if port = 0 then Some (osi_make_error_pair ''osi_open_fd'' (uv_errno E ENOMEM), s)
      else do {
        s \<leftarrow> store port (Fs_port \<lparr>fs_vtable = (if close then File_vtable else Fd_vtable), fs_file = fd\<rparr>) s;
        Some (Sunsigned port, s)
      })"

subsection \<open>Requests on paths\<close>

text \<open>
  The body shared by the operations that submit a bare \<^verbatim>\<open>uv_fs_t\<close>: \<open>who\<close> names the operation,
  \<open>uv_who\<close> the libuv function, \<open>call\<close> builds the call for a request and \<open>cb\<close> is the callback passed.
\<close>

definition submit_fs :: "env \<Rightarrow> string \<Rightarrow> string \<Rightarrow> (uptr \<Rightarrow> uv_fs_call) \<Rightarrow> fs_cb \<Rightarrow> ptr \<Rightarrow> osi \<Rightarrow> (ptr \<times> osi) option" where
  "submit_fs E who uv_who call cb callback s =
     (let (req, s) = malloc_container E s
      in if req = 0 then Some (osi_make_error_pair who (uv_errno E ENOMEM), s)
         else do {
           let s = Slock_object callback s;
           s \<leftarrow> store req (Uv_fs cb callback) s;
           let (rc, s) = uv_do E (Fs (call req)) s;
           if rc < 0 then do {
             s \<leftarrow> Sunlock_object callback s;
             s \<leftarrow> c_free req s;
             Some (osi_make_error_pair uv_who rc, s)
           } else Some (Strue, s)
         })"

definition osi_open_file :: "env \<Rightarrow> u8 list \<Rightarrow> int \<Rightarrow> int \<Rightarrow> ptr \<Rightarrow> osi \<Rightarrow> (ptr \<times> osi) option" where
  "osi_open_file E path flags mode callback =
     submit_fs E ''osi_open_file'' ''uv_fs_open'' (\<lambda>req. Uv_fs_open req path flags mode) Open_fs_cb callback"

definition osi_chmod :: "env \<Rightarrow> u8 list \<Rightarrow> int \<Rightarrow> ptr \<Rightarrow> osi \<Rightarrow> (ptr \<times> osi) option" where
  "osi_chmod E path mode callback =
     submit_fs E ''osi_chmod'' ''uv_fs_chmod'' (\<lambda>req. Uv_fs_chmod req path mode) Return_fs_result_cb callback"

definition osi_make_directory :: "env \<Rightarrow> u8 list \<Rightarrow> int \<Rightarrow> ptr \<Rightarrow> osi \<Rightarrow> (ptr \<times> osi) option" where
  "osi_make_directory E path mode callback =
     submit_fs E ''osi_make_directory'' ''uv_fs_mkdir'' (\<lambda>req. Uv_fs_mkdir req path mode) Return_fs_result_cb callback"

definition osi_remove_directory :: "env \<Rightarrow> u8 list \<Rightarrow> ptr \<Rightarrow> osi \<Rightarrow> (ptr \<times> osi) option" where
  "osi_remove_directory E path callback =
     submit_fs E ''osi_remove_directory'' ''uv_fs_rmdir'' (\<lambda>req. Uv_fs_rmdir req path) Return_fs_result_cb callback"

definition osi_rename :: "env \<Rightarrow> u8 list \<Rightarrow> u8 list \<Rightarrow> ptr \<Rightarrow> osi \<Rightarrow> (ptr \<times> osi) option" where
  "osi_rename E path new_path callback =
     submit_fs E ''osi_rename'' ''uv_fs_rename'' (\<lambda>req. Uv_fs_rename req path new_path) Return_fs_result_cb callback"

definition osi_unlink :: "env \<Rightarrow> u8 list \<Rightarrow> ptr \<Rightarrow> osi \<Rightarrow> (ptr \<times> osi) option" where
  "osi_unlink E path callback =
     submit_fs E ''osi_unlink'' ''uv_fs_unlink'' (\<lambda>req. Uv_fs_unlink req path) Return_fs_result_cb callback"

definition osi_get_real_path :: "env \<Rightarrow> u8 list \<Rightarrow> ptr \<Rightarrow> osi \<Rightarrow> (ptr \<times> osi) option" where
  "osi_get_real_path E path callback =
     submit_fs E ''osi_get_real_path'' ''uv_fs_realpath'' (\<lambda>req. Uv_fs_realpath req path) Get_real_path_cb callback"

definition osi_list_directory :: "env \<Rightarrow> u8 list \<Rightarrow> ptr \<Rightarrow> osi \<Rightarrow> (ptr \<times> osi) option" where
  "osi_list_directory E path callback =
     submit_fs E ''osi_list_directory'' ''uv_fs_scandir'' (\<lambda>req. Uv_fs_scandir req path) List_directory_cb callback"

definition osi_get_stat :: "env \<Rightarrow> u8 list \<Rightarrow> bool \<Rightarrow> ptr \<Rightarrow> osi \<Rightarrow> (ptr \<times> osi) option" where
  "osi_get_stat E path follow callback =
     submit_fs E ''osi_get_stat'' (if follow then ''uv_fs_stat'' else ''uv_fs_lstat'')
       (\<lambda>req. if follow then Uv_fs_stat req path else Uv_fs_lstat req path) Stat_cb callback"

definition osi_get_file_size :: "env \<Rightarrow> uptr \<Rightarrow> ptr \<Rightarrow> osi \<Rightarrow> (ptr \<times> osi) option" where
  "osi_get_file_size E port callback s =
     (case heap s port of
        Some (Fs_port p) \<Rightarrow>
          if fs_vtable p \<noteq> File_vtable
          then Some (osi_make_error_pair ''osi_get_file_size'' (uv_errno E EINVAL), s)
          else submit_fs E ''osi_get_file_size'' ''uv_fs_fstat'' (\<lambda>req. Uv_fs_fstat req (fs_file p))
                 Get_file_size_cb callback s
      | Some (Stream_port p) \<Rightarrow> Some (osi_make_error_pair ''osi_get_file_size'' (uv_errno E EINVAL), s)
      | _ \<Rightarrow> None)"

subsection \<open>Completion of requests on paths\<close>

record uv_timespec_t =
  tv_sec :: int
  tv_nsec :: int

record uv_stat_t =
  st_dev :: u64
  st_mode :: u64
  st_nlink :: u64
  st_uid :: u64
  st_gid :: u64
  st_rdev :: u64
  st_ino :: u64
  st_size :: u64
  st_blksize :: u64
  st_blocks :: u64
  st_flags :: u64
  st_gen :: u64
  st_atim :: uv_timespec_t
  st_mtim :: uv_timespec_t
  st_ctim :: uv_timespec_t
  st_birthtim :: uv_timespec_t

text \<open>What libuv leaves in a completed \<^verbatim>\<open>uv_fs_t\<close>; the directory entries come from \<^verbatim>\<open>uv_fs_scandir_next\<close>.\<close>

record fs_outcome =
  fs_result :: int
  fs_statbuf :: uv_stat_t
  fs_ptr :: "u8 list"
  fs_dirents :: "(u8 list \<times> int) list"

definition make_time :: "uv_timespec_t \<Rightarrow> ptr" where
  "make_time ts = Scons (Sinteger32 (tv_sec ts)) (Sinteger32 (tv_nsec ts))"

text \<open>The lines after the result has been queued: clean up, unlock the callback and free the request.\<close>

definition finish_fs :: "uptr \<Rightarrow> ptr \<Rightarrow> osi \<Rightarrow> osi option" where
  "finish_fs req callback s = do {
     let s = uv_void (Fs (Uv_fs_req_cleanup req)) s;
     s \<leftarrow> Sunlock_object callback s;
     c_free req s
   }"

definition get_file_size_cb :: "uptr \<Rightarrow> fs_outcome \<Rightarrow> osi \<Rightarrow> osi option" where
  "get_file_size_cb req out s =
     (case heap s req of
        Some (Uv_fs cb callback) \<Rightarrow> do {
          s \<leftarrow> (if fs_result out < 0
                then osi_add_callback1 callback (osi_make_error_pair ''uv_fs_fstat'' (fs_result out)) s
                else osi_add_callback1 callback (Sunsigned64 (st_size (fs_statbuf out))) s);
          finish_fs req callback s
        }
      | _ \<Rightarrow> None)"

definition get_real_path_cb :: "env \<Rightarrow> uptr \<Rightarrow> fs_outcome \<Rightarrow> osi \<Rightarrow> osi option" where
  "get_real_path_cb E req out s =
     (case heap s req of
        Some (Uv_fs cb callback) \<Rightarrow> do {
          s \<leftarrow> (if fs_result out < 0
                then osi_add_callback1 callback (osi_make_error_pair ''uv_fs_realpath'' (fs_result out)) s
                else osi_add_callback1 callback (Sstring_utf8 E (fs_ptr out)) s);
          finish_fs req callback s
        }
      | _ \<Rightarrow> None)"

definition return_fs_result_cb :: "uptr \<Rightarrow> fs_outcome \<Rightarrow> osi \<Rightarrow> osi option" where
  "return_fs_result_cb req out s =
     (case heap s req of
        Some (Uv_fs cb callback) \<Rightarrow> do {
          s \<leftarrow> osi_add_callback1 callback (Sinteger (fs_result out)) s;
          finish_fs req callback s
        }
      | _ \<Rightarrow> None)"

definition stat_vector :: "uv_stat_t \<Rightarrow> ptr list" where
  "stat_vector st =
     [Ssymbol ''<stat>'', Sunsigned64 (st_dev st), Sunsigned64 (st_mode st), Sunsigned64 (st_nlink st),
      Sunsigned64 (st_uid st), Sunsigned64 (st_gid st), Sunsigned64 (st_rdev st), Sunsigned64 (st_ino st),
      Sunsigned64 (st_size st), Sunsigned64 (st_blksize st), Sunsigned64 (st_blocks st),
      Sunsigned64 (st_flags st), Sunsigned64 (st_gen st), make_time (st_atim st), make_time (st_mtim st),
      make_time (st_ctim st), make_time (st_birthtim st)]"

definition stat_cb :: "uptr \<Rightarrow> fs_outcome \<Rightarrow> osi \<Rightarrow> osi option" where
  "stat_cb req out s =
     (case heap s req of
        Some (Uv_fs cb callback) \<Rightarrow> do {
          s \<leftarrow> (if fs_result out < 0 then osi_add_callback1 callback (Sinteger (fs_result out)) s
                else osi_add_callback1 callback (Svector (stat_vector (fs_statbuf out))) s);
          finish_fs req callback s
        }
      | _ \<Rightarrow> None)"

fun scandir_loop :: "env \<Rightarrow> (u8 list \<times> int) list \<Rightarrow> ptr \<Rightarrow> ptr" where
  "scandir_loop E [] ls = ls"
| "scandir_loop E ((name, type) # ents) ls =
     scandir_loop E ents (Scons (Scons (Sstring_utf8 E name) (Sinteger type)) ls)"

definition list_directory_cb :: "env \<Rightarrow> uptr \<Rightarrow> fs_outcome \<Rightarrow> osi \<Rightarrow> osi option" where
  "list_directory_cb E req out s =
     (case heap s req of
        Some (Uv_fs cb callback) \<Rightarrow> do {
          s \<leftarrow> (if fs_result out < 0 then osi_add_callback1 callback (Sinteger (fs_result out)) s
                else osi_add_callback1 callback (scandir_loop E (fs_dirents out) Snil) s);
          finish_fs req callback s
        }
      | _ \<Rightarrow> None)"

text \<open>libuv calls the function that was registered with the request.\<close>

definition run_fs_cb :: "env \<Rightarrow> uptr \<Rightarrow> fs_outcome \<Rightarrow> osi \<Rightarrow> osi option" where
  "run_fs_cb E req out s =
     (case heap s req of
        Some (Uv_fs Open_fs_cb _) \<Rightarrow> open_fs_cb E req (fs_result out) s
      | Some (Uv_fs Get_file_size_cb _) \<Rightarrow> get_file_size_cb req out s
      | Some (Uv_fs Get_real_path_cb _) \<Rightarrow> get_real_path_cb E req out s
      | Some (Uv_fs Return_fs_result_cb _) \<Rightarrow> return_fs_result_cb req out s
      | Some (Uv_fs Stat_cb _) \<Rightarrow> stat_cb req out s
      | Some (Uv_fs List_directory_cb _) \<Rightarrow> list_directory_cb E req out s
      | Some (Rw_fs_req _ _) \<Rightarrow> rw_fs_cb req (fs_result out) s
      | Some (Close_fs_req _ _) \<Rightarrow> close_fs_cb req (fs_result out) s
      | _ \<Rightarrow> None)"


section \<open>Contracts\<close>

lemma submit_fs_contract:
  assumes inv: "osi_inv X s"
  shows "accepts_or_refuses X callback s (submit_fs E who uv_who call cb callback s)"
proof -
  note fresh = osi_inv_fresh [OF inv]
  consider (oom) "oom E (mallocs s)"
    | (fail) "\<not> oom E (mallocs s)" "uv E (Fs (call (Suc (mallocs s)))) (length (calls s)) < 0"
    | (ok) "\<not> oom E (mallocs s)" "\<not> uv E (Fs (call (Suc (mallocs s)))) (length (calls s)) < 0" by blast
  then show ?thesis
  proof cases
    case oom
    then show ?thesis by (simp add: submit_fs_def osi_ops) (rule refusesI [OF inv]; simp)
  next
    case fail
    then show ?thesis
      by (simp add: submit_fs_def osi_ops) (rule refusesI [OF inv]; simp add: fun_upd_idem fresh)
  next
    case ok
    then show ?thesis
      by (simp add: submit_fs_def osi_ops) (rule acceptsI [OF inv, where x = "Uv_fs cb callback"]; simp)
  qed
qed

lemma read_fs_port_contract:
  assumes inv: "osi_inv X s" and port: "heap s port = Some (Fs_port p)"
  shows "accepts_or_refuses X callback s (read_fs_port E port buffer start_index sz offset callback s)"
proof -
  note fresh = osi_inv_fresh [OF inv]
  have ne: "port \<noteq> Suc (mallocs s)" using fresh port by auto
  let ?c = "Fs (Uv_fs_read (Suc (mallocs s)) (fs_file p) (buffer, start_index, sz) offset)"
  consider (oom) "oom E (mallocs s)"
    | (fail) "\<not> oom E (mallocs s)" "uv E ?c (length (calls s)) < 0"
    | (ok) "\<not> oom E (mallocs s)" "\<not> uv E ?c (length (calls s)) < 0" by blast
  then show ?thesis
  proof cases
    case oom
    then show ?thesis by (simp add: read_fs_port_def osi_ops) (rule refusesI [OF inv]; simp)
  next
    case fail
    then show ?thesis
      using port ne by (simp add: read_fs_port_def osi_ops) (rule refusesI [OF inv]; simp add: fun_upd_idem fresh)
  next
    case ok
    then show ?thesis
      using port ne by (simp add: read_fs_port_def osi_ops)
        (rule acceptsI [OF inv, where x = "Rw_fs_req buffer callback"]; simp)
  qed
qed


lemma write_fs_port_contract:
  assumes inv: "osi_inv X s" and port: "heap s port = Some (Fs_port p)"
  shows "accepts_or_refuses X callback s (write_fs_port E port buffer start_index sz offset callback s)"
proof -
  note fresh = osi_inv_fresh [OF inv]
  have ne: "port \<noteq> Suc (mallocs s)" using fresh port by auto
  let ?c = "Fs (Uv_fs_write (Suc (mallocs s)) (fs_file p) (buffer, start_index, sz) offset)"
  consider (oom) "oom E (mallocs s)"
    | (fail) "\<not> oom E (mallocs s)" "uv E ?c (length (calls s)) < 0"
    | (ok) "\<not> oom E (mallocs s)" "\<not> uv E ?c (length (calls s)) < 0" by blast
  then show ?thesis
  proof cases
    case oom
    then show ?thesis by (simp add: write_fs_port_def osi_ops) (rule refusesI [OF inv]; simp)
  next
    case fail
    then show ?thesis
      using port ne by (simp add: write_fs_port_def osi_ops) (rule refusesI [OF inv]; simp add: fun_upd_idem fresh)
  next
    case ok
    then show ?thesis
      using port ne by (simp add: write_fs_port_def osi_ops)
        (rule acceptsI [OF inv, where x = "Rw_fs_req buffer callback"]; simp)
  qed
qed

text \<open>A file port that no pending close request refers to.\<close>

definition closable :: "osi \<Rightarrow> uptr \<Rightarrow> bool" where
  "closable s port \<longleftrightarrow> (\<exists>p. heap s port = Some (Fs_port p)) \<and> (\<forall>a. \<not> links_to (heap s) port False a)"

lemma heap_ok_close:
  assumes "heap_ok h" and "h a = Some (Close_fs_req p c)"
  shows "heap_ok (h(p := None, a := None))"
proof -
  have to: "links_to h p False a" using assms(2) by (simp add: links_to_def)
  obtain y where y: "h p = Some y" "port_kind y = Some False" using heap_ok_port [OF assms(1) to] by blast
  have "p \<noteq> a" using y assms(2) by auto
  have "heap_ok (h(a := None))" using heap_ok_del [OF assms] by simp
  moreover have "\<not> links_to (h(a := None)) p k b" for k b
    using heap_ok_unique [OF assms(1) to, of b] heap_ok_no_link [OF assms(1) y(1), of k b] y(2)
    by (cases k) (auto simp: links_to_del)
  ultimately show ?thesis using \<open>p \<noteq> a\<close> by (simp add: fun_upd_twist heap_ok_del_port)
qed

lemma close_fs_port_contract:
  assumes inv: "osi_inv X s" and port: "closable s port"
  shows "accepts_or_refuses X callback s (close_fs_port E port callback s)"
proof -
  note fresh = osi_inv_fresh [OF inv]
  obtain p where p: "heap s port = Some (Fs_port p)" and np: "\<forall>b. \<not> links_to (heap s) port False b"
    using port by (auto simp: closable_def)
  have ne: "port \<noteq> Suc (mallocs s)" using fresh p by auto
  have links: "heap_ok ((heap s)(Suc (mallocs s) \<mapsto> Close_fs_req port callback))"
    using p np by (intro heap_ok_add [OF osi_inv_heap [OF inv] fresh]) simp_all
  let ?c = "Fs (Uv_fs_close (Suc (mallocs s)) (fs_file p))"
  consider (oom) "oom E (mallocs s)"
    | (fail) "\<not> oom E (mallocs s)" "uv E ?c (length (calls s)) < 0"
    | (ok) "\<not> oom E (mallocs s)" "\<not> uv E ?c (length (calls s)) < 0" by blast
  then show ?thesis
  proof cases
    case oom
    then show ?thesis by (simp add: close_fs_port_def osi_ops) (rule refusesI [OF inv]; simp)
  next
    case fail
    then show ?thesis
      using p ne by (simp add: close_fs_port_def osi_ops) (rule refusesI [OF inv]; simp add: fun_upd_idem fresh)
  next
    case ok
    then show ?thesis
      using p ne by (simp add: close_fs_port_def osi_ops)
        (rule acceptsI_linked [OF inv, where x = "Close_fs_req port callback"]; simp add: links)
  qed
qed

lemma refuses_leakI:
  assumes "osi_inv X s" and "heap s' = (heap s)(Suc (mallocs s) \<mapsto> Raw)" and "locked s' = locked s"
    and "mallocs s' = Suc (mallocs s)"
    and "closing s' = closing s" and "g_callbacks s' = g_callbacks s" and "bytevectors s' = bytevectors s"
  shows "accepts_or_refuses X cb s (Some (osi_make_error_pair who e, s'))"
proof -
  have "osi_inv X s'"
    using assms heap_ok_new [OF osi_inv_heap [OF assms(1)] osi_inv_fresh [OF assms(1)], of Raw]
    by (intro osi_inv_new [OF assms(1,2)]) auto
  with owed_new [OF assms(1,2)] assms(3-7) show ?thesis by (simp add: accepts_or_refuses_def)
qed

lemma close_fd_port_contract:
  assumes inv: "osi_inv X s" and port: "closable s port"
  shows "accepts_or_refuses X callback s (close_fd_port E port callback s)"
proof -
  note fresh = osi_inv_fresh [OF inv]
  obtain p where p: "heap s port = Some (Fs_port p)" and np: "\<forall>b. \<not> links_to (heap s) port False b"
    using port by (auto simp: closable_def)
  have ne: "port \<noteq> Suc (mallocs s)" "port \<noteq> 0"
    using fresh p osi_inv_null [OF inv] by (metis option.distinct(1))+
  let ?a = "Suc (mallocs s)" and ?n = "length (calls s)"
  let ?i = "uv E (Hnd (Uv_async_init ?a)) ?n" and ?s = "uv E (Hnd (Uv_async_send ?a)) (Suc ?n)"
  consider (oom) "oom E (mallocs s)" | (init) "\<not> oom E (mallocs s)" "?i < 0"
    | (send) "\<not> oom E (mallocs s)" "\<not> ?i < 0" "?s < 0"
    | (ok) "\<not> oom E (mallocs s)" "\<not> ?i < 0" "\<not> ?s < 0" by blast
  then show ?thesis
  proof cases
    case oom
    then show ?thesis by (simp add: close_fd_port_def osi_ops) (rule refusesI [OF inv]; simp)
  next
    case init
    then show ?thesis by (simp add: close_fd_port_def osi_ops) (rule refuses_leakI [OF inv]; simp)
  next
    case send
    then show ?thesis by (simp add: close_fd_port_def osi_ops) (rule refuses_leakI [OF inv]; simp)
  next
    case ok
    let ?x = "Uv_async (Some callback) False"
    let ?c = "calls s @ [Hnd (Uv_async_init ?a), Hnd (Uv_async_send ?a)]"
    let ?s1 = "s\<lparr>locked := add_mset callback (locked s), heap := (heap s)(?a \<mapsto> ?x), mallocs := ?a, calls := ?c\<rparr>"
    let ?s2 = "?s1\<lparr>heap := (heap ?s1)(port := None)\<rparr>"
    have l1: "heap_ok (heap ?s1)" using heap_ok_new [OF osi_inv_heap [OF inv] fresh, of ?x] by simp
    have i1: "osi_inv X ?s1" using l1 by (intro osi_inv_new [OF inv]) auto
    have "\<not> links_to (heap ?s1) port k b" for k b
      using np heap_ok_no_link [OF osi_inv_heap [OF inv] p, of k b] by (cases k) (simp_all add: links_to_upd)
    then have "heap_ok (heap ?s2)" using heap_ok_del_port [OF l1, of port] by simp
    moreover have "closing s port = None" using osi_inv_not_closing [OF inv p] by simp
    ultimately have i2: "osi_inv X ?s2"
      using p ne by (intro osi_inv_del_linked [OF i1, where a = port]) (auto simp: fun_upd_idem)
    have "owed ?s1 = add_mset callback (owed s)" using owed_new [OF inv, of ?s1 ?x] by simp
    moreover have "owed ?s1 = owed ?s2" using owed_del [OF i1, of port "Fs_port p" ?s2] p ne by simp
    moreover have "close_fd_port E port callback s = Some (Strue, ?s2)"
      using ok p ne by (simp add: close_fd_port_def osi_ops)
    ultimately show ?thesis using i2 by (simp add: accepts_or_refuses_def)
  qed
qed


section \<open>Completions\<close>

lemma unlock_one: "x \<in># L \<Longrightarrow> add_mset x (L - {#x#}) = L"
  by (simp add: insert_DiffM)

lemma rw_fs_cb_completes:
  assumes inv: "osi_inv X s" and req: "heap s req = Some (Rw_fs_req buffer callback)"
    and q: "g_callbacks s = Some q"
  shows "completes X callback s (rw_fs_cb req result s)"
proof -
  have sub: "{#buffer, callback#} \<subseteq># locked s" using held_locked_sub [OF inv req] by simp
  have nz: "req \<noteq> 0" using osi_inv_null [OF inv] req by (metis option.distinct(1))
  have "buffer \<in># locked s" and "callback \<in># locked s - {#buffer#}"
    using sub by (auto simp: insert_subset_eq_iff)
  moreover have "locked s - {#buffer#} - {#callback#} + {#buffer, callback#} = locked s"
    using subset_mset.diff_add [OF sub] by (simp add: add_mset_commute)
  ultimately show ?thesis
    using req q nz by (simp add: rw_fs_cb_def osi_ops osi_queue)
      (rule completesI [OF inv req]; simp)
qed

lemma finish_one:
  assumes inv: "osi_inv X s" and req: "heap s req = Some (Uv_fs cb callback)"
    and q: "g_callbacks s = Some q"
  shows "completes X callback s (Option.bind (osi_add_callback1 callback arg s) (finish_fs req callback))"
proof -
  have m: "callback \<in># locked s" using held_locked [OF inv req] by simp
  have nz: "req \<noteq> 0" using osi_inv_null [OF inv] req by (metis option.distinct(1))
  show ?thesis
    using req q nz m by (simp add: finish_fs_def osi_ops osi_queue)
      (rule completesI [OF inv req]; simp)
qed

lemma open_fs_cb_completes:
  assumes inv: "osi_inv X s" and req: "heap s req = Some (Uv_fs cb callback)"
    and q: "g_callbacks s = Some q"
  shows "completes X callback s (open_fs_cb E req result s)"
proof -
  have m: "callback \<in># locked s" using held_locked [OF inv req] by simp
  have nz: "req \<noteq> 0" using osi_inv_null [OF inv] req by (metis option.distinct(1))
  have nc: "closing s req = None" using osi_inv_not_closing [OF inv req] by simp
  let ?s1 = "s\<lparr>locked := locked s - {#callback#}, heap := (heap s)(req := None)\<rparr>"
  have i1: "osi_inv X ?s1" using m nc by (intro osi_inv_del [OF inv req]) (auto simp: fun_upd_idem)
  have o1: "owed s = add_mset callback (owed ?s1)" using owed_del [OF inv req, of ?s1] by simp
  let ?a = "Suc (mallocs s)" and ?x = "Fs_port \<lparr>fs_vtable = File_vtable, fs_file = result\<rparr>"
  have m1: "mallocs ?s1 = mallocs s" by simp
  have new: "osi_inv X s' \<and> owed s' = owed ?s1"
    if "heap s' = (heap ?s1)(?a \<mapsto> ?x)" "locked s' = locked ?s1" "mallocs s' = ?a" "closing s' = closing s" for s'
  proof -
    have "heap_ok (heap s')"
      unfolding that(1) m1 [symmetric] by (rule heap_ok_new [OF osi_inv_heap [OF i1] osi_inv_fresh [OF i1]]) simp_all
    then have "osi_inv X s'" using that by (intro osi_inv_new [OF i1, of _ ?x]) auto
    moreover have "owed s' = owed ?s1" using owed_new [OF i1, of s' ?x] that by simp
    ultimately show ?thesis by simp
  qed
  have same: "osi_inv X s' \<and> owed s' = owed ?s1"
    if "heap s' = heap ?s1" "locked s' = locked ?s1" "mallocs s \<le> mallocs s'" "closing s' = closing s" for s'
    using that osi_inv_same [OF i1, of s'] by (simp add: owed_def)
  have done1: "completes X callback s (Some s')"
    if "osi_inv X s' \<and> owed s' = owed ?s1" "g_callbacks s' = Some (Scons (Scons callback args) q)" for s' args
    using that o1 q by (auto simp: completes_def)
  consider (err) "result < 0" | (oom) "\<not> result < 0" "oom E (mallocs s)" | (ok) "\<not> result < 0" "\<not> oom E (mallocs s)"
    by blast
  then show ?thesis
  proof cases
    case err
    with req q nz m show ?thesis
      by (simp add: open_fs_cb_def osi_ops osi_queue) (rule done1 [OF same]; simp)
  next
    case oom
    with req q nz m show ?thesis
      by (simp add: open_fs_cb_def osi_ops osi_queue) (rule done1 [OF same]; simp)
  next
    case ok
    with req q nz m show ?thesis
      by (simp add: open_fs_cb_def osi_ops osi_queue) (rule done1 [OF new]; simp)
  qed
qed

lemma close_fs_cb_completes:
  assumes inv: "osi_inv X s" and req: "heap s req = Some (Close_fs_req port callback)"
    and q: "g_callbacks s = Some q"
  shows "completes X callback s (close_fs_cb req result s)"
proof -
  have m: "callback \<in># locked s" using held_locked [OF inv req] by simp
  obtain p where p: "heap s port = Some (Fs_port p)"
    using heap_ok_port [OF osi_inv_heap [OF inv], of port False req] req
    by (auto simp: links_to_def elim: port_kind.elims)
  have ne: "req \<noteq> port" using req p by auto
  have nz: "req \<noteq> 0" "port \<noteq> 0" using osi_inv_null [OF inv] req p by (metis option.distinct(1))+
  have nc: "closing s req = None" "closing s port = None"
    using osi_inv_not_closing [OF inv req] osi_inv_not_closing [OF inv p] by simp_all
  let ?s1 = "s\<lparr>locked := locked s - {#callback#}, heap := (heap s)(req := None)\<rparr>"
  have i1: "osi_inv X ?s1" using m nc by (intro osi_inv_del [OF inv req]) (auto simp: fun_upd_idem)
  have o1: "owed s = add_mset callback (owed ?s1)" using owed_del [OF inv req, of ?s1] by simp
  let ?s2 = "?s1\<lparr>heap := (heap s)(port := None, req := None), calls := calls s @ [Fs (Uv_fs_req_cleanup req)], g_callbacks := Some (Scons (Scons callback (Scons (Sinteger result) Snil)) q)\<rparr>"
  have h2: "heap ?s2 = (heap ?s1)(port := None)" using ne by (simp add: fun_upd_twist)
  have p1: "heap ?s1 port = Some (Fs_port p)" using p ne by simp
  have "heap_ok (heap ?s2)" using heap_ok_close [OF osi_inv_heap [OF inv] req] by simp
  then have i2: "osi_inv X ?s2"
    using nc h2 by (intro osi_inv_del_linked [OF i1 p1]) (auto simp: fun_upd_idem)
  have o2: "owed ?s1 = owed ?s2" using owed_del [OF i1 p1 h2] by simp
  have "close_fs_cb req result s = Some ?s2"
    using req p ne nz m q by (simp add: close_fs_cb_def osi_ops osi_queue)
  then show ?thesis using i2 o1 o2 q by (auto simp: completes_def)
qed

lemma close_fd_cb_completes:
  assumes inv: "osi_inv X s" and h: "heap s async = Some (Uv_async (Some callback) False)"
    and q: "g_callbacks s = Some q"
  shows "completes X callback s (close_fd_cb async s)"
proof -
  have m: "callback \<in># locked s" using held_locked [OF inv h] by simp
  have nc: "closing s async = None"
    using osi_inv_not_closing [OF inv h] by (metis (full_types) close_cb.exhaust closes.simps)
  let ?y = "Uv_async (Some callback) True"
  let ?s1 = "s\<lparr>locked := locked s - {#callback#}, heap := (heap s)(async \<mapsto> ?y)\<rparr>"
  have i1: "osi_inv X ?s1" using m nc by (intro osi_inv_upd [OF inv h, of _ ?y]) auto
  have o1: "owed s = add_mset callback (owed ?s1)" using owed_upd [OF inv h, of ?s1 ?y] by simp
  let ?s2 = "?s1\<lparr>calls := calls s @ [Hnd (Uv_close async Close_async_cb)], closing := (closing s)(async \<mapsto> Close_async_cb),
     g_callbacks := Some (Scons (Scons callback (Scons (Sinteger 0) Snil)) q)\<rparr>"
  have i2: "osi_inv X ?s2" 
    using heap_ok_no_link [OF osi_inv_heap [OF i1], of async ?y True]
    by (intro osi_inv_close [OF i1, of async ?y]) simp_all
  have "close_fd_cb async s = Some ?s2"
    using h m nc q by (simp add: close_fd_cb_def osi_ops osi_queue)
  then show ?thesis using i2 o1 q by (auto simp: completes_def owed_def)
qed


text \<open>The callback a request in the heap will deliver.\<close>

fun request_callback :: "cobj \<Rightarrow> ptr option" where
  "request_callback (Rw_fs_req _ c) = Some c"
| "request_callback (Close_fs_req _ c) = Some c"
| "request_callback (Uv_fs _ c) = Some c"
| "request_callback _ = None"

lemma run_fs_cb_completes_aux:
  assumes inv: "osi_inv X s" and req: "heap s req = Some x" and cb: "request_callback x = Some callback"
    and q: "g_callbacks s = Some q"
  shows "completes X callback s (run_fs_cb E req out s)"
proof (cases x)
  case (Rw_fs_req b c)
  with req cb show ?thesis using rw_fs_cb_completes [OF inv _ q] by (simp add: run_fs_cb_def)
next
  case (Close_fs_req p c)
  with req cb show ?thesis using close_fs_cb_completes [OF inv _ q] by (simp add: run_fs_cb_def)
next
  case (Uv_fs k c)
  with req cb have h: "heap s req = Some (Uv_fs k callback)" by simp
  note fin = finish_one [OF inv h q]
  show ?thesis
    using h fin open_fs_cb_completes [OF inv h q]
    by (cases k) (simp_all add: run_fs_cb_def get_file_size_cb_def get_real_path_cb_def
        return_fs_result_cb_def stat_cb_def list_directory_cb_def)
qed (use cb in auto)

section \<open>Properties\<close>

text \<open>C16: Every completion libuv delivers for a file-system request in flight runs without
  undefined behaviour, whatever the outcome and whether or not allocation fails: it queues the
  request's Scheme callback exactly once, leaves every other promise standing, and afterwards the
  table of locked objects again matches what the live structures hold.\<close>

theorem fs_completion_delivers_once:
  assumes "osi_inv X s" and "heap s req = Some x" and "request_callback x = Some callback"
    and "g_callbacks s = Some q"
  shows "\<exists>s' args. run_fs_cb E req out s = Some s' \<and> osi_inv X s'
           \<and> g_callbacks s' = Some (Scons (Scons callback args) q)
           \<and> owed s = add_mset callback (owed s')"
  using run_fs_cb_completes_aux [OF assms] assms(4) by (auto simp: completes_def)


definition unlink_pending :: osi where
  "unlink_pending = osi_start\<lparr>g_callbacks := Some Snil, locked := {#Sprocedure 7#}, mallocs := 1,
     heap := [1 \<mapsto> Uv_fs Return_fs_result_cb (Sprocedure 7)]\<rparr>"

lemma osi_inv_unlink_pending: "osi_inv {#} unlink_pending"
  by (simp add: unlink_pending_def osi_start_def osi_inv_def heap_sum_def closing_ok_def heap_ok_def links_to_def)

theorem fs_completion_delivers_once_witness:
  "\<exists>s' args. run_fs_cb quiet_env 1 (undefined\<lparr>fs_result := - 2\<rparr>) unlink_pending = Some s' \<and> osi_inv {#} s'
     \<and> g_callbacks s' = Some (Scons (Scons (Sprocedure 7) args) Snil)
     \<and> owed unlink_pending = add_mset (Sprocedure 7) (owed s')"
proof (rule fs_completion_delivers_once [OF osi_inv_unlink_pending])
  show "heap unlink_pending 1 = Some (Uv_fs Return_fs_result_cb (Sprocedure 7))"
    by (simp add: unlink_pending_def)
  show "g_callbacks unlink_pending = Some Snil"
    by (simp add: unlink_pending_def)
qed simp

text \<open>Every operation on a path, and the size query on a port, either returns \<open>#t\<close> and then
  owes exactly the callback it was given, or returns an error pair and keeps nothing: no object
  stays locked and no callback is promised. This holds for every pattern of allocation failures and
  every status libuv returns.\<close>

theorem path_requests_accept_or_refuse:
  assumes "osi_inv X s" and "heap s port = Some (Fs_port p)"
  shows "accepts_or_refuses X cb s (osi_open_file E path flags mode cb s)
     \<and> accepts_or_refuses X cb s (osi_chmod E path mode cb s)
     \<and> accepts_or_refuses X cb s (osi_make_directory E path mode cb s)
     \<and> accepts_or_refuses X cb s (osi_remove_directory E path cb s)
     \<and> accepts_or_refuses X cb s (osi_rename E path new_path cb s)
     \<and> accepts_or_refuses X cb s (osi_unlink E path cb s)
     \<and> accepts_or_refuses X cb s (osi_get_real_path E path cb s)
     \<and> accepts_or_refuses X cb s (osi_list_directory E path cb s)
     \<and> accepts_or_refuses X cb s (osi_get_stat E path follow cb s)
     \<and> accepts_or_refuses X cb s (osi_get_file_size E port cb s)"
proof -
  have "accepts_or_refuses X cb s (osi_get_file_size E port cb s)"
    using assms(2) submit_fs_contract [OF assms(1)]
    by (auto simp: osi_get_file_size_def intro: refusesI [OF assms(1)])
  then show ?thesis
    using submit_fs_contract [OF assms(1)]
    by (simp add: osi_open_file_def osi_chmod_def osi_make_directory_def osi_remove_directory_def
        osi_rename_def osi_unlink_def osi_get_real_path_def osi_list_directory_def osi_get_stat_def)
qed

definition one_file_port :: osi where
  "one_file_port = osi_start\<lparr>mallocs := 1,
     heap := [1 \<mapsto> Fs_port \<lparr>fs_vtable = File_vtable, fs_file = 5\<rparr>]\<rparr>"

lemma osi_inv_one_file_port: "osi_inv {#} one_file_port"
  by (simp add: one_file_port_def osi_start_def osi_inv_def heap_sum_def closing_ok_def heap_ok_def links_to_def)

theorem path_requests_accept_or_refuse_witness:
  "accepts_or_refuses {#} (Sprocedure 7) one_file_port (osi_unlink quiet_env [47, 97] (Sprocedure 7) one_file_port)
   \<and> accepts_or_refuses {#} (Sprocedure 7) one_file_port (osi_get_file_size quiet_env 1 (Sprocedure 7) one_file_port)"
  using path_requests_accept_or_refuse [OF osi_inv_one_file_port, of 1] by (simp add: one_file_port_def)

text \<open>When libuv refuses the async handle through which the close of a borrowed
  descriptor is reported, \<^verbatim>\<open>close_fd_port\<close> returns the error and forgets the block it allocated: the
  block stays in the heap although nothing refers to it.\<close>

theorem close_fd_port_leaks:
  assumes "osi_inv X s" and "\<not> oom E (mallocs s)"
    and "uv E (Hnd (Uv_async_init (Suc (mallocs s)))) (length (calls s)) < 0"
  shows "\<exists>rc s'. close_fd_port E port cb s = Some (osi_make_error_pair ''uv_async_init'' rc, s')
           \<and> heap s (Suc (mallocs s)) = None
           \<and> heap s' = (heap s)(Suc (mallocs s) \<mapsto> Raw)"
  using assms osi_inv_fresh [OF assms(1)] by (auto simp: close_fd_port_def osi_ops)

theorem close_fd_port_leaks_witness:
  "\<exists>rc s'. close_fd_port (quiet_env\<lparr>uv := (\<lambda>_ _. - 12)\<rparr>) 1 (Sprocedure 7) one_file_port
       = Some (osi_make_error_pair ''uv_async_init'' rc, s')
     \<and> heap one_file_port 2 = None \<and> heap s' = (heap one_file_port)(2 \<mapsto> Raw)"
proof -
  have "Suc (mallocs one_file_port) = 2" by (simp add: one_file_port_def)
  with close_fd_port_leaks [OF osi_inv_one_file_port, of "quiet_env\<lparr>uv := (\<lambda>_ _. - 12)\<rparr>" 1 "Sprocedure 7"]
  show ?thesis by (simp add: quiet_env_def)
qed

text \<open>File times survive the trip to Scheme exactly when their seconds fit a signed
  32-bit integer: \<^verbatim>\<open>make_time\<close> passes them through \<^verbatim>\<open>Sinteger32\<close>, so the first second after
  19 January 2038 is reported as a negative number.\<close>

theorem make_time_exact_iff_32_bit:
  "make_time ts = Scons (Sinteger (tv_sec ts)) (Sinteger (tv_nsec ts)) \<longleftrightarrow>
     (- (2 ^ 31) \<le> tv_sec ts \<and> tv_sec ts < 2 ^ 31) \<and> (- (2 ^ 31) \<le> tv_nsec ts \<and> tv_nsec ts < 2 ^ 31)"
proof -
  have "sint (of_int n :: u32) = n \<longleftrightarrow> - (2 ^ 31) \<le> n \<and> n < 2 ^ 31" for n :: int
    using signed_take_bit_int_eq_self_iff [of 31 n] by (simp add: sint_sbintrunc')
  then show ?thesis by (simp add: make_time_def Sinteger32_def)
qed

end
