(* ===== verification/Stream_Ports.thy ===== *)
theory Stream_Ports
  imports Fs_Ports
begin

text \<open>
  Stream ports of \<^verbatim>\<open>osi.c\<close>: pipes and TCP connections. At most one read, one write and one close
  are pending on a port; the port itself keeps their buffers and callbacks. Connecting walks the
  addresses a name resolves to; listeners and path watchers keep one callback for many events.
\<close>

section \<open>Operations on stream ports\<close>

subsection \<open>Reading\<close>

text \<open>The region of memory libuv may fill.\<close>

definition read_stream_alloc_cb :: "uptr \<Rightarrow> osi \<Rightarrow> uv_buf option" where
  "read_stream_alloc_cb port s = do {
     p \<leftarrow> load_stream_port port s;
     buffer \<leftarrow> read_buffer p;
     Some (buffer, read_start_index p, read_size p)
   }"

definition read_stream_cb :: "uptr \<Rightarrow> int \<Rightarrow> osi \<Rightarrow> osi option" where
  "read_stream_cb port nread s = do {
     let s = uv_void (Net (Uv_read_stop port)) s;
     p \<leftarrow> load_stream_port port s;
     callback \<leftarrow> read_callback p;
     buffer \<leftarrow> read_buffer p;
     s \<leftarrow> Sunlock_object buffer s;
     s \<leftarrow> Sunlock_object callback s;
     s \<leftarrow> store port (Stream_port (p\<lparr>read_callback := None\<rparr>)) s;
     osi_add_callback1 callback (Sinteger nread) s
   }"

definition read_stream_port ::
  "env \<Rightarrow> uptr \<Rightarrow> ptr \<Rightarrow> u64 \<Rightarrow> u32 \<Rightarrow> int \<Rightarrow> ptr \<Rightarrow> osi \<Rightarrow> (ptr \<times> osi) option" where
  "read_stream_port E port buffer start_index sz offset callback s =
     (if - 1 \<noteq> offset then Some (osi_make_error_pair ''osi_read_port'' (uv_errno E EINVAL), s)
      else do {
        p \<leftarrow> load_stream_port port s;
        if read_callback p \<noteq> None then Some (osi_make_error_pair ''osi_read_port'' (uv_errno E EBUSY), s)
        else do {
          let s = Slock_object buffer s;
          let s = Slock_object callback s;
          let p = p\<lparr>read_buffer := Some buffer, read_start_index := start_index, read_size := sz,
                    read_callback := Some callback\<rparr>;
          s \<leftarrow> store port (Stream_port p) s;
          let (rc, s) = uv_do E (Net (Uv_read_start port)) s;
          if rc < 0 then do {
            s \<leftarrow> Sunlock_object buffer s;
            s \<leftarrow> Sunlock_object callback s;
            s \<leftarrow> store port (Stream_port (p\<lparr>read_callback := None\<rparr>)) s;
            Some (osi_make_error_pair ''uv_read_start'' rc, s)
          } else Some (Strue, s)
        }
      })"

subsection \<open>Writing\<close>

definition write_stream_cb :: "uptr \<Rightarrow> int \<Rightarrow> osi \<Rightarrow> osi option" where
  "write_stream_cb port status s = do {
     p \<leftarrow> load_stream_port port s;
     callback \<leftarrow> write_callback p;
     buffer \<leftarrow> write_buffer p;
     s \<leftarrow> Sunlock_object buffer s;
     s \<leftarrow> (case write_buffer2 p of None \<Rightarrow> Some s | Some buffer2 \<Rightarrow> Sunlock_object buffer2 s);
     let p = p\<lparr>write_buffer2 := None\<rparr>;
     s \<leftarrow> Sunlock_object callback s;
     let p = p\<lparr>write_callback := None\<rparr>;
     s \<leftarrow> store port (Stream_port p) s;
     osi_add_callback1 callback
       (if status < 0 then Sinteger32 status else Sunsigned32 (write_size p)) s
   }"

definition write_stream_port ::
  "env \<Rightarrow> uptr \<Rightarrow> ptr \<Rightarrow> u64 \<Rightarrow> u32 \<Rightarrow> int \<Rightarrow> ptr \<Rightarrow> osi \<Rightarrow> (ptr \<times> osi) option" where
  "write_stream_port E port buffer start_index sz offset callback s =
     (if - 1 \<noteq> offset then Some (osi_make_error_pair ''osi_write_port'' (uv_errno E EINVAL), s)
      else do {
        p \<leftarrow> load_stream_port port s;
        if write_callback p \<noteq> None then Some (osi_make_error_pair ''osi_write_port'' (uv_errno E EBUSY), s)
        else do {
          let s = Slock_object buffer s;
          let s = Slock_object callback s;
          let p = p\<lparr>write_buffer := Some buffer, write_buffer2 := None, write_size := sz,
                    write_callback := Some callback\<rparr>;
          s \<leftarrow> store port (Stream_port p) s;
          let (rc, s) = uv_do E (Net (Uv_write port [(buffer, start_index, sz)])) s;
          if rc < 0 then do {
            s \<leftarrow> Sunlock_object buffer s;
            s \<leftarrow> Sunlock_object callback s;
            s \<leftarrow> store port (Stream_port (p\<lparr>write_callback := None\<rparr>)) s;
            Some (osi_make_error_pair ''uv_write'' rc, s)
          } else Some (Strue, s)
        }
      })"

text \<open>
  \<^verbatim>\<open>osi_tcp_write2\<close> reads the length of its first argument before it checks that the argument is a
  bytevector. On anything else the read is undefined, unless the word read happens to be harmless:
  the model makes it undefined.
\<close>

definition osi_tcp_write2 ::
  "env \<Rightarrow> uptr \<Rightarrow> ptr \<Rightarrow> ptr \<Rightarrow> u64 \<Rightarrow> u32 \<Rightarrow> ptr \<Rightarrow> osi \<Rightarrow> (ptr \<times> osi) option" where
  "osi_tcp_write2 E port bv1 bv2 start_index2 size2 callback s =
     (if \<not> Sbytevectorp bv1 then None
      else
        let last2 = start_index2 + ucast size2;
            total_size = (of_nat (Sbytevector_length bv1 s) :: u64) + ucast size2
        in if \<not> Sbytevectorp bv1 \<or> \<not> Sbytevectorp bv2 \<or> \<not> Sprocedurep callback
              \<or> last2 < start_index2
              \<or> of_nat (Sbytevector_length bv2 s) < last2
              \<or> 0xFFFFFFFF < total_size
           then Some (osi_make_error_pair ''osi_tcp_write2'' (uv_errno E EINVAL), s)
           else do {
             p \<leftarrow> load_stream_port port s;
             if write_callback p \<noteq> None
             then Some (osi_make_error_pair ''osi_tcp_write2'' (uv_errno E EBUSY), s)
             else do {
               let s = Slock_object bv1 s;
               let s = Slock_object bv2 s;
               let s = Slock_object callback s;
               let p = p\<lparr>write_buffer := Some bv1, write_buffer2 := Some bv2,
                         write_size := ucast total_size, write_callback := Some callback\<rparr>;
               s \<leftarrow> store port (Stream_port p) s;
               let (rc, s) = uv_do E (Net (Uv_write port
                   [(bv1, 0, of_nat (Sbytevector_length bv1 s)), (bv2, start_index2, size2)])) s;
               if rc < 0 then do {
                 s \<leftarrow> Sunlock_object bv1 s;
                 s \<leftarrow> Sunlock_object bv2 s;
                 s \<leftarrow> Sunlock_object callback s;
                 s \<leftarrow> store port (Stream_port (p\<lparr>write_callback := None, write_buffer2 := None\<rparr>)) s;
                 Some (osi_make_error_pair ''uv_write'' rc, s)
               } else Some (Strue, s)
             }
           })"

subsection \<open>Closing\<close>

definition close_stream_cb :: "env \<Rightarrow> uptr \<Rightarrow> osi \<Rightarrow> osi option" where
  "close_stream_cb E port s = do {
     let s = s\<lparr>closing := (closing s)(port := None)\<rparr>;
     p \<leftarrow> load_stream_port port s;
     s \<leftarrow> c_free port s;
     s \<leftarrow> (case read_callback p of None \<Rightarrow> Some s
           | Some callback \<Rightarrow> do {
               buffer \<leftarrow> read_buffer p;
               s \<leftarrow> Sunlock_object buffer s;
               s \<leftarrow> Sunlock_object callback s;
               osi_add_callback1 callback (Sinteger (uv_errno E EOF)) s
             });
     case close_callback p of None \<Rightarrow> Some s
     | Some callback \<Rightarrow> do {
         s \<leftarrow> Sunlock_object callback s;
         osi_add_callback1 callback (Sinteger 0) s
       }
   }"

definition close_stream_port :: "env \<Rightarrow> uptr \<Rightarrow> ptr \<Rightarrow> osi \<Rightarrow> (ptr \<times> osi) option" where
  "close_stream_port E port callback s = do {
     p \<leftarrow> load_stream_port port s;
     if close_callback p \<noteq> None then Some (osi_make_error_pair ''osi_close_port'' (uv_errno E EBUSY), s)
     else do {
       let s = Slock_object callback s;
       s \<leftarrow> store port (Stream_port (p\<lparr>close_callback := Some callback\<rparr>)) s;
       s \<leftarrow> uv_close port Close_stream_cb s;
       Some (Strue, s)
     }
   }"

section \<open>Connecting\<close>

text \<open>A stream port as it is initialised: nothing pending, the other fields unset.\<close>

definition idle_stream :: "vtable \<Rightarrow> stream_port_t" where
  "idle_stream v =
     \<lparr>vtable = v, close_callback = None, read_buffer = None, read_start_index = 0, read_size = 0,
      read_callback = None, write_buffer = None, write_buffer2 = None, write_size = 0, write_callback = None\<rparr>"

definition osi_connect_tcp :: "env \<Rightarrow> u8 list \<Rightarrow> u8 list \<Rightarrow> ptr \<Rightarrow> osi \<Rightarrow> (ptr \<times> osi) option" where
  "osi_connect_tcp E node service callback s =
     (let (p, s) = malloc_container E s
      in if p = 0 then Some (osi_make_error_pair ''osi_connect_tcp'' (uv_errno E ENOMEM), s)
      else let (port, s) = malloc_container E s
      in if port = 0 then do {
           s \<leftarrow> c_free p s;
           Some (osi_make_error_pair ''osi_connect_tcp'' (uv_errno E ENOMEM), s)
         }
      else let (rc, s) = uv_do E (Net (Uv_tcp_init port)) s
      in if rc < 0 then do {
           s \<leftarrow> c_free port s;
           s \<leftarrow> c_free p s;
           Some (osi_make_error_pair ''uv_tcp_init'' rc, s)
         }
      else do {
        s \<leftarrow> store port (Stream_port (idle_stream Tcp_vtable)) s;
        let s = Slock_object callback s;
        s \<leftarrow> store p (Tcp_connect \<lparr>conn_callback = callback, conn_ai = [], conn_stream_port = port\<rparr>) s;
        let (rc, s) = uv_do E (Net (Uv_getaddrinfo p node service)) s;
        if rc < 0 then do {
          s \<leftarrow> Sunlock_object callback s;
          s \<leftarrow> uv_close port Close_stream_cb s;
          s \<leftarrow> c_free p s;
          Some (osi_make_error_pair ''uv_getaddrinfo'' rc, s)
        } else Some (Strue, s)
      })"

text \<open>The loop of \<^verbatim>\<open>connect_tcp_cb\<close> over the addresses that are left.\<close>

fun connect_retry :: "env \<Rightarrow> uptr \<Rightarrow> tcp_connect_t \<Rightarrow> nat list \<Rightarrow> int \<Rightarrow> osi \<Rightarrow> osi option" where
  "connect_retry E p t [] status s = do {
     let callback = conn_callback t;
     s \<leftarrow> Sunlock_object callback s;
     s \<leftarrow> uv_close (conn_stream_port t) Close_stream_cb s;
     let s = uv_void (Net (Uv_freeaddrinfo p)) s;
     s \<leftarrow> c_free p s;
     osi_add_callback1 callback (osi_make_error_pair ''uv_tcp_connect'' status) s
   }"
| "connect_retry E p t (ai # ai_next) status s = do {
     s \<leftarrow> store p (Tcp_connect (t\<lparr>conn_ai := ai_next\<rparr>)) s;
     let (status, s) = uv_do E (Net (Uv_tcp_connect p (conn_stream_port t) ai)) s;
     if status < 0 then connect_retry E p (t\<lparr>conn_ai := ai_next\<rparr>) ai_next status s else Some s
   }"

definition connect_tcp_cb :: "env \<Rightarrow> uptr \<Rightarrow> int \<Rightarrow> osi \<Rightarrow> osi option" where
  "connect_tcp_cb E p status s =
     (case heap s p of
        Some (Tcp_connect t) \<Rightarrow>
          if status < 0 then connect_retry E p t (conn_ai t) status s
          else do {
            let callback = conn_callback t;
            s \<leftarrow> Sunlock_object callback s;
            let s = uv_void (Net (Uv_freeaddrinfo p)) s;
            s \<leftarrow> c_free p s;
            osi_add_callback1 callback (Sunsigned (conn_stream_port t)) s
          }
      | _ \<Rightarrow> None)"

text \<open>The result of name resolution is a list of addresses; libuv reports success only with a non-empty one.\<close>

definition connect_tcp_addrinfo_cb :: "env \<Rightarrow> uptr \<Rightarrow> int \<Rightarrow> nat list \<Rightarrow> osi \<Rightarrow> osi option" where
  "connect_tcp_addrinfo_cb E p status res s =
     (case heap s p of
        Some (Tcp_connect t) \<Rightarrow>
          if status < 0 then do {
            let callback = conn_callback t;
            s \<leftarrow> Sunlock_object callback s;
            s \<leftarrow> uv_close (conn_stream_port t) Close_stream_cb s;
            s \<leftarrow> c_free p s;
            osi_add_callback1 callback (osi_make_error_pair ''uv_getaddrinfo'' status) s
          } else (case res of
            [] \<Rightarrow> None
          | ai # ai_next \<Rightarrow> do {
              s \<leftarrow> store p (Tcp_connect (t\<lparr>conn_ai := ai_next\<rparr>)) s;
              let (rc, s) = uv_do E (Net (Uv_tcp_connect p (conn_stream_port t) ai)) s;
              if rc < 0 then connect_tcp_cb E p rc s else Some s
            })
      | _ \<Rightarrow> None)"

section \<open>Listeners, watchers and socket options\<close>

definition close_handle_data_cb :: "uptr \<Rightarrow> osi \<Rightarrow> osi option" where
  "close_handle_data_cb handle s = do {
     let s = s\<lparr>closing := (closing s)(handle := None)\<rparr>;
     callback \<leftarrow> (case heap s handle of
         Some (Uv_tcp d) \<Rightarrow> Some d | Some (Uv_fs_event d) \<Rightarrow> Some d | Some (Uv_process d _) \<Rightarrow> Some d | _ \<Rightarrow> None);
     s \<leftarrow> c_free handle s;
     case callback of None \<Rightarrow> Some s | Some cb \<Rightarrow> Sunlock_object cb s
   }"

definition listen_tcp_cb :: "env \<Rightarrow> uptr \<Rightarrow> int \<Rightarrow> osi \<Rightarrow> osi option" where
  "listen_tcp_cb E server status s =
     (case heap s server of
        Some (Uv_tcp (Some callback)) \<Rightarrow>
          if status < 0 then osi_add_callback1 callback (osi_make_error_pair ''uv_listen'' status) s
          else let (port, s) = malloc_container E s
          in if port = 0
             then osi_add_callback1 callback (osi_make_error_pair ''uv_listen'' (uv_errno E ENOMEM)) s
          else let (status, s) = uv_do E (Net (Uv_tcp_init port)) s
          in if status < 0 then do {
               s \<leftarrow> c_free port s;
               osi_add_callback1 callback (osi_make_error_pair ''uv_tcp_init'' status) s
             }
          else do {
            s \<leftarrow> store port (Stream_port (idle_stream Tcp_vtable)) s;
            let (status, s) = uv_do E (Net (Uv_accept server port)) s;
            if status < 0 then do {
              s \<leftarrow> uv_close port Close_stream_cb s;
              osi_add_callback1 callback (osi_make_error_pair ''uv_accept'' status) s
            } else osi_add_callback1 callback (Sunsigned port) s
          }
      | _ \<Rightarrow> None)"

definition osi_listen_tcp :: "env \<Rightarrow> u8 list \<Rightarrow> u16 \<Rightarrow> ptr \<Rightarrow> osi \<Rightarrow> (ptr \<times> osi) option" where
  "osi_listen_tcp E address port callback s =
     (let (who, call) = (if 0x2E \<in> set address then (''uv_ip4_addr'', Uv_ip4_addr address port)
                         else (''uv_ip6_addr'', Uv_ip6_addr address port));
          (rc, s) = uv_do E (Net call) s
      in if rc < 0 then Some (osi_make_error_pair who rc, s)
      else let (listener, s) = malloc_container E s
      in if listener = 0 then Some (osi_make_error_pair ''osi_listen_tcp'' (uv_errno E ENOMEM), s)
      else do {
        s \<leftarrow> store listener (Uv_tcp None) s;
        let (rc, s) = uv_do E (Net (Uv_tcp_init listener)) s;
        if rc < 0 then do {
          s \<leftarrow> c_free listener s;
          Some (osi_make_error_pair ''uv_tcp_init'' rc, s)
        } else do {
          let (rc, s) = uv_do E (Net (Uv_tcp_bind listener)) s;
          if rc < 0 then do {
            s \<leftarrow> uv_close listener Close_handle_data_cb s;
            Some (osi_make_error_pair ''uv_tcp_bind'' rc, s)
          } else do {
            let s = Slock_object callback s;
            s \<leftarrow> store listener (Uv_tcp (Some callback)) s;
            let (rc, s) = uv_do E (Net (Uv_listen listener)) s;
            if rc < 0 then do {
              s \<leftarrow> uv_close listener Close_handle_data_cb s;
              Some (osi_make_error_pair ''uv_listen'' rc, s)
            } else Some (Sunsigned listener, s)
          }
        }
      })"

definition osi_close_tcp_listener :: "uptr \<Rightarrow> osi \<Rightarrow> osi option" where
  "osi_close_tcp_listener listener = uv_close listener Close_handle_data_cb"

definition watch_path_cb :: "env \<Rightarrow> uptr \<Rightarrow> u8 list option \<Rightarrow> int \<Rightarrow> int \<Rightarrow> osi \<Rightarrow> osi option" where
  "watch_path_cb E handle filename events status s =
     (case heap s handle of
        Some (Uv_fs_event (Some callback)) \<Rightarrow>
          if status < 0 then osi_add_callback1 callback (Sinteger status) s
          else osi_add_callback2 callback
                 (case filename of Some f \<Rightarrow> Sstring_utf8 E f | None \<Rightarrow> Sfalse) (Sinteger events) s
      | _ \<Rightarrow> None)"

definition osi_watch_path :: "env \<Rightarrow> u8 list \<Rightarrow> ptr \<Rightarrow> osi \<Rightarrow> (ptr \<times> osi) option" where
  "osi_watch_path E path callback s =
     (let (watcher, s) = malloc_container E s
      in if watcher = 0 then Some (osi_make_error_pair ''osi_watch_path'' (uv_errno E ENOMEM), s)
      else do {
        s \<leftarrow> store watcher (Uv_fs_event None) s;
        let (rc, s) = uv_do E (Hnd (Uv_fs_event_init watcher)) s;
        if rc < 0 then do {
          s \<leftarrow> c_free watcher s;
          Some (osi_make_error_pair ''uv_fs_event_init'' rc, s)
        } else do {
          let s = Slock_object callback s;
          s \<leftarrow> store watcher (Uv_fs_event (Some callback)) s;
          let (rc, s) = uv_do E (Hnd (Uv_fs_event_start watcher path)) s;
          if rc < 0 then do {
            s \<leftarrow> uv_close watcher Close_handle_data_cb s;
            Some (osi_make_error_pair ''uv_fs_event_start'' rc, s)
          } else Some (Sunsigned watcher, s)
        }
      })"

definition osi_close_path_watcher :: "uptr \<Rightarrow> osi \<Rightarrow> osi option" where
  "osi_close_path_watcher watcher s =
     uv_close watcher Close_handle_data_cb (uv_void (Hnd (Uv_fs_event_stop watcher)) s)"

text \<open>Every port starts with its \<^verbatim>\<open>vtable\<close> field, so it can be read whatever the kind of port.\<close>

definition port_vtable :: "uptr \<Rightarrow> osi \<Rightarrow> vtable option" where
  "port_vtable port s =
     (case heap s port of Some (Fs_port p) \<Rightarrow> Some (fs_vtable p) | Some (Stream_port p) \<Rightarrow> Some (vtable p) | _ \<Rightarrow> None)"

definition osi_tcp_nodelay :: "env \<Rightarrow> uptr \<Rightarrow> int \<Rightarrow> osi \<Rightarrow> (ptr \<times> osi) option" where
  "osi_tcp_nodelay E port enable s = do {
     v \<leftarrow> port_vtable port s;
     if v \<noteq> Tcp_vtable then Some (osi_make_error_pair ''uv_tcp_nodelay'' (uv_errno E EINVAL), s)
     else let (rc, s) = uv_do E (Net (Uv_tcp_nodelay port enable)) s
          in Some (if rc < 0 then Sfalse else Strue, s)
   }"


section \<open>Contracts\<close>

lemma accepts_updI:
  assumes inv: "osi_inv X s" and x: "heap s a = Some x" and h: "heap s' = (heap s)(a \<mapsto> y)"
    and l: "locked s' + obj_held x = locked s + obj_held y" and "mallocs s' = mallocs s" and "closing s' = closing s"
    and "\<forall>cb. closing s a = Some cb \<longrightarrow> closes cb y" and "g_callbacks s' = g_callbacks s"
    and "bytevectors s' = bytevectors s" and "port_kind y = port_kind x" and "obj_link y = obj_link x"
    and "obj_owed y = add_mset cb (obj_owed x)" and "obj_ok y"
  shows "accepts_or_refuses X cb s (Some (Strue, s'))"
proof -
  have "osi_inv X s'" using assms by (intro osi_inv_upd [OF inv x h l]) simp_all
  moreover have "owed s' = add_mset cb (owed s)" using owed_upd [OF inv x h] assms(12) by simp
  ultimately show ?thesis using assms(8,9) by (simp add: accepts_or_refuses_def)
qed

lemma refuses_updI:
  assumes inv: "osi_inv X s" and x: "heap s a = Some x" and h: "heap s' = (heap s)(a \<mapsto> y)"
    and l: "locked s' = locked s" and "mallocs s' = mallocs s" and "closing s' = closing s"
    and "\<forall>cb. closing s a = Some cb \<longrightarrow> closes cb y" and "g_callbacks s' = g_callbacks s"
    and "bytevectors s' = bytevectors s" and "port_kind y = port_kind x" and "obj_link y = obj_link x"
    and "obj_owed y = obj_owed x" and "obj_held y = obj_held x" and "obj_ok y"
  shows "accepts_or_refuses X cb s (Some (osi_make_error_pair who e, s'))"
proof -
  have "osi_inv X s'" using assms by (intro osi_inv_upd [OF inv x h]) simp_all
  moreover have "owed s' = owed s" using owed_upd [OF inv x h] assms(12) by simp
  ultimately show ?thesis using assms(4,8,9) by (simp add: accepts_or_refuses_def)
qed

lemma completes_updI:
  assumes inv: "osi_inv X s" and x: "heap s a = Some x" and h: "heap s' = (heap s)(a \<mapsto> y)"
    and l: "locked s' + obj_held x = locked s + obj_held y" and "mallocs s' = mallocs s" and "closing s' = closing s"
    and "\<forall>cb. closing s a = Some cb \<longrightarrow> closes cb y" and "port_kind y = port_kind x" and "obj_link y = obj_link x"
    and "obj_owed x = add_mset cb (obj_owed y)" and "g_callbacks s = Some q"
    and "g_callbacks s' = Some (Scons (Scons cb args) q)" and "obj_ok y"
  shows "completes X cb s (Some s')"
proof (rule completesI2)
  show "osi_inv X s'" using assms by (intro osi_inv_upd [OF inv x h l]) simp_all
  show "owed s = add_mset cb (owed s')" using owed_upd [OF inv x h] assms(10) by simp
qed fact+

lemma stream_closing:
  "osi_inv X s \<Longrightarrow> heap s a = Some (Stream_port p) \<Longrightarrow> \<forall>cb. closing s a = Some cb \<longrightarrow> closes cb (Stream_port p')"
  using closing_ok_closes [OF osi_inv_closing] by (fastforce elim: closes.elims)

lemma stream_ok:
  assumes "osi_inv X s" and "heap s a = Some (Stream_port p)"
  shows "vtable p = Pipe_vtable \<or> vtable p = Tcp_vtable"
    and "\<exists>c. read_callback p = Some c \<Longrightarrow> \<exists>b. read_buffer p = Some b"
    and "\<exists>c. write_callback p = Some c \<Longrightarrow> \<exists>b. write_buffer p = Some b"
  using heap_ok_obj [OF osi_inv_heap [OF assms(1)] assms(2)] by auto

lemmas stream_sums = stream_held_def stream_owed_def

lemma read_stream_port_contract:
  assumes inv: "osi_inv X s" and port: "heap s port = Some (Stream_port p)"
  shows "accepts_or_refuses X callback s (read_stream_port E port buffer start_index sz offset callback s)"
proof -
  note cl = stream_closing [OF inv port] stream_ok [OF inv port]
  consider (bad) "offset \<noteq> - 1" | (busy) "offset = - 1" "read_callback p \<noteq> None"
    | (fail) "offset = - 1" "read_callback p = None" "uv E (Net (Uv_read_start port)) (length (calls s)) < 0"
    | (ok) "offset = - 1" "read_callback p = None" "\<not> uv E (Net (Uv_read_start port)) (length (calls s)) < 0"
    by blast
  then show ?thesis
  proof cases
    case bad
    then show ?thesis by (simp add: read_stream_port_def) (rule refusesI [OF inv]; simp)
  next
    case busy
    then show ?thesis using port by (simp add: read_stream_port_def osi_ops) (rule refusesI [OF inv]; simp)
  next
    case fail
    then show ?thesis using port
      by (simp add: read_stream_port_def osi_ops) (rule refuses_updI [OF inv port], simp, simp_all add: stream_sums cl)
  next
    case ok
    then show ?thesis using port
      by (simp add: read_stream_port_def osi_ops) (rule accepts_updI [OF inv port], simp, simp_all add: stream_sums cl)
  qed
qed

lemma write_stream_port_contract:
  assumes inv: "osi_inv X s" and port: "heap s port = Some (Stream_port p)"
  shows "accepts_or_refuses X callback s (write_stream_port E port buffer start_index sz offset callback s)"
proof -
  note cl = stream_closing [OF inv port] stream_ok [OF inv port]
  let ?c = "Net (Uv_write port [(buffer, start_index, sz)])"
  consider (bad) "offset \<noteq> - 1" | (busy) "offset = - 1" "write_callback p \<noteq> None"
    | (fail) "offset = - 1" "write_callback p = None" "uv E ?c (length (calls s)) < 0"
    | (ok) "offset = - 1" "write_callback p = None" "\<not> uv E ?c (length (calls s)) < 0"
    by blast
  then show ?thesis
  proof cases
    case bad
    then show ?thesis by (simp add: write_stream_port_def) (rule refusesI [OF inv]; simp)
  next
    case busy
    then show ?thesis using port by (simp add: write_stream_port_def osi_ops) (rule refusesI [OF inv]; simp)
  next
    case fail
    then show ?thesis using port
      by (simp add: write_stream_port_def osi_ops) (rule refuses_updI [OF inv port], simp, simp_all add: stream_sums cl)
  next
    case ok
    then show ?thesis using port
      by (simp add: write_stream_port_def osi_ops) (rule accepts_updI [OF inv port], simp, simp_all add: stream_sums cl)
  qed
qed

text \<open>A stream that no pending connection refers to, and that is being closed only by a close call with a callback.\<close>

definition owned_stream :: "osi \<Rightarrow> uptr \<Rightarrow> bool" where
  "owned_stream s port \<longleftrightarrow>
     (\<exists>p. heap s port = Some (Stream_port p) \<and> (close_callback p = None \<longrightarrow> closing s port = None))
     \<and> (\<forall>a. \<not> links_to (heap s) port True a)"

lemma close_stream_port_contract:
  assumes inv: "osi_inv X s" and port: "owned_stream s port"
  shows "accepts_or_refuses X callback s (close_stream_port E port callback s)"
proof -
  obtain p where p: "heap s port = Some (Stream_port p)" and nc: "close_callback p = None \<longrightarrow> closing s port = None"
    and nl: "\<forall>a. \<not> links_to (heap s) port True a" using port by (auto simp: owned_stream_def)
  show ?thesis
  proof (cases "close_callback p")
    case (Some c)
    with p show ?thesis by (simp add: close_stream_port_def osi_ops) (rule refusesI [OF inv]; simp)
  next
    case None
    let ?y = "Stream_port (p\<lparr>close_callback := Some callback\<rparr>)"
    let ?s1 = "s\<lparr>locked := add_mset callback (locked s), heap := (heap s)(port \<mapsto> ?y)\<rparr>"
    let ?s2 = "?s1\<lparr>calls := calls s @ [Hnd (Uv_close port Close_stream_cb)], closing := (closing s)(port \<mapsto> Close_stream_cb)\<rparr>"
    have acc: "accepts_or_refuses X callback s (Some (Strue, ?s1))"
      using None nc stream_ok [OF inv p] by (intro accepts_updI [OF inv p, of _ ?y]) (simp_all add: stream_sums)
    then have i1: "osi_inv X ?s1" by (auto simp: accepts_or_refuses_def split: if_splits)
    have "osi_inv X ?s2"
      using nl by (intro osi_inv_close [OF i1, of port ?y]) (simp_all add: links_to_upd)
    moreover have "close_stream_port E port callback s = Some (Strue, ?s2)"
      using p None nc by (simp add: close_stream_port_def osi_ops)
    ultimately show ?thesis using acc by (simp add: accepts_or_refuses_def owed_def)
  qed
qed

lemma osi_tcp_write2_contract:
  assumes inv: "osi_inv X s" and port: "heap s port = Some (Stream_port p)" and bv: "Sbytevectorp bv1"
  shows "accepts_or_refuses X callback s (osi_tcp_write2 E port bv1 bv2 start2 size2 callback s)"
proof -
  note cl = stream_closing [OF inv port] stream_ok [OF inv port]
  let ?c = "Net (Uv_write port [(bv1, 0, of_nat (Sbytevector_length bv1 s)), (bv2, start2, size2)])"
  let ?last = "start2 + ucast size2" and ?total = "(of_nat (Sbytevector_length bv1 s) :: u64) + ucast size2"
  let ?bad = "\<not> Sbytevectorp bv2 \<or> \<not> Sprocedurep callback \<or> ?last < start2
      \<or> of_nat (Sbytevector_length bv2 s) < ?last \<or> 0xFFFFFFFF < ?total"
  have len: "Sbytevector_length b (s\<lparr>locked := l, heap := h\<rparr>) = Sbytevector_length b s" for b l h
    by (cases b) (simp_all add: Sbytevector_length_def)
  consider (bad) ?bad | (busy) "\<not> ?bad" "write_callback p \<noteq> None"
    | (fail) "\<not> ?bad" "write_callback p = None" "uv E ?c (length (calls s)) < 0"
    | (ok) "\<not> ?bad" "write_callback p = None" "\<not> uv E ?c (length (calls s)) < 0"
    by blast
  then show ?thesis
  proof cases
    case bad
    with bv have "osi_tcp_write2 E port bv1 bv2 start2 size2 callback s
        = Some (osi_make_error_pair ''osi_tcp_write2'' (uv_errno E EINVAL), s)"
      by (auto simp: osi_tcp_write2_def Let_def)
    then show ?thesis by (simp) (rule refusesI [OF inv]; simp)
  next
    case busy
    then show ?thesis using port bv
      by (simp add: osi_tcp_write2_def osi_ops) (rule refusesI [OF inv]; simp)
  next
    case fail
    then show ?thesis using port bv
      by (simp add: osi_tcp_write2_def osi_ops len) (rule refuses_updI [OF inv port], simp, simp_all add: stream_sums cl)
  next
    case ok
    then show ?thesis using port bv
      by (simp add: osi_tcp_write2_def osi_ops len) (rule accepts_updI [OF inv port], simp, simp_all add: stream_sums cl)
  qed
qed

section \<open>Completions\<close>

text \<open>The locked objects, as what a given structure holds and the rest.\<close>

lemma locked_split:
  assumes "osi_inv X s" and "heap s a = Some x"
  obtains R where "locked s = obj_held x + R"
  using held_locked_sub [OF assms] by (auto simp: subset_mset.le_iff_add)

lemma read_stream_cb_completes:
  assumes inv: "osi_inv X s" and port: "heap s port = Some (Stream_port p)"
    and cb: "read_callback p = Some callback" and q: "g_callbacks s = Some q"
  shows "completes X callback s (read_stream_cb port nread s)"
proof -
  note cl = stream_closing [OF inv port] stream_ok [OF inv port]
  obtain buffer where b: "read_buffer p = Some buffer" using cl cb by auto
  let ?p = "p\<lparr>read_callback := None\<rparr>"
  have h: "stream_held p = {#buffer, callback#} + stream_held ?p" using b cb by (simp add: stream_held_def)
  obtain R where R: "locked s = {#buffer, callback#} + stream_held ?p + R"
    using locked_split [OF inv port] h by auto
  show ?thesis using port cb b q
    by (simp add: read_stream_cb_def osi_ops osi_queue R)
      (rule completes_updI [OF inv port], simp, simp_all add: h cl R, simp_all add: stream_owed_def cb cl)
qed

lemma write_stream_cb_completes:
  assumes inv: "osi_inv X s" and port: "heap s port = Some (Stream_port p)"
    and cb: "write_callback p = Some callback" and q: "g_callbacks s = Some q"
  shows "completes X callback s (write_stream_cb port status s)"
proof -
  note cl = stream_closing [OF inv port] stream_ok [OF inv port]
  obtain buffer where b: "write_buffer p = Some buffer" using cl cb by auto
  let ?p = "p\<lparr>write_buffer2 := None, write_callback := None\<rparr>"
  have h: "stream_held p = {#buffer, callback#} + opt_mset (write_buffer2 p) + stream_held ?p"
    using b cb by (simp add: stream_held_def)
  obtain R where R: "locked s = {#buffer, callback#} + opt_mset (write_buffer2 p) + stream_held ?p + R"
    using locked_split [OF inv port] h by auto
  let ?arg = "if status < 0 then Sinteger32 status else Sunsigned32 (write_size p)"
  let ?s = "s\<lparr>locked := stream_held ?p + R, heap := (heap s)(port \<mapsto> Stream_port ?p),
    g_callbacks := Some (Scons (Scons callback (Scons ?arg Snil)) q)\<rparr>"
  have "write_stream_cb port status s = Some ?s"
    using port cb b q by (cases "write_buffer2 p") (simp_all add: write_stream_cb_def osi_ops osi_queue R)
  then show ?thesis
    by (simp only:) (rule completes_updI [OF inv port], simp, simp_all add: h cl R q, simp_all add: stream_owed_def cb cl)
qed


text \<open>
  libuv cancels a pending write before it runs the close callback of its stream, so the close
  callback finds no write pending. It answers a pending read with end-of-file and then the close
  itself.
\<close>

lemma close_stream_cb_delivers:
  assumes inv: "osi_inv X s" and port: "heap s port = Some (Stream_port p)" and w: "write_callback p = None"
    and nl: "\<forall>b. \<not> links_to (heap s) port True b" and q: "g_callbacks s = Some q"
  shows "\<exists>s' q'. close_stream_cb E port s = Some s' \<and> osi_inv X s' \<and> g_callbacks s' = Some q'
      \<and> queued q' = queued q + stream_owed p \<and> owed s = owed s' + stream_owed p
      \<and> heap s' = (heap s)(port := None)"
proof -
  obtain R where R: "locked s = stream_held p + R" using locked_split [OF inv port] by auto
  have nz: "port \<noteq> 0" using osi_inv_null [OF inv] port by (metis option.distinct(1))
  note ok = stream_ok [OF inv port]
  have "\<exists>s' q'. close_stream_cb E port s = Some s' \<and> heap s' = (heap s)(port := None)
      \<and> closing s' = (closing s)(port := None) \<and> mallocs s' = mallocs s \<and> locked s' = R
      \<and> g_callbacks s' = Some q' \<and> queued q' = queued q + stream_owed p"
    using port q w R nz ok
    by (cases "read_callback p"; cases "close_callback p")
       (auto simp: close_stream_cb_def osi_ops osi_queue stream_sums)
  then obtain s' q' where s': "close_stream_cb E port s = Some s'" "heap s' = (heap s)(port := None)"
    "closing s' = (closing s)(port := None)" "mallocs s' = mallocs s" "locked s' = R"
    "g_callbacks s' = Some q'" "queued q' = queued q + stream_owed p" by blast
  have "\<not> links_to (heap s) port k b" for k b
    using nl heap_ok_no_link [OF osi_inv_heap [OF inv] port, of k b] by (cases k) simp_all
  then have "heap_ok (heap s')" unfolding s'(2) by (intro heap_ok_del_port [OF osi_inv_heap [OF inv]]) simp
  then have "osi_inv X s'"
    using s' R by (intro osi_inv_del_linked [OF inv port]) simp_all
  moreover have "owed s = owed s' + stream_owed p" using owed_del [OF inv port s'(2)] by simp
  ultimately show ?thesis using s' by blast
qed


section \<open>Connecting: contracts\<close>

lemma connect_port:
  assumes inv: "osi_inv X s" and p: "heap s p = Some (Tcp_connect t)"
  obtains q where "heap s (conn_stream_port t) = Some (Stream_port q)" and "closing s (conn_stream_port t) = None"
    and "conn_stream_port t \<noteq> p" and "\<forall>b. links_to (heap s) (conn_stream_port t) True b \<longrightarrow> b = p"
proof -
  have l: "links_to (heap s) (conn_stream_port t) True p" using p by (simp add: links_to_def)
  obtain y where y: "heap s (conn_stream_port t) = Some y" "port_kind y = Some True"
    using heap_ok_port [OF osi_inv_heap [OF inv] l] by blast
  then obtain q where "y = Stream_port q" by (auto elim: port_kind.elims)
  moreover have "closing s (conn_stream_port t) = None" by (rule closing_ok_link [OF osi_inv_closing [OF inv] l])
  moreover have "conn_stream_port t \<noteq> p" using y p by auto
  ultimately show thesis
    using that y p heap_ok_unique [OF osi_inv_heap [OF inv] l] by blast
qed

text \<open>Giving up: the connection record is freed, its stream is closed and the callback gets the error.\<close>

lemma abandon_completes:
  assumes inv: "osi_inv X s" and p: "heap s p = Some (Tcp_connect t)" and q: "g_callbacks s = Some q"
    and h: "heap s' = (heap s)(p := None)" and l: "add_mset (conn_callback t) (locked s') = locked s"
    and m: "mallocs s' = mallocs s" and c: "closing s' = (closing s)(conn_stream_port t \<mapsto> Close_stream_cb)"
    and q': "g_callbacks s' = Some (Scons (Scons (conn_callback t) args) q)"
  shows "completes X (conn_callback t) s (Some s')"
proof (rule completesI2 [OF _ _ q q'])
  obtain y where y: "heap s (conn_stream_port t) = Some (Stream_port y)" "conn_stream_port t \<noteq> p"
    "\<forall>b. links_to (heap s) (conn_stream_port t) True b \<longrightarrow> b = p"
    using connect_port [OF inv p] by metis
  have nc: "closing s p = None" using osi_inv_not_closing [OF inv p] by simp
  let ?s = "s'\<lparr>closing := closing s\<rparr>"
  have i: "osi_inv X ?s" using h l m nc by (intro osi_inv_del [OF inv p]) (auto simp: fun_upd_idem)
  show "osi_inv X s'"
    using h c y by (intro osi_inv_close [OF i, of "conn_stream_port t" "Stream_port y"]) (auto simp: links_to_del)
  show "owed s = add_mset (conn_callback t) (owed s')" using owed_del [OF inv p h] by simp
qed

text \<open>
  What a connection callback may do: complete the promise, or start another attempt with fewer
  addresses left.
\<close>

definition connect_outcome :: "ptr multiset \<Rightarrow> uptr \<Rightarrow> ptr \<Rightarrow> nat \<Rightarrow> osi \<Rightarrow> osi option \<Rightarrow> bool" where
  "connect_outcome X p cb n s res \<longleftrightarrow>
     completes X cb s res \<and> heap (the res) p = None
     \<or> (\<exists>s' t. res = Some s' \<and> osi_inv X s' \<and> heap s' p = Some (Tcp_connect t) \<and> conn_callback t = cb
          \<and> length (conn_ai t) < n \<and> g_callbacks s' = g_callbacks s \<and> owed s' = owed s
          \<and> (\<exists>ai. last (calls s') = Net (Uv_tcp_connect p (conn_stream_port t) ai)))"

lemma connect_outcome_later:
  assumes "connect_outcome X p cb n s res" and "owed s = owed s0" and "g_callbacks s = g_callbacks s0" and "n \<le> m"
  shows "connect_outcome X p cb m s0 res"
  using assms unfolding connect_outcome_def completes_def by fastforce

lemma connect_upd:
  assumes inv: "osi_inv X s" and p: "heap s p = Some (Tcp_connect t)"
    and h: "heap s' = (heap s)(p \<mapsto> Tcp_connect (t\<lparr>conn_ai := ais\<rparr>))" and "locked s' = locked s"
    and "mallocs s' = mallocs s" and "closing s' = closing s"
  shows "osi_inv X s' \<and> owed s' = owed s"
proof
  have "closing s p = None" using osi_inv_not_closing [OF inv p] by simp
  then show "osi_inv X s'" using assms by (intro osi_inv_upd [OF inv p h]) simp_all
  show "owed s' = owed s" using owed_upd [OF inv p h] by simp
qed

lemma connect_retry_outcome:
  assumes "osi_inv X s" and "heap s p = Some (Tcp_connect t)" and "g_callbacks s = Some q" and "status < 0"
  shows "connect_outcome X p (conn_callback t) (length ais) s (connect_retry E p t ais status s)"
  using assms
proof (induction ais arbitrary: s t status)
  case Nil
  obtain y where y: "heap s (conn_stream_port t) = Some (Stream_port y)" "closing s (conn_stream_port t) = None"
    "conn_stream_port t \<noteq> p" using connect_port [OF Nil(1,2)] by metis
  have m: "conn_callback t \<in># locked s" using held_locked [OF Nil(1,2)] by simp
  have nz: "p \<noteq> 0" using osi_inv_null [OF Nil(1)] Nil(2) by (metis option.distinct(1))
  have "completes X (conn_callback t) s (connect_retry E p t [] status s)"
    using y m nz Nil(2,3)
    by (simp add: osi_ops osi_queue) (rule abandon_completes [OF Nil(1-3)]; simp add: insert_DiffM)
  moreover have "heap (the (connect_retry E p t [] status s)) p = None"
    using y m nz Nil(2,3) by (simp add: osi_ops osi_queue)
  ultimately show ?case by (simp add: connect_outcome_def)
next
  case (Cons ai ais)
  let ?t = "t\<lparr>conn_ai := ais\<rparr>" and ?c = "Net (Uv_tcp_connect p (conn_stream_port t) ai)"
  let ?s = "s\<lparr>heap := (heap s)(p \<mapsto> Tcp_connect ?t), calls := calls s @ [?c]\<rparr>"
  have i: "osi_inv X ?s \<and> owed ?s = owed s" by (rule connect_upd [OF Cons.prems(1,2)]) simp_all
  show ?case
  proof (cases "uv E ?c (length (calls s)) < 0")
    case True
    then have "connect_outcome X p (conn_callback ?t) (length ais) ?s (connect_retry E p ?t ais (uv E ?c (length (calls s))) ?s)"
      using Cons.IH [of ?s ?t "uv E ?c (length (calls s))"] i Cons.prems(3) by simp
    moreover have "connect_retry E p t (ai # ais) status s = connect_retry E p ?t ais (uv E ?c (length (calls s))) ?s"
      using True Cons.prems(2) by (simp add: osi_ops)
    ultimately show ?thesis using i by (simp) (rule connect_outcome_later [where s = ?s and n = "length ais"]; simp)
  next
    case False
    then have "connect_retry E p t (ai # ais) status s = Some ?s"
      using Cons.prems(2) by (simp add: osi_ops)
    then show ?thesis using i by (auto simp: connect_outcome_def)
  qed
qed

lemma connect_tcp_cb_outcome:
  assumes inv: "osi_inv X s" and p: "heap s p = Some (Tcp_connect t)" and q: "g_callbacks s = Some q"
  shows "connect_outcome X p (conn_callback t) (length (conn_ai t)) s (connect_tcp_cb E p status s)"
proof (cases "status < 0")
  case True
  with connect_retry_outcome [OF inv p q True, of "conn_ai t"] p show ?thesis by (simp add: connect_tcp_cb_def)
next
  case False
  have m: "conn_callback t \<in># locked s" using held_locked [OF inv p] by simp
  have nz: "p \<noteq> 0" using osi_inv_null [OF inv] p by (metis option.distinct(1))
  have "completes X (conn_callback t) s (connect_tcp_cb E p status s)"
    using False p q m nz by (simp add: connect_tcp_cb_def osi_ops osi_queue) (rule completesI [OF inv p]; simp)
  moreover have "heap (the (connect_tcp_cb E p status s)) p = None"
    using False p q m nz by (simp add: connect_tcp_cb_def osi_ops osi_queue)
  ultimately show ?thesis by (simp add: connect_outcome_def)
qed

lemma connect_tcp_addrinfo_cb_outcome:
  assumes inv: "osi_inv X s" and p: "heap s p = Some (Tcp_connect t)" and q: "g_callbacks s = Some q"
    and res: "status < 0 \<or> res \<noteq> []"
  shows "connect_outcome X p (conn_callback t) (length res) s (connect_tcp_addrinfo_cb E p status res s)"
proof (cases "status < 0")
  case True
  obtain y where y: "heap s (conn_stream_port t) = Some (Stream_port y)" "closing s (conn_stream_port t) = None"
    "conn_stream_port t \<noteq> p" using connect_port [OF inv p] by metis
  have m: "conn_callback t \<in># locked s" using held_locked [OF inv p] by simp
  have nz: "p \<noteq> 0" using osi_inv_null [OF inv] p by (metis option.distinct(1))
  have "completes X (conn_callback t) s (connect_tcp_addrinfo_cb E p status res s)"
    using True y m nz p q
    by (simp add: connect_tcp_addrinfo_cb_def osi_ops osi_queue) (rule abandon_completes [OF inv p q]; simp add: insert_DiffM)
  moreover have "heap (the (connect_tcp_addrinfo_cb E p status res s)) p = None"
    using True y m nz p q by (simp add: connect_tcp_addrinfo_cb_def osi_ops osi_queue)
  ultimately show ?thesis by (simp add: connect_outcome_def)
next
  case False
  with res obtain ai ais where r: "res = ai # ais" by (cases res) auto
  let ?t = "t\<lparr>conn_ai := ais\<rparr>" and ?c = "Net (Uv_tcp_connect p (conn_stream_port t) ai)"
  let ?s = "s\<lparr>heap := (heap s)(p \<mapsto> Tcp_connect ?t), calls := calls s @ [?c]\<rparr>"
  have i: "osi_inv X ?s \<and> owed ?s = owed s" by (rule connect_upd [OF inv p]) simp_all
  have step: "connect_tcp_addrinfo_cb E p status res s =
      (if uv E ?c (length (calls s)) < 0 then connect_tcp_cb E p (uv E ?c (length (calls s))) ?s else Some ?s)"
    using False p r by (simp add: connect_tcp_addrinfo_cb_def osi_ops)
  have later: "connect_outcome X p (conn_callback t) (length ais) ?s (connect_tcp_cb E p rc ?s)" for rc
    using connect_tcp_cb_outcome [of X ?s p ?t q E rc] i q by simp
  have "connect_outcome X p (conn_callback t) (length res) s (connect_tcp_cb E p rc ?s)" for rc
    by (rule connect_outcome_later [OF later]) (use i r in simp_all)
  moreover have "connect_outcome X p (conn_callback t) (length res) s (Some ?s)"
    using i r by (auto simp: connect_outcome_def)
  ultimately show ?thesis unfolding step by simp
qed

text \<open>The two structures of a new connection.\<close>

lemma new_connection:
  assumes inv: "osi_inv X s" and h: "heap s' = (heap s)(b \<mapsto> Stream_port (idle_stream Tcp_vtable), a \<mapsto> Tcp_connect t)"
    and ab: "a = Suc (mallocs s)" "b = Suc a" and t: "conn_stream_port t = b"
    and l: "locked s' = add_mset (conn_callback t) (locked s)" and m: "mallocs s' = b" and c: "closing s' = closing s"
  shows "osi_inv X s' \<and> owed s' = add_mset (conn_callback t) (owed s)"
proof -
  let ?x = "Stream_port (idle_stream Tcp_vtable)"
  let ?s = "s\<lparr>heap := (heap s)(b \<mapsto> ?x), mallocs := b\<rparr>"
  have fb: "heap s b = None" and fa: "heap s a = None"
    using osi_inv_above [OF inv] ab by simp_all
  have nl: "\<not> links_to (heap s) b k d" for k d
    using heap_ok_port [OF osi_inv_heap [OF inv], of b k d] fb by auto
  have ok: "heap_ok (heap ?s)" using heap_ok_new [OF osi_inv_heap [OF inv] fb, of ?x] by (simp add: idle_stream_def)
  have i: "osi_inv X ?s" using ok ab by (intro osi_inv_add [OF inv fb, where x = ?x]) (simp_all add: idle_stream_def stream_sums)
  have ok': "heap_ok (heap s')"
    using nl t ab unfolding h by (intro heap_ok_add [OF ok [simplified]]) (use fa in \<open>auto simp: links_to_upd\<close>)
  have "osi_inv X s'"
    using ok' h ab l m c t fa osi_inv_free_closing [OF inv fb] by (intro osi_inv_add [OF i, of a _ "Tcp_connect t"]) auto
  moreover have "owed s' = owed ?s + {#conn_callback t#}" using owed_add [OF i, of a s' "Tcp_connect t"] h fa ab by simp
  moreover have "owed ?s = owed s" using owed_add [OF inv fb, of ?s ?x] by (simp add: idle_stream_def stream_sums)
  ultimately show ?thesis by simp
qed

lemma osi_connect_tcp_contract:
  assumes inv: "osi_inv X s"
  shows "accepts_or_refuses X callback s (osi_connect_tcp E node service callback s)"
proof -
  let ?a = "Suc (mallocs s)" let ?b = "Suc ?a"
  let ?init = "uv E (Net (Uv_tcp_init ?b)) (length (calls s))"
  let ?gai = "uv E (Net (Uv_getaddrinfo ?a node service)) (Suc (length (calls s)))"
  let ?t = "\<lparr>conn_callback = callback, conn_ai = [], conn_stream_port = ?b\<rparr>"
  let ?h = "(heap s)(?b \<mapsto> Stream_port (idle_stream Tcp_vtable), ?a \<mapsto> Tcp_connect ?t)"
  have fresh: "heap s ?a = None" "heap s ?b = None" "closing s ?b = None"
    using osi_inv_above [OF inv] osi_inv_free_closing [OF inv, of ?b] by simp_all
  have new: "osi_inv X s' \<and> owed s' = add_mset callback (owed s)"
    if "heap s' = ?h" "locked s' = add_mset callback (locked s)" "mallocs s' = ?b" "closing s' = closing s" for s'
    using new_connection [OF inv that(1)] that by simp
  consider (oom1) "oom E (mallocs s)" | (oom2) "\<not> oom E (mallocs s)" "oom E ?a"
    | (init) "\<not> oom E (mallocs s)" "\<not> oom E ?a" "?init < 0"
    | (gai) "\<not> oom E (mallocs s)" "\<not> oom E ?a" "\<not> ?init < 0" "?gai < 0"
    | (ok) "\<not> oom E (mallocs s)" "\<not> oom E ?a" "\<not> ?init < 0" "\<not> ?gai < 0" by blast
  then show ?thesis
  proof cases
    case oom1
    then show ?thesis by (simp add: osi_connect_tcp_def osi_ops) (rule refusesI [OF inv]; simp)
  next
    case oom2
    then show ?thesis
      by (simp add: osi_connect_tcp_def osi_ops) (rule refusesI [OF inv]; simp add: fun_upd_idem fresh)
  next
    case init
    then show ?thesis
      by (simp add: osi_connect_tcp_def osi_ops) (rule refusesI [OF inv]; simp add: fun_upd_idem fresh fun_upd_twist)
  next
    case gai
    let ?l = "[Net (Uv_tcp_init ?b), Net (Uv_getaddrinfo ?a node service)]"
    let ?s1 = "s\<lparr>heap := ?h, locked := add_mset callback (locked s), mallocs := ?b, calls := calls s @ ?l, g_callbacks := Some Snil\<rparr>"
    let ?s2 = "?s1\<lparr>heap := (heap ?s1)(?a := None), locked := locked s, closing := (closing s)(?b \<mapsto> Close_stream_cb),
        g_callbacks := Some (Scons (Scons callback Snil) Snil)\<rparr>"
    have n1: "osi_inv X ?s1 \<and> owed ?s1 = add_mset callback (owed s)" by (rule new) simp_all
    have "completes X (conn_callback ?t) ?s1 (Some ?s2)"
      using n1 by (intro abandon_completes [where q = Snil and p = ?a]) simp_all
    with n1 have i2: "osi_inv X ?s2 \<and> owed ?s2 = owed s" by (simp add: completes_def)
    let ?s3 = "?s2\<lparr>g_callbacks := g_callbacks s, calls := calls s @ ?l @ [Hnd (Uv_close ?b Close_stream_cb)]\<rparr>"
    have i3: "osi_inv X ?s3 \<and> owed ?s3 = owed s"
      using i2 osi_inv_same [of X ?s2 ?s3] by (simp add: owed_def)
    have "osi_connect_tcp E node service callback s = Some (osi_make_error_pair ''uv_getaddrinfo'' ?gai, ?s3)"
      using gai fresh by (simp add: osi_connect_tcp_def osi_ops fun_upd_twist)
    with i3 show ?thesis by (simp add: accepts_or_refuses_def)
  next
    case ok
    let ?s3 = "s\<lparr>mallocs := ?b, heap := ?h, calls := calls s @ [Net (Uv_tcp_init ?b), Net (Uv_getaddrinfo ?a node service)],
       locked := add_mset callback (locked s)\<rparr>"
    have "osi_connect_tcp E node service callback s = Some (Strue, ?s3)"
      using ok fresh by (simp add: osi_connect_tcp_def osi_ops fun_upd_twist)
    with new [of ?s3] show ?thesis by (simp add: accepts_or_refuses_def)
  qed
qed


section \<open>Listeners and watchers: contracts\<close>

text \<open>
  A handle with a standing callback: opening it either returns the handle, which then keeps the
  callback locked, or returns an error pair; neither owes anything. Each event queues the callback
  once and keeps the handle as it is.
\<close>

definition opens_handle :: "ptr multiset \<Rightarrow> (ptr option \<Rightarrow> cobj) \<Rightarrow> ptr \<Rightarrow> osi \<Rightarrow> (ptr \<times> osi) option \<Rightarrow> bool" where
  "opens_handle X mk cb s res \<longleftrightarrow>
     (\<exists>r s'. res = Some (r, s') \<and> osi_inv X s' \<and> g_callbacks s' = g_callbacks s \<and> owed s' = owed s
        \<and> (error_pair r
           \<or> (\<exists>h. r = Sunsigned h \<and> heap s h = None \<and> heap s' = (heap s)(h \<mapsto> mk (Some cb)) \<and> closing s' = closing s)))"

definition notifies :: "ptr multiset \<Rightarrow> ptr \<Rightarrow> osi \<Rightarrow> osi option \<Rightarrow> bool" where
  "notifies X cb s res \<longleftrightarrow>
     (\<exists>s' q args. res = Some s' \<and> osi_inv X s' \<and> g_callbacks s = Some q
        \<and> g_callbacks s' = Some (Scons (Scons cb args) q) \<and> owed s' = owed s)"

text \<open>The handles whose \<^verbatim>\<open>data\<close> is a callback released by \<^verbatim>\<open>close_handle_data_cb\<close> and that owe nothing.\<close>

definition data_handle :: "(ptr option \<Rightarrow> cobj) \<Rightarrow> bool" where
  "data_handle mk \<longleftrightarrow> mk = Uv_tcp \<or> mk = Uv_fs_event"

lemma data_handle_simps:
  assumes "data_handle mk"
  shows "obj_held (mk d) = opt_mset d" "obj_owed (mk d) = {#}" "obj_link (mk d) = None" "port_kind (mk d) = None"
    "obj_ok (mk d)" "closes Close_handle_data_cb (mk d)"
  using assms by (auto simp: data_handle_def)

lemma new_handle:
  assumes inv: "osi_inv X s" and mk: "data_handle mk" and h: "heap s' = (heap s)(Suc (mallocs s) \<mapsto> mk d)"
    and l: "locked s' = locked s + opt_mset d" and m: "mallocs s' = Suc (mallocs s)" and c: "closing s' = closing s"
  shows "osi_inv X s' \<and> owed s' = owed s"
proof -
  note mk' = data_handle_simps [OF mk]
  have "heap_ok (heap s')" unfolding h by (rule heap_ok_new [OF osi_inv_heap [OF inv] osi_inv_fresh [OF inv]]) (simp_all add: mk')
  then have "osi_inv X s'" using h l m c by (intro osi_inv_new [OF inv, of _ "mk d"]) (simp_all add: mk')
  with owed_new [OF inv h] show ?thesis by (simp add: mk')
qed

lemma new_closing_handle:
  assumes inv: "osi_inv X s" and mk: "data_handle mk" and h: "heap s' = (heap s)(Suc (mallocs s) \<mapsto> mk d)"
    and l: "locked s' = locked s + opt_mset d" and m: "mallocs s' = Suc (mallocs s)"
    and c: "closing s' = (closing s)(Suc (mallocs s) \<mapsto> Close_handle_data_cb)"
  shows "osi_inv X s' \<and> owed s' = owed s"
proof -
  let ?s = "s'\<lparr>closing := closing s\<rparr>"
  have i: "osi_inv X ?s \<and> owed ?s = owed s" using h l m by (intro new_handle [OF inv mk]) simp_all
  note i' = conjunct1 [OF i]
  have x: "heap ?s (Suc (mallocs s)) = Some (mk d)" by (simp add: h)
  have "\<forall>b. \<not> links_to (heap ?s) (Suc (mallocs s)) True b"
    using heap_ok_no_link [OF osi_inv_heap [OF i'] x, of True] by (simp add: data_handle_simps [OF mk])
  then have "osi_inv X s'"
    using c by (intro osi_inv_close [OF i' x]) (simp_all add: data_handle_simps [OF mk])
  with i show ?thesis by (simp add: owed_def)
qed

lemma opens_errorI:
  "osi_inv X s' \<and> owed s' = owed s \<Longrightarrow> g_callbacks s' = g_callbacks s \<Longrightarrow>
   opens_handle X mk cb s (Some (osi_make_error_pair who e, s'))"
  by (simp add: opens_handle_def)

lemma opens_okI:
  "osi_inv X s' \<and> owed s' = owed s \<Longrightarrow> g_callbacks s' = g_callbacks s \<Longrightarrow> heap s h = None \<Longrightarrow>
   heap s' = (heap s)(h \<mapsto> mk (Some cb)) \<Longrightarrow> closing s' = closing s \<Longrightarrow>
   opens_handle X mk cb s (Some (Sunsigned h, s'))"
  unfolding opens_handle_def by blast

lemma unchanged:
  assumes "osi_inv X s" and "heap s' = heap s" and "locked s' = locked s" and "mallocs s \<le> mallocs s'"
    and "closing s' = closing s"
  shows "osi_inv X s' \<and> owed s' = owed s"
  using osi_inv_same [OF assms] assms(2) by (simp add: owed_def)

lemma osi_watch_path_contract:
  assumes inv: "osi_inv X s"
  shows "opens_handle X Uv_fs_event callback s (osi_watch_path E path callback s)"
proof -
  have mk: "data_handle Uv_fs_event" by (simp add: data_handle_def)
  let ?a = "Suc (mallocs s)"
  let ?i = "uv E (Hnd (Uv_fs_event_init ?a)) (length (calls s))"
  let ?st = "uv E (Hnd (Uv_fs_event_start ?a path)) (Suc (length (calls s)))"
  have fresh: "heap s ?a = None" "closing s ?a = None"
    by (rule osi_inv_fresh [OF inv], rule osi_inv_fresh_closing [OF inv])
  note new = new_handle [OF inv mk, where d = "Some callback"] and newc = new_closing_handle [OF inv mk, where d = "Some callback"]
  consider (oom) "oom E (mallocs s)" | (init) "\<not> oom E (mallocs s)" "?i < 0"
    | (start) "\<not> oom E (mallocs s)" "\<not> ?i < 0" "?st < 0" | (ok) "\<not> oom E (mallocs s)" "\<not> ?i < 0" "\<not> ?st < 0" by blast
  then show ?thesis
  proof cases
    case oom
    then show ?thesis by (simp add: osi_watch_path_def osi_ops) (rule opens_errorI [OF unchanged [OF inv]]; simp)
  next
    case init
    then show ?thesis
      by (simp add: osi_watch_path_def osi_ops) (rule opens_errorI [OF unchanged [OF inv]]; simp add: fresh fun_upd_idem)
  next
    case start
    then show ?thesis
      by (simp add: osi_watch_path_def osi_ops fresh) (rule opens_errorI [OF newc]; simp)
  next
    case ok
    then show ?thesis
      by (simp add: osi_watch_path_def osi_ops fresh) (rule opens_okI [OF new]; simp add: fresh)
  qed
qed

lemma osi_listen_tcp_contract:
  assumes inv: "osi_inv X s"
  shows "opens_handle X Uv_tcp callback s (osi_listen_tcp E address port callback s)"
proof -
  have mk: "data_handle Uv_tcp" by (simp add: data_handle_def)
  define ip where "ip = (if 0x2E \<in> set address then (''uv_ip4_addr'', Uv_ip4_addr address port) else (''uv_ip6_addr'', Uv_ip6_addr address port))"
  let ?a = "Suc (mallocs s)" and ?n = "length (calls s)"
  let ?addr = "uv E (Net (snd ip)) ?n" and ?i = "uv E (Net (Uv_tcp_init ?a)) (Suc ?n)"
  let ?b = "uv E (Net (Uv_tcp_bind ?a)) (Suc (Suc ?n))" and ?l = "uv E (Net (Uv_listen ?a)) (Suc (Suc (Suc ?n)))"
  have fresh: "heap s ?a = None" "closing s ?a = None"
    by (rule osi_inv_fresh [OF inv], rule osi_inv_fresh_closing [OF inv])
  note new = new_handle [OF inv mk, where d = "Some callback"] and newc = new_closing_handle [OF inv mk, where d = "Some callback"]
    and new0 = new_closing_handle [OF inv mk, where d = None]
  note defs = osi_listen_tcp_def ip_def [symmetric] osi_ops fresh case_prod_beta
  consider (addr) "?addr < 0" | (oom) "\<not> ?addr < 0" "oom E (mallocs s)"
    | (init) "\<not> ?addr < 0" "\<not> oom E (mallocs s)" "?i < 0"
    | (bind) "\<not> ?addr < 0" "\<not> oom E (mallocs s)" "\<not> ?i < 0" "?b < 0"
    | (listen) "\<not> ?addr < 0" "\<not> oom E (mallocs s)" "\<not> ?i < 0" "\<not> ?b < 0" "?l < 0"
    | (ok) "\<not> ?addr < 0" "\<not> oom E (mallocs s)" "\<not> ?i < 0" "\<not> ?b < 0" "\<not> ?l < 0" by blast
  then show ?thesis
  proof cases
    case addr
    then show ?thesis by (simp add: defs) (rule opens_errorI [OF unchanged [OF inv]]; simp)
  next
    case oom
    then show ?thesis by (simp add: defs) (rule opens_errorI [OF unchanged [OF inv]]; simp)
  next
    case init
    then show ?thesis
      by (simp add: defs) (rule opens_errorI [OF unchanged [OF inv]]; simp add: fresh fun_upd_idem)
  next
    case bind
    then show ?thesis by (simp add: defs) (rule opens_errorI [OF new0]; simp)
  next
    case listen
    then show ?thesis by (simp add: defs) (rule opens_errorI [OF newc]; simp)
  next
    case ok
    then show ?thesis by (simp add: defs) (rule opens_okI [OF new]; simp add: fresh)
  qed
qed


lemma notifiesI:
  "osi_inv X s' \<and> owed s' = owed s \<Longrightarrow> g_callbacks s = Some q \<Longrightarrow>
   g_callbacks s' = Some (Scons (Scons cb args) q) \<Longrightarrow> notifies X cb s (Some s')"
  unfolding notifies_def by blast

lemma watch_path_cb_notifies:
  assumes inv: "osi_inv X s" and h: "heap s handle = Some (Uv_fs_event (Some callback))" and q: "g_callbacks s = Some q"
  shows "notifies X callback s (watch_path_cb E handle filename events status s)"
  using h q by (simp add: watch_path_cb_def osi_queue) (auto intro!: notifiesI [OF unchanged [OF inv]])

lemma new_stream:
  assumes inv: "osi_inv X s" and h: "heap s' = (heap s)(Suc (mallocs s) \<mapsto> Stream_port (idle_stream Tcp_vtable))"
    and l: "locked s' = locked s" and m: "mallocs s' = Suc (mallocs s)"
    and c: "closing s' = closing s \<or> closing s' = (closing s)(Suc (mallocs s) \<mapsto> Close_stream_cb)"
  shows "osi_inv X s' \<and> owed s' = owed s"
proof -
  let ?x = "Stream_port (idle_stream Tcp_vtable)" and ?a = "Suc (mallocs s)"
  let ?s = "s'\<lparr>closing := closing s\<rparr>"
  note fresh = osi_inv_fresh [OF inv]
  have "heap_ok (heap s')"
    unfolding h by (rule heap_ok_new [OF osi_inv_heap [OF inv] fresh]) (simp_all add: idle_stream_def)
  then have i: "osi_inv X ?s"
    using h l m by (intro osi_inv_new [OF inv, of _ ?x]) (simp_all add: idle_stream_def stream_sums)
  have "\<not> links_to (heap s') ?a True b" for b
    using heap_ok_port [OF osi_inv_heap [OF inv], of ?a True b] fresh by (auto simp: h links_to_upd)
  then have "osi_inv X s'" if "closing s' \<noteq> closing s"
    using c h that by (intro osi_inv_close [OF i, of ?a ?x]) simp_all
  moreover have "osi_inv X s'" if "closing s' = closing s"
    using osi_inv_same [OF i, of s'] that by simp
  moreover have "owed s' = owed s" using owed_new [OF inv h] by (simp add: idle_stream_def stream_sums)
  ultimately show ?thesis by blast
qed

lemma listen_tcp_cb_notifies:
  assumes inv: "osi_inv X s" and h: "heap s server = Some (Uv_tcp (Some callback))" and q: "g_callbacks s = Some q"
  shows "notifies X callback s (listen_tcp_cb E server status s)"
proof -
  let ?a = "Suc (mallocs s)" and ?n = "length (calls s)"
  let ?i = "uv E (Net (Uv_tcp_init ?a)) ?n" and ?ac = "uv E (Net (Uv_accept server ?a)) (Suc ?n)"
  have fresh: "heap s ?a = None" "closing s ?a = None"
    by (rule osi_inv_fresh [OF inv], rule osi_inv_fresh_closing [OF inv])
  note same = notifiesI [OF unchanged [OF inv]] and new = notifiesI [OF new_stream [OF inv]]
  note defs = listen_tcp_cb_def osi_ops osi_queue fresh h q
  consider (err) "status < 0" | (oom) "\<not> status < 0" "oom E (mallocs s)"
    | (init) "\<not> status < 0" "\<not> oom E (mallocs s)" "?i < 0"
    | (accept) "\<not> status < 0" "\<not> oom E (mallocs s)" "\<not> ?i < 0" "?ac < 0"
    | (ok) "\<not> status < 0" "\<not> oom E (mallocs s)" "\<not> ?i < 0" "\<not> ?ac < 0" by blast
  then show ?thesis
  proof cases
    case err
    then show ?thesis by (simp add: defs) (rule same; simp add: q)
  next
    case oom
    then show ?thesis by (simp add: defs) (rule same; simp add: q)
  next
    case init
    then show ?thesis by (simp add: defs) (rule same; simp add: q fresh fun_upd_idem)
  next
    case accept
    then show ?thesis by (simp add: defs) (rule new; simp add: q)
  next
    case ok
    then show ?thesis by (simp add: defs) (rule new; simp add: q)
  qed
qed

text \<open>Closing a listener or watcher releases its callback, and the handle with it.\<close>

lemma close_handle_data_cb_releases:
  assumes inv: "osi_inv X s" and h: "heap s handle = Some (mk d)" and mk: "data_handle mk"
  shows "\<exists>s'. close_handle_data_cb handle s = Some s' \<and> osi_inv X s' \<and> owed s' = owed s
      \<and> heap s' = (heap s)(handle := None) \<and> g_callbacks s' = g_callbacks s"
proof -
  note mk' = data_handle_simps [OF mk]
  have nz: "handle \<noteq> 0" using osi_inv_null [OF inv] h by (metis option.distinct(1))
  have m: "opt_mset d \<subseteq># locked s" using held_locked_sub [OF inv h] by (simp add: mk')
  let ?s = "s\<lparr>closing := (closing s)(handle := None), heap := (heap s)(handle := None), locked := locked s - opt_mset d\<rparr>"
  have "close_handle_data_cb handle s = Some ?s"
    using h nz m mk by (cases d) (auto simp: close_handle_data_cb_def osi_ops data_handle_def)
  moreover have "osi_inv X ?s"
    using m by (intro osi_inv_del [OF inv h]) (simp_all add: mk' subset_mset.diff_add)
  moreover have "owed ?s = owed s" using owed_del [OF inv h, of ?s] by (simp add: mk')
  ultimately show ?thesis by auto
qed

lemma close_data_handle:
  assumes inv: "osi_inv X s" and h: "heap s handle = Some (mk d)" and mk: "data_handle mk" and c: "closing s handle = None"
  shows "\<exists>s'. uv_close handle Close_handle_data_cb s = Some s' \<and> osi_inv X s' \<and> owed s' = owed s
      \<and> heap s' = heap s \<and> closing s' handle = Some Close_handle_data_cb \<and> g_callbacks s' = g_callbacks s"
proof -
  note mk' = data_handle_simps [OF mk]
  let ?s = "s\<lparr>calls := calls s @ [Hnd (Uv_close handle Close_handle_data_cb)], closing := (closing s)(handle \<mapsto> Close_handle_data_cb)\<rparr>"
  have "\<forall>b. \<not> links_to (heap s) handle True b"
    using heap_ok_no_link [OF osi_inv_heap [OF inv] h, of True] by (simp add: mk')
  then have "osi_inv X ?s" by (intro osi_inv_close [OF inv h]) (simp_all add: mk')
  then show ?thesis using h c by (auto simp: uv_close_def owed_def)
qed


section \<open>Properties\<close>

text \<open>The events of one connection: name resolution, then the status of each attempt while one is pending.\<close>

fun run_attempts :: "env \<Rightarrow> uptr \<Rightarrow> int list \<Rightarrow> osi \<Rightarrow> osi option" where
  "run_attempts E p [] s = Some s"
| "run_attempts E p (status # sts) s =
     (if heap s p = None then Some s else Option.bind (connect_tcp_cb E p status s) (run_attempts E p sts))"

definition run_connection :: "env \<Rightarrow> uptr \<Rightarrow> int \<Rightarrow> nat list \<Rightarrow> int list \<Rightarrow> osi \<Rightarrow> osi option" where
  "run_connection E p status res sts s =
     Option.bind (connect_tcp_addrinfo_cb E p status res s) (run_attempts E p sts)"

lemma run_attempts_done: "heap s p = None \<Longrightarrow> run_attempts E p sts s = Some s"
  by (cases sts) simp_all

lemma connect_outcome_cases:
  assumes "connect_outcome X p cb n s res"
  obtains s' where "res = Some s'" and "completes X cb s (Some s')" and "heap s' p = None"
  | s' t where "res = Some s'" and "osi_inv X s'" and "heap s' p = Some (Tcp_connect t)" and "conn_callback t = cb"
      and "length (conn_ai t) < n" and "g_callbacks s' = g_callbacks s" and "owed s' = owed s"
  using assms unfolding connect_outcome_def completes_def by auto

lemma completes_before: "completes X cb s res \<Longrightarrow> owed s = owed s0 \<Longrightarrow> g_callbacks s = g_callbacks s0 \<Longrightarrow> completes X cb s0 res"
  by (simp add: completes_def)

lemma run_attempts_completes:
  assumes "osi_inv X s" and "heap s p = Some (Tcp_connect t)" and "g_callbacks s = Some q"
    and "length (conn_ai t) < length sts"
  shows "completes X (conn_callback t) s (run_attempts E p sts s)"
  using assms
proof (induction sts arbitrary: s t)
  case (Cons st sts)
  show ?case
    using connect_tcp_cb_outcome [OF Cons.prems(1-3), of E st]
  proof (cases rule: connect_outcome_cases)
    case (1 s')
    then show ?thesis using Cons.prems(2) by (simp add: run_attempts_done)
  next
    case (2 s' t')
    then have "completes X (conn_callback t) s' (run_attempts E p sts s')"
      using Cons.IH [of s' t'] Cons.prems by simp
    then show ?thesis using 2 Cons.prems(2) by (simp add: completes_before)
  qed
qed simp

text \<open>C17: A connection always comes to an end: after name resolution has answered and one status
  has been reported for each address it produced, the callback has been queued exactly once,
  whatever the statuses are, the connection record has been freed, and the table of locked objects
  matches what is left. Nothing in the sequence is undefined.\<close>

theorem connection_completes:
  assumes "osi_inv X s" and "heap s p = Some (Tcp_connect t)" and "g_callbacks s = Some q"
    and "status < 0 \<or> res \<noteq> []" and "length res \<le> length sts"
  shows "completes X (conn_callback t) s (run_connection E p status res sts s)"
  using connect_tcp_addrinfo_cb_outcome [OF assms(1-4), of E]
proof (cases rule: connect_outcome_cases)
  case (1 s')
  then show ?thesis by (simp add: run_connection_def run_attempts_done)
next
  case (2 s' t')
  then have "completes X (conn_callback t) s' (run_attempts E p sts s')"
    using run_attempts_completes [of X s' p t' q sts E] assms(3,5) by simp
  then show ?thesis using 2 by (simp add: run_connection_def completes_before)
qed

definition connecting :: osi where
  "connecting = osi_start\<lparr>g_callbacks := Some Snil, locked := {#Sprocedure 7#}, mallocs := 2,
     heap := [2 \<mapsto> Stream_port (idle_stream Tcp_vtable),
              1 \<mapsto> Tcp_connect \<lparr>conn_callback = Sprocedure 7, conn_ai = [], conn_stream_port = 2\<rparr>]\<rparr>"

lemma osi_inv_connecting: "osi_inv {#} connecting"
proof -
  have "osi_inv {#} (osi_start\<lparr>g_callbacks := Some Snil\<rparr>)" by (rule osi_inv_same [OF osi_inv_start]) simp_all
  from new_connection [OF this, of connecting 2 1 "\<lparr>conn_callback = Sprocedure 7, conn_ai = [], conn_stream_port = 2\<rparr>"]
  show ?thesis by (simp add: connecting_def osi_start_def)
qed

text \<open>Two addresses, both refused, with retries accepted by libuv.\<close>

theorem connection_completes_witness:
  "completes {#} (Sprocedure 7) connecting (run_connection quiet_env 1 0 [10, 11] [- 111, - 111] connecting)"
  using connection_completes [OF osi_inv_connecting, of 1 "\<lparr>conn_callback = Sprocedure 7, conn_ai = [], conn_stream_port = 2\<rparr>"
      Snil 0 "[10, 11]" "[- 111, - 111]" quiet_env]
  by (simp add: connecting_def)


definition closing_stream :: osi where
  "closing_stream = osi_start\<lparr>g_callbacks := Some Snil, locked := {#Sbytevector 3, Sprocedure 7, Sprocedure 8#}, mallocs := 1,
     heap := [1 \<mapsto> Stream_port ((idle_stream Pipe_vtable)\<lparr>close_callback := Some (Sprocedure 8),
                 read_buffer := Some (Sbytevector 3), read_size := 5, read_callback := Some (Sprocedure 7)\<rparr>)],
     closing := [1 \<mapsto> Close_stream_cb]\<rparr>"

lemma osi_inv_closing_stream: "osi_inv {#} closing_stream"
  by (simp add: closing_stream_def osi_start_def osi_inv_def heap_sum_def closing_ok_def heap_ok_def links_to_def
      idle_stream_def stream_held_def)


end
