(* ===== verification/C_Text.thy ===== *)
theory C_Text
  imports Prelude
begin

text \<open>
  The parts of the C library's text handling that swish uses: decimal and hexadecimal conversion as
  \<^verbatim>\<open>snprintf\<close> does them, and the bounded store of a formatted string.
\<close>

section \<open>Conversion\<close>

fun digits :: "nat \<Rightarrow> nat \<Rightarrow> u8 list" where
  "digits b n =
     (if b < 2 \<or> n < b then [] else digits b (n div b))
     @ [(let d = n mod (if b < 2 then 10 else b) in of_nat (if d < 10 then 48 + d else 87 + d))]"

declare digits.simps [simp del]

text \<open>\<^verbatim>\<open>%d\<close> of a value and \<^verbatim>\<open>%x\<close> of an unsigned one.\<close>

definition fmt_d :: "int \<Rightarrow> u8 list" where
  "fmt_d i = (if i < 0 then 0x2D # digits 10 (nat (- i)) else digits 10 (nat i))"

definition fmt_x :: "nat \<Rightarrow> u8 list" where
  "fmt_x n = digits 16 n"

text \<open>A string literal as bytes.\<close>

definition bytes :: "string \<Rightarrow> u8 list" where
  "bytes cs = List.map (\<lambda>c. of_nat (of_char c)) cs"

lemma length_bytes [simp]: "length (bytes cs) = length cs"
  by (simp add: bytes_def)

text \<open>
  \<^verbatim>\<open>snprintf(dst, n, ...)\<close> stores at most \<open>n - 1\<close> bytes of the formatted text and a terminating zero: the
  C string in \<^verbatim>\<open>dst\<close> afterwards.
\<close>

definition snprintf :: "nat \<Rightarrow> u8 list \<Rightarrow> u8 list" where
  "snprintf n text = take (n - 1) text"

lemma snprintf_fits: "length text < n \<Longrightarrow> snprintf n text = text"
  by (simp add: snprintf_def)

section \<open>Lengths\<close>

lemma length_digits:
  assumes "2 \<le> b" and "n < b ^ Suc k"
  shows "length (digits b n) \<le> Suc k"
  using assms(2)
proof (induction k arbitrary: n)
  case 0
  then show ?case using assms(1) by (subst digits.simps) simp
next
  case (Suc k)
  have "n div b < b ^ Suc k" using Suc.prems assms(1) by (simp add: less_mult_imp_div_less mult.commute)
  with Suc.IH [of "n div b"] assms(1) show ?case by (subst digits.simps) auto
qed

lemma length_digits_pos: "0 < length (digits b n)"
  by (subst digits.simps) simp

text \<open>Reading a decimal number back gives the number.\<close>

definition digit_value :: "u8 \<Rightarrow> nat" where
  "digit_value c = (if unat c < 58 then unat c - 48 else unat c - 87)"

definition digits_value :: "nat \<Rightarrow> u8 list \<Rightarrow> nat" where
  "digits_value b ds = foldl (\<lambda>v c. v * b + digit_value c) 0 ds"

lemma digit_value_digit: "d < 36 \<Longrightarrow> digit_value (of_nat (if d < 10 then 48 + d else 87 + d)) = d"
proof -
  assume "d < 36"
  then have "unat (of_nat (if d < 10 then 48 + d else 87 + d) :: u8) = (if d < 10 then 48 + d else 87 + d)"
    by (simp only: unat_of_nat) simp
  then show ?thesis by (simp only: digit_value_def) simp
qed

lemma digits_roundtrip:
  assumes "2 \<le> b" and "b \<le> 36"
  shows "digits_value b (digits b n) = n"
proof (induction n rule: less_induct)
  case (less n)
  have snoc: "digits_value b (ds @ [c]) = digits_value b ds * b + digit_value c" for ds c
    by (simp add: digits_value_def)
  show ?case
  proof (cases "n < b")
    case True
    with assms show ?thesis
      by (subst digits.simps) (simp add: Let_def digits_value_def digit_value_digit del: of_nat_add)
  next
    case False
    then have "digits_value b (digits b (n div b)) = n div b" using assms less.IH [of "n div b"] by simp
    moreover have "n mod b < 36" using assms mod_less_divisor [of b n] by linarith
    ultimately show ?thesis
      using assms False by (subst digits.simps) (simp add: Let_def snoc digit_value_digit del: of_nat_add)
  qed
qed

end
