(* ===== verification/Sys_Info.thy ===== *)
theory Sys_Info
  imports Stream_Ports C_Text
begin

text \<open>
  What \<^verbatim>\<open>osi.c\<close> reports about the system: error texts, socket addresses, host and user directories,
  the clock and the scheduler's time quantum, the command line, and the list of libuv handles. The
  answers of libuv and of the C library are arguments.
\<close>

section \<open>Error texts\<close>

definition SQLITE_ERRNO_MAP :: "(string \<times> int) list" where
  "SQLITE_ERRNO_MAP =
     [(''SQLITE_ERROR'', 1), (''SQLITE_INTERNAL'', 2), (''SQLITE_PERM'', 3), (''SQLITE_ABORT'', 4),
      (''SQLITE_ABORT_ROLLBACK'', 516), (''SQLITE_BUSY'', 5), (''SQLITE_BUSY_RECOVERY'', 261),
      (''SQLITE_BUSY_SNAPSHOT'', 517), (''SQLITE_LOCKED'', 6), (''SQLITE_LOCKED_SHAREDCACHE'', 262),
      (''SQLITE_NOMEM'', 7), (''SQLITE_READONLY'', 8), (''SQLITE_READONLY_RECOVERY'', 264),
      (''SQLITE_READONLY_CANTLOCK'', 520), (''SQLITE_READONLY_ROLLBACK'', 776),
      (''SQLITE_READONLY_DBMOVED'', 1032), (''SQLITE_INTERRUPT'', 9), (''SQLITE_IOERR'', 10),
      (''SQLITE_IOERR_READ'', 266), (''SQLITE_IOERR_SHORT_READ'', 522), (''SQLITE_IOERR_WRITE'', 778),
      (''SQLITE_IOERR_FSYNC'', 1034), (''SQLITE_IOERR_DIR_FSYNC'', 1290),
      (''SQLITE_IOERR_TRUNCATE'', 1546), (''SQLITE_IOERR_FSTAT'', 1802),
      (''SQLITE_IOERR_UNLOCK'', 2058), (''SQLITE_IOERR_RDLOCK'', 2314), (''SQLITE_IOERR_DELETE'', 2570),
      (''SQLITE_IOERR_NOMEM'', 3082), (''SQLITE_IOERR_ACCESS'', 3338),
      (''SQLITE_IOERR_CHECKRESERVEDLOCK'', 3594), (''SQLITE_IOERR_LOCK'', 3850),
      (''SQLITE_IOERR_CLOSE'', 4106), (''SQLITE_IOERR_DIR_CLOSE'', 4362),
      (''SQLITE_IOERR_SHMOPEN'', 4618), (''SQLITE_IOERR_SHMSIZE'', 4874),
      (''SQLITE_IOERR_SHMLOCK'', 5130), (''SQLITE_IOERR_SHMMAP'', 5386), (''SQLITE_IOERR_SEEK'', 5642),
      (''SQLITE_IOERR_DELETE_NOENT'', 5898), (''SQLITE_IOERR_MMAP'', 6154),
      (''SQLITE_IOERR_GETTEMPPATH'', 6410), (''SQLITE_IOERR_CONVPATH'', 6666), (''SQLITE_CORRUPT'', 11),
      (''SQLITE_CORRUPT_VTAB'', 267), (''SQLITE_NOTFOUND'', 12), (''SQLITE_FULL'', 13),
      (''SQLITE_CANTOPEN'', 14), (''SQLITE_CANTOPEN_NOTEMPDIR'', 270), (''SQLITE_CANTOPEN_ISDIR'', 526),
      (''SQLITE_CANTOPEN_FULLPATH'', 782), (''SQLITE_CANTOPEN_CONVPATH'', 1038),
      (''SQLITE_PROTOCOL'', 15), (''SQLITE_EMPTY'', 16), (''SQLITE_SCHEMA'', 17),
      (''SQLITE_TOOBIG'', 18), (''SQLITE_CONSTRAINT'', 19), (''SQLITE_CONSTRAINT_UNIQUE'', 2067),
      (''SQLITE_CONSTRAINT_TRIGGER'', 1811), (''SQLITE_CONSTRAINT_FOREIGNKEY'', 787),
      (''SQLITE_CONSTRAINT_CHECK'', 275), (''SQLITE_CONSTRAINT_PRIMARYKEY'', 1555),
      (''SQLITE_CONSTRAINT_NOTNULL'', 1299), (''SQLITE_CONSTRAINT_COMMITHOOK'', 531),
      (''SQLITE_CONSTRAINT_VTAB'', 2323), (''SQLITE_CONSTRAINT_FUNCTION'', 1043),
      (''SQLITE_CONSTRAINT_ROWID'', 2579), (''SQLITE_MISMATCH'', 20), (''SQLITE_MISUSE'', 21),
      (''SQLITE_NOLFS'', 22), (''SQLITE_AUTH'', 23), (''SQLITE_FORMAT'', 24), (''SQLITE_RANGE'', 25),
      (''SQLITE_NOTADB'', 26), (''SQLITE_ROW'', 100), (''SQLITE_NOTICE'', 27),
      (''SQLITE_NOTICE_RECOVER_WAL'', 283), (''SQLITE_NOTICE_RECOVER_ROLLBACK'', 539),
      (''SQLITE_WARNING'', 28), (''SQLITE_WARNING_AUTOINDEX'', 284), (''SQLITE_DONE'', 101)]"

definition TRANSLATE_SQLITE_ERRNO :: "int \<Rightarrow> int" where
  "TRANSLATE_SQLITE_ERRNO x = - (6000000 + x)"

text \<open>
  The switch has a case for every entry of libuv's \<^verbatim>\<open>UV_ERRNO_MAP\<close>, the argument \<open>uv_map\<close>, and one for every
  entry of \<open>SQLITE_ERRNO_MAP\<close>; every other code is formatted into a buffer of 32 bytes.
\<close>

definition osi_get_error_text :: "(int \<times> u8 list) list \<Rightarrow> int \<Rightarrow> u8 list" where
  "osi_get_error_text uv_map err =
     (case map_of (uv_map @ List.map (\<lambda>(name, x). (TRANSLATE_SQLITE_ERRNO x, bytes name)) SQLITE_ERRNO_MAP) err of
        Some msg \<Rightarrow> msg
      | None \<Rightarrow> snprintf 32 (bytes ''Error code '' @ fmt_d err))"

section \<open>Socket addresses\<close>

text \<open>
  A \<^verbatim>\<open>sockaddr_storage\<close> as the code reads it: the family, the port, and the answer of \<^verbatim>\<open>uv_ip4_name\<close> or
  \<^verbatim>\<open>uv_ip6_name\<close>, an error or the text it stores.
\<close>

datatype sockaddr = Inet u16 "int + u8 list" | Inet6 u16 "int + u8 list" | Other_family

definition osi_get_ip_address :: "env \<Rightarrow> uptr \<Rightarrow> int + sockaddr \<Rightarrow> osi \<Rightarrow> ptr option" where
  "osi_get_ip_address E port peer s = do {
     v \<leftarrow> port_vtable port s;
     Some (if v \<noteq> Tcp_vtable then osi_make_error_pair ''osi_get_ip_address'' (uv_errno E EINVAL)
       else case peer of
         Inl rc \<Rightarrow> osi_make_error_pair ''uv_tcp_getpeername'' rc
       | Inr (Inet n (Inl rc)) \<Rightarrow> osi_make_error_pair ''uv_ip4_name'' rc
       | Inr (Inet n (Inr name)) \<Rightarrow>
           (let len = length name
            in Sstring_utf8 E (name @ snprintf (256 - len) (bytes '':'' @ fmt_d (uint n))))
       | Inr (Inet6 n (Inl rc)) \<Rightarrow> osi_make_error_pair ''uv_ip6_name'' rc
       | Inr (Inet6 n (Inr name)) \<Rightarrow>
           (let name = bytes ''['' @ name; len = length name
            in Sstring_utf8 E (name @ snprintf (256 - len) (bytes '']:'' @ fmt_d (uint n))))
       | Inr Other_family \<Rightarrow> osi_make_error_pair ''osi_get_ip_address'' (uv_errno E EAI_FAMILY))
   }"

definition osi_get_tcp_listener_port :: "env \<Rightarrow> int + sockaddr \<Rightarrow> ptr" where
  "osi_get_tcp_listener_port E sockname =
     (case sockname of
        Inl rc \<Rightarrow> osi_make_error_pair ''uv_tcp_getsockname'' rc
      | Inr (Inet n _) \<Rightarrow> Sinteger (uint n)
      | Inr (Inet6 n _) \<Rightarrow> Sinteger (uint n)
      | Inr Other_family \<Rightarrow> osi_make_error_pair ''osi_get_tcp_listener_port'' (uv_errno E EAI_FAMILY))"

section \<open>Host, user and process\<close>

definition osi_get_executable_path :: "env \<Rightarrow> int \<Rightarrow> u8 list \<Rightarrow> ptr" where
  "osi_get_executable_path E rc buf =
     (if rc < 0 then osi_make_error_pair ''uv_exepath'' rc else Sstring_utf8 E buf)"

definition osi_get_home_directory :: "env \<Rightarrow> int \<Rightarrow> u8 list \<Rightarrow> ptr" where
  "osi_get_home_directory E rc buffer =
     (if rc < 0 then osi_make_error_pair ''uv_os_homedir'' rc else Sstring_utf8 E buffer)"

definition osi_get_temp_directory :: "env \<Rightarrow> int \<Rightarrow> u8 list \<Rightarrow> ptr" where
  "osi_get_temp_directory E rc buffer =
     (if rc < 0 then osi_make_error_pair ''uv_os_tmpdir'' rc else Sstring_utf8 E buffer)"

definition osi_get_hostname :: "env \<Rightarrow> int \<Rightarrow> u8 list \<Rightarrow> ptr" where
  "osi_get_hostname E rc buf =
     (if 0 = rc then Sstring_utf8 E buf else osi_make_error_pair ''uv_os_gethostname'' rc)"

record uv_utsname_t =
  sysname :: "u8 list"
  release :: "u8 list"
  version :: "u8 list"
  machine :: "u8 list"

definition osi_get_uname :: "env \<Rightarrow> int \<Rightarrow> uv_utsname_t \<Rightarrow> ptr" where
  "osi_get_uname E rc buf =
     (if rc \<noteq> 0 then osi_make_error_pair ''uv_os_uname'' rc
      else Svector [Ssymbol ''<uname>'', Sstring_utf8 E (sysname buf), Sstring_utf8 E (release buf),
                    Sstring_utf8 E (version buf), Sstring_utf8 E (machine buf)])"

text \<open>The command line kept by \<^verbatim>\<open>osi_set_argv\<close>, and the loop that copies it into a vector.\<close>

function argv_loop :: "env \<Rightarrow> u8 list list \<Rightarrow> nat \<Rightarrow> ptr list \<Rightarrow> nat \<Rightarrow> ptr list" where
  "argv_loop E argv argc v i =
     (if i < argc then argv_loop E argv argc (v[i := Sstring_utf8 E (argv ! i)]) (Suc i) else v)"
  by pat_completeness auto

termination by (relation "measure (\<lambda>(E, argv, argc, v, i). argc - i)") auto

declare argv_loop.simps [simp del]

definition osi_get_argv :: "env \<Rightarrow> u8 list list \<Rightarrow> ptr" where
  "osi_get_argv E g_argv =
     Svector (argv_loop E g_argv (length g_argv) (replicate (length g_argv) Sfalse) 0)"

text \<open>\<^verbatim>\<open>uv_walk\<close> visits the handles with their types.\<close>

fun list_uv_cb :: "uptr \<times> int \<Rightarrow> ptr \<Rightarrow> ptr" where
  "list_uv_cb (handle, type) ls = Scons (Scons (Sunsigned handle) (Sinteger32 type)) ls"

definition osi_list_uv_handles :: "(uptr \<times> int) list \<Rightarrow> ptr" where
  "osi_list_uv_handles handles = fold list_uv_cb handles Snil"

text \<open>Memory in use, as the GNU C library reports it.\<close>

definition osi_get_bytes_used :: "u64 \<Rightarrow> u64 \<Rightarrow> u64" where
  "osi_get_bytes_used hblkhd uordblks = hblkhd + uordblks"

section \<open>Time\<close>

text \<open>Milliseconds since 1970 from a \<^verbatim>\<open>timespec\<close>, 0 when the clock cannot be read.\<close>

definition osi_get_time :: "(u64 \<times> u64) option \<Rightarrow> u64" where
  "osi_get_time now =
     (case now of None \<Rightarrow> 0 | Some (sec, nsec) \<Rightarrow> sec * 1000 + nsec div 1000000)"

definition osi_get_hrtime :: "u64 \<Rightarrow> u64" where
  "osi_get_hrtime hrtime = hrtime"

definition osi_get_pid :: "int \<Rightarrow> int" where
  "osi_get_pid pid = pid"

text \<open>\<open>i\<close> is the new bytevector and \<open>uuid\<close> what the library generates into it.\<close>

definition osi_make_uuid :: "nat \<Rightarrow> u8 list \<Rightarrow> osi \<Rightarrow> ptr \<times> osi" where
  "osi_make_uuid i uuid s = (Sbytevector i, s\<lparr>bytevectors := (bytevectors s)(i := take 16 (uuid @ replicate 16 0))\<rparr>)"

definition osi_set_quantum :: "u64 \<Rightarrow> u64 \<Rightarrow> u64" where
  "osi_set_quantum hrtime nanoseconds = hrtime + nanoseconds"

definition osi_is_quantum_over :: "u64 \<Rightarrow> u64 \<Rightarrow> int" where
  "osi_is_quantum_over g_threshold hrtime = (if hrtime \<ge> g_threshold then 1 else 0)"

section \<open>Lemmas\<close>

lemma length_fmt_d:
  assumes "- (10 ^ Suc k) < i" and "i < 10 ^ Suc k"
  shows "length (fmt_d i) \<le> Suc (Suc k)"
proof -
  have "nat \<bar>i\<bar> < 10 ^ Suc k" using assms by (simp add: nat_less_iff abs_less_iff)
  from length_digits [OF _ this] show ?thesis using assms by (cases "i < 0") (simp_all add: fmt_d_def)
qed

lemma length_fmt_d_u16: "length (fmt_d (uint (n :: u16))) \<le> 5"
proof -
  have "unat n < 10 ^ Suc 4" using unsigned_less [of n, where ?'a = nat] by simp
  from length_digits [OF _ this] show ?thesis by (simp add: fmt_d_def)
qed

lemma argv_loop_spec:
  assumes "length v = length argv" and "i \<le> length argv" and "take i v = List.map (Sstring_utf8 E) (take i argv)"
  shows "argv_loop E argv (length argv) v i = List.map (Sstring_utf8 E) argv"
  using assms
proof (induction "length argv - i" arbitrary: v i)
  case 0
  then show ?case by (subst argv_loop.simps) simp
next
  case (Suc n)
  then have i: "i < length argv" by simp
  let ?v = "v[i := Sstring_utf8 E (argv ! i)]"
  have "take (Suc i) ?v = List.map (Sstring_utf8 E) (take (Suc i) argv)"
    using Suc.prems i by (simp add: take_Suc_conv_app_nth)
  then have "argv_loop E argv (length argv) ?v (Suc i) = List.map (Sstring_utf8 E) argv"
    using Suc.hyps(1) [of "Suc i" ?v] Suc.hyps(2) Suc.prems i by simp
  with i show ?case by (subst argv_loop.simps) simp
qed

lemma distinct_sqlite_codes: "distinct (List.map snd SQLITE_ERRNO_MAP)"
  by code_simp

section \<open>Properties\<close>

text \<open>Every SQLite result code listed in the header, translated to the number space shared with
  libuv, is reported by its own name: no two codes share a case, and none is taken for a libuv error
  as long as libuv's own codes stay outside that number space.\<close>

theorem error_text_names_sqlite_codes:
  assumes "(name, x) \<in> set SQLITE_ERRNO_MAP"
    and "TRANSLATE_SQLITE_ERRNO x \<notin> fst ` set uv_map"
  shows "osi_get_error_text uv_map (TRANSLATE_SQLITE_ERRNO x) = bytes name"
proof -
  let ?m = "List.map (\<lambda>(name, x). (TRANSLATE_SQLITE_ERRNO x, bytes name)) SQLITE_ERRNO_MAP"
  have inj: "inj TRANSLATE_SQLITE_ERRNO" by (simp add: inj_def TRANSLATE_SQLITE_ERRNO_def)
  have "List.map fst ?m = List.map TRANSLATE_SQLITE_ERRNO (List.map snd SQLITE_ERRNO_MAP)" by auto
  then have "distinct (List.map fst ?m)"
    using distinct_sqlite_codes inj by (simp only: distinct_map) (blast intro: inj_on_subset)
  moreover have "(TRANSLATE_SQLITE_ERRNO x, bytes name) \<in> set ?m" using assms(1) by force
  ultimately have "map_of ?m (TRANSLATE_SQLITE_ERRNO x) = Some (bytes name)" by (rule map_of_is_SomeI)
  moreover have "map_of uv_map (TRANSLATE_SQLITE_ERRNO x) = None" using assms(2) by (simp add: map_of_eq_None_iff)
  ultimately show ?thesis by (simp add: osi_get_error_text_def map_add_def)
qed

theorem error_text_names_sqlite_codes_witness:
  "osi_get_error_text [(- 2, bytes ''no such file or directory'')] (TRANSLATE_SQLITE_ERRNO 2067) = bytes ''SQLITE_CONSTRAINT_UNIQUE''"
proof (rule error_text_names_sqlite_codes)
  show "(''SQLITE_CONSTRAINT_UNIQUE'', 2067) \<in> set SQLITE_ERRNO_MAP" by code_simp
qed (simp add: TRANSLATE_SQLITE_ERRNO_def)

text \<open>Every other 32-bit code is reported as a complete decimal number: the buffer of 32 bytes
  never truncates it, and the number can be read back from the text.\<close>

theorem error_text_fallback_complete:
  assumes "- (2 ^ 31) \<le> err" and "err < 2 ^ 31"
    and "err \<notin> fst ` set uv_map" and "\<forall>x \<in> snd ` set SQLITE_ERRNO_MAP. err \<noteq> TRANSLATE_SQLITE_ERRNO x"
  shows "osi_get_error_text uv_map err = bytes ''Error code '' @ fmt_d err
     \<and> digits_value 10 (digits 10 (nat \<bar>err\<bar>)) = nat \<bar>err\<bar>"
proof -
  have "map_of (List.map (\<lambda>(name, x). (TRANSLATE_SQLITE_ERRNO x, bytes name)) SQLITE_ERRNO_MAP) err = None"
    using assms(4) by (force simp: map_of_eq_None_iff)
  moreover have "map_of uv_map err = None" using assms(3) by (simp add: map_of_eq_None_iff)
  moreover have "length (fmt_d err) \<le> Suc (Suc 9)" using assms(1,2) by (intro length_fmt_d) simp_all
  ultimately show ?thesis
    by (simp add: osi_get_error_text_def map_add_def snprintf_fits digits_roundtrip)
qed

theorem error_text_fallback_complete_witness:
  "osi_get_error_text [] (- 2147483648) = bytes ''Error code '' @ fmt_d (- 2147483648)"
proof -
  have "\<forall>x \<in> set (List.map snd SQLITE_ERRNO_MAP). - 2147483648 \<noteq> TRANSLATE_SQLITE_ERRNO x" by code_simp
  then show ?thesis using error_text_fallback_complete [of "- 2147483648" "[]"] by simp
qed

text \<open>The text of a peer's address is never cut short: with the sizes passed to libuv there is
  always room for the port number, so the answer is the whole address.\<close>

theorem ip_address_untruncated:
  assumes "port_vtable port s = Some Tcp_vtable" and "length name4 < 256 - 6" and "length name6 < 256 - 8"
  shows "osi_get_ip_address E port (Inr (Inet n (Inr name4))) s
      = Some (Sstring_utf8 E (name4 @ bytes '':'' @ fmt_d (uint n)))
    \<and> osi_get_ip_address E port (Inr (Inet6 n (Inr name6))) s
      = Some (Sstring_utf8 E (bytes ''['' @ name6 @ bytes '']:'' @ fmt_d (uint n)))"
  using assms length_fmt_d_u16 [of n] by (simp add: osi_get_ip_address_def Let_def snprintf_fits)

theorem ip_address_untruncated_witness:
  "osi_get_ip_address quiet_env 2 (Inr (Inet 80 (Inr (bytes ''255.255.255.255'')))) connecting
     = Some (Sstring_utf8 quiet_env (bytes ''255.255.255.255:80''))"
proof -
  have "port_vtable 2 connecting = Some Tcp_vtable" by (simp add: connecting_def port_vtable_def idle_stream_def)
  moreover have "bytes ''255.255.255.255'' @ bytes '':'' @ fmt_d (uint (80 :: u16)) = bytes ''255.255.255.255:80''"
    by (simp add: bytes_def fmt_d_def digits.simps)
  ultimately show ?thesis
    using ip_address_untruncated [of 2 connecting "bytes ''255.255.255.255''" "[]" quiet_env 80] by simp
qed

text \<open>A quantum ends exactly when its time is up: the check answers 0 before the given number of
  nanoseconds has passed and 1 from then on, provided the sum fits the 64-bit clock.\<close>

theorem quantum_exact:
  assumes "unat start + unat ns < 2 ^ 64" and "unat start \<le> unat now"
  shows "osi_is_quantum_over (osi_set_quantum start ns) now = (if unat now - unat start < unat ns then 0 else 1)"
proof -
  have "unat (start + ns) = unat start + unat ns" using assms(1) by (simp add: unat_word_ariths)
  then show ?thesis using assms(2) by (auto simp: osi_is_quantum_over_def osi_set_quantum_def word_le_nat_alt)
qed

theorem quantum_exact_witness: "osi_is_quantum_over (osi_set_quantum 1000 500) 1499 = 0"
  using quantum_exact [of 1000 500 1499] by simp

text \<open>The command line reaches Scheme in order and complete.\<close>

theorem argv_complete: "osi_get_argv E argv = Svector (List.map (Sstring_utf8 E) argv)"
  by (simp add: osi_get_argv_def argv_loop_spec)

end
