(* ===== verification/Ports.thy ===== *)
theory Ports
  imports Stream_Ports
begin

text \<open>
  The uniform port interface of \<^verbatim>\<open>osi.c\<close>: \<^verbatim>\<open>osi_read_port\<close>, \<^verbatim>\<open>osi_write_port\<close> and \<^verbatim>\<open>osi_close_port\<close> check the
  region of the buffer and call through the port's virtual table. The contract every table obeys is
  the locale \<open>port_impl\<close>; files, borrowed descriptors and streams are its three instances.
\<close>

section \<open>Virtual tables\<close>

type_synonym port_io = "env \<Rightarrow> uptr \<Rightarrow> ptr \<Rightarrow> u64 \<Rightarrow> u32 \<Rightarrow> int \<Rightarrow> ptr \<Rightarrow> osi \<Rightarrow> (ptr \<times> osi) option"
type_synonym port_close = "env \<Rightarrow> uptr \<Rightarrow> ptr \<Rightarrow> osi \<Rightarrow> (ptr \<times> osi) option"

record osi_port_vtable_t =
  vt_close :: port_close
  vt_read :: port_io
  vt_write :: port_io

definition fd_vtable :: osi_port_vtable_t where
  "fd_vtable = \<lparr>vt_close = close_fd_port, vt_read = read_fs_port, vt_write = write_fs_port\<rparr>"

definition file_vtable :: osi_port_vtable_t where
  "file_vtable = \<lparr>vt_close = close_fs_port, vt_read = read_fs_port, vt_write = write_fs_port\<rparr>"

definition pipe_vtable :: osi_port_vtable_t where
  "pipe_vtable = \<lparr>vt_close = close_stream_port, vt_read = read_stream_port, vt_write = write_stream_port\<rparr>"

definition tcp_vtable :: osi_port_vtable_t where
  "tcp_vtable = \<lparr>vt_close = close_stream_port, vt_read = read_stream_port, vt_write = write_stream_port\<rparr>"

fun deref_vtable :: "vtable \<Rightarrow> osi_port_vtable_t" where
  "deref_vtable Fd_vtable = fd_vtable"
| "deref_vtable File_vtable = file_vtable"
| "deref_vtable Pipe_vtable = pipe_vtable"
| "deref_vtable Tcp_vtable = tcp_vtable"

section \<open>Operations\<close>

definition osi_close_port :: port_close where
  "osi_close_port E port callback s = do {
     v \<leftarrow> port_vtable port s;
     vt_close (deref_vtable v) E port callback s
   }"

definition osi_read_port :: port_io where
  "osi_read_port E port buffer start_index sz offset callback s =
     (let last = start_index + ucast sz
      in if \<not> Sbytevectorp buffer \<or> last \<le> start_index \<or> of_nat (Sbytevector_length buffer s) < last
         then Some (osi_make_error_pair ''osi_read_port'' (uv_errno E EINVAL), s)
         else do {
           v \<leftarrow> port_vtable port s;
           vt_read (deref_vtable v) E port buffer start_index sz offset callback s
         })"

definition osi_write_port :: port_io where
  "osi_write_port E port buffer start_index sz offset callback s =
     (let last = start_index + ucast sz
      in if \<not> Sbytevectorp buffer \<or> last \<le> start_index \<or> of_nat (Sbytevector_length buffer s) < last
         then Some (osi_make_error_pair ''osi_write_port'' (uv_errno E EINVAL), s)
         else do {
           v \<leftarrow> port_vtable port s;
           vt_write (deref_vtable v) E port buffer start_index sz offset callback s
         })"

section \<open>The contract of a port implementation\<close>

text \<open>
  \<open>live s port\<close> says that a client may use the port: it exists and no close is under way that the
  client has not been told about. Reads and writes accept or refuse and keep the port alive; a close
  accepts or refuses.
\<close>

datatype port_request = Read_req ptr u64 u32 int ptr | Write_req ptr u64 u32 int ptr

fun request_cb :: "port_request \<Rightarrow> ptr" where
  "request_cb (Read_req _ _ _ _ cb) = cb"
| "request_cb (Write_req _ _ _ _ cb) = cb"

text \<open>One request through the table, and a sequence of them, with the callbacks that were accepted.\<close>

fun submit :: "osi_port_vtable_t \<Rightarrow> env \<Rightarrow> uptr \<Rightarrow> port_request \<Rightarrow> osi \<Rightarrow> (ptr \<times> osi) option" where
  "submit vt E port (Read_req b i n off cb) s = vt_read vt E port b i n off cb s"
| "submit vt E port (Write_req b i n off cb) s = vt_write vt E port b i n off cb s"

fun session :: "osi_port_vtable_t \<Rightarrow> env \<Rightarrow> uptr \<Rightarrow> port_request list \<Rightarrow> osi \<Rightarrow> (ptr multiset \<times> osi) option" where
  "session vt E port [] s = Some ({#}, s)"
| "session vt E port (r # rs) s = do {
     (v, s) \<leftarrow> submit vt E port r s;
     (acc, s) \<leftarrow> session vt E port rs s;
     Some ((if v = Strue then add_mset (request_cb r) acc else acc), s)
   }"

locale port_impl =
  fixes vt :: osi_port_vtable_t and live :: "osi \<Rightarrow> uptr \<Rightarrow> bool"
  assumes read_law: "osi_inv X s \<Longrightarrow> live s port \<Longrightarrow> accepts_or_refuses X cb s (vt_read vt E port b i n off cb s)"
    and write_law: "osi_inv X s \<Longrightarrow> live s port \<Longrightarrow> accepts_or_refuses X cb s (vt_write vt E port b i n off cb s)"
    and close_law: "osi_inv X s \<Longrightarrow> live s port \<Longrightarrow> accepts_or_refuses X cb s (vt_close vt E port cb s)"
    and read_live: "osi_inv X s \<Longrightarrow> live s port \<Longrightarrow> vt_read vt E port b i n off cb s = Some (r, s') \<Longrightarrow> live s' port"
    and write_live: "osi_inv X s \<Longrightarrow> live s port \<Longrightarrow> vt_write vt E port b i n off cb s = Some (r, s') \<Longrightarrow> live s' port"
begin

lemma submit_law:
  assumes "osi_inv X s" and "live s port"
  shows "accepts_or_refuses X (request_cb r) s (submit vt E port r s)"
  using assms by (cases r) (simp_all add: read_law write_law)

lemma submit_live:
  assumes "osi_inv X s" and "live s port" and "submit vt E port r s = Some (v, s')"
  shows "live s' port"
  using assms(3) read_live [OF assms(1,2)] write_live [OF assms(1,2)] by (cases r) simp_all

text \<open>However many requests are made, every accepted callback is owed exactly once and no refused one is.\<close>

lemma session_accounts:
  assumes "osi_inv X s" and "live s port"
  shows "\<exists>acc s'. session vt E port rs s = Some (acc, s') \<and> osi_inv X s' \<and> live s' port
      \<and> owed s' = owed s + acc \<and> g_callbacks s' = g_callbacks s"
  using assms
proof (induction rs arbitrary: s)
  case (Cons r rs)
  obtain v s1 where s1: "submit vt E port r s = Some (v, s1)" "osi_inv X s1" "g_callbacks s1 = g_callbacks s"
    and o1: "owed s1 = owed s + (if v = Strue then {#request_cb r#} else {#})"
    using submit_law [OF Cons.prems, of r E] unfolding accepts_or_refuses_def by (auto split: if_splits)
  obtain acc s2 where s2: "session vt E port rs s1 = Some (acc, s2)" "osi_inv X s2" "live s2 port"
      "owed s2 = owed s1 + acc" "g_callbacks s2 = g_callbacks s1"
    using Cons.IH [OF s1(2) submit_live [OF Cons.prems s1(1)]] by blast
  then show ?case using s1 o1 by simp
qed simp

text \<open>A session that ends with a close.\<close>

lemma session_close_accounts:
  assumes "osi_inv X s" and "live s port" and "session vt E port rs s = Some (acc, s1)"
  shows "accepts_or_refuses X cb s1 (vt_close vt E port cb s1) \<and> owed s1 = owed s + acc"
  using session_accounts [OF assms(1,2), of E rs] assms(3) close_law by auto

end

section \<open>The three implementations\<close>

lemma read_fs_port_heap:
  assumes "osi_inv X s" and "heap s port = Some (Fs_port p)" and "read_fs_port E port b i n off cb s = Some (r, s')"
  shows "heap s' = heap s \<or> heap s' = (heap s)(Suc (mallocs s) \<mapsto> Rw_fs_req b cb)"
  using assms(2,3) osi_inv_fresh [OF assms(1)]
  by (auto simp: read_fs_port_def osi_ops fun_upd_idem split: if_splits)

lemma write_fs_port_heap:
  assumes "osi_inv X s" and "heap s port = Some (Fs_port p)" and "write_fs_port E port b i n off cb s = Some (r, s')"
  shows "heap s' = heap s \<or> heap s' = (heap s)(Suc (mallocs s) \<mapsto> Rw_fs_req b cb)"
  using assms(2,3) osi_inv_fresh [OF assms(1)]
  by (auto simp: write_fs_port_def osi_ops fun_upd_idem split: if_splits)

lemma closable_new:
  assumes "osi_inv X s" and "closable s port" and "heap s' = heap s \<or> heap s' = (heap s)(Suc (mallocs s) \<mapsto> Rw_fs_req b cb)"
  shows "closable s' port"
  using assms osi_inv_fresh [OF assms(1)] by (auto simp: closable_def links_to_upd split: if_splits)

lemma closableE:
  assumes "closable s port"
  obtains p where "heap s port = Some (Fs_port p)"
  using assms unfolding closable_def by blast

lemma fs_live:
  assumes inv: "osi_inv X s" and live: "closable s port"
  shows "read_fs_port E port b i n off cb s = Some (r, s') \<Longrightarrow> closable s' port"
    and "write_fs_port E port b i n off cb s = Some (r, s') \<Longrightarrow> closable s' port"
proof -
  obtain p where p: "heap s port = Some (Fs_port p)" using live by (rule closableE)
  show "closable s' port" if "read_fs_port E port b i n off cb s = Some (r, s')"
    by (rule closable_new [OF assms read_fs_port_heap [OF inv p that]])
  show "closable s' port" if "write_fs_port E port b i n off cb s = Some (r, s')"
    by (rule closable_new [OF assms write_fs_port_heap [OF inv p that]])
qed

lemma fs_contracts:
  assumes inv: "osi_inv X s" and live: "closable s port"
  shows "accepts_or_refuses X cb s (read_fs_port E port b i n off cb s)"
    and "accepts_or_refuses X cb s (write_fs_port E port b i n off cb s)"
  using live by (auto elim!: closableE intro: read_fs_port_contract [OF inv] write_fs_port_contract [OF inv])

interpretation file_port: port_impl file_vtable closable
  by unfold_locales (simp_all only: file_vtable_def osi_port_vtable_t.simps,
      rule fs_contracts, assumption+, rule fs_contracts, assumption+, rule close_fs_port_contract, assumption+,
      rule fs_live, assumption+, rule fs_live(2), assumption+)

interpretation fd_port: port_impl fd_vtable closable
  by unfold_locales (simp_all only: fd_vtable_def osi_port_vtable_t.simps,
      rule fs_contracts, assumption+, rule fs_contracts, assumption+, rule close_fd_port_contract, assumption+,
      rule fs_live, assumption+, rule fs_live(2), assumption+)

text \<open>What a read or write request may change of a stream.\<close>

definition stream_kept :: "osi \<Rightarrow> osi \<Rightarrow> uptr \<Rightarrow> stream_port_t \<Rightarrow> bool" where
  "stream_kept s s' port p \<longleftrightarrow> closing s' = closing s
     \<and> (heap s' = heap s \<or> (\<exists>q. heap s' = (heap s)(port \<mapsto> Stream_port q) \<and> close_callback q = close_callback p))"

lemma read_stream_port_kept:
  assumes "heap s port = Some (Stream_port p)" and "read_stream_port E port b i n off cb s = Some (r, s')"
  shows "stream_kept s s' port p"
  using assms by (auto simp: read_stream_port_def stream_kept_def osi_ops split: if_splits)

lemma write_stream_port_kept:
  assumes "heap s port = Some (Stream_port p)" and "write_stream_port E port b i n off cb s = Some (r, s')"
  shows "stream_kept s s' port p"
  using assms by (auto simp: write_stream_port_def stream_kept_def osi_ops split: if_splits)

lemma owned_streamE:
  assumes "owned_stream s port"
  obtains p where "heap s port = Some (Stream_port p)" and "close_callback p = None \<longrightarrow> closing s port = None"
    and "\<forall>a. \<not> links_to (heap s) port True a"
  using assms unfolding owned_stream_def by (elim conjE exE)

lemma owned_stream_kept:
  assumes p: "heap s port = Some (Stream_port p)" and o: "owned_stream s port" and k: "stream_kept s s' port p"
  shows "owned_stream s' port"
proof -
  have "owned_stream s' port" if "heap s' = heap s" using o k that by (simp add: owned_stream_def stream_kept_def)
  moreover have "owned_stream s' port"
    if "heap s' = (heap s)(port \<mapsto> Stream_port q)" "close_callback q = close_callback p" for q
    using o k that p by (auto simp: owned_stream_def stream_kept_def links_to_upd split: if_splits)
  ultimately show ?thesis using k unfolding stream_kept_def by blast
qed

lemma stream_live:
  assumes live: "owned_stream s port"
  shows "read_stream_port E port b i n off cb s = Some (r, s') \<Longrightarrow> owned_stream s' port"
    and "write_stream_port E port b i n off cb s = Some (r, s') \<Longrightarrow> owned_stream s' port"
  using live owned_stream_kept [OF _ live] read_stream_port_kept write_stream_port_kept
  by (auto elim!: owned_streamE)

lemma stream_contracts:
  assumes inv: "osi_inv X s" and live: "owned_stream s port"
  shows "accepts_or_refuses X cb s (read_stream_port E port b i n off cb s)"
    and "accepts_or_refuses X cb s (write_stream_port E port b i n off cb s)"
  using live by (auto elim!: owned_streamE intro: read_stream_port_contract [OF inv] write_stream_port_contract [OF inv])

interpretation tcp_port: port_impl tcp_vtable owned_stream
  by unfold_locales (simp_all only: tcp_vtable_def osi_port_vtable_t.simps,
      rule stream_contracts, assumption+, rule stream_contracts, assumption+, rule close_stream_port_contract, assumption+,
      rule stream_live, assumption+, rule stream_live(2), assumption+)

interpretation pipe_port: port_impl pipe_vtable owned_stream
  by unfold_locales (simp_all only: pipe_vtable_def osi_port_vtable_t.simps,
      rule stream_contracts, assumption+, rule stream_contracts, assumption+, rule close_stream_port_contract, assumption+,
      rule stream_live, assumption+, rule stream_live(2), assumption+)

section \<open>The interface as a whole\<close>

text \<open>
  Calling through the table of the port itself is one more implementation of the contract, for
  ports of every kind.
\<close>

definition live_port :: "osi \<Rightarrow> uptr \<Rightarrow> bool" where
  "live_port s port \<longleftrightarrow> closable s port \<or> owned_stream s port"

definition osi_ports :: osi_port_vtable_t where
  "osi_ports = \<lparr>vt_close = osi_close_port, vt_read = osi_read_port, vt_write = osi_write_port\<rparr>"

lemma live_port_cases:
  assumes inv: "osi_inv X s" and live: "live_port s port"
  obtains (fd) "closable s port" and "port_vtable port s = Some Fd_vtable"
    | (regular) "closable s port" and "port_vtable port s = Some File_vtable"
    | (pipe) "owned_stream s port" and "port_vtable port s = Some Pipe_vtable"
    | (tcp) "owned_stream s port" and "port_vtable port s = Some Tcp_vtable"
  using live unfolding live_port_def
proof
  assume c: "closable s port"
  then obtain p where p: "heap s port = Some (Fs_port p)" by (rule closableE)
  then have "fs_vtable p = Fd_vtable \<or> fs_vtable p = File_vtable"
    using heap_ok_obj [OF osi_inv_heap [OF inv] p] by simp
  with c p that(1,2) show thesis by (auto simp: port_vtable_def)
next
  assume o: "owned_stream s port"
  then obtain p where p: "heap s port = Some (Stream_port p)" by (rule owned_streamE)
  then have "vtable p = Pipe_vtable \<or> vtable p = Tcp_vtable" using stream_ok [OF inv p] by simp
  with o p that(3,4) show thesis by (auto simp: port_vtable_def)
qed

lemma dispatch_law:
  assumes "osi_inv X s" and "live_port s port"
  obtains v where "port_vtable port s = Some v"
    and "accepts_or_refuses X cb s (vt_close (deref_vtable v) E port cb s)"
    and "accepts_or_refuses X cb s (vt_read (deref_vtable v) E port b i n off cb s)"
    and "accepts_or_refuses X cb s (vt_write (deref_vtable v) E port b i n off cb s)"
    and "\<And>r s'. vt_read (deref_vtable v) E port b i n off cb s = Some (r, s') \<Longrightarrow> live_port s' port"
    and "\<And>r s'. vt_write (deref_vtable v) E port b i n off cb s = Some (r, s') \<Longrightarrow> live_port s' port"
  using assms
proof (cases rule: live_port_cases)
  case fd
  from that [OF fd(2)] show thesis
    using fd_port.read_law [OF assms(1) fd(1)] fd_port.write_law [OF assms(1) fd(1)] fd_port.close_law [OF assms(1) fd(1)]
      fd_port.read_live [OF assms(1) fd(1)] fd_port.write_live [OF assms(1) fd(1)] by (simp add: live_port_def)
next
  case regular
  from that [OF regular(2)] show thesis
    using file_port.read_law [OF assms(1) regular(1)] file_port.write_law [OF assms(1) regular(1)] file_port.close_law [OF assms(1) regular(1)]
      file_port.read_live [OF assms(1) regular(1)] file_port.write_live [OF assms(1) regular(1)] by (simp add: live_port_def)
next
  case pipe
  from that [OF pipe(2)] show thesis
    using pipe_port.read_law [OF assms(1) pipe(1)] pipe_port.write_law [OF assms(1) pipe(1)] pipe_port.close_law [OF assms(1) pipe(1)]
      pipe_port.read_live [OF assms(1) pipe(1)] pipe_port.write_live [OF assms(1) pipe(1)] by (simp add: live_port_def)
next
  case tcp
  from that [OF tcp(2)] show thesis
    using tcp_port.read_law [OF assms(1) tcp(1)] tcp_port.write_law [OF assms(1) tcp(1)] tcp_port.close_law [OF assms(1) tcp(1)]
      tcp_port.read_live [OF assms(1) tcp(1)] tcp_port.write_live [OF assms(1) tcp(1)] by (simp add: live_port_def)
qed

lemma osi_close_port_law:
  assumes "osi_inv X s" and "live_port s port"
  shows "accepts_or_refuses X cb s (osi_close_port E port cb s)"
  by (rule dispatch_law [OF assms, where E = E and cb = cb]) (simp add: osi_close_port_def)

lemma osi_read_port_law:
  assumes "osi_inv X s" and "live_port s port"
  shows "accepts_or_refuses X cb s (osi_read_port E port b i n off cb s)"
    and "osi_read_port E port b i n off cb s = Some (r, s') \<Longrightarrow> live_port s' port"
proof -
  let ?last = "i + ucast n"
  let ?bad = "\<not> Sbytevectorp b \<or> ?last \<le> i \<or> of_nat (Sbytevector_length b s) < ?last"
  obtain v where v: "port_vtable port s = Some v"
    and acc: "accepts_or_refuses X cb s (vt_read (deref_vtable v) E port b i n off cb s)"
    and live: "\<And>r s'. vt_read (deref_vtable v) E port b i n off cb s = Some (r, s') \<Longrightarrow> live_port s' port"
    by (rule dispatch_law [OF assms, where E = E and cb = cb and b = b and i = i and n = n and off = off]) (rule that)
  have eq: "osi_read_port E port b i n off cb s =
      (if ?bad then Some (osi_make_error_pair ''osi_read_port'' (uv_errno E EINVAL), s)
       else vt_read (deref_vtable v) E port b i n off cb s)"
    by (simp add: osi_read_port_def Let_def v)
  have "accepts_or_refuses X cb s (Some (osi_make_error_pair ''osi_read_port'' (uv_errno E EINVAL), s))"
    by (rule refusesI [OF assms(1)]) simp_all
  with acc show "accepts_or_refuses X cb s (osi_read_port E port b i n off cb s)" unfolding eq by simp
  show "live_port s' port" if "osi_read_port E port b i n off cb s = Some (r, s')"
    using that live [of r s'] assms(2) unfolding eq by (cases ?bad) simp_all
qed

lemma osi_write_port_law:
  assumes "osi_inv X s" and "live_port s port"
  shows "accepts_or_refuses X cb s (osi_write_port E port b i n off cb s)"
    and "osi_write_port E port b i n off cb s = Some (r, s') \<Longrightarrow> live_port s' port"
proof -
  let ?last = "i + ucast n"
  let ?bad = "\<not> Sbytevectorp b \<or> ?last \<le> i \<or> of_nat (Sbytevector_length b s) < ?last"
  obtain v where v: "port_vtable port s = Some v"
    and acc: "accepts_or_refuses X cb s (vt_write (deref_vtable v) E port b i n off cb s)"
    and live: "\<And>r s'. vt_write (deref_vtable v) E port b i n off cb s = Some (r, s') \<Longrightarrow> live_port s' port"
    by (rule dispatch_law [OF assms, where E = E and cb = cb and b = b and i = i and n = n and off = off]) (rule that)
  have eq: "osi_write_port E port b i n off cb s =
      (if ?bad then Some (osi_make_error_pair ''osi_write_port'' (uv_errno E EINVAL), s)
       else vt_write (deref_vtable v) E port b i n off cb s)"
    by (simp add: osi_write_port_def Let_def v)
  have "accepts_or_refuses X cb s (Some (osi_make_error_pair ''osi_write_port'' (uv_errno E EINVAL), s))"
    by (rule refusesI [OF assms(1)]) simp_all
  with acc show "accepts_or_refuses X cb s (osi_write_port E port b i n off cb s)" unfolding eq by simp
  show "live_port s' port" if "osi_write_port E port b i n off cb s = Some (r, s')"
    using that live [of r s'] assms(2) unfolding eq by (cases ?bad) simp_all
qed

interpretation any_port: port_impl osi_ports live_port
  by unfold_locales (simp_all only: osi_ports_def osi_port_vtable_t.simps,
      rule osi_read_port_law, assumption+, rule osi_write_port_law, assumption+, rule osi_close_port_law, assumption+,
      rule osi_read_port_law, assumption+, rule osi_write_port_law(2), assumption+)

section \<open>Buffer bounds\<close>

text \<open>The regions a libuv call may touch; for a started read, the region its allocation callback answers.\<close>

definition call_bufs :: "uv_call \<Rightarrow> osi \<Rightarrow> uv_buf list" where
  "call_bufs c s =
     (case c of
        Fs (Uv_fs_read _ _ b _) \<Rightarrow> [b]
      | Fs (Uv_fs_write _ _ b _) \<Rightarrow> [b]
      | Net (Uv_write _ bs) \<Rightarrow> bs
      | Net (Uv_read_start port) \<Rightarrow> (case read_stream_alloc_cb port s of Some b \<Rightarrow> [b] | None \<Rightarrow> [])
      | _ \<Rightarrow> [])"

text \<open>A region lies inside its bytevector, which is locked, so the collector neither moves nor frees it.\<close>

definition region_ok :: "osi \<Rightarrow> uv_buf \<Rightarrow> bool" where
  "region_ok s r = (case r of (bv, start, n) \<Rightarrow>
     bv \<in># locked s \<and> Sbytevectorp bv \<and> unat start + unat n \<le> Sbytevector_length bv s)"

lemma unat_ucast_u32: "unat (ucast (n :: u32) :: u64) = unat n"
proof -
  have "unat n < 2 ^ 64" using unat_u32_less [of n] by simp
  then show ?thesis by (simp add: unsigned_ucast_eq take_bit_nat_eq_self)
qed

lemma region_fits:
  assumes "\<not> start + ucast (n :: u32) < (start :: u64)" and "\<not> of_nat len < start + ucast n" and "len < 2 ^ 64"
  shows "unat start + unat n \<le> len"
proof -
  have "start \<le> start + ucast n" using assms(1) by simp
  then have "unat start + unat (ucast n :: u64) < 2 ^ 64" by (simp add: no_olen_add_nat)
  then have "unat (start + ucast n) = unat start + unat n"
    by (simp add: unat_word_ariths unat_ucast_u32)
  moreover have "unat (start + ucast n) \<le> unat (of_nat len :: u64)" using assms(2) by (simp add: word_le_nat_alt not_less)
  moreover have "unat (of_nat len :: u64) = len" using assms(3) by (simp add: unat_of_nat)
  ultimately show ?thesis by simp
qed

definition hands_over :: "osi \<Rightarrow> osi \<Rightarrow> uv_buf list \<Rightarrow> bool" where
  "hands_over s s' bs \<longleftrightarrow> call_bufs (last (calls s')) s' = bs \<and> (\<forall>(b, _) \<in> set bs. b \<in># locked s')
     \<and> bytevectors s' = bytevectors s"

lemma fs_hands_over:
  "read_fs_port E port b i n off cb s = Some (Strue, s') \<Longrightarrow> hands_over s s' [(b, i, n)]"
  "write_fs_port E port b i n off cb s = Some (Strue, s') \<Longrightarrow> hands_over s s' [(b, i, n)]"
  by (auto simp: read_fs_port_def write_fs_port_def osi_ops hands_over_def call_bufs_def
      split: if_splits option.splits cobj.splits)

lemma stream_hands_over:
  "read_stream_port E port b i n off cb s = Some (Strue, s') \<Longrightarrow> hands_over s s' [(b, i, n)]"
  "write_stream_port E port b i n off cb s = Some (Strue, s') \<Longrightarrow> hands_over s s' [(b, i, n)]"
  by (auto simp: read_stream_port_def write_stream_port_def read_stream_alloc_cb_def osi_ops hands_over_def call_bufs_def
      split: if_splits option.splits cobj.splits)

lemma vt_hands_over:
  "vt_read (deref_vtable v) E port b i n off cb s = Some (Strue, s') \<Longrightarrow> hands_over s s' [(b, i, n)]"
  "vt_write (deref_vtable v) E port b i n off cb s = Some (Strue, s') \<Longrightarrow> hands_over s s' [(b, i, n)]"
  by (cases v; simp add: fd_vtable_def file_vtable_def pipe_vtable_def tcp_vtable_def fs_hands_over stream_hands_over)+

lemma bind_SomeE: "Option.bind x f = Some y \<Longrightarrow> (\<And>v. f v = Some y \<Longrightarrow> P) \<Longrightarrow> P"
  by (cases x) auto

lemma hands_over_region:
  assumes h: "hands_over s s' [(b, i, n)]" and bv: "Sbytevectorp b" and len: "Sbytevector_length b s < 2 ^ 64"
    and fits: "\<not> i + ucast n \<le> i" "\<not> of_nat (Sbytevector_length b s) < i + ucast n"
  shows "call_bufs (last (calls s')) s' = [(b, i, n)] \<and> region_ok s' (b, i, n) \<and> 0 < unat n"
proof -
  have le: "\<not> i + ucast n < i" using fits(1) by simp
  have "Sbytevector_length b s' = Sbytevector_length b s"
    using h by (cases b) (simp_all add: Sbytevector_length_def hands_over_def)
  then have "unat i + unat n \<le> Sbytevector_length b s'" using region_fits [OF le fits(2) len] by simp
  moreover have "0 < unat n" using fits(1) by (cases "n = 0") (auto simp: unat_eq_0 neq0_conv [symmetric])
  ultimately show ?thesis using h bv by (simp add: hands_over_def region_ok_def)
qed

section \<open>Properties\<close>

text \<open>Through the uniform interface, on a live port of any kind, every read, write and close
  either returns \<open>#t\<close> and then owes exactly the callback it was given, or returns an error pair and
  keeps nothing: no lock, no promise. Busy streams, bad offsets, bad buffers, allocation failures and
  errors of libuv all fall under the second case.\<close>

theorem port_operations_accept_or_refuse:
  assumes "osi_inv X s" and "live_port s port"
  shows "accepts_or_refuses X cb s (osi_read_port E port b i n off cb s)
     \<and> accepts_or_refuses X cb s (osi_write_port E port b i n off cb s)
     \<and> accepts_or_refuses X cb s (osi_close_port E port cb s)"
  using osi_read_port_law(1) [OF assms] osi_write_port_law(1) [OF assms] osi_close_port_law [OF assms] by blast

lemma closable_one_file_port: "closable one_file_port 1"
  by (simp add: one_file_port_def closable_def links_to_def)

theorem port_operations_accept_or_refuse_witness:
  "accepts_or_refuses {#} (Sprocedure 7) one_file_port (osi_close_port quiet_env 1 (Sprocedure 7) one_file_port)"
  using port_operations_accept_or_refuse [OF osi_inv_one_file_port] closable_one_file_port by (simp add: live_port_def)

text \<open>Over any sequence of reads and writes on a live port, the callbacks owed grow by exactly
  the accepted requests, the port stays usable, and nothing is queued before the event loop runs.\<close>

theorem port_session_accounts:
  assumes "osi_inv X s" and "live_port s port"
  shows "\<exists>acc s'. session osi_ports E port rs s = Some (acc, s') \<and> osi_inv X s' \<and> live_port s' port
      \<and> owed s' = owed s + acc \<and> g_callbacks s' = g_callbacks s"
  by (rule any_port.session_accounts [OF assms])

theorem port_session_accounts_witness:
  "\<exists>acc s'. session osi_ports quiet_env 1 [Read_req (Sbytevector 0) 0 5 0 (Sprocedure 7), Write_req Sfalse 0 5 0 (Sprocedure 8)]
       one_file_port = Some (acc, s') \<and> osi_inv {#} s' \<and> live_port s' 1 \<and> owed s' = owed one_file_port + acc"
  using port_session_accounts [OF osi_inv_one_file_port, of 1 quiet_env] closable_one_file_port
  by (simp only: live_port_def) blast

text \<open>C11: Memory safety of input and output: when a read or write through the interface is accepted,
  the only region handed to libuv is the one requested, it lies inside the bytevector, and the
  bytevector is locked. The check is made in 64-bit arithmetic that may wrap.\<close>

theorem port_io_in_bounds:
  assumes "Sbytevector_length b s < 2 ^ 64"
    and "osi_read_port E port b i n off cb s = Some (Strue, s') \<or> osi_write_port E port b i n off cb s = Some (Strue, s')"
  shows "call_bufs (last (calls s')) s' = [(b, i, n)] \<and> region_ok s' (b, i, n) \<and> 0 < unat n"
proof -
  have "hands_over s s' [(b, i, n)] \<and> Sbytevectorp b \<and> \<not> i + ucast n \<le> i \<and> \<not> of_nat (Sbytevector_length b s) < i + ucast n"
    using assms(2)
    by (auto simp: osi_read_port_def osi_write_port_def Let_def intro: vt_hands_over elim: bind_SomeE split: if_splits)
  then show ?thesis using hands_over_region [OF _ _ assms(1)] by blast
qed

definition file_and_buffer :: osi where
  "file_and_buffer = one_file_port\<lparr>bytevectors := (\<lambda>_. replicate 16 0)\<rparr>"

theorem port_io_in_bounds_witness:
  "\<exists>s'. osi_read_port quiet_env 1 (Sbytevector 0) 8 8 0 (Sprocedure 7) file_and_buffer = Some (Strue, s')
     \<and> region_ok s' (Sbytevector 0, 8, 8)"
proof -
  have "osi_read_port quiet_env 1 (Sbytevector 0) 8 8 0 (Sprocedure 7) file_and_buffer
      = Some (Strue, snd (the (osi_read_port quiet_env 1 (Sbytevector 0) 8 8 0 (Sprocedure 7) file_and_buffer)))"
    by (simp add: osi_read_port_def port_vtable_def file_and_buffer_def one_file_port_def quiet_env_def osi_ops
        Sbytevector_length_def file_vtable_def read_fs_port_def)
  with port_io_in_bounds [of "Sbytevector 0" file_and_buffer quiet_env 1 8 8 0 "Sprocedure 7"]
  show ?thesis by (auto simp: Sbytevector_length_def file_and_buffer_def)
qed

text \<open>The two-buffer write is in bounds as well: when it is accepted, the first buffer is handed
  over whole, the second inside its bounds, and the size reported on success is the exact sum of the
  two lengths, which fits 32 bits.\<close>

theorem tcp_write2_in_bounds:
  assumes "Sbytevector_length bv1 s < 2 ^ 63" and "Sbytevector_length bv2 s < 2 ^ 63"
    and "osi_tcp_write2 E port bv1 bv2 start2 size2 cb s = Some (Strue, s')"
  shows "\<exists>p n1. load_stream_port port s' = Some p \<and> call_bufs (last (calls s')) s' = [(bv1, 0, n1), (bv2, start2, size2)]
     \<and> unat n1 = Sbytevector_length bv1 s' \<and> region_ok s' (bv1, 0, n1) \<and> region_ok s' (bv2, start2, size2)
     \<and> unat (write_size p) = Sbytevector_length bv1 s' + unat size2"
proof -
  let ?total = "(of_nat (Sbytevector_length bv1 s) :: u64) + ucast size2"
  have len: "Sbytevector_length b (s\<lparr>locked := l, heap := h\<rparr>) = Sbytevector_length b s"
    "Sbytevector_length b (s\<lparr>locked := l, heap := h, calls := c\<rparr>) = Sbytevector_length b s" for b l h c
    by (cases b; simp add: Sbytevector_length_def)+
  let ?n1 = "of_nat (Sbytevector_length bv1 s) :: u32"
  obtain p where p: "load_stream_port port s' = Some p" "write_size p = ucast ?total"
    and bs: "call_bufs (last (calls s')) s' = [(bv1, 0, ?n1), (bv2, start2, size2)]"
    and bv: "Sbytevectorp bv1" "Sbytevectorp bv2" "bv1 \<in># locked s'" "bv2 \<in># locked s'"
    and c: "\<not> start2 + ucast size2 < start2" "\<not> of_nat (Sbytevector_length bv2 s) < start2 + ucast size2"
      "\<not> 0xFFFFFFFF < ?total"
    and bvs: "\<And>b. Sbytevector_length b s' = Sbytevector_length b s"
    using assms(3)
    by (auto simp: osi_tcp_write2_def osi_ops call_bufs_def len split: if_splits option.splits cobj.splits)
  have u: "unat ?total = Sbytevector_length bv1 s + unat size2"
    using assms(1) unat_u32_less [of size2] by (simp add: unat_word_ariths unat_ucast_u32 unat_of_nat)
  have "unat ?total < 2 ^ 32" using c(3) by (simp add: word_less_nat_alt)
  then have small: "Sbytevector_length bv1 s + unat size2 < 2 ^ 32" unfolding u .
  have "unat ?n1 = Sbytevector_length bv1 s" using small by (simp add: unat_of_nat)
  moreover have "unat (write_size p) = Sbytevector_length bv1 s + unat size2"
    using small u unfolding p(2) by (simp add: unsigned_ucast_eq take_bit_nat_eq_self)
  moreover have "unat start2 + unat size2 \<le> Sbytevector_length bv2 s"
    using assms(2) by (intro region_fits [OF c(1,2)]) simp
  ultimately show ?thesis using p(1) bs bv bvs by (simp add: region_ok_def)
qed

theorem tcp_write2_in_bounds_witness:
  "\<exists>s' p. osi_tcp_write2 quiet_env 1 (Sbytevector 0) (Sbytevector 1) 4 12 (Sprocedure 7)
        (closing_stream\<lparr>bytevectors := (\<lambda>_. replicate 16 0)\<rparr>) = Some (Strue, s')
     \<and> load_stream_port 1 s' = Some p \<and> unat (write_size p) = 28"
proof -
  let ?s = "closing_stream\<lparr>bytevectors := (\<lambda>_. replicate 16 0)\<rparr>"
  have "osi_tcp_write2 quiet_env 1 (Sbytevector 0) (Sbytevector 1) 4 12 (Sprocedure 7) ?s
      = Some (Strue, snd (the (osi_tcp_write2 quiet_env 1 (Sbytevector 0) (Sbytevector 1) 4 12 (Sprocedure 7) ?s)))"
    by (simp add: osi_tcp_write2_def closing_stream_def quiet_env_def osi_ops Sbytevector_length_def idle_stream_def)
  moreover from tcp_write2_in_bounds [OF _ _ this] have "\<exists>p. load_stream_port 1
      (snd (the (osi_tcp_write2 quiet_env 1 (Sbytevector 0) (Sbytevector 1) 4 12 (Sprocedure 7) ?s))) = Some p \<and> unat (write_size p) = 28"
    by (auto simp: Sbytevector_length_def osi_tcp_write2_def closing_stream_def quiet_env_def osi_ops idle_stream_def)
  ultimately show ?thesis by blast
qed

end
