(* ===== verification/Process.thy ===== *)
theory Process
  imports Ports
begin

text \<open>
  Child processes and signals of \<^verbatim>\<open>osi.c\<close>. Spawning builds three pipes, an argument vector and a
  process handle, and takes everything down again when a step fails.
\<close>

section \<open>Argument vectors\<close>

fun string_list_loop :: "ptr \<Rightarrow> int \<Rightarrow> int" where
  "string_list_loop (Scons a d) n = (if \<not> Sstringp a then - 1 else string_list_loop d (n + 1))"
| "string_list_loop x n = (if x \<noteq> Snil then - 1 else n)"

definition string_list_length :: "ptr \<Rightarrow> int" where
  "string_list_length x = string_list_loop x 0"

text \<open>
  \<^verbatim>\<open>argv[0]\<close> is the borrowed path; the block \<open>C_argv\<close> holds the pointers after it up to the first null
  pointer, which the code stores in any case. The conversion of one argument allocates a block for
  the encoded string, or yields a null pointer that ends the loop.
\<close>

fun argv_fill :: "env \<Rightarrow> ptr \<Rightarrow> osi \<Rightarrow> (uptr list \<times> osi) option" where
  "argv_fill E (Scons (Sstring str) d) s =
     (let (a, s) = malloc_container E s
      in do {
        (r, l) \<leftarrow> osi_string_to_utf8 (a \<noteq> 0) str;
        case r of
          None \<Rightarrow> Some ([], s)
        | Some text \<Rightarrow> do {
            s \<leftarrow> store a (C_string text) s;
            (as, s) \<leftarrow> argv_fill E d s;
            Some (a # as, s)
          }
      })"
| "argv_fill E (Scons _ d) s = None"
| "argv_fill E _ s = Some ([], s)"

fun free_args :: "uptr list \<Rightarrow> osi \<Rightarrow> osi option" where
  "free_args [] s = Some s"
| "free_args (a # as) s = Option.bind (c_free a s) (free_args as)"

definition free_argv :: "uptr \<Rightarrow> osi \<Rightarrow> osi option" where
  "free_argv argv s =
     (case heap s argv of
        Some (C_argv as) \<Rightarrow> Option.bind (free_args as s) (c_free argv)
      | _ \<Rightarrow> None)"

text \<open>The argument strings as the child will see them, without their terminators.\<close>

fun argv_text :: "uptr list \<Rightarrow> osi \<Rightarrow> u8 list list" where
  "argv_text [] s = []"
| "argv_text (a # as) s = (case heap s a of Some (C_string t) \<Rightarrow> butlast t | _ \<Rightarrow> []) # argv_text as s"

section \<open>Spawning\<close>

text \<open>
  One of the three pipes: the allocation, the initial fields and \<^verbatim>\<open>uv_pipe_init\<close>. The caller does the
  cleaning up, which differs from pipe to pipe.
\<close>

datatype pipe_result = No_memory | Init_failed uptr int | Pipe_ready uptr

definition alloc_pipe :: "env \<Rightarrow> osi \<Rightarrow> (pipe_result \<times> osi) option" where
  "alloc_pipe E s =
     (let (port, s) = malloc_container E s
      in if port = 0 then Some (No_memory, s)
      else do {
        s \<leftarrow> store port (Stream_port (idle_stream Pipe_vtable)) s;
        let (rc, s) = uv_do E (Net (Uv_pipe_init port)) s;
        Some (if rc < 0 then Init_failed port rc else Pipe_ready port, s)
      })"

fun close_streams :: "uptr list \<Rightarrow> osi \<Rightarrow> osi option" where
  "close_streams [] s = Some s"
| "close_streams (p # ps) s = Option.bind (uv_close p Close_stream_cb s) (close_streams ps)"

text \<open>From the argument vector on; \<open>pid\<close> is the process number libuv stores in the handle.\<close>

definition spawn_child :: "env \<Rightarrow> u8 list \<Rightarrow> ptr \<Rightarrow> ptr \<Rightarrow> int \<Rightarrow> uptr \<Rightarrow> uptr \<Rightarrow> uptr \<Rightarrow> osi \<Rightarrow> (ptr \<times> osi) option" where
  "spawn_child E path args callback pid in_port out_port err_port s =
     (let (argv, s) = malloc_container E s
      in if argv = 0 then do {
           s \<leftarrow> close_streams [in_port, out_port, err_port] s;
           Some (osi_make_error_pair ''osi_spawn'' (uv_errno E ENOMEM), s)
         }
      else do {
        (as, s) \<leftarrow> argv_fill E args s;
        s \<leftarrow> store argv (C_argv as) s;
        let (p, s) = malloc_container E s;
        if p = 0 then do {
          s \<leftarrow> close_streams [in_port, out_port, err_port] s;
          s \<leftarrow> free_argv argv s;
          Some (osi_make_error_pair ''osi_spawn'' (uv_errno E ENOMEM), s)
        } else do {
          let s = Slock_object callback s;
          s \<leftarrow> store p (Uv_process (Some callback) False) s;
          let (rc, s) = uv_do E (Hnd (Uv_spawn p path (path # argv_text as s) False [in_port, out_port, err_port])) s;
          s \<leftarrow> free_argv argv s;
          if rc < 0 then do {
            s \<leftarrow> close_streams [in_port, out_port, err_port] s;
            s \<leftarrow> uv_close p Close_handle_data_cb s;
            Some (osi_make_error_pair ''uv_spawn'' rc, s)
          } else do {
            s \<leftarrow> store p (Uv_process (Some callback) True) s;
            Some (Svector [Sunsigned in_port, Sunsigned out_port, Sunsigned err_port, Sinteger32 pid], s)
          }
        }
      })"

definition osi_spawn :: "env \<Rightarrow> u8 list \<Rightarrow> ptr \<Rightarrow> ptr \<Rightarrow> int \<Rightarrow> osi \<Rightarrow> (ptr \<times> osi) option" where
  "osi_spawn E path args callback pid s =
     (let argc = string_list_length args
      in if argc < 0 then Some (osi_make_error_pair ''osi_spawn'' (uv_errno E EINVAL), s)
      else do {
        (r, s) \<leftarrow> alloc_pipe E s;
        case r of
          No_memory \<Rightarrow> Some (osi_make_error_pair ''osi_spawn'' (uv_errno E ENOMEM), s)
        | Init_failed in_port rc \<Rightarrow> do {
            s \<leftarrow> c_free in_port s;
            Some (osi_make_error_pair ''uv_pipe_init'' rc, s)
          }
        | Pipe_ready in_port \<Rightarrow> do {
            (r, s) \<leftarrow> alloc_pipe E s;
            case r of
              No_memory \<Rightarrow> do {
                s \<leftarrow> close_streams [in_port] s;
                Some (osi_make_error_pair ''osi_spawn'' (uv_errno E ENOMEM), s)
              }
            | Init_failed out_port rc \<Rightarrow> do {
                s \<leftarrow> close_streams [in_port] s;
                s \<leftarrow> c_free out_port s;
                Some (osi_make_error_pair ''uv_pipe_init'' rc, s)
              }
            | Pipe_ready out_port \<Rightarrow> do {
                (r, s) \<leftarrow> alloc_pipe E s;
                case r of
                  No_memory \<Rightarrow> do {
                    s \<leftarrow> close_streams [in_port, out_port] s;
                    Some (osi_make_error_pair ''osi_spawn'' (uv_errno E ENOMEM), s)
                  }
                | Init_failed err_port rc \<Rightarrow> do {
                    s \<leftarrow> close_streams [in_port, out_port] s;
                    s \<leftarrow> c_free err_port s;
                    Some (osi_make_error_pair ''uv_pipe_init'' rc, s)
                  }
                | Pipe_ready err_port \<Rightarrow> spawn_child E path args callback pid in_port out_port err_port s
              }
          }
      })"

definition osi_spawn_detached :: "env \<Rightarrow> u8 list \<Rightarrow> ptr \<Rightarrow> int \<Rightarrow> osi \<Rightarrow> (ptr \<times> osi) option" where
  "osi_spawn_detached E path args pid s =
     (let argc = string_list_length args
      in if argc < 0 then Some (osi_make_error_pair ''osi_spawn_detached'' (uv_errno E EINVAL), s)
      else let (argv, s) = malloc_container E s
      in if argv = 0 then Some (osi_make_error_pair ''osi_spawn_detached'' (uv_errno E ENOMEM), s)
      else do {
        (as, s) \<leftarrow> argv_fill E args s;
        s \<leftarrow> store argv (C_argv as) s;
        let (p, s) = malloc_container E s;
        if p = 0 then do {
          s \<leftarrow> free_argv argv s;
          Some (osi_make_error_pair ''osi_spawn_detached'' (uv_errno E ENOMEM), s)
        } else do {
          s \<leftarrow> store p (Uv_process None False) s;
          let (rc, s) = uv_do E (Hnd (Uv_spawn p path (path # argv_text as s) True [])) s;
          s \<leftarrow> free_argv argv s;
          if rc < 0 then do {
            s \<leftarrow> uv_close p Close_handle_data_cb s;
            Some (osi_make_error_pair ''uv_spawn'' rc, s)
          } else do {
            s \<leftarrow> store p (Uv_process None True) s;
            Some (Sinteger32 pid, s)
          }
        }
      })"

definition process_exit_cb :: "uptr \<Rightarrow> int \<Rightarrow> u64 \<Rightarrow> int \<Rightarrow> osi \<Rightarrow> osi option" where
  "process_exit_cb process pid exit_status term_signal s =
     (case heap s process of
        Some (Uv_process callback running) \<Rightarrow> do {
          s \<leftarrow> (case callback of None \<Rightarrow> store process (Uv_process None False) s
                | Some callback \<Rightarrow> do {
                    s \<leftarrow> osi_add_callback3 callback (Sinteger32 pid) (Sinteger64 exit_status) (Sinteger32 term_signal) s;
                    s \<leftarrow> Sunlock_object callback s;
                    store process (Uv_process None False) s
                  });
          uv_close process Close_handle_data_cb s
        }
      | _ \<Rightarrow> None)"

section \<open>Signals\<close>

definition osi_kill :: "env \<Rightarrow> int \<Rightarrow> int \<Rightarrow> osi \<Rightarrow> ptr \<times> osi" where
  "osi_kill E pid signum s =
     (let (rc, s) = uv_do E (Hnd (Uv_kill pid signum)) s
      in (if rc < 0 then osi_make_error_pair ''uv_kill'' rc else Strue, s))"

text \<open>\<open>deliver\<close> is the value of the Scheme variable \<^verbatim>\<open>@deliver-signal\<close>.\<close>

definition fire_signal :: "ptr \<Rightarrow> int \<Rightarrow> osi \<Rightarrow> osi option" where
  "fire_signal deliver signum s = osi_add_callback1 deliver (Sinteger signum) s"

definition close_signal_cb :: "uptr \<Rightarrow> osi \<Rightarrow> osi option" where
  "close_signal_cb handle s = c_free handle (s\<lparr>closing := (closing s)(handle := None)\<rparr>)"

definition osi_start_signal :: "env \<Rightarrow> int \<Rightarrow> osi \<Rightarrow> (ptr \<times> osi) option" where
  "osi_start_signal E signum s =
     (let (signal, s) = malloc_container E s
      in if signal = 0 then Some (osi_make_error_pair ''osi_start_signal'' (uv_errno E ENOMEM), s)
      else let (rc, s) = uv_do E (Hnd (Uv_signal_init signal)) s
      in if rc \<noteq> 0 then do {
           s \<leftarrow> c_free signal s;
           Some (osi_make_error_pair ''uv_signal_init'' rc, s)
         }
      else do {
        s \<leftarrow> store signal Uv_signal s;
        let (rc, s) = uv_do E (Hnd (Uv_signal_start signal signum)) s;
        if rc \<noteq> 0 then do {
          s \<leftarrow> uv_close signal Close_signal_cb s;
          Some (osi_make_error_pair ''uv_signal_start'' rc, s)
        } else Some (Sunsigned signal, s)
      })"

definition osi_stop_signal :: "env \<Rightarrow> uptr \<Rightarrow> osi \<Rightarrow> (ptr \<times> osi) option" where
  "osi_stop_signal E signal s =
     (let (rc, s) = uv_do E (Hnd (Uv_signal_stop signal)) s
      in if rc \<noteq> 0 then Some (osi_make_error_pair ''uv_signal_stop'' rc, s)
      else do {
        s \<leftarrow> uv_close signal Close_signal_cb s;
        Some (Strue, s)
      })"

section \<open>Argument vectors: lemmas\<close>

lemma string_list_loop_list:
  "0 \<le> string_list_loop x n \<Longrightarrow> 0 \<le> n \<Longrightarrow> \<exists>ss. x = scheme_list (List.map Sstring ss) \<and> string_list_loop x n = n + int (length ss)"
proof (induction x n rule: string_list_loop.induct)
  case (1 a d n)
  then obtain str where a: "a = Sstring str" by (cases a) (auto split: if_splits)
  with 1 obtain ss where "d = scheme_list (List.map Sstring ss)" "string_list_loop d (n + 1) = n + 1 + int (length ss)" by auto
  with a show ?case by (intro exI [of _ "str # ss"]) simp
qed (auto split: if_splits intro: exI [of _ "[]"])

text \<open>Strings whose encoding fits the address space.\<close>

definition small_strings :: "scheme_string list \<Rightarrow> bool" where
  "small_strings ss \<longleftrightarrow> (\<forall>str \<in> set ss. 4 * length str + 1 < 2 ^ 64)"

lemma argv_text_cong: "\<forall>a \<in> set as. heap s' a = heap s a \<Longrightarrow> argv_text as s' = argv_text as s"
  by (induction as) auto

text \<open>What filling the vector leaves: new blocks at new addresses, holding a prefix of the arguments.\<close>

definition filled :: "scheme_string list \<Rightarrow> osi \<Rightarrow> uptr list \<Rightarrow> osi \<Rightarrow> bool" where
  "filled ss s as s' \<longleftrightarrow>
     (\<exists>m h. s' = s\<lparr>mallocs := m, heap := h\<rparr> \<and> mallocs s \<le> m \<and> distinct as
        \<and> (\<forall>a \<in> set as. mallocs s < a \<and> a \<le> m \<and> h a \<noteq> None) \<and> (\<forall>a. a \<notin> set as \<longrightarrow> h a = heap s a)
        \<and> argv_text as s' = List.map utf8_encode (take (length as) ss))"

lemma argv_fill_spec:
  assumes "small_strings ss"
  shows "\<exists>as s'. argv_fill E (scheme_list (List.map Sstring ss)) s = Some (as, s') \<and> filled ss s as s'
      \<and> ((\<forall>n. \<not> oom E n) \<longrightarrow> length as = length ss)"
  using assms
proof (induction ss arbitrary: s)
  case Nil
  have "filled [] s [] s" 
    unfolding filled_def by (intro exI [of _ "mallocs s"] exI [of _ "heap s"]) simp
  then show ?case by simp
next
  case (Cons str ss)
  let ?a = "Suc (mallocs s)"
  have small: "4 * length str + 1 < 2 ^ 64" and "small_strings ss" using Cons.prems by (simp_all add: small_strings_def)
  show ?case
  proof (cases "oom E (mallocs s)")
    case True
    have "filled (str # ss) s [] (s\<lparr>mallocs := ?a\<rparr>)"
      unfolding filled_def by (intro exI [of _ ?a] exI [of _ "heap s"]) simp
    then show ?thesis using True by (auto simp: osi_ops osi_string_to_utf8_def)
  next
    case False
    let ?t = "utf8_encode str @ [0]"
    let ?s = "s\<lparr>mallocs := ?a, heap := (heap s)(?a \<mapsto> C_string ?t)\<rparr>"
    obtain as s' where r: "argv_fill E (scheme_list (List.map Sstring ss)) ?s = Some (as, s')" and f: "filled ss ?s as s'"
      and l: "(\<forall>n. \<not> oom E n) \<longrightarrow> length as = length ss"
      using Cons.IH [OF \<open>small_strings ss\<close>, of ?s] by blast
    obtain m h where s': "s' = s\<lparr>mallocs := m, heap := h\<rparr>" and m: "?a \<le> m" and d: "distinct as"
      and new: "\<forall>a \<in> set as. ?a < a \<and> a \<le> m \<and> h a \<noteq> None"
      and old: "\<forall>a. a \<notin> set as \<longrightarrow> h a = ((heap s)(?a \<mapsto> C_string ?t)) a"
      and tx: "argv_text as s' = List.map utf8_encode (take (length as) ss)"
      using f unfolding filled_def by auto
    have a: "?a \<notin> set as" using new by auto
    then have "h ?a = Some (C_string ?t)" using old by simp
    then have "filled (str # ss) s (?a # as) s'"
      using s' m d new old a tx unfolding filled_def by (auto intro!: exI [of _ m] exI [of _ h] simp: less_imp_le_nat Suc_le_eq)
    moreover have "argv_fill E (scheme_list (List.map Sstring (str # ss))) s = Some (?a # as, s')"
      using False r osi_string_to_utf8_ok [OF small] by (simp add: osi_ops)
    ultimately show ?thesis using l by simp
  qed
qed

lemma free_args_spec:
  "distinct as \<Longrightarrow> \<forall>a \<in> set as. heap s a \<noteq> None \<and> a \<noteq> 0 \<Longrightarrow>
   free_args as s = Some (s\<lparr>heap := (\<lambda>a. if a \<in> set as then None else heap s a)\<rparr>)"
proof (induction as arbitrary: s)
  case (Cons a as)
  let ?s = "s\<lparr>heap := (heap s)(a := None)\<rparr>"
  have "free_args as ?s = Some (?s\<lparr>heap := (\<lambda>b. if b \<in> set as then None else heap ?s b)\<rparr>)"
    using Cons.prems by (intro Cons.IH) auto
  moreover have "(\<lambda>b. if b \<in> set as then None else heap ?s b) = (\<lambda>b. if b \<in> set (a # as) then None else heap s b)"
    by auto
  ultimately show ?case using Cons.prems by (simp add: c_free_def)
qed simp

lemma free_argv_spec:
  assumes "heap s argv = Some (C_argv as)" and "distinct (argv # as)" and "\<forall>a \<in> set (argv # as). heap s a \<noteq> None \<and> a \<noteq> 0"
  shows "free_argv argv s = Some (s\<lparr>heap := (\<lambda>a. if a \<in> set (argv # as) then None else heap s a)\<rparr>)"
proof -
  let ?h = "\<lambda>a. if a \<in> set as then None else heap s a"
  have "free_args as s = Some (s\<lparr>heap := ?h\<rparr>)" using assms by (intro free_args_spec) auto
  moreover have "?h(argv := None) = (\<lambda>a. if a \<in> set (argv # as) then None else heap s a)" by auto
  ultimately show ?thesis using assms by (simp add: free_argv_def c_free_def)
qed

section \<open>Pipes: lemmas\<close>

text \<open>A step that neither promises nor queues anything, and leaves no argument text behind.\<close>

fun is_text :: "cobj \<Rightarrow> bool" where
  "is_text (C_string _) = True"
| "is_text (C_argv _) = True"
| "is_text _ = False"

definition no_new_text :: "osi \<Rightarrow> osi \<Rightarrow> bool" where
  "no_new_text s s' \<longleftrightarrow> (\<forall>a x. heap s' a = Some x \<and> is_text x \<longrightarrow> heap s a = Some x)"

lemma no_new_text_same: "heap s' = heap s \<Longrightarrow> no_new_text s s'"
  by (simp add: no_new_text_def)

definition calm :: "ptr multiset \<Rightarrow> osi \<Rightarrow> osi \<Rightarrow> bool" where
  "calm X s s' \<longleftrightarrow> osi_inv X s' \<and> owed s' = owed s \<and> g_callbacks s' = g_callbacks s \<and> no_new_text s s'"

lemma calm_trans: "calm X s s1 \<Longrightarrow> calm X s1 s2 \<Longrightarrow> calm X s s2"
  by (simp add: calm_def no_new_text_def)

lemma calm_inv: "calm X s s' \<Longrightarrow> osi_inv X s'"
  by (simp add: calm_def)

text \<open>Fresh pipes: idle, not being closed, and nobody else's.\<close>

abbreviation idle_pipe :: cobj where
  "idle_pipe \<equiv> Stream_port (idle_stream Pipe_vtable)"

lemma idle_stream_simps [simp]:
  "vtable (idle_stream v) = v" "close_callback (idle_stream v) = None" "read_callback (idle_stream v) = None"
  "write_callback (idle_stream v) = None" "stream_held (idle_stream v) = {#}" "stream_owed (idle_stream v) = {#}"
  by (simp_all add: idle_stream_def stream_sums)

definition idle_pipes :: "osi \<Rightarrow> uptr list \<Rightarrow> bool" where
  "idle_pipes s ps \<longleftrightarrow> distinct ps
     \<and> (\<forall>p \<in> set ps. heap s p = Some idle_pipe \<and> closing s p = None \<and> (\<forall>b. \<not> links_to (heap s) p True b))"

lemma idle_pipes_same:
  "idle_pipes s ps \<Longrightarrow> heap s' = heap s \<Longrightarrow> closing s' = closing s \<Longrightarrow> idle_pipes s' ps"
  by (simp add: idle_pipes_def)

lemma alloc_pipe_calm:
  assumes inv: "osi_inv X s" and ps: "idle_pipes s ps"
  obtains (nomem) s' where "alloc_pipe E s = Some (No_memory, s')" and "calm X s s'" and "idle_pipes s' ps"
  | (failed) s' p rc where "alloc_pipe E s = Some (Init_failed p rc, s')" and "calm X s s'" and "idle_pipes s' (p # ps)"
  | (ready) s' p where "alloc_pipe E s = Some (Pipe_ready p, s')" and "calm X s s'" and "idle_pipes s' (ps @ [p])"
proof -
  let ?a = "Suc (mallocs s)"
  let ?s = "s\<lparr>mallocs := ?a, heap := (heap s)(?a \<mapsto> idle_pipe), calls := calls s @ [Net (Uv_pipe_init ?a)]\<rparr>"
  have fresh: "heap s ?a = None" "closing s ?a = None"
    by (rule osi_inv_fresh [OF inv], rule osi_inv_fresh_closing [OF inv])
  have nl: "\<not> links_to (heap s) ?a True b" for b
    using heap_ok_port [OF osi_inv_heap [OF inv], of ?a True b] fresh by auto
  have "heap_ok (heap ?s)" using heap_ok_new [OF osi_inv_heap [OF inv] fresh(1), of idle_pipe] by simp
  then have "osi_inv X ?s" by (intro osi_inv_new [OF inv, of _ idle_pipe]) simp_all
  moreover have "owed ?s = owed s" using owed_new [OF inv, of ?s idle_pipe] by simp
  ultimately have c: "calm X s ?s" by (simp add: calm_def no_new_text_def)
  have "?a \<notin> set ps" using ps fresh by (auto simp: idle_pipes_def)
  then have new: "idle_pipes ?s (?a # ps)" "idle_pipes ?s (ps @ [?a])"
    using ps nl fresh by (auto simp: idle_pipes_def links_to_upd split: if_splits)
  have "calm X s (s\<lparr>mallocs := ?a\<rparr>)"
    using osi_inv_same [OF inv, of "s\<lparr>mallocs := ?a\<rparr>"] by (simp add: calm_def owed_def no_new_text_def)
  moreover have "idle_pipes (s\<lparr>mallocs := ?a\<rparr>) ps" by (rule idle_pipes_same [OF ps]) simp_all
  ultimately show thesis
    using that c new
    by (cases "oom E (mallocs s)"; cases "uv E (Net (Uv_pipe_init ?a)) (length (calls s)) < 0")
       (simp_all add: alloc_pipe_def osi_ops)
qed

lemma close_streams_calm:
  assumes "osi_inv X s" and "idle_pipes s (ps @ qs)"
  shows "\<exists>s'. close_streams ps s = Some s' \<and> calm X s s' \<and> idle_pipes s' qs \<and> heap s' = heap s \<and> locked s' = locked s
      \<and> mallocs s' = mallocs s \<and> (\<forall>a. a \<notin> set ps \<longrightarrow> closing s' a = closing s a)"
  using assms
proof (induction ps arbitrary: s)
  case Nil
  then show ?case by (simp add: calm_def no_new_text_def)
next
  case (Cons p ps)
  have p: "heap s p = Some idle_pipe" "closing s p = None" "\<forall>b. \<not> links_to (heap s) p True b"
    and d: "p \<notin> set (ps @ qs)" "idle_pipes s (ps @ qs)"
    using Cons.prems(2) by (auto simp: idle_pipes_def)
  let ?s = "s\<lparr>calls := calls s @ [Hnd (Uv_close p Close_stream_cb)], closing := (closing s)(p \<mapsto> Close_stream_cb)\<rparr>"
  have i: "osi_inv X ?s" using p by (intro osi_inv_close [OF Cons.prems(1), of p idle_pipe]) simp_all
  then have c: "calm X s ?s" by (simp add: calm_def owed_def no_new_text_def)
  have ip: "idle_pipes ?s (ps @ qs)" using d by (auto simp: idle_pipes_def)
  obtain s' where s': "close_streams ps ?s = Some s'" "calm X ?s s'" "idle_pipes s' qs" "heap s' = heap ?s"
    "locked s' = locked ?s" "mallocs s' = mallocs ?s" "\<forall>a. a \<notin> set ps \<longrightarrow> closing s' a = closing ?s a"
    using Cons.IH [OF i ip] by blast
  then show ?case using p calm_trans [OF c s'(2)] by (simp add: uv_close_def)
qed

lemma free_pipe_calm:
  assumes inv: "osi_inv X s" and p: "idle_pipes s (p # ps)"
  shows "\<exists>s'. c_free p s = Some s' \<and> calm X s s'"
proof -
  let ?s = "s\<lparr>heap := (heap s)(p := None)\<rparr>"
  have h: "heap s p = Some idle_pipe" "closing s p = None" "\<forall>b. \<not> links_to (heap s) p True b"
    using p by (simp_all add: idle_pipes_def)
  have nz: "p \<noteq> 0" using osi_inv_null [OF inv] h(1) by (metis option.distinct(1))
  have "\<not> links_to (heap s) p k b" for k b
    using h(3) heap_ok_no_link [OF osi_inv_heap [OF inv] h(1), of k b] by (cases k) simp_all
  then have "heap_ok (heap ?s)" using heap_ok_del_port [OF osi_inv_heap [OF inv], of p] by simp
  then have "osi_inv X ?s" using h by (intro osi_inv_del_linked [OF inv h(1)]) (simp_all add: fun_upd_idem)
  moreover have "owed ?s = owed s" using owed_del [OF inv h(1), of ?s] by simp
  ultimately show ?thesis using h nz by (simp add: c_free_def calm_def no_new_text_def)
qed

definition closed_by :: "uptr list \<Rightarrow> (uptr \<Rightarrow> close_cb option) \<Rightarrow> uptr \<Rightarrow> close_cb option" where
  "closed_by ps cl a = (if a \<in> set ps then Some Close_stream_cb else cl a)"

lemma close_streams_spec:
  assumes "distinct ps" and "\<forall>p \<in> set ps. heap s p \<noteq> None \<and> closing s p = None"
  shows "close_streams ps s = Some (s\<lparr>calls := calls s @ List.map (\<lambda>p. Hnd (Uv_close p Close_stream_cb)) ps,
      closing := closed_by ps (closing s)\<rparr>)"
  using assms
proof (induction ps arbitrary: s)
  case Nil
  then show ?case by (simp add: closed_by_def [abs_def])
next
  case (Cons p ps)
  let ?s = "s\<lparr>calls := calls s @ [Hnd (Uv_close p Close_stream_cb)], closing := (closing s)(p \<mapsto> Close_stream_cb)\<rparr>"
  have "close_streams ps ?s = Some (?s\<lparr>calls := calls ?s @ List.map (\<lambda>p. Hnd (Uv_close p Close_stream_cb)) ps,
      closing := closed_by ps (closing ?s)\<rparr>)"
    using Cons.prems by (intro Cons.IH) auto
  moreover have "closed_by ps (closing ?s) = closed_by (p # ps) (closing s)" by (auto simp: closed_by_def)
  ultimately show ?case using Cons.prems by (simp add: uv_close_def)
qed

text \<open>The states in which a spawn can end, by their heap, locks and closing handles.\<close>

lemma all_closed:
  assumes inv: "osi_inv X s" and ps: "idle_pipes s ps" and h: "heap s' = heap s" and l: "locked s' = locked s"
    and m: "mallocs s \<le> mallocs s'" and c: "closing s' = closed_by ps (closing s)"
  shows "osi_inv X s' \<and> owed s' = owed s"
proof -
  have "close_streams ps s = Some (s\<lparr>calls := calls s @ List.map (\<lambda>p. Hnd (Uv_close p Close_stream_cb)) ps, closing := closing s'\<rparr>)"
    using ps c by (simp add: close_streams_spec idle_pipes_def)
  then have "osi_inv X (s\<lparr>calls := calls s @ List.map (\<lambda>p. Hnd (Uv_close p Close_stream_cb)) ps, closing := closing s'\<rparr>)"
    using close_streams_calm [OF inv, of ps "[]"] ps by (auto simp: calm_def)
  then have "osi_inv X s'" using h l m by (elim osi_inv_same) simp_all
  then show ?thesis using h by (simp add: owed_def)
qed

lemma new_process:
  assumes inv: "osi_inv X s" and p: "mallocs s < p" "p \<le> mallocs s'" and h: "heap s' = (heap s)(p \<mapsto> Uv_process d r)"
    and l: "locked s' = locked s + opt_mset d" and c: "closing s' = closing s"
  shows "osi_inv X s' \<and> owed s' = owed s + (if r then opt_mset d else {#})"
proof -
  let ?x = "Uv_process d r"
  have f: "heap s p = None" by (rule osi_inv_above [OF inv p(1)])
  have "heap_ok (heap s')" unfolding h by (rule heap_ok_new [OF osi_inv_heap [OF inv] f]) simp_all
  then have "osi_inv X s'" using p h l c by (intro osi_inv_add [OF inv f, of _ ?x]) simp_all
  with owed_add [OF inv f h] show ?thesis by simp
qed

lemma closing_process:
  assumes inv: "osi_inv X s" and h: "heap s p = Some (Uv_process d False)" and "heap s' = heap s"
    and "locked s' = locked s" and "mallocs s' = mallocs s" and "closing s' = (closing s)(p \<mapsto> Close_handle_data_cb)"
  shows "osi_inv X s' \<and> owed s' = owed s"
  using assms heap_ok_no_link [OF osi_inv_heap [OF inv] h, of True] osi_inv_close [OF inv h, of Close_handle_data_cb s']
  by (simp add: owed_def)

text \<open>What spawning guarantees, whatever fails on the way.\<close>

definition spawn_ok :: "ptr multiset \<Rightarrow> (u8 list list \<Rightarrow> bool) \<Rightarrow> ptr \<Rightarrow> osi \<Rightarrow> (ptr \<times> osi) option \<Rightarrow> bool" where
  "spawn_ok X A cb s res \<longleftrightarrow>
     (\<exists>r s'. res = Some (r, s') \<and> osi_inv X s' \<and> g_callbacks s' = g_callbacks s \<and> no_new_text s s'
        \<and> (error_pair r \<and> owed s' = owed s
           \<or> (\<exists>i out err pid. r = Svector [Sunsigned i, Sunsigned out, Sunsigned err, pid]
                \<and> idle_pipes s' [i, out, err] \<and> owed s' = add_mset cb (owed s)
                \<and> (\<exists>p path argv. last (calls s') = Hnd (Uv_spawn p path argv False [i, out, err]) \<and> A argv))))"

lemma spawn_ok_error:
  "osi_inv X s' \<and> owed s' = owed s \<Longrightarrow> g_callbacks s' = g_callbacks s \<Longrightarrow> no_new_text s s' \<Longrightarrow>
   spawn_ok X A cb s (Some (osi_make_error_pair who e, s'))"
  by (auto simp: spawn_ok_def)

lemma spawn_ok_weaken: "spawn_ok X B cb s res \<Longrightarrow> (\<And>argv. B argv \<Longrightarrow> A argv) \<Longrightarrow> spawn_ok X A cb s res"
  unfolding spawn_ok_def by blast

lemma spawn_ok_calm: "calm X s s1 \<Longrightarrow> spawn_ok X A cb s1 res \<Longrightarrow> spawn_ok X A cb s res"
  unfolding spawn_ok_def calm_def no_new_text_def by fastforce

text \<open>The argument vector from its allocation to its release: the heap is as it was, but for what was added meanwhile.\<close>

lemma argv_scope:
  assumes inv: "osi_inv X s" and small: "small_strings ss" and a: "a = Suc (mallocs s)"
  obtains as m h where
    "argv_fill E (scheme_list (List.map Sstring ss)) (s\<lparr>mallocs := a, heap := (heap s)(a \<mapsto> Raw)\<rparr>) = Some (as, s\<lparr>mallocs := m, heap := h\<rparr>)"
    and "h a = Some Raw" and "a \<le> m"
    and "argv_text as (s\<lparr>mallocs := m, heap := h\<rparr>) = List.map utf8_encode (take (length as) ss)"
    and "(\<forall>n. \<not> oom E n) \<longrightarrow> length as = length ss" and "a \<notin> set as" and "\<forall>b \<in> set as. b \<le> m"
    and "\<forall>b \<le> mallocs s. h b = heap s b"
    and "\<And>t. heap t = h(a \<mapsto> C_argv as) \<Longrightarrow> free_argv a t = Some (t\<lparr>heap := heap s\<rparr>)"
    and "\<And>t p x. heap t = h(a \<mapsto> C_argv as, p \<mapsto> x) \<Longrightarrow> m < p \<Longrightarrow> free_argv a t = Some (t\<lparr>heap := (heap s)(p \<mapsto> x)\<rparr>)"
proof -
  let ?s = "s\<lparr>mallocs := a, heap := (heap s)(a \<mapsto> Raw)\<rparr>"
  obtain as s' where r: "argv_fill E (scheme_list (List.map Sstring ss)) ?s = Some (as, s')" and f: "filled ss ?s as s'"
    and l: "(\<forall>n. \<not> oom E n) \<longrightarrow> length as = length ss" using argv_fill_spec [OF small, of E ?s] by blast
  then obtain m h where s': "s' = s\<lparr>mallocs := m, heap := h\<rparr>" and m: "a \<le> m" and d: "distinct as"
    and new: "\<forall>b \<in> set as. a < b \<and> b \<le> m \<and> h b \<noteq> None" and old: "\<forall>b. b \<notin> set as \<longrightarrow> h b = ((heap s)(a \<mapsto> Raw)) b"
    and tx: "argv_text as s' = List.map utf8_encode (take (length as) ss)" unfolding filled_def by auto
  have na: "a \<notin> set as" using new by auto
  have above: "heap s b = None" if "b \<in> set (a # as)" for b
    using that new a osi_inv_above [OF inv, of b] by auto
  have free: "free_argv a t = Some (t\<lparr>heap := (\<lambda>b. if b \<in> set (a # as) then None else heap t b)\<rparr>)"
    if "heap t a = Some (C_argv as)" "\<forall>b \<in> set as. heap t b = h b" for t
    using that d na new a by (intro free_argv_spec) auto
  show thesis
  proof (rule that)
    show "free_argv a t = Some (t\<lparr>heap := heap s\<rparr>)" if "heap t = h(a \<mapsto> C_argv as)" for t
    proof -
      have "(\<lambda>b. if b \<in> set (a # as) then None else heap t b) = heap s" using that old above by (auto simp: fun_eq_iff)
      with free [of t] that na show ?thesis by auto
    qed
    show "free_argv a t = Some (t\<lparr>heap := (heap s)(p \<mapsto> x)\<rparr>)" if "heap t = h(a \<mapsto> C_argv as, p \<mapsto> x)" "m < p" for t p x
    proof -
      have "p \<notin> set (a # as)" using that(2) new m by auto
      then have "(\<lambda>b. if b \<in> set (a # as) then None else heap t b) = (heap s)(p \<mapsto> x)" and "p \<noteq> a"
        using that(1) old above by (auto simp: fun_eq_iff)
      moreover have "\<forall>b \<in> set as. heap t b = h b" using that(1) na \<open>p \<notin> set (a # as)\<close> by auto
      ultimately show ?thesis using free [of t] that(1) by simp
    qed
    show "h a = Some Raw" using old na by simp
    show "\<forall>b \<le> mallocs s. h b = heap s b"
    proof (intro allI impI)
      fix b
      assume b: "b \<le> mallocs s"
      then have "b \<notin> set as" using new a by auto
      with old b a show "h b = heap s b" by simp
    qed
  qed (use r s' m tx l na new in simp_all)
qed

definition passes :: "env \<Rightarrow> u8 list \<Rightarrow> scheme_string list \<Rightarrow> u8 list list \<Rightarrow> bool" where
  "passes E path ss argv \<longleftrightarrow> (\<exists>k \<le> length ss. argv = path # List.map utf8_encode (take k ss) \<and> ((\<forall>n. \<not> oom E n) \<longrightarrow> k = length ss))"

lemma spawn_child_ok:
  assumes inv: "osi_inv X s" and ps: "idle_pipes s [i, out, err]" and small: "small_strings ss"
  shows "spawn_ok X (passes E path ss) callback s (spawn_child E path (scheme_list (List.map Sstring ss)) callback pid i out err s)"
proof -
  let ?a = "Suc (mallocs s)" and ?ps = "[i, out, err]"
  let ?closes = "List.map (\<lambda>p. Hnd (Uv_close p Close_stream_cb)) ?ps"
  have cl: "distinct ?ps" "\<forall>p \<in> set ?ps. heap s p \<noteq> None \<and> closing s p = None"
    using ps unfolding idle_pipes_def by auto
  have le: "\<forall>p \<in> set ?ps. p \<le> mallocs s" using osi_inv_addr [OF inv] cl(2) by auto
  note closed = spawn_ok_error [OF all_closed [OF inv ps]]
  show ?thesis
  proof (cases "oom E (mallocs s)")
    case True
    have "close_streams ?ps (s\<lparr>mallocs := ?a\<rparr>) = Some (s\<lparr>mallocs := ?a, calls := calls s @ List.map (\<lambda>p. Hnd (Uv_close p Close_stream_cb)) ?ps,
        closing := closed_by ?ps (closing s)\<rparr>)"
      using close_streams_spec [of ?ps "s\<lparr>mallocs := ?a\<rparr>"] cl by simp
    with True show ?thesis
      unfolding spawn_child_def malloc_container_def by (simp del: close_streams.simps) (rule closed; simp add: no_new_text_def)
  next
    case ok1: False
    obtain as m h where fill: "argv_fill E (scheme_list (List.map Sstring ss)) (s\<lparr>mallocs := ?a, heap := (heap s)(?a \<mapsto> Raw)\<rparr>)
          = Some (as, s\<lparr>mallocs := m, heap := h\<rparr>)"
      and ha: "h ?a = Some Raw" and am: "?a \<le> m" and ho: "\<forall>b \<le> mallocs s. h b = heap s b"
      and tx: "argv_text as (s\<lparr>mallocs := m, heap := h\<rparr>) = List.map utf8_encode (take (length as) ss)"
      and len: "(\<forall>n. \<not> oom E n) \<longrightarrow> length as = length ss" and na: "?a \<notin> set as" and asm: "\<forall>b \<in> set as. b \<le> m"
      and free1: "\<And>t. heap t = h(?a \<mapsto> C_argv as) \<Longrightarrow> free_argv ?a t = Some (t\<lparr>heap := heap s\<rparr>)"
      and free2: "\<And>t p x. heap t = h(?a \<mapsto> C_argv as, p \<mapsto> x) \<Longrightarrow> m < p \<Longrightarrow> free_argv ?a t = Some (t\<lparr>heap := (heap s)(p \<mapsto> x)\<rparr>)"
      by (rule argv_scope [OF inv small refl, of E]) (rule that)
    let ?p = "Suc m"
    let ?call = "Hnd (Uv_spawn ?p path (path # argv_text as (s\<lparr>mallocs := ?p, locked := add_mset callback (locked s),
        heap := h(?a \<mapsto> C_argv as, ?p \<mapsto> Uv_process (Some callback) False)\<rparr>)) False ?ps)"
    have pn: "?p \<notin> set ?ps" "mallocs s < ?p" using le am by auto
    consider (oom) "oom E m" | (fail) "\<not> oom E m" "uv E ?call (length (calls s)) < 0"
      | (ok) "\<not> oom E m" "\<not> uv E ?call (length (calls s)) < 0" by blast
    then show ?thesis
    proof cases
      case oom
      let ?t = "s\<lparr>heap := h(?a \<mapsto> C_argv as), mallocs := ?p\<rparr>"
      have "close_streams ?ps ?t = Some (?t\<lparr>calls := calls s @ ?closes, closing := closed_by ?ps (closing s)\<rparr>)"
        using close_streams_spec [of ?ps ?t] cl le ho by simp
      with oom ok1 fill ha free1 show ?thesis
        by (simp add: spawn_child_def osi_ops del: close_streams.simps) (rule closed; use am in \<open>simp add: no_new_text_def\<close>)
    next
      case fail
      let ?t = "s\<lparr>mallocs := ?p, locked := add_mset callback (locked s), calls := calls s @ [?call],
        heap := (heap s)(?p \<mapsto> Uv_process (Some callback) False)\<rparr>"
      let ?u = "?t\<lparr>calls := calls s @ [?call] @ ?closes, closing := closed_by ?ps (closing s)\<rparr>"
      let ?v = "?u\<lparr>calls := calls ?u @ [Hnd (Uv_close ?p Close_handle_data_cb)], closing := (closing ?u)(?p \<mapsto> Close_handle_data_cb)\<rparr>"
      have t: "osi_inv X ?t \<and> owed ?t = owed s" using new_process [OF inv pn(2), of ?t "Some callback" False] by simp
      have ip: "idle_pipes ?t ?ps" using ps pn by (auto simp: idle_pipes_def links_to_upd split: if_splits)
      have u: "osi_inv X ?u \<and> owed ?u = owed ?t" using t by (intro all_closed [OF _ ip]) simp_all
      have v: "osi_inv X ?v \<and> owed ?v = owed ?u"
        using u by (intro closing_process [where p = ?p and d = "Some callback"]) simp_all
      have cs: "close_streams ?ps ?t = Some ?u"
        using close_streams_spec [of ?ps ?t] cl pn by auto
      have np: "closing ?u ?p = None" using osi_inv_free_closing [OF inv osi_inv_above [OF inv pn(2)]] pn(1) by (simp add: closed_by_def)
      have "spawn_child E path (scheme_list (List.map Sstring ss)) callback pid i out err s
          = Some (osi_make_error_pair ''uv_spawn'' (uv E ?call (length (calls s))), ?v)"
        using fail ok1 fill ha am free2 cs np by (simp add: spawn_child_def osi_ops del: close_streams.simps)
      moreover have "no_new_text s ?v" by (auto simp: no_new_text_def)
      ultimately show ?thesis using t u v by (simp add: spawn_ok_error)
    next
      case ok
      let ?t = "s\<lparr>mallocs := ?p, locked := add_mset callback (locked s), calls := calls s @ [?call],
        heap := (heap s)(?p \<mapsto> Uv_process (Some callback) True)\<rparr>"
      have t: "osi_inv X ?t \<and> owed ?t = add_mset callback (owed s)" using new_process [OF inv pn(2), of ?t "Some callback" True] by simp
      have ip: "idle_pipes ?t ?ps" using ps pn by (auto simp: idle_pipes_def links_to_upd split: if_splits)
      have "spawn_child E path (scheme_list (List.map Sstring ss)) callback pid i out err s
          = Some (Svector [Sunsigned i, Sunsigned out, Sunsigned err, Sinteger32 pid], ?t)"
        using ok ok1 fill ha am free2 by (simp add: spawn_child_def osi_ops)
      moreover have "no_new_text s ?t" by (auto simp: no_new_text_def)
      moreover have "passes E path ss (path # argv_text as (s\<lparr>mallocs := ?p, locked := add_mset callback (locked s),
        heap := h(?a \<mapsto> C_argv as, ?p \<mapsto> Uv_process (Some callback) False)\<rparr>))"
        using tx len na asm
        by (subst argv_text_cong [where s = "s\<lparr>mallocs := m, heap := h\<rparr>"])
           (auto simp: passes_def min_def intro!: exI [of _ "min (length as) (length ss)"])
      ultimately show ?thesis using t ip unfolding spawn_ok_def by auto
    qed
  qed
qed

lemma osi_spawn_ok:
  assumes inv: "osi_inv X s" and small: "\<And>ss. args = scheme_list (List.map Sstring ss) \<Longrightarrow> small_strings ss"
    and args: "\<And>ss. args = scheme_list (List.map Sstring ss) \<Longrightarrow> \<forall>argv. passes E path ss argv \<longrightarrow> A argv"
  shows "spawn_ok X A callback s (osi_spawn E path args callback pid s)"
proof (cases "string_list_length args < 0")
  case True
  then show ?thesis by (simp add: osi_spawn_def Let_def) (rule spawn_ok_error; simp add: inv no_new_text_def)
next
  case False
  then obtain ss where ss: "args = scheme_list (List.map Sstring ss)"
    using string_list_loop_list [of args 0] by (auto simp: string_list_length_def)
  have e: "spawn_ok X A callback t (Some (osi_make_error_pair who rc, t'))" if "calm X t t'" for t t' who rc
    using that by (intro spawn_ok_error) (simp_all add: calm_def)
  have ip0: "idle_pipes s []" by (simp add: idle_pipes_def)
  note sp = osi_spawn_def Let_def
  show ?thesis
    using inv ip0
  proof (cases rule: alloc_pipe_calm [where E = E])
    case (nomem s1)
    then show ?thesis using False by (simp add: sp e)
  next
    case (failed s1 p rc)
    obtain s2 where "c_free p s1 = Some s2" "calm X s1 s2" using free_pipe_calm [OF calm_inv [OF failed(2)] failed(3)] by blast
    then show ?thesis using False failed by (simp add: sp e calm_trans [of X s s1 s2])
  next
    case (ready s1 i)
    note i1 = calm_inv [OF ready(2)]
    have ip1: "idle_pipes s1 [i]" using ready(3) by simp
    have "spawn_ok X A callback s1 (osi_spawn E path args callback pid s)"
      using i1 ip1
    proof (cases rule: alloc_pipe_calm [where E = E])
      case (nomem s2)
      then obtain s3 where "close_streams [i] s2 = Some s3" "calm X s2 s3"
        using close_streams_calm [OF calm_inv, of X s1 s2 "[i]" "[]"] by auto
      then show ?thesis using False ready(1) nomem by (simp add: sp e calm_trans [of X s1 s2 s3] del: close_streams.simps)
    next
      case (failed s2 p rc)
      obtain s3 where s3: "close_streams [i] s2 = Some s3" "calm X s2 s3" "idle_pipes s3 [p]"
        using close_streams_calm [OF calm_inv [OF failed(2)], of "[i]" "[p]"] failed(3) by (auto simp: idle_pipes_def)
      obtain s4 where "c_free p s3 = Some s4" "calm X s3 s4" using free_pipe_calm [OF calm_inv [OF s3(2)] s3(3)] by blast
      then show ?thesis using False ready(1) failed s3 calm_trans [OF failed(2) calm_trans, of s3 s4]
        by (simp add: sp e del: close_streams.simps)
    next
      case r2: (ready s2 out)
      note i2 = calm_inv [OF r2(2)]
      have ip2: "idle_pipes s2 [i, out]" using r2(3) by simp
      have "spawn_ok X A callback s2 (osi_spawn E path args callback pid s)"
        using i2 ip2
      proof (cases rule: alloc_pipe_calm [where E = E])
        case (nomem s3)
        then obtain s4 where "close_streams [i, out] s3 = Some s4" "calm X s3 s4"
          using close_streams_calm [OF calm_inv, of X s2 s3 "[i, out]" "[]"] by auto
        then show ?thesis using False ready(1) r2(1) nomem by (simp add: sp e calm_trans [of X s2 s3 s4] del: close_streams.simps)
      next
        case (failed s3 p rc)
        obtain s4 where s4: "close_streams [i, out] s3 = Some s4" "calm X s3 s4" "idle_pipes s4 [p]"
          using close_streams_calm [OF calm_inv [OF failed(2)], of "[i, out]" "[p]"] failed(3) by (auto simp: idle_pipes_def)
        obtain s5 where "c_free p s4 = Some s5" "calm X s4 s5" using free_pipe_calm [OF calm_inv [OF s4(2)] s4(3)] by blast
        then show ?thesis using False ready(1) r2(1) failed s4 calm_trans [OF failed(2) calm_trans, of s4 s5]
          by (simp add: sp e del: close_streams.simps)
      next
        case r3: (ready s3 err)
        have "spawn_ok X (passes E path ss) callback s3 (spawn_child E path args callback pid i out err s3)"
          unfolding ss using r3(3) by (intro spawn_child_ok [OF calm_inv [OF r3(2)]]) (simp_all add: small [OF ss])
        then have "spawn_ok X A callback s3 (spawn_child E path args callback pid i out err s3)"
          by (rule spawn_ok_weaken) (use args [OF ss] in blast)
        then show ?thesis using False ready(1) r2(1) r3 by (simp add: sp spawn_ok_calm [OF r3(2)])
      qed
      then show ?thesis by (rule spawn_ok_calm [OF r2(2)])
    qed
    then show ?thesis by (rule spawn_ok_calm [OF ready(2)])
  qed
qed

lemma osi_spawn_detached_ok:
  assumes inv: "osi_inv X s" and small: "\<And>ss. args = scheme_list (List.map Sstring ss) \<Longrightarrow> small_strings ss"
  shows "\<exists>r s'. osi_spawn_detached E path args pid s = Some (r, s') \<and> calm X s s' \<and> (error_pair r \<or> r = Sinteger32 pid)"
proof (cases "string_list_length args < 0 \<or> oom E (mallocs s)")
  case True
  have "calm X s s" "calm X s (s\<lparr>mallocs := Suc (mallocs s)\<rparr>)"
    using inv unchanged [OF inv, of "s\<lparr>mallocs := Suc (mallocs s)\<rparr>"] by (simp_all add: calm_def no_new_text_def)
  with True show ?thesis by (auto simp: osi_spawn_detached_def osi_ops)
next
  case False
  then obtain ss where ss: "args = scheme_list (List.map Sstring ss)"
    using string_list_loop_list [of args 0] by (auto simp: string_list_length_def)
  let ?a = "Suc (mallocs s)"
  obtain as m h where fill: "argv_fill E (scheme_list (List.map Sstring ss)) (s\<lparr>mallocs := ?a, heap := (heap s)(?a \<mapsto> Raw)\<rparr>) = Some (as, s\<lparr>mallocs := m, heap := h\<rparr>)"
    and ha: "h ?a = Some Raw" and am: "?a \<le> m"
    and free1: "\<And>t. heap t = h(?a \<mapsto> C_argv as) \<Longrightarrow> free_argv ?a t = Some (t\<lparr>heap := heap s\<rparr>)"
    and free2: "\<And>t p x. heap t = h(?a \<mapsto> C_argv as, p \<mapsto> x) \<Longrightarrow> m < p \<Longrightarrow> free_argv ?a t = Some (t\<lparr>heap := (heap s)(p \<mapsto> x)\<rparr>)"
    by (rule argv_scope [OF inv small [OF ss] refl, of E]) (rule that)
  note fill = fill [folded ss]
  let ?p = "Suc m"
  have pn: "mallocs s < ?p" using am by simp
  have np: "closing s ?p = None" by (rule osi_inv_free_closing [OF inv osi_inv_above [OF inv pn]])
  let ?call = "Hnd (Uv_spawn ?p path (path # argv_text as (s\<lparr>mallocs := ?p, heap := h(?a \<mapsto> C_argv as, ?p \<mapsto> Uv_process None False)\<rparr>)) True [])"
  note new = new_process [OF inv pn, where d = None]
  consider (oom) "oom E m" | (fail) "\<not> oom E m" "uv E ?call (length (calls s)) < 0"
    | (ok) "\<not> oom E m" "\<not> uv E ?call (length (calls s)) < 0" by blast
  then show ?thesis
  proof cases
    case oom
    let ?t = "s\<lparr>heap := heap s, mallocs := ?p\<rparr>"
    have "calm X s ?t" using unchanged [OF inv, of ?t] pn by (simp add: calm_def no_new_text_def)
    with oom False fill ha free1 show ?thesis by (simp add: osi_spawn_detached_def osi_ops)
  next
    case fail
    let ?t = "s\<lparr>mallocs := ?p, calls := calls s @ [?call], heap := (heap s)(?p \<mapsto> Uv_process None False)\<rparr>"
    let ?u = "?t\<lparr>calls := calls s @ [?call, Hnd (Uv_close ?p Close_handle_data_cb)], closing := (closing s)(?p \<mapsto> Close_handle_data_cb)\<rparr>"
    have t: "osi_inv X ?t \<and> owed ?t = owed s" using new [of ?t False] by simp
    then have "osi_inv X ?u \<and> owed ?u = owed ?t" by (intro closing_process [where p = ?p and d = None]) simp_all
    with t have "calm X s ?u" by (simp add: calm_def no_new_text_def)
    with fail False fill ha am free2 np show ?thesis by (simp add: osi_spawn_detached_def osi_ops)
  next
    case ok
    let ?t = "s\<lparr>mallocs := ?p, calls := calls s @ [?call], heap := (heap s)(?p \<mapsto> Uv_process None True)\<rparr>"
    have "calm X s ?t" using new [of ?t True] by (simp add: calm_def no_new_text_def)
    with ok False fill ha am free2 show ?thesis by (simp add: osi_spawn_detached_def osi_ops)
  qed
qed

section \<open>Exits and signals: lemmas\<close>

lemma process_exit_completes:
  assumes inv: "osi_inv X s" and h: "heap s p = Some (Uv_process (Some callback) True)" and q: "g_callbacks s = Some q"
  shows "completes X callback s (process_exit_cb p pid status sig s)"
proof -
  have m: "callback \<in># locked s" using held_locked [OF inv h] by simp
  have nc: "closing s p = None" using osi_inv_not_closing [OF inv h] by (metis (full_types) close_cb.exhaust closes.simps)
  let ?y = "Uv_process None False" and ?args = "Scons (Sinteger32 pid) (Scons (Sinteger64 status) (Scons (Sinteger32 sig) Snil))"
  let ?t = "s\<lparr>g_callbacks := Some (Scons (Scons callback ?args) q), locked := locked s - {#callback#}, heap := (heap s)(p \<mapsto> ?y)\<rparr>"
  let ?u = "?t\<lparr>calls := calls s @ [Hnd (Uv_close p Close_handle_data_cb)], closing := (closing s)(p \<mapsto> Close_handle_data_cb)\<rparr>"
  have i: "osi_inv X ?t" using m nc by (intro osi_inv_upd [OF inv h, of _ ?y]) simp_all
  have o: "owed s = add_mset callback (owed ?t)" using owed_upd [OF inv h, of ?t ?y] by simp
  have "osi_inv X ?u \<and> owed ?u = owed ?t" by (rule closing_process [OF i, where p = p and d = None]) simp_all
  moreover have "process_exit_cb p pid status sig s = Some ?u"
    using h m nc q by (simp add: process_exit_cb_def osi_queue osi_ops)
  ultimately show ?thesis using o q by (simp add: completes_def)
qed

lemma process_exit_detached:
  assumes inv: "osi_inv X s" and h: "heap s p = Some (Uv_process None True)"
  shows "\<exists>s'. process_exit_cb p pid status sig s = Some s' \<and> calm X s s' \<and> closing s' p = Some Close_handle_data_cb"
proof -
  have nc: "closing s p = None" using osi_inv_not_closing [OF inv h] by (metis (full_types) close_cb.exhaust closes.simps)
  let ?y = "Uv_process None False"
  let ?t = "s\<lparr>heap := (heap s)(p \<mapsto> ?y)\<rparr>"
  let ?u = "?t\<lparr>calls := calls s @ [Hnd (Uv_close p Close_handle_data_cb)], closing := (closing s)(p \<mapsto> Close_handle_data_cb)\<rparr>"
  have i: "osi_inv X ?t" using nc by (intro osi_inv_upd [OF inv h, of _ ?y]) simp_all
  have o: "owed s = owed ?t" using owed_upd [OF inv h, of ?t ?y] by simp
  have "osi_inv X ?u \<and> owed ?u = owed ?t" by (rule closing_process [OF i, where p = p and d = None]) simp_all
  moreover have "process_exit_cb p pid status sig s = Some ?u" using h nc by (simp add: process_exit_cb_def osi_ops)
  ultimately show ?thesis using o by (simp add: calm_def no_new_text_def)
qed

lemma close_process_releases:
  assumes inv: "osi_inv X s" and h: "heap s p = Some (Uv_process d False)"
  shows "\<exists>s'. close_handle_data_cb p s = Some s' \<and> osi_inv X s' \<and> owed s' = owed s \<and> heap s' = (heap s)(p := None)
      \<and> g_callbacks s' = g_callbacks s"
proof -
  have nz: "p \<noteq> 0" using osi_inv_null [OF inv] h by (metis option.distinct(1))
  have m: "opt_mset d \<subseteq># locked s" using held_locked_sub [OF inv h] by simp
  let ?s = "s\<lparr>closing := (closing s)(p := None), heap := (heap s)(p := None), locked := locked s - opt_mset d\<rparr>"
  have "close_handle_data_cb p s = Some ?s" using h nz m by (cases d) (auto simp: close_handle_data_cb_def osi_ops)
  moreover have "osi_inv X ?s" using m by (intro osi_inv_del [OF inv h]) (simp_all add: subset_mset.diff_add)
  moreover have "owed ?s = owed s" using owed_del [OF inv h, of ?s] by simp
  ultimately show ?thesis by auto
qed

text \<open>A signal handler: opened, closed and freed without a lock or a promise.\<close>

lemma new_signal:
  assumes inv: "osi_inv X s" and h: "heap s' = (heap s)(Suc (mallocs s) \<mapsto> Uv_signal)" and l: "locked s' = locked s"
    and m: "mallocs s' = Suc (mallocs s)" and c: "closing s' = closing s \<or> closing s' = (closing s)(Suc (mallocs s) \<mapsto> Close_signal_cb)"
  shows "osi_inv X s' \<and> owed s' = owed s"
proof -
  let ?a = "Suc (mallocs s)" and ?s = "s'\<lparr>closing := closing s\<rparr>"
  note fresh = osi_inv_fresh [OF inv]
  have "heap_ok (heap s')" unfolding h by (rule heap_ok_new [OF osi_inv_heap [OF inv] fresh]) simp_all
  then have i: "osi_inv X ?s" using h l m by (intro osi_inv_new [OF inv, of _ Uv_signal]) simp_all
  have "\<not> links_to (heap s') ?a True b" for b
    using heap_ok_no_link [OF osi_inv_heap [OF i], of ?a Uv_signal True b] by (simp add: h)
  then have "osi_inv X s'" if "closing s' \<noteq> closing s"
    using c h that by (intro osi_inv_close [OF i, of ?a Uv_signal]) simp_all
  moreover have "osi_inv X s'" if "closing s' = closing s" using osi_inv_same [OF i, of s'] that by simp
  moreover have "owed s' = owed s" using owed_new [OF inv h] by simp
  ultimately show ?thesis by blast
qed

lemma osi_start_signal_ok:
  assumes inv: "osi_inv X s"
  shows "\<exists>r s'. osi_start_signal E signum s = Some (r, s') \<and> calm X s s'
      \<and> (error_pair r \<or> (\<exists>h. r = Sunsigned h \<and> heap s h = None \<and> heap s' h = Some Uv_signal \<and> closing s' h = None))"
proof -
  let ?a = "Suc (mallocs s)" and ?n = "length (calls s)"
  have fresh: "heap s ?a = None" "closing s ?a = None"
    by (rule osi_inv_fresh [OF inv], rule osi_inv_fresh_closing [OF inv])
  note new = new_signal [OF inv] and same = unchanged [OF inv]
  have calmI: "osi_inv X t \<and> owed t = owed s \<Longrightarrow> g_callbacks t = g_callbacks s \<Longrightarrow> no_new_text s t \<Longrightarrow> calm X s t" for t
    by (simp add: calm_def)
  consider "oom E (mallocs s)" | "\<not> oom E (mallocs s)" "uv E (Hnd (Uv_signal_init ?a)) ?n \<noteq> 0"
    | "\<not> oom E (mallocs s)" "uv E (Hnd (Uv_signal_init ?a)) ?n = 0" "uv E (Hnd (Uv_signal_start ?a signum)) (Suc ?n) \<noteq> 0"
    | "\<not> oom E (mallocs s)" "uv E (Hnd (Uv_signal_init ?a)) ?n = 0" "uv E (Hnd (Uv_signal_start ?a signum)) (Suc ?n) = 0" by blast
  then show ?thesis
  proof cases
    case 1
    then show ?thesis by (simp add: osi_start_signal_def osi_ops) (rule calmI [OF same]; simp add: no_new_text_def)
  next
    case 2
    then show ?thesis
      by (simp add: osi_start_signal_def osi_ops) (rule calmI [OF same]; simp add: no_new_text_def fun_upd_idem fresh)
  next
    case 3
    then show ?thesis
      by (simp add: osi_start_signal_def osi_ops fresh) (rule calmI [OF new]; simp add: no_new_text_def)
  next
    case 4
    then show ?thesis
      by (simp add: osi_start_signal_def osi_ops fresh)
        (rule conjI, rule calmI [OF new], simp_all add: no_new_text_def fresh, rule disjI2, rule exI [of _ ?a], simp)
  qed
qed

section \<open>Properties\<close>


lemma scheme_list_inject: "scheme_list xs = scheme_list ys \<longleftrightarrow> xs = ys"
  by (induction xs arbitrary: ys) (case_tac ys, simp_all)+

lemma map_Sstring_inject: "List.map Sstring xs = List.map Sstring ys \<longleftrightarrow> xs = ys"
  by (simp add: inj_map_eq_map inj_def)



text \<open>The exit of a child is reported exactly once: its callback is queued with the process
  number, the status and the signal, it is no longer owed, its lock is released, and the handle is
  being closed.\<close>

theorem process_exit_reported_once:
  assumes "osi_inv X s" and "heap s p = Some (Uv_process (Some callback) True)" and "g_callbacks s = Some q"
  shows "completes X callback s (process_exit_cb p pid status sig s)
     \<and> g_callbacks (the (process_exit_cb p pid status sig s))
         = Some (Scons (Scons callback (Scons (Sinteger32 pid) (Scons (Sinteger64 status) (Scons (Sinteger32 sig) Snil)))) q)"
proof -
  have "callback \<in># locked s" "closing s p = None"
    using held_locked [OF assms(1,2)] osi_inv_not_closing [OF assms(1,2)] by (auto elim: closes.elims)
  then have "g_callbacks (the (process_exit_cb p pid status sig s))
      = Some (Scons (Scons callback (Scons (Sinteger32 pid) (Scons (Sinteger64 status) (Scons (Sinteger32 sig) Snil)))) q)"
    using assms(2,3) by (simp add: process_exit_cb_def osi_queue osi_ops)
  with process_exit_completes [OF assms] show ?thesis by simp
qed

definition child_running :: osi where
  "child_running = osi_start\<lparr>g_callbacks := Some Snil, locked := {#Sprocedure 7#}, mallocs := 1,
     heap := [1 \<mapsto> Uv_process (Some (Sprocedure 7)) True]\<rparr>"

lemma osi_inv_child_running: "osi_inv {#} child_running"
  by (simp add: child_running_def osi_start_def osi_inv_def heap_sum_def closing_ok_def heap_ok_def links_to_def)

theorem process_exit_reported_once_witness:
  "completes {#} (Sprocedure 7) child_running (process_exit_cb 1 42 0 15 child_running)"
  using process_exit_reported_once [OF osi_inv_child_running, of 1 "Sprocedure 7" Snil 42 0 15]
  by (simp add: child_running_def)

end
