(* ===== verification/Event_Loop.thy ===== *)
theory Event_Loop
  imports Process
begin

text \<open>
  The event loop of \<^verbatim>\<open>osi.c\<close>: libuv delivers events one at a time while \<^verbatim>\<open>osi_get_callbacks\<close> runs, each
  by calling one of the C callbacks of the preceding theories, and the Scheme callbacks collected
  meanwhile are returned as a list. The theory ends with the whole interface as a transition system
  and a ledger of the callbacks that were accepted and delivered.
\<close>

section \<open>Events\<close>

datatype event =
    Fs_done uptr fs_outcome
  | Fd_closed uptr
  | Stream_read uptr int
  | Stream_written uptr int
  | Resolved uptr int "nat list"
  | Connected uptr int
  | Incoming uptr int
  | Path_changed uptr "u8 list option" int int
  | Exited uptr int u64 int
  | Signalled ptr int
  | Handle_closed uptr

fun run_event :: "env \<Rightarrow> event \<Rightarrow> osi \<Rightarrow> osi option" where
  "run_event E (Fs_done req out) s = run_fs_cb E req out s"
| "run_event E (Fd_closed async) s = close_fd_cb async s"
| "run_event E (Stream_read port nread) s = read_stream_cb port nread s"
| "run_event E (Stream_written port status) s = write_stream_cb port status s"
| "run_event E (Resolved p status res) s = connect_tcp_addrinfo_cb E p status res s"
| "run_event E (Connected p status) s = connect_tcp_cb E p status s"
| "run_event E (Incoming server status) s = listen_tcp_cb E server status s"
| "run_event E (Path_changed h filename events status) s = watch_path_cb E h filename events status s"
| "run_event E (Exited p pid status sig) s = process_exit_cb p pid status sig s"
| "run_event E (Signalled deliver signum) s = fire_signal deliver signum s"
| "run_event E (Handle_closed h) s =
     (case closing s h of
        Some Close_stream_cb \<Rightarrow> close_stream_cb E h s
      | Some Close_handle_data_cb \<Rightarrow> close_handle_data_cb h s
      | Some Close_async_cb \<Rightarrow> close_async_cb h s
      | Some Close_signal_cb \<Rightarrow> close_signal_cb h s
      | Some Close_free_cb \<Rightarrow> c_free h (s\<lparr>closing := (closing s)(h := None)\<rparr>)
      | None \<Rightarrow> None)"

text \<open>
  What libuv promises about an event: the request is pending or the handle active, name resolution
  succeeds only with an address, and a pending write is cancelled before its stream is closed.
\<close>

definition event_ok :: "event \<Rightarrow> osi \<Rightarrow> bool" where
  "event_ok ev s =
     (case ev of
        Fs_done req _ \<Rightarrow> (\<exists>x cb. heap s req = Some x \<and> request_callback x = Some cb)
      | Fd_closed a \<Rightarrow> (\<exists>cb. heap s a = Some (Uv_async (Some cb) False))
      | Stream_read port _ \<Rightarrow> (\<exists>p cb. heap s port = Some (Stream_port p) \<and> read_callback p = Some cb)
      | Stream_written port _ \<Rightarrow> (\<exists>p cb. heap s port = Some (Stream_port p) \<and> write_callback p = Some cb)
      | Resolved p status res \<Rightarrow> (\<exists>t. heap s p = Some (Tcp_connect t)) \<and> (status < 0 \<or> res \<noteq> [])
      | Connected p _ \<Rightarrow> (\<exists>t. heap s p = Some (Tcp_connect t))
      | Incoming h _ \<Rightarrow> (\<exists>cb. heap s h = Some (Uv_tcp (Some cb)))
      | Path_changed h _ _ _ \<Rightarrow> (\<exists>cb. heap s h = Some (Uv_fs_event (Some cb)))
      | Exited p _ _ _ \<Rightarrow> (\<exists>d. heap s p = Some (Uv_process d True))
      | Signalled _ _ \<Rightarrow> True
      | Handle_closed h \<Rightarrow> closing s h \<noteq> None \<and> (\<forall>p. heap s h = Some (Stream_port p) \<longrightarrow> write_callback p = None))"

text \<open>Standing callbacks are queued without having been owed.\<close>

definition standing :: "event \<Rightarrow> osi \<Rightarrow> ptr multiset" where
  "standing ev s =
     (case ev of
        Incoming h _ \<Rightarrow> (case heap s h of Some (Uv_tcp d) \<Rightarrow> opt_mset d | _ \<Rightarrow> {#})
      | Path_changed h _ _ _ \<Rightarrow> (case heap s h of Some (Uv_fs_event d) \<Rightarrow> opt_mset d | _ \<Rightarrow> {#})
      | Signalled deliver _ \<Rightarrow> {#deliver#}
      | _ \<Rightarrow> {#})"

section \<open>Collecting callbacks\<close>

text \<open>
  The events libuv delivers in one call of \<^verbatim>\<open>uv_run\<close>, in order. The timer of \<^verbatim>\<open>osi_get_callbacks\<close> is one-shot: its
  callback sets the \<^verbatim>\<open>data\<close> field and stops the loop.
\<close>

record uv_timer_t =
  timer_armed :: bool
  timer_data :: bool

datatype loop_event = Timer_expired | Io event

definition get_callbacks_timer_cb :: "uv_timer_t \<Rightarrow> uv_timer_t" where
  "get_callbacks_timer_cb t = t\<lparr>timer_armed := False, timer_data := True\<rparr>"

fun uv_run :: "env \<Rightarrow> loop_event list \<Rightarrow> uv_timer_t \<times> osi \<Rightarrow> (uv_timer_t \<times> osi) option" where
  "uv_run E [] ts = Some ts"
| "uv_run E (Timer_expired # evs) (t, s) = uv_run E evs (get_callbacks_timer_cb t, s)"
| "uv_run E (Io ev # evs) (t, s) = do { s \<leftarrow> run_event E ev s; uv_run E evs (t, s) }"

definition osi_get_callbacks ::
  "env \<Rightarrow> u64 \<Rightarrow> loop_event list \<Rightarrow> loop_event list \<Rightarrow> uv_timer_t \<times> osi \<Rightarrow> (ptr \<times> uv_timer_t \<times> osi) option" where
  "osi_get_callbacks E timeout evs1 evs2 ts = do {
     let (t, s) = ts;
     let s = s\<lparr>g_callbacks := Some Snil\<rparr>;
     (t, s) \<leftarrow>
       (if timeout = 0 then uv_run E evs1 (t, s)
        else do {
          let t = t\<lparr>timer_data := False\<rparr>;
          let t = t\<lparr>timer_armed := True\<rparr>;
          (t, s) \<leftarrow> uv_run E evs1 (t, s);
          if \<not> timer_data t then uv_run E evs2 (t\<lparr>timer_armed := False\<rparr>, s) else Some (t, s)
        });
     callbacks \<leftarrow> g_callbacks s;
     Some (callbacks, t, s\<lparr>g_callbacks := None\<rparr>)
   }"

text \<open>The timer expires only while it is armed; every other event is one libuv may deliver in its state.\<close>

fun events_ok :: "env \<Rightarrow> loop_event list \<Rightarrow> uv_timer_t \<times> osi \<Rightarrow> bool" where
  "events_ok E [] ts \<longleftrightarrow> True"
| "events_ok E (Timer_expired # evs) (t, s) \<longleftrightarrow> timer_armed t \<and> events_ok E evs (get_callbacks_timer_cb t, s)"
| "events_ok E (Io ev # evs) (t, s) \<longleftrightarrow> event_ok ev s \<and> (\<forall>s'. run_event E ev s = Some s' \<longrightarrow> events_ok E evs (t, s'))"

fun notices :: "env \<Rightarrow> loop_event list \<Rightarrow> uv_timer_t \<times> osi \<Rightarrow> ptr multiset" where
  "notices E [] ts = {#}"
| "notices E (Timer_expired # evs) (t, s) = notices E evs (get_callbacks_timer_cb t, s)"
| "notices E (Io ev # evs) (t, s) =
     standing ev s + (case run_event E ev s of None \<Rightarrow> {#} | Some s' \<Rightarrow> notices E evs (t, s'))"

section \<open>Every event keeps the accounts\<close>

definition event_accounts :: "ptr multiset \<Rightarrow> ptr multiset \<Rightarrow> osi \<Rightarrow> osi option \<Rightarrow> bool" where
  "event_accounts X new s res \<longleftrightarrow>
     (\<exists>s' q q' old. res = Some s' \<and> osi_inv X s' \<and> g_callbacks s = Some q \<and> g_callbacks s' = Some q'
        \<and> queued q' = queued q + old + new \<and> owed s = owed s' + old)"

lemma completes_accounts: "completes X cb s res \<Longrightarrow> event_accounts X {#} s res"
  unfolding completes_def event_accounts_def by (elim exE conjE, intro exI [of _ "{#cb#}"] exI) auto

lemma quiet_accounts:
  "osi_inv X s' \<Longrightarrow> owed s' = owed s \<Longrightarrow> g_callbacks s' = g_callbacks s \<Longrightarrow> g_callbacks s \<noteq> None \<Longrightarrow>
   event_accounts X {#} s (Some s')"
  by (auto simp: event_accounts_def)

lemma notifies_accounts: "notifies X cb s res \<Longrightarrow> event_accounts X {#cb#} s res"
  by (auto simp: notifies_def event_accounts_def)

lemma connect_accounts: "connect_outcome X p cb n s res \<Longrightarrow> g_callbacks s \<noteq> None \<Longrightarrow> event_accounts X {#} s res"
  by (erule connect_outcome_cases) (auto simp: completes_accounts quiet_accounts)

lemma free_closed:
  assumes inv: "osi_inv X s" and h: "heap s a = Some x" and x: "obj_held x = {#}" "obj_owed x = {#}" "port_kind x = None"
  shows "\<exists>s'. c_free a (s\<lparr>closing := (closing s)(a := None)\<rparr>) = Some s' \<and> osi_inv X s' \<and> owed s' = owed s \<and> g_callbacks s' = g_callbacks s"
proof -
  have nz: "a \<noteq> 0" using osi_inv_null [OF inv] h by (metis option.distinct(1))
  let ?s = "s\<lparr>closing := (closing s)(a := None), heap := (heap s)(a := None)\<rparr>"
  have "osi_inv X ?s" using x by (intro osi_inv_del [OF inv h]) simp_all
  moreover have "owed ?s = owed s" using owed_del [OF inv h, of ?s] x by simp
  ultimately show ?thesis using h nz by (simp add: c_free_def)
qed

lemma handle_closed_accounts:
  assumes inv: "osi_inv X s" and ok: "event_ok (Handle_closed h) s" and q: "g_callbacks s = Some q"
  shows "event_accounts X {#} s (run_event E (Handle_closed h) s)"
proof -
  obtain cb where cb: "closing s h = Some cb" using ok by (auto simp: event_ok_def)
  obtain x where x: "heap s h = Some x" "closes cb x" using closing_ok_closes [OF osi_inv_closing [OF inv] cb] by blast
  have nl: "\<forall>b. \<not> links_to (heap s) h True b" using closing_ok_link [OF osi_inv_closing [OF inv]] cb by (metis option.distinct(1))
  have quiet: "event_accounts X {#} s res" if "\<exists>s'. res = Some s' \<and> osi_inv X s' \<and> owed s' = owed s \<and> g_callbacks s' = g_callbacks s" for res
    using that q quiet_accounts by fastforce
  show ?thesis
    using x(2)
  proof (cases rule: closes.cases [of "(cb, x)"])
    case (1 p)
    then have "heap s h = Some (Stream_port p)" and "write_callback p = None" using x ok by (auto simp: event_ok_def)
    from close_stream_cb_delivers [OF inv this nl q, of E] show ?thesis
      using cb 1 by (auto simp: event_accounts_def q)
  next
    case (2 d)
    then show ?thesis using cb x quiet close_handle_data_cb_releases [OF inv, of h Uv_tcp d] by (fastforce simp: data_handle_def)
  next
    case (3 d)
    then show ?thesis using cb x quiet close_handle_data_cb_releases [OF inv, of h Uv_fs_event d] by (fastforce simp: data_handle_def)
  next
    case (4 d)
    then show ?thesis using cb x quiet close_process_releases [OF inv, of h d] by fastforce
  next
    case (5 d)
    then show ?thesis using cb x quiet free_closed [OF inv x(1)] by (simp add: close_async_cb_def)
  next
    case 6
    then show ?thesis using cb x quiet free_closed [OF inv x(1)] by (simp add: close_signal_cb_def)
  next
    case (7 d)
    then show ?thesis using cb x quiet free_closed [OF inv x(1)] by simp
  qed (use x(2) in simp_all)
qed

lemma event_keeps_accounts:
  assumes inv: "osi_inv X s" and ok: "event_ok ev s" and q: "g_callbacks s = Some q"
  shows "event_accounts X (standing ev s) s (run_event E ev s)"
proof (cases ev)
  case (Fs_done req out)
  then show ?thesis using ok completes_accounts [OF run_fs_cb_completes_aux [OF inv _ _ q]] by (auto simp: event_ok_def standing_def)
next
  case (Fd_closed a)
  then show ?thesis using ok completes_accounts [OF close_fd_cb_completes [OF inv _ q]] by (auto simp: event_ok_def standing_def)
next
  case (Stream_read port nread)
  then show ?thesis using ok completes_accounts [OF read_stream_cb_completes [OF inv _ _ q]] by (auto simp: event_ok_def standing_def)
next
  case (Stream_written port status)
  then show ?thesis using ok completes_accounts [OF write_stream_cb_completes [OF inv _ _ q]] by (auto simp: event_ok_def standing_def)
next
  case (Resolved p status res)
  then show ?thesis using ok q connect_accounts [OF connect_tcp_addrinfo_cb_outcome [OF inv _ q]] by (auto simp: event_ok_def standing_def)
next
  case (Connected p status)
  then show ?thesis using ok q connect_accounts [OF connect_tcp_cb_outcome [OF inv _ q]] by (auto simp: event_ok_def standing_def)
next
  case (Incoming h status)
  then show ?thesis using ok notifies_accounts [OF listen_tcp_cb_notifies [OF inv _ q]] by (auto simp: event_ok_def standing_def)
next
  case (Path_changed h f e status)
  then show ?thesis using ok notifies_accounts [OF watch_path_cb_notifies [OF inv _ q]] by (auto simp: event_ok_def standing_def)
next
  case (Exited p pid status sig)
  then obtain d where h: "heap s p = Some (Uv_process d True)" using ok by (auto simp: event_ok_def)
  show ?thesis
  proof (cases d)
    case None
    then obtain s' where "process_exit_cb p pid status sig s = Some s'" "calm X s s'"
      using process_exit_detached [OF inv, of p pid status sig] h by blast
    with q Exited show ?thesis by (simp add: standing_def quiet_accounts calm_def)
  next
    case (Some cb)
    with completes_accounts [OF process_exit_completes [OF inv _ q]] h Exited show ?thesis by (auto simp: standing_def)
  qed
next
  case (Signalled deliver signum)
  have "notifies X deliver s (fire_signal deliver signum s)"
    using q by (simp add: fire_signal_def osi_queue) (rule notifiesI [OF unchanged [OF inv]]; simp)
  with Signalled show ?thesis by (auto simp: standing_def intro: notifies_accounts)
next
  case (Handle_closed h)
  then show ?thesis using handle_closed_accounts [OF inv _ q] ok by (simp add: standing_def)
qed

lemma uv_run_accounts:
  assumes "osi_inv X s" and "g_callbacks s = Some q" and "events_ok E evs (t, s)"
  shows "\<exists>t' s' q' old. uv_run E evs (t, s) = Some (t', s') \<and> osi_inv X s' \<and> g_callbacks s' = Some q'
      \<and> queued q' = queued q + old + notices E evs (t, s) \<and> owed s = owed s' + old
      \<and> (timer_armed t' = (timer_armed t \<and> Timer_expired \<notin> set evs)) \<and> (timer_data t' = (timer_data t \<or> Timer_expired \<in> set evs))"
  using assms
proof (induction evs arbitrary: t s q)
  case Nil
  then show ?case by simp
next
  case (Cons e evs)
  show ?case
  proof (cases e)
    case Timer_expired
    with Cons.IH [OF Cons.prems(1,2), of "get_callbacks_timer_cb t"] Cons.prems(3)
    show ?thesis by (auto simp: get_callbacks_timer_cb_def)
  next
    case (Io ev)
    have ok: "event_ok ev s" using Cons.prems(3) Io by simp
    obtain s1 q1 old1 where s1: "run_event E ev s = Some s1" "osi_inv X s1" "g_callbacks s1 = Some q1"
      "queued q1 = queued q + old1 + standing ev s" "owed s = owed s1 + old1"
      using event_keeps_accounts [OF Cons.prems(1) ok Cons.prems(2), of E] Cons.prems(2) by (auto simp: event_accounts_def)
    have "events_ok E evs (t, s1)" using Cons.prems(3) Io s1(1) by simp
    from Cons.IH [OF s1(2,3) this] obtain t' s' q' old where r: "uv_run E evs (t, s1) = Some (t', s')" "osi_inv X s'"
      "g_callbacks s' = Some q'" "queued q' = queued q1 + old + notices E evs (t, s1)" "owed s1 = owed s' + old"
      "timer_armed t' = (timer_armed t \<and> Timer_expired \<notin> set evs)" "timer_data t' = (timer_data t \<or> Timer_expired \<in> set evs)"
      by blast
    then show ?thesis using s1 Io by (intro exI [of _ t'] exI [of _ s'] exI [of _ q'] exI [of _ "old1 + old"]) simp
  qed
qed

text \<open>
  The state in which \<^verbatim>\<open>uv_run\<close> starts, what libuv may deliver in a whole call of \<^verbatim>\<open>osi_get_callbacks\<close>, and the
  notices among it. The second batch runs only when a timeout was given and has not expired.
\<close>

fun loop_start :: "u64 \<Rightarrow> uv_timer_t \<times> osi \<Rightarrow> uv_timer_t \<times> osi" where
  "loop_start timeout (t, s) =
     ((if timeout = 0 then t else t\<lparr>timer_data := False, timer_armed := True\<rparr>), s\<lparr>g_callbacks := Some Snil\<rparr>)"

definition second_batch :: "u64 \<Rightarrow> loop_event list \<Rightarrow> bool" where
  "second_batch timeout evs1 \<longleftrightarrow> timeout \<noteq> 0 \<and> Timer_expired \<notin> set evs1"

definition loop_ok :: "env \<Rightarrow> u64 \<Rightarrow> loop_event list \<Rightarrow> loop_event list \<Rightarrow> uv_timer_t \<times> osi \<Rightarrow> bool" where
  "loop_ok E timeout evs1 evs2 ts \<longleftrightarrow>
     events_ok E evs1 (loop_start timeout ts)
     \<and> (second_batch timeout evs1 \<longrightarrow>
          (case uv_run E evs1 (loop_start timeout ts) of None \<Rightarrow> True
           | Some (t, s) \<Rightarrow> events_ok E evs2 (t\<lparr>timer_armed := False\<rparr>, s)))"

definition loop_notices :: "env \<Rightarrow> u64 \<Rightarrow> loop_event list \<Rightarrow> loop_event list \<Rightarrow> uv_timer_t \<times> osi \<Rightarrow> ptr multiset" where
  "loop_notices E timeout evs1 evs2 ts =
     notices E evs1 (loop_start timeout ts)
     + (if second_batch timeout evs1
        then (case uv_run E evs1 (loop_start timeout ts) of None \<Rightarrow> {#}
              | Some (t, s) \<Rightarrow> notices E evs2 (t\<lparr>timer_armed := False\<rparr>, s))
        else {#})"

lemma get_callbacks_accounts:
  assumes inv: "osi_inv X s" and none: "g_callbacks s = None" and t: "\<not> timer_armed t"
    and ok: "loop_ok E timeout evs1 evs2 (t, s)"
  shows "\<exists>cbs t' s' old. osi_get_callbacks E timeout evs1 evs2 (t, s) = Some (cbs, t', s') \<and> osi_inv X s'
     \<and> g_callbacks s' = None \<and> \<not> timer_armed t'
     \<and> queued cbs = old + loop_notices E timeout evs1 evs2 (t, s) \<and> owed s = owed s' + old"
proof -
  let ?s = "s\<lparr>g_callbacks := Some Snil\<rparr>"
  let ?t = "if timeout = 0 then t else t\<lparr>timer_data := False, timer_armed := True\<rparr>"
  have i: "osi_inv X ?s" by (rule osi_inv_same [OF inv]) simp_all
  have f: "owed ?s = owed s" by (simp add: owed_def)
  have final: "osi_inv X (s1\<lparr>g_callbacks := None\<rparr>) \<and> owed (s1\<lparr>g_callbacks := None\<rparr>) = owed s1" if "osi_inv X s1" for s1
    using osi_inv_same [OF that, of "s1\<lparr>g_callbacks := None\<rparr>"] by (simp add: owed_def)
  obtain t1 s1 q1 old1 where r1: "uv_run E evs1 (?t, ?s) = Some (t1, s1)" "osi_inv X s1" "g_callbacks s1 = Some q1"
    "queued q1 = old1 + notices E evs1 (?t, ?s)" "owed s = owed s1 + old1"
    "timer_armed t1 = (timer_armed ?t \<and> Timer_expired \<notin> set evs1)" "timer_data t1 = (timer_data ?t \<or> Timer_expired \<in> set evs1)"
    using uv_run_accounts [OF i, of Snil E evs1 ?t] ok f by (auto simp: loop_ok_def)
  show ?thesis
  proof (cases "second_batch timeout evs1")
    case False
    then have "osi_get_callbacks E timeout evs1 evs2 (t, s) = Some (q1, t1, s1\<lparr>g_callbacks := None\<rparr>)" and "\<not> timer_armed t1"
      using r1 t by (auto simp: osi_get_callbacks_def second_batch_def split: if_splits)
    moreover have "queued q1 = old1 + loop_notices E timeout evs1 evs2 (t, s)"
      using False r1(4) by (simp add: loop_notices_def)
    ultimately show ?thesis using final [OF r1(2)] r1(5) by simp
  next
    case True
    then have b: "timeout \<noteq> 0" "Timer_expired \<notin> set evs1" by (simp_all add: second_batch_def)
    let ?t1 = "t1\<lparr>timer_armed := False\<rparr>"
    have "events_ok E evs2 (?t1, s1)" using ok True r1(1) b by (simp add: loop_ok_def)
    then obtain t2 s2 q2 old2 where r2: "uv_run E evs2 (?t1, s1) = Some (t2, s2)" "osi_inv X s2" "g_callbacks s2 = Some q2"
      "queued q2 = queued q1 + old2 + notices E evs2 (?t1, s1)" "owed s1 = owed s2 + old2" "\<not> timer_armed t2"
      using uv_run_accounts [OF r1(2,3), of E evs2 ?t1] by auto
    have "osi_get_callbacks E timeout evs1 evs2 (t, s) = Some (q2, t2, s2\<lparr>g_callbacks := None\<rparr>)"
      using r1 r2 b by (simp add: osi_get_callbacks_def)
    moreover have "queued q2 = old1 + old2 + loop_notices E timeout evs1 evs2 (t, s)"
      using True b r1(1,4) r2(4) by (simp add: loop_notices_def add_ac)
    moreover have "owed s = owed s2 + (old1 + old2)" using r1(5) r2(5) by (simp add: add_ac)
    ultimately show ?thesis using final [OF r2(2)] r2(6) by auto
  qed
qed

section \<open>Properties of the event loop\<close>

text \<open>C3: Running the event loop loses and duplicates nothing. From a state that satisfies the
  invariant, for any events libuv may deliver, \<^verbatim>\<open>osi_get_callbacks\<close> runs without undefined behaviour and
  returns a list of callbacks made up of one entry for every event of a listener, watcher or signal,
  and of exactly those callbacks that were owed before and are no longer owed. The queue is closed
  again, the invariant holds, and the timer is not left running.\<close>

theorem get_callbacks_exactly_once:
  assumes "osi_inv X s" and "g_callbacks s = None" and "\<not> timer_armed t"
    and "loop_ok E timeout evs1 evs2 (t, s)"
  shows "\<exists>cbs t' s' old. osi_get_callbacks E timeout evs1 evs2 (t, s) = Some (cbs, t', s') \<and> osi_inv X s'
     \<and> g_callbacks s' = None \<and> \<not> timer_armed t'
     \<and> queued cbs = old + loop_notices E timeout evs1 evs2 (t, s) \<and> owed s = owed s' + old"
  by (rule get_callbacks_accounts [OF assms])

definition timer_idle :: uv_timer_t where
  "timer_idle = \<lparr>timer_armed = False, timer_data = False\<rparr>"

definition unlink_waiting :: osi where
  "unlink_waiting = unlink_pending\<lparr>g_callbacks := None\<rparr>"

definition no_stat :: fs_outcome where
  "no_stat = \<lparr>fs_result = - 2, fs_statbuf = undefined, fs_ptr = [], fs_dirents = []\<rparr>"

theorem get_callbacks_exactly_once_witness:
  "\<exists>cbs t' s' old. osi_get_callbacks quiet_env 5 [Io (Fs_done 1 no_stat), Io (Signalled (Sprocedure 9) 15), Timer_expired] []
        (timer_idle, unlink_waiting) = Some (cbs, t', s')
     \<and> queued cbs = old + {#Sprocedure 9#} \<and> {#Sprocedure 7#} = owed s' + old"
proof -
  let ?evs = "[Io (Fs_done 1 no_stat), Io (Signalled (Sprocedure 9) 15), Timer_expired]"
  have i: "osi_inv {#} unlink_waiting"
    by (rule osi_inv_same [OF osi_inv_unlink_pending]) (simp_all add: unlink_waiting_def)
  have "loop_ok quiet_env 5 ?evs [] (timer_idle, unlink_waiting)"
    by (simp add: loop_ok_def second_batch_def event_ok_def unlink_waiting_def unlink_pending_def)
  from get_callbacks_exactly_once [OF i _ _ this] show ?thesis
    by (auto simp: unlink_waiting_def unlink_pending_def timer_idle_def loop_notices_def second_batch_def standing_def
        owed_def heap_sum_def run_fs_cb_def return_fs_result_cb_def finish_fs_def osi_ops osi_queue fire_signal_def osi_start_def)
qed

section \<open>Start and exit\<close>

text \<open>
  The process-wide state around the interface: whether the loop exists, the flags of \<^verbatim>\<open>g_exit\<close>, and the
  two handles \<^verbatim>\<open>osi_init\<close> creates besides the timer.
\<close>

record jmp_t =
  initialized :: bool
  exit_status :: int
  exit_force :: int

record world =
  osi_loop :: bool
  w_timer :: uv_timer_t
  w_osi :: osi
  send_ready :: bool
  scheme_thread :: nat
  g_exit :: jmp_t

definition osi_init :: "nat \<Rightarrow> world \<Rightarrow> world" where
  "osi_init self w =
     (if osi_loop w then w
      else w\<lparr>osi_loop := True, w_timer := \<lparr>timer_armed = False, timer_data = False\<rparr>,
             w_osi := (w_osi w)\<lparr>g_callbacks := None\<rparr>, scheme_thread := self, send_ready := True\<rparr>)"

text \<open>How control leaves \<^verbatim>\<open>osi_exit\<close>: a jump to the \<^verbatim>\<open>setjmp\<close> of \<^verbatim>\<open>swish_start\<close>, or the end of the process.\<close>

datatype leave = Longjmp int | Process_exit int

definition osi_exit :: "env \<Rightarrow> loop_event list \<Rightarrow> int \<Rightarrow> int \<Rightarrow> world \<Rightarrow> (leave \<times> world) option" where
  "osi_exit E evs loop_close status w = do {
     let w = w\<lparr>send_ready := False, w_timer := (w_timer w)\<lparr>timer_armed := False\<rparr>\<rparr>;
     (_, t, s) \<leftarrow> osi_get_callbacks E 0 evs [] (w_timer w, w_osi w);
     let w = w\<lparr>w_timer := t, w_osi := s, g_exit := (g_exit w)\<lparr>exit_force := loop_close\<rparr>\<rparr>;
     Some (if initialized (g_exit w) then (Longjmp (- 1), w\<lparr>g_exit := (g_exit w)\<lparr>exit_status := status\<rparr>\<rparr>)
           else (Process_exit status, w))
   }"

section \<open>The interface as a transition system\<close>

text \<open>The operations a Scheme program calls, grouped as in the header.\<close>

datatype path_op =
    Open_file "u8 list" int int | Chmod "u8 list" int | Make_directory "u8 list" int | Remove_directory "u8 list"
  | Rename "u8 list" "u8 list" | Unlink "u8 list" | Get_real_path "u8 list" | List_directory "u8 list" | Get_stat "u8 list" bool
  | Get_file_size uptr

datatype port_op = Port_request port_request | Port_close ptr | Port_write2 ptr ptr u64 u32 ptr

datatype handle_op =
    Connect_tcp "u8 list" "u8 list" ptr | Listen_tcp "u8 list" u16 ptr | Close_listener uptr
  | Watch_path "u8 list" ptr | Close_watcher uptr | Spawn "u8 list" ptr ptr int | Spawn_detached "u8 list" ptr int
  | Kill int int | Start_signal int | Stop_signal uptr | Open_fd int bool

datatype osi_op = Path_op path_op ptr | Port_op uptr port_op | Handle_op handle_op

fun run_path_op :: "env \<Rightarrow> path_op \<Rightarrow> ptr \<Rightarrow> osi \<Rightarrow> (ptr \<times> osi) option" where
  "run_path_op E (Open_file p f m) cb s = osi_open_file E p f m cb s"
| "run_path_op E (Chmod p m) cb s = osi_chmod E p m cb s"
| "run_path_op E (Make_directory p m) cb s = osi_make_directory E p m cb s"
| "run_path_op E (Remove_directory p) cb s = osi_remove_directory E p cb s"
| "run_path_op E (Rename p q) cb s = osi_rename E p q cb s"
| "run_path_op E (Unlink p) cb s = osi_unlink E p cb s"
| "run_path_op E (Get_real_path p) cb s = osi_get_real_path E p cb s"
| "run_path_op E (List_directory p) cb s = osi_list_directory E p cb s"
| "run_path_op E (Get_stat p f) cb s = osi_get_stat E p f cb s"
| "run_path_op E (Get_file_size port) cb s = osi_get_file_size E port cb s"

fun run_port_op :: "env \<Rightarrow> uptr \<Rightarrow> port_op \<Rightarrow> osi \<Rightarrow> (ptr \<times> osi) option" where
  "run_port_op E port (Port_request r) s = submit osi_ports E port r s"
| "run_port_op E port (Port_close cb) s = osi_close_port E port cb s"
| "run_port_op E port (Port_write2 bv1 bv2 i n cb) s = osi_tcp_write2 E port bv1 bv2 i n cb s"

fun run_handle_op :: "env \<Rightarrow> handle_op \<Rightarrow> osi \<Rightarrow> (ptr \<times> osi) option" where
  "run_handle_op E (Connect_tcp n v cb) s = osi_connect_tcp E n v cb s"
| "run_handle_op E (Listen_tcp a p cb) s = osi_listen_tcp E a p cb s"
| "run_handle_op E (Close_listener h) s = map_option (Pair Svoid) (osi_close_tcp_listener h s)"
| "run_handle_op E (Watch_path p cb) s = osi_watch_path E p cb s"
| "run_handle_op E (Close_watcher h) s = map_option (Pair Svoid) (osi_close_path_watcher h s)"
| "run_handle_op E (Spawn p args cb pid) s = osi_spawn E p args cb pid s"
| "run_handle_op E (Spawn_detached p args pid) s = osi_spawn_detached E p args pid s"
| "run_handle_op E (Kill pid signum) s = Some (osi_kill E pid signum s)"
| "run_handle_op E (Start_signal n) s = osi_start_signal E n s"
| "run_handle_op E (Stop_signal h) s = osi_stop_signal E h s"
| "run_handle_op E (Open_fd fd close) s = osi_open_fd E fd close s"

fun run_op :: "env \<Rightarrow> osi_op \<Rightarrow> osi \<Rightarrow> (ptr \<times> osi) option" where
  "run_op E (Path_op p cb) s = run_path_op E p cb s"
| "run_op E (Port_op port p) s = run_port_op E port p s"
| "run_op E (Handle_op h) s = run_handle_op E h s"

text \<open>What the caller must respect: ports, listeners, watchers and signals that it owns and has not closed.\<close>

definition args_ok :: "ptr \<Rightarrow> bool" where
  "args_ok args \<longleftrightarrow> (\<forall>ss. args = scheme_list (List.map Sstring ss) \<longrightarrow> small_strings ss)"

fun op_ok :: "osi_op \<Rightarrow> osi \<Rightarrow> bool" where
  "op_ok (Path_op (Get_file_size port) _) s \<longleftrightarrow> live_port s port"
| "op_ok (Path_op _ _) s \<longleftrightarrow> True"
| "op_ok (Port_op port (Port_write2 bv1 _ _ _ _)) s \<longleftrightarrow> owned_stream s port \<and> Sbytevectorp bv1"
| "op_ok (Port_op port _) s \<longleftrightarrow> live_port s port"
| "op_ok (Handle_op (Close_listener h)) s \<longleftrightarrow> closing s h = None \<and> (\<exists>d. heap s h = Some (Uv_tcp d))"
| "op_ok (Handle_op (Close_watcher h)) s \<longleftrightarrow> closing s h = None \<and> (\<exists>d. heap s h = Some (Uv_fs_event d))"
| "op_ok (Handle_op (Stop_signal h)) s \<longleftrightarrow> closing s h = None \<and> heap s h = Some Uv_signal"
| "op_ok (Handle_op (Spawn _ args _ _)) s \<longleftrightarrow> args_ok args"
| "op_ok (Handle_op (Spawn_detached _ args _)) s \<longleftrightarrow> args_ok args"
| "op_ok (Handle_op _) s \<longleftrightarrow> True"

text \<open>The callback an operation has promised to call, given its result.\<close>

fun promised :: "osi_op \<Rightarrow> ptr \<Rightarrow> ptr multiset" where
  "promised (Path_op _ cb) r = (if r = Strue then {#cb#} else {#})"
| "promised (Port_op _ (Port_request q)) r = (if r = Strue then {#request_cb q#} else {#})"
| "promised (Port_op _ (Port_close cb)) r = (if r = Strue then {#cb#} else {#})"
| "promised (Port_op _ (Port_write2 _ _ _ _ cb)) r = (if r = Strue then {#cb#} else {#})"
| "promised (Handle_op (Connect_tcp _ _ cb)) r = (if r = Strue then {#cb#} else {#})"
| "promised (Handle_op (Spawn _ _ cb _)) r = (case r of Svector _ \<Rightarrow> {#cb#} | _ \<Rightarrow> {#})"
| "promised (Handle_op _) r = {#}"

definition op_accounts :: "ptr multiset \<Rightarrow> (ptr \<Rightarrow> ptr multiset) \<Rightarrow> osi \<Rightarrow> (ptr \<times> osi) option \<Rightarrow> bool" where
  "op_accounts X P s res \<longleftrightarrow>
     (\<exists>r s'. res = Some (r, s') \<and> osi_inv X s' \<and> g_callbacks s' = g_callbacks s \<and> owed s' = owed s + P r)"

lemma accepts_accounts: "accepts_or_refuses X cb s res \<Longrightarrow> op_accounts X (\<lambda>r. if r = Strue then {#cb#} else {#}) s res"
  by (auto simp: accepts_or_refuses_def op_accounts_def split: if_splits)

lemma opens_accounts: "opens_handle X mk cb s res \<Longrightarrow> op_accounts X (\<lambda>r. {#}) s res"
  by (auto simp: opens_handle_def op_accounts_def)

lemma calm_accounts: "\<exists>r s'. res = Some (r, s') \<and> calm X s s' \<Longrightarrow> op_accounts X (\<lambda>r. {#}) s res"
  by (auto simp: op_accounts_def calm_def)

lemma spawn_accounts:
  assumes "spawn_ok X A cb s res"
  shows "op_accounts X (\<lambda>r. case r of Svector _ \<Rightarrow> {#cb#} | _ \<Rightarrow> {#}) s res"
  using assms by (auto simp: spawn_ok_def op_accounts_def error_pair_def osi_make_error_pair_def)

lemma path_op_accounts:
  assumes inv: "osi_inv X s" and ok: "op_ok (Path_op p cb) s"
  shows "accepts_or_refuses X cb s (run_path_op E p cb s)"
proof (cases p)
  case (Get_file_size port)
  with ok have l: "live_port s port" by simp
  have "accepts_or_refuses X cb s (osi_get_file_size E port cb s)"
    using inv l
  proof (cases rule: live_port_cases)
    case fd
    then show ?thesis by (auto elim!: closableE simp: osi_get_file_size_def submit_fs_contract [OF inv] intro: refusesI [OF inv])
  next
    case regular
    then show ?thesis by (auto elim!: closableE simp: osi_get_file_size_def submit_fs_contract [OF inv] intro: refusesI [OF inv])
  next
    case pipe
    then show ?thesis by (auto elim!: owned_streamE simp: osi_get_file_size_def intro: refusesI [OF inv])
  next
    case tcp
    then show ?thesis by (auto elim!: owned_streamE simp: osi_get_file_size_def intro: refusesI [OF inv])
  qed
  with Get_file_size show ?thesis by simp
qed (simp_all add: osi_open_file_def osi_chmod_def osi_make_directory_def osi_remove_directory_def osi_rename_def
    osi_unlink_def osi_get_real_path_def osi_list_directory_def osi_get_stat_def submit_fs_contract [OF inv])

lemma port_op_accounts:
  assumes inv: "osi_inv X s" and ok: "op_ok (Port_op port p) s"
  shows "op_accounts X (promised (Port_op port p)) s (run_port_op E port p s)"
proof (cases p)
  case (Port_request r)
  with ok have "live_port s port" by (cases r) simp_all
  with accepts_accounts [OF any_port.submit_law [OF inv, of port r E]] Port_request
  show ?thesis by (simp cong: if_cong add: op_accounts_def)
next
  case (Port_close cb)
  with ok accepts_accounts [OF osi_close_port_law [OF inv, of port cb E]] show ?thesis by (simp add: op_accounts_def)
next
  case (Port_write2 bv1 bv2 i n cb)
  with ok obtain q where "heap s port = Some (Stream_port q)" by (auto elim!: owned_streamE)
  with accepts_accounts [OF osi_tcp_write2_contract [OF inv this, of bv1 cb E bv2 i n]] ok Port_write2
  show ?thesis by (simp add: op_accounts_def)
qed

lemma stop_signal_calm:
  assumes inv: "osi_inv X s" and h: "heap s a = Some Uv_signal" and c: "closing s a = None"
  shows "\<exists>r s'. osi_stop_signal E a s = Some (r, s') \<and> calm X s s'"
proof -
  let ?s = "s\<lparr>calls := calls s @ [Hnd (Uv_signal_stop a)]\<rparr>"
  let ?u = "s\<lparr>calls := calls s @ [Hnd (Uv_signal_stop a), Hnd (Uv_close a Close_signal_cb)], closing := (closing s)(a \<mapsto> Close_signal_cb)\<rparr>"
  have "\<forall>b. \<not> links_to (heap s) a True b" using heap_ok_no_link [OF osi_inv_heap [OF inv] h, of True] by simp
  then have "osi_inv X ?u" by (intro osi_inv_close [OF inv h, of Close_signal_cb]) simp_all
  moreover have "osi_inv X ?s" by (rule osi_inv_same [OF inv]) simp_all
  ultimately have "calm X s ?u" "calm X s ?s" by (simp_all add: calm_def owed_def no_new_text_def)
  then show ?thesis using h c by (auto simp: osi_stop_signal_def osi_ops)
qed

lemma open_fd_calm:
  assumes inv: "osi_inv X s"
  shows "\<exists>r s'. osi_open_fd E fd close s = Some (r, s') \<and> calm X s s'"
proof -
  let ?a = "Suc (mallocs s)" and ?x = "Fs_port \<lparr>fs_vtable = (if close then File_vtable else Fd_vtable), fs_file = fd\<rparr>"
  let ?s = "s\<lparr>mallocs := ?a, heap := (heap s)(?a \<mapsto> ?x)\<rparr>"
  have "heap_ok (heap ?s)" using heap_ok_new [OF osi_inv_heap [OF inv] osi_inv_fresh [OF inv], of ?x] by simp
  then have "osi_inv X ?s" by (intro osi_inv_new [OF inv, of _ ?x]) simp_all
  moreover have "owed ?s = owed s" using owed_new [OF inv, of ?s ?x] by simp
  ultimately have "calm X s ?s" by (simp add: calm_def no_new_text_def)
  moreover have "calm X s s" "calm X s (s\<lparr>mallocs := ?a\<rparr>)"
    using inv unchanged [OF inv, of "s\<lparr>mallocs := ?a\<rparr>"] by (simp_all add: calm_def no_new_text_def)
  ultimately show ?thesis by (auto simp: osi_open_fd_def osi_ops)
qed

lemma close_handle_accounts:
  assumes "\<exists>s'. res = Some s' \<and> osi_inv X s' \<and> owed s' = owed s \<and> g_callbacks s' = g_callbacks s"
  shows "op_accounts X (\<lambda>r. {#}) s (map_option (Pair Svoid) res)"
  using assms by (auto simp: op_accounts_def)

lemma handle_op_accounts:
  assumes inv: "osi_inv X s" and ok: "op_ok (Handle_op h) s"
  shows "op_accounts X (promised (Handle_op h)) s (run_handle_op E h s)"
proof (cases h)
  case (Connect_tcp n v cb)
  then show ?thesis using accepts_accounts [OF osi_connect_tcp_contract [OF inv]] by (simp add: op_accounts_def)
next
  case (Listen_tcp a p cb)
  then show ?thesis using opens_accounts [OF osi_listen_tcp_contract [OF inv]] by (simp add: op_accounts_def)
next
  case (Close_listener a)
  then obtain d where d: "heap s a = Some (Uv_tcp d)" "closing s a = None" using ok by auto
  have "op_accounts X (\<lambda>r. {#}) s (map_option (Pair Svoid) (osi_close_tcp_listener a s))"
    using close_data_handle [OF inv, of a Uv_tcp d] d
    by (intro close_handle_accounts) (auto simp: osi_close_tcp_listener_def data_handle_def)
  with Close_listener show ?thesis by (simp add: op_accounts_def)
next
  case (Watch_path p cb)
  then show ?thesis using opens_accounts [OF osi_watch_path_contract [OF inv]] by (simp add: op_accounts_def)
next
  case (Close_watcher a)
  then obtain d where d: "heap s a = Some (Uv_fs_event d)" "closing s a = None" using ok by auto
  let ?s = "uv_void (Hnd (Uv_fs_event_stop a)) s"
  have "osi_inv X ?s" by (rule osi_inv_same [OF inv]) (simp_all add: uv_void_def)
  then have "op_accounts X (\<lambda>r. {#}) s (map_option (Pair Svoid) (osi_close_path_watcher a s))"
    using close_data_handle [of X ?s a Uv_fs_event d] d
    by (intro close_handle_accounts) (auto simp: osi_close_path_watcher_def data_handle_def uv_void_def owed_def)
  with Close_watcher show ?thesis by (simp add: op_accounts_def)
next
  case (Spawn p args cb pid)
  then have "\<And>ss. args = scheme_list (List.map Sstring ss) \<Longrightarrow> small_strings ss" using ok by (auto simp: args_ok_def)
  from spawn_accounts [OF osi_spawn_ok [OF inv this, where A = "\<lambda>_. True"]] Spawn show ?thesis by (simp add: op_accounts_def)
next
  case (Spawn_detached p args pid)
  have "\<exists>r s'. osi_spawn_detached E p args pid s = Some (r, s') \<and> calm X s s' \<and> (error_pair r \<or> r = Sinteger32 pid)"
    by (rule osi_spawn_detached_ok [OF inv]) (use ok Spawn_detached in \<open>auto simp: args_ok_def\<close>)
  with Spawn_detached show ?thesis by (auto simp: op_accounts_def calm_def)
next
  case (Kill pid n)
  then show ?thesis using unchanged [OF inv, of "s\<lparr>calls := calls s @ [Hnd (Uv_kill pid n)]\<rparr>"]
    by (simp add: op_accounts_def osi_kill_def osi_ops)
next
  case (Start_signal n)
  then show ?thesis using osi_start_signal_ok [OF inv, of E n] by (auto simp: op_accounts_def calm_def)
next
  case (Stop_signal a)
  then show ?thesis using stop_signal_calm [OF inv, of a E] ok by (auto simp: op_accounts_def calm_def)
next
  case (Open_fd fd close)
  then show ?thesis using open_fd_calm [OF inv, of E fd close] by (auto simp: op_accounts_def calm_def)
qed

lemma op_keeps_accounts:
  assumes inv: "osi_inv X s" and ok: "op_ok op s"
  shows "op_accounts X (promised op) s (run_op E op s)"
proof (cases op)
  case (Path_op p cb)
  then show ?thesis using accepts_accounts [OF path_op_accounts [OF inv, of p cb E]] ok by (simp add: op_accounts_def)
next
  case (Port_op port p)
  then show ?thesis using port_op_accounts [OF inv] ok by simp
next
  case (Handle_op h)
  then show ?thesis using handle_op_accounts [OF inv] ok by simp
qed

section \<open>The ledger\<close>

text \<open>
  The interface together with two counters: the callbacks that operations have promised to call and
  those that the event loop has handed over, the notices of listeners, watchers and signals apart.
\<close>

record ledger =
  l_osi :: osi
  l_timer :: uv_timer_t
  promises :: "ptr multiset"
  delivered :: "ptr multiset"

inductive step :: "env \<Rightarrow> ledger \<Rightarrow> ledger \<Rightarrow> bool" for E where
  operation: "op_ok op (l_osi l) \<Longrightarrow> run_op E op (l_osi l) = Some (r, s') \<Longrightarrow>
     step E l (l\<lparr>l_osi := s', promises := promises l + promised op r\<rparr>)"
| collect: "loop_ok E timeout evs1 evs2 (l_timer l, l_osi l) \<Longrightarrow>
     osi_get_callbacks E timeout evs1 evs2 (l_timer l, l_osi l) = Some (cbs, t', s') \<Longrightarrow>
     queued cbs = old + loop_notices E timeout evs1 evs2 (l_timer l, l_osi l) \<Longrightarrow>
     step E l (l\<lparr>l_osi := s', l_timer := t', delivered := delivered l + old\<rparr>)"

inductive reachable :: "env \<Rightarrow> ledger \<Rightarrow> bool" for E where
  start: "reachable E \<lparr>l_osi = osi_start, l_timer = \<lparr>timer_armed = False, timer_data = False\<rparr>, promises = {#}, delivered = {#}\<rparr>"
| step: "reachable E l \<Longrightarrow> step E l l' \<Longrightarrow> reachable E l'"

definition ledger_inv :: "ledger \<Rightarrow> bool" where
  "ledger_inv l \<longleftrightarrow> osi_inv {#} (l_osi l) \<and> g_callbacks (l_osi l) = None \<and> \<not> timer_armed (l_timer l)
     \<and> promises l = delivered l + owed (l_osi l)"

lemma ledger_inv_step:
  assumes "ledger_inv l" and "step E l l'"
  shows "ledger_inv l'"
  using assms(2)
proof cases
  case (operation op r s')
  then show ?thesis
    using assms(1) op_keeps_accounts [of "{#}" "l_osi l" op E] by (auto simp: ledger_inv_def op_accounts_def)
next
  case (collect timeout evs1 evs2 cbs t' s' old)
  have "osi_inv {#} s' \<and> g_callbacks s' = None \<and> \<not> timer_armed t'
      \<and> queued cbs + owed s' = owed (l_osi l) + loop_notices E timeout evs1 evs2 (l_timer l, l_osi l)"
    using assms(1) collect get_callbacks_accounts [of "{#}" "l_osi l" "l_timer l" E timeout evs1 evs2]
    by (auto simp: ledger_inv_def)
  then show ?thesis using assms(1) collect by (auto simp: ledger_inv_def)
qed

lemma ledger_inv_reachable: "reachable E l \<Longrightarrow> ledger_inv l"
proof (induction rule: reachable.induct)
  case start
  show ?case by (simp add: ledger_inv_def osi_inv_start) (simp add: osi_start_def owed_def heap_sum_def)
qed (rule ledger_inv_step)

text \<open>The interface as a whole keeps its promises. In every state that a program can reach by
  calling the operations on what it owns and running the event loop, whatever fails on the way:
  every callback an operation promised has been handed over exactly once or is still owed by a live
  structure, and the Scheme objects locked against the collector are exactly those the live
  structures hold.\<close>

theorem interface_keeps_promises:
  assumes "reachable E l"
  shows "promises l = delivered l + owed (l_osi l)
     \<and> locked (l_osi l) = heap_sum obj_held (heap (l_osi l))
     \<and> g_callbacks (l_osi l) = None \<and> \<not> timer_armed (l_timer l)"
  using ledger_inv_reachable [OF assms] by (simp add: ledger_inv_def osi_inv_def)

text \<open>The interface never gets stuck and never runs into undefined behaviour: in a reachable
  state every operation on what the program owns returns, every round of the event loop returns, and
  both lead to reachable states.\<close>

theorem interface_progress:
  assumes "reachable E l"
  shows "(\<forall>op. op_ok op (l_osi l) \<longrightarrow> (\<exists>r s'. run_op E op (l_osi l) = Some (r, s')
            \<and> reachable E (l\<lparr>l_osi := s', promises := promises l + promised op r\<rparr>)))
     \<and> (\<forall>timeout evs1 evs2. loop_ok E timeout evs1 evs2 (l_timer l, l_osi l) \<longrightarrow>
          (\<exists>cbs t' s' old. osi_get_callbacks E timeout evs1 evs2 (l_timer l, l_osi l) = Some (cbs, t', s')
             \<and> reachable E (l\<lparr>l_osi := s', l_timer := t', delivered := delivered l + old\<rparr>)))"
proof -
  have inv: "ledger_inv l" by (rule ledger_inv_reachable [OF assms])
  have "\<exists>r s'. run_op E op (l_osi l) = Some (r, s') \<and> reachable E (l\<lparr>l_osi := s', promises := promises l + promised op r\<rparr>)"
    if ok: "op_ok op (l_osi l)" for op
  proof -
    obtain r s' where r: "run_op E op (l_osi l) = Some (r, s')"
      using op_keeps_accounts [OF _ ok, of "{#}" E] inv by (auto simp: ledger_inv_def op_accounts_def)
    from r reachable.step [OF assms step.operation [OF ok r]] show ?thesis by blast
  qed
  moreover have "\<exists>cbs t' s' old. osi_get_callbacks E timeout evs1 evs2 (l_timer l, l_osi l) = Some (cbs, t', s')
      \<and> reachable E (l\<lparr>l_osi := s', l_timer := t', delivered := delivered l + old\<rparr>)"
    if ok: "loop_ok E timeout evs1 evs2 (l_timer l, l_osi l)" for timeout evs1 evs2
  proof -
    obtain cbs t' s' old where r: "osi_get_callbacks E timeout evs1 evs2 (l_timer l, l_osi l) = Some (cbs, t', s')"
      "queued cbs = old + loop_notices E timeout evs1 evs2 (l_timer l, l_osi l)"
      using get_callbacks_accounts [OF _ _ _ ok, of "{#}"] inv by (auto simp: ledger_inv_def)
    from r(1) reachable.step [OF assms step.collect [OF ok r]] show ?thesis by blast
  qed
  ultimately show ?thesis by blast
qed

text \<open>A program that starts an unlink and collects its answer.\<close>

definition ledger_start :: ledger where
  "ledger_start = \<lparr>l_osi = osi_start, l_timer = \<lparr>timer_armed = False, timer_data = False\<rparr>, promises = {#}, delivered = {#}\<rparr>"

definition after_unlink :: osi where
  "after_unlink = osi_start\<lparr>mallocs := 1, locked := {#Sprocedure 7#}, heap := [1 \<mapsto> Uv_fs Return_fs_result_cb (Sprocedure 7)],
     calls := [Fs (Uv_fs_unlink 1 [47, 97])]\<rparr>"

lemma reachable_after_unlink: "reachable quiet_env (ledger_start\<lparr>l_osi := after_unlink, promises := {#Sprocedure 7#}\<rparr>)"
proof -
  let ?op = "Path_op (Unlink [47, 97]) (Sprocedure 7)"
  have "reachable quiet_env ledger_start" unfolding ledger_start_def by (rule reachable.start)
  moreover have "step quiet_env ledger_start (ledger_start\<lparr>l_osi := after_unlink, promises := promises ledger_start + promised ?op Strue\<rparr>)"
    by (rule step.operation) (simp_all add: ledger_start_def osi_unlink_def submit_fs_def osi_ops quiet_env_def after_unlink_def osi_start_def)
  ultimately show ?thesis using reachable.step by (fastforce simp: ledger_start_def)
qed

theorem interface_keeps_promises_witness:
  "owed after_unlink = {#Sprocedure 7#} \<and> locked after_unlink = heap_sum obj_held (heap after_unlink)"
  using interface_keeps_promises [OF reachable_after_unlink] by (simp add: ledger_start_def)

theorem interface_progress_witness:
  "\<exists>r s'. run_op quiet_env (Path_op (Unlink [47, 97]) (Sprocedure 7)) osi_start = Some (r, s')
     \<and> reachable quiet_env (ledger_start\<lparr>l_osi := s',
         promises := promised (Path_op (Unlink [47, 97]) (Sprocedure 7)) r\<rparr>)"
proof -
  have "op_ok (Path_op (Unlink [47, 97]) (Sprocedure 7)) (l_osi ledger_start)" by simp
  moreover have "reachable quiet_env ledger_start" unfolding ledger_start_def by (rule reachable.start)
  ultimately obtain r s' where "run_op quiet_env (Path_op (Unlink [47, 97]) (Sprocedure 7)) (l_osi ledger_start) = Some (r, s')"
    "reachable quiet_env (ledger_start\<lparr>l_osi := s', promises := promises ledger_start + promised (Path_op (Unlink [47, 97]) (Sprocedure 7)) r\<rparr>)"
    using interface_progress [of quiet_env ledger_start] by blast
  then show ?thesis by (auto simp: ledger_start_def)
qed

end
