(* ===== verification/Digest.thy ===== *)
theory Digest
  imports Ports
begin

text \<open>
  The message-digest interface of \<^verbatim>\<open>osi.c\<close>: a SHA-1 context in the C heap, fed from regions of Scheme
  bytevectors.
\<close>

section \<open>Operations\<close>

text \<open>\<open>c0\<close> is what the fresh allocation happens to contain.\<close>

definition osi_open_SHA1 :: "env \<Rightarrow> SHA1Context \<Rightarrow> osi \<Rightarrow> (ptr \<times> osi) option" where
  "osi_open_SHA1 E c0 s =
     (let (ctxt, s) = malloc_container E s
      in if ctxt = 0 then Some (osi_make_error_pair ''osi_open_SHA1'' (uv_errno E ENOMEM), s)
      else case SHA1Reset (Some c0) of
        (r, Some c) \<Rightarrow>
          if r \<noteq> shaSuccess then do {
            s \<leftarrow> c_free ctxt s;
            Some (osi_make_error_pair ''SHA1Reset'' r, s)
          } else do {
            s \<leftarrow> store ctxt (Sha1_ctxt c) s;
            Some (Sunsigned64 (of_nat ctxt), s)
          }
      | (r, None) \<Rightarrow> None)"

definition load_sha1 :: "uptr \<Rightarrow> osi \<Rightarrow> SHA1Context option" where
  "load_sha1 ctxt s = (case heap s ctxt of Some (Sha1_ctxt c) \<Rightarrow> Some c | _ \<Rightarrow> None)"

definition osi_hash_data :: "env \<Rightarrow> uptr \<Rightarrow> ptr \<Rightarrow> u64 \<Rightarrow> u32 \<Rightarrow> osi \<Rightarrow> (ptr \<times> osi) option" where
  "osi_hash_data E ctxt bv start_index sz s =
     (let last = start_index + ucast sz
      in if \<not> Sbytevectorp bv \<or> last < start_index \<or> of_nat (Sbytevector_length bv s) < last
         then Some (osi_make_error_pair ''osi_hash_data'' (uv_errno E EINVAL), s)
      else if sz = 0 then Some (Strue, s)
      else do {
        c \<leftarrow> load_sha1 ctxt s;
        (r, c) \<leftarrow> SHA1Input (Some c) (case bv of Sbytevector i \<Rightarrow> Some (drop (unat start_index) (bytevectors s i)) | _ \<Rightarrow> None) sz;
        c \<leftarrow> c;
        s \<leftarrow> store ctxt (Sha1_ctxt c) s;
        Some (if r \<noteq> shaSuccess then osi_make_error_pair ''SHA1Input'' r else Strue, s)
      })"

text \<open>\<open>i\<close> is the new bytevector that \<^verbatim>\<open>Smake_bytevector\<close> returns.\<close>

definition osi_get_SHA1 :: "uptr \<Rightarrow> nat \<Rightarrow> osi \<Rightarrow> (ptr \<times> osi) option" where
  "osi_get_SHA1 ctxt i s = do {
     let s = s\<lparr>bytevectors := (bytevectors s)(i := replicate SHA1HashSize 0)\<rparr>;
     c \<leftarrow> load_sha1 ctxt s;
     (r, c, d) \<leftarrow> SHA1Result (Some c) True;
     c \<leftarrow> c;
     s \<leftarrow> store ctxt (Sha1_ctxt c) s;
     if r \<noteq> shaSuccess then Some (osi_make_error_pair ''SHA1Result'' r, s)
     else do {
       d \<leftarrow> d;
       let s = s\<lparr>bytevectors := (bytevectors s)(i := d)\<rparr>;
       c \<leftarrow> snd (SHA1Reset (Some c));
       s \<leftarrow> store ctxt (Sha1_ctxt c) s;
       Some (Sbytevector i, s)
     }
   }"

definition osi_close_SHA1 :: "uptr \<Rightarrow> osi \<Rightarrow> osi option" where
  "osi_close_SHA1 ctxt s = c_free ctxt s"

section \<open>The digest contract through the interface\<close>

text \<open>The bytes of a region.\<close>

definition region_bytes :: "osi \<Rightarrow> ptr \<times> u64 \<times> u32 \<Rightarrow> u8 list" where
  "region_bytes s r =
     (case r of (Sbytevector i, start, n) \<Rightarrow> take (unat n) (drop (unat start) (bytevectors s i)) | _ \<Rightarrow> [])"

definition hash_repr :: "uptr \<Rightarrow> osi \<Rightarrow> u8 list \<Rightarrow> bool" where
  "hash_repr a s m \<longleftrightarrow> (\<exists>c. load_sha1 a s = Some c \<and> sha1_repr c m)"

text \<open>Hashing regions one after the other; anything but \<open>#t\<close> stops the sequence.\<close>

fun hash_regions :: "env \<Rightarrow> uptr \<Rightarrow> (ptr \<times> u64 \<times> u32) list \<Rightarrow> osi \<Rightarrow> osi option" where
  "hash_regions E a [] s = Some s"
| "hash_regions E a ((bv, start, n) # rs) s = do {
     (r, s) \<leftarrow> osi_hash_data E a bv start n s;
     if r = Strue then hash_regions E a rs s else None
   }"

definition in_bounds :: "osi \<Rightarrow> ptr \<times> u64 \<times> u32 \<Rightarrow> bool" where
  "in_bounds s r = (case r of (bv, start, n) \<Rightarrow>
     Sbytevectorp bv \<and> Sbytevector_length bv s < 2 ^ 63 \<and> unat start + unat n \<le> Sbytevector_length bv s)"

lemma in_bounds_check:
  fixes start :: u64 and n :: u32
  assumes "unat start + unat n \<le> len" and "len < 2 ^ 63"
  shows "\<not> start + ucast n < start" and "\<not> of_nat len < start + ucast n"
proof -
  have u: "unat (start + ucast n) = unat start + unat n"
    using assms by (simp add: unat_word_ariths unat_ucast_u32)
  then show "\<not> start + ucast n < start" by (simp add: word_less_nat_alt)
  have "unat (of_nat len :: u64) = len" using assms(2) by (simp add: unat_of_nat)
  with u assms(1) show "\<not> of_nat len < start + ucast n" by (simp add: word_less_nat_alt)
qed

lemma SHA1Input_take:
  "unat n \<le> length bs \<Longrightarrow> SHA1Input (Some c) (Some bs) n = SHA1Input (Some c) (Some (take (unat n) bs)) n"
  by (simp add: SHA1Input_def min_def)

lemma osi_hash_data_repr:
  assumes r: "hash_repr a s m" and b: "in_bounds s (bv, start, n)" and l: "length m + unat n < 2 ^ 61"
  shows "\<exists>s'. osi_hash_data E a bv start n s = Some (Strue, s') \<and> hash_repr a s' (m @ region_bytes s (bv, start, n))
      \<and> bytevectors s' = bytevectors s"
proof -
  obtain i where bv: "bv = Sbytevector i" using b by (cases bv) (auto simp: in_bounds_def)
  let ?bs = "drop (unat start) (bytevectors s i)"
  have len: "unat start + unat n \<le> length (bytevectors s i)" "length (bytevectors s i) < 2 ^ 63"
    using b bv by (auto simp: in_bounds_def Sbytevector_length_def)
  have chk: "\<not> (\<not> Sbytevectorp bv \<or> start + ucast n < start \<or> of_nat (Sbytevector_length bv s) < start + ucast n)"
    using in_bounds_check [OF len] by (simp add: bv Sbytevector_length_def)
  obtain c where c: "load_sha1 a s = Some c" "sha1_repr c m" using r by (auto simp: hash_repr_def)
  then have h: "heap s a = Some (Sha1_ctxt c)" by (auto simp: load_sha1_def split: option.splits cobj.splits)
  show ?thesis
  proof (cases "n = 0")
    case True
    then show ?thesis using r chk by (simp add: osi_hash_data_def region_bytes_def bv)
  next
    case False
    have tk: "length (take (unat n) ?bs) = unat n" using len(1) by simp
    have "length (take (unat n) ?bs) < 2 ^ 32" unfolding tk by (rule unat_u32_less)
    with SHA1Input_repr [OF c(2), of "take (unat n) ?bs"] l tk
    obtain c' where c': "SHA1Input (Some c) (Some (take (unat n) ?bs)) n = Some (shaSuccess, Some c')" "sha1_repr c' (m @ take (unat n) ?bs)"
      by auto
    then have "SHA1Input (Some c) (Some ?bs) n = Some (shaSuccess, Some c')"
      using SHA1Input_take [of n ?bs c] len(1) by simp
    then show ?thesis
      using chk False c(1) h c'(2) by (simp add: osi_hash_data_def bv store_def hash_repr_def load_sha1_def region_bytes_def)
  qed
qed

lemma in_bounds_same: "bytevectors s' = bytevectors s \<Longrightarrow> in_bounds s' r = in_bounds s r \<and> region_bytes s' r = region_bytes s r"
  by (cases r; cases "fst r") (auto simp: in_bounds_def region_bytes_def Sbytevector_length_def)

lemma length_region_bytes: "in_bounds s (bv, i, n) \<Longrightarrow> length (region_bytes s (bv, i, n)) = unat n"
  by (cases bv) (auto simp: in_bounds_def region_bytes_def Sbytevector_length_def)

lemma hash_regions_repr:
  assumes "hash_repr a s m" and "\<forall>r \<in> set rs. in_bounds s r"
    and "length m + length (concat (List.map (region_bytes s) rs)) < 2 ^ 61"
  shows "\<exists>s'. hash_regions E a rs s = Some s' \<and> hash_repr a s' (m @ concat (List.map (region_bytes s) rs)) \<and> bytevectors s' = bytevectors s"
  using assms
proof (induction rs arbitrary: s m)
  case (Cons r rs)
  obtain bv i n where r: "r = (bv, i, n)" by (cases r)
  have b: "in_bounds s (bv, i, n)" using Cons.prems(2) r by simp
  have "length m + unat n < 2 ^ 61" using Cons.prems(3) r length_region_bytes [OF b] by simp
  then obtain s1 where s1: "osi_hash_data E a bv i n s = Some (Strue, s1)" "hash_repr a s1 (m @ region_bytes s (bv, i, n))"
    "bytevectors s1 = bytevectors s" using osi_hash_data_repr [OF Cons.prems(1) b] by blast
  have same: "region_bytes s1 = region_bytes s" using in_bounds_same [OF s1(3)] by auto
  have "\<exists>s'. hash_regions E a rs s1 = Some s' \<and> hash_repr a s' ((m @ region_bytes s (bv, i, n)) @ concat (List.map (region_bytes s1) rs))
      \<and> bytevectors s' = bytevectors s1"
    using Cons.prems(2,3) in_bounds_same [OF s1(3)] by (intro Cons.IH [OF s1(2)]) (auto simp: same r)
  with s1 same show ?case by (simp add: r)
qed simp

lemma osi_get_SHA1_repr:
  assumes "hash_repr a s m"
  shows "\<exists>d s'. osi_get_SHA1 a i s = Some (Sbytevector i, s') \<and> bytevectors s' i = d \<and> length d = 20
      \<and> bits_of_bytes d = fips_sha1 (bits_of_bytes m) \<and> hash_repr a s' []"
proof -
  obtain c where c: "load_sha1 a s = Some c" "sha1_repr c m" using assms by (auto simp: hash_repr_def)
  then have h: "heap s a = Some (Sha1_ctxt c)" by (auto simp: load_sha1_def split: option.splits cobj.splits)
  obtain c1 d where d: "SHA1Result (Some c) True = Some (shaSuccess, Some c1, Some d)" "length d = 20"
    "length (Message_Block c1) = 64" "bits_of_bytes d = fips_sha1 (bits_of_bytes m)"
    using SHA1Result_repr [OF c(2)] by blast
  obtain c2 where c2: "SHA1Reset (Some c1) = (shaSuccess, Some c2)" "sha1_repr c2 []" using SHA1Reset_repr [OF d(3)] by blast
  show ?thesis
    using h d c2 by (simp add: osi_get_SHA1_def load_sha1_def store_def hash_repr_def)
qed

section \<open>Properties\<close>

text \<open>C19: Hashing through the Scheme interface computes SHA-1: after opening a context and hashing
  any list of in-bounds regions of bytevectors, empty ones included, the digest returned is that of
  the concatenated bytes as the standard defines it, and the context is ready for a new message.\<close>

theorem digest_through_interface:
  assumes "\<not> oom E (mallocs s)" and "length (Message_Block c0) = 64" and "\<forall>r \<in> set rs. in_bounds s r"
    and "length (concat (List.map (region_bytes s) rs)) < 2 ^ 61"
  shows "\<exists>s1 s2 s3 d. osi_open_SHA1 E c0 s = Some (Sunsigned64 (of_nat (Suc (mallocs s))), s1)
     \<and> hash_regions E (Suc (mallocs s)) rs s1 = Some s2
     \<and> osi_get_SHA1 (Suc (mallocs s)) i s2 = Some (Sbytevector i, s3)
     \<and> bytevectors s3 i = d \<and> length d = 20
     \<and> bits_of_bytes d = fips_sha1 (bits_of_bytes (concat (List.map (region_bytes s) rs)))
     \<and> hash_repr (Suc (mallocs s)) s3 []"
proof -
  let ?a = "Suc (mallocs s)"
  obtain c where c: "SHA1Reset (Some c0) = (shaSuccess, Some c)" "sha1_repr c []" using SHA1Reset_repr [OF assms(2)] by blast
  let ?s = "s\<lparr>mallocs := ?a, heap := (heap s)(?a \<mapsto> Sha1_ctxt c)\<rparr>"
  have o: "osi_open_SHA1 E c0 s = Some (Sunsigned64 (of_nat ?a), ?s)" using assms(1) c by (simp add: osi_open_SHA1_def osi_ops)
  have r: "hash_repr ?a ?s []" using c by (simp add: hash_repr_def load_sha1_def)
  have same: "region_bytes ?s = region_bytes s" "in_bounds ?s = in_bounds s" using in_bounds_same [of ?s s] by auto
  obtain s2 where s2: "hash_regions E ?a rs ?s = Some s2" "hash_repr ?a s2 (concat (List.map (region_bytes s) rs))"
    using hash_regions_repr [OF r, of rs E] assms(3,4) by (auto simp: same)
  from osi_get_SHA1_repr [OF s2(2), of i] o s2(1) show ?thesis by blast
qed

theorem digest_through_interface_witness:
  "\<exists>s1 s2 s3. osi_open_SHA1 quiet_env sha1_blank (osi_start\<lparr>bytevectors := (\<lambda>_. [97, 98, 99, 100])\<rparr>) = Some (Sunsigned64 1, s1)
     \<and> hash_regions quiet_env 1 [(Sbytevector 0, 0, 2), (Sbytevector 0, 2, 0), (Sbytevector 0, 2, 1)] s1 = Some s2
     \<and> osi_get_SHA1 1 9 s2 = Some (Sbytevector 9, s3)
     \<and> bits_of_bytes (bytevectors s3 9) = fips_sha1 (bits_of_bytes [97, 98, 99])"
proof -
  let ?s = "osi_start\<lparr>bytevectors := (\<lambda>_. [97, 98, 99, 100])\<rparr>" and ?rs = "[(Sbytevector 0, 0, 2), (Sbytevector 0, 2, 0), (Sbytevector 0, 2, 1)]"
  have "concat (List.map (region_bytes ?s) ?rs) = [97, 98, 99]" by (simp add: region_bytes_def)
  moreover have "\<forall>r \<in> set ?rs. in_bounds ?s r" by (simp add: in_bounds_def Sbytevector_length_def)
  ultimately show ?thesis
    using digest_through_interface [of quiet_env ?s sha1_blank ?rs 9]
    by (auto simp: quiet_env_def sha1_blank_def osi_start_def)
qed

end
