(* ===== verification/Sqlite_Bindings.thy ===== *)
theory Sqlite_Bindings
  imports Sys_Info
begin

text \<open>
  Parameter bindings of \<^verbatim>\<open>sqlite.c\<close>: Scheme values are copied into C structures that outlive the call
  (\<^verbatim>\<open>osi_marshal_bindings\<close>), read back (\<^verbatim>\<open>osi_get_bindings\<close>), handed to SQLite (\<^verbatim>\<open>bind_bindings\<close>) and freed
  (\<^verbatim>\<open>osi_unmarshal_bindings\<close>). The conversion of a Scheme integer to 64 bits belongs to the Scheme run time:
  it is the argument \<open>try64\<close>, which is \<^const>\<open>None\<close> when the conversion is refused.
\<close>

section \<open>Types of values\<close>

definition SQLITE_INTEGER :: int where "SQLITE_INTEGER = 1"
definition SQLITE_FLOAT :: int where "SQLITE_FLOAT = 2"
definition SQLITE_TEXT :: int where "SQLITE_TEXT = 3"
definition SQLITE_BLOB :: int where "SQLITE_BLOB = 4"
definition SQLITE_NULL :: int where "SQLITE_NULL = 5"

fun Sintegerp :: "ptr \<Rightarrow> bool" where
  "Sintegerp (Sinteger _) = True"
| "Sintegerp _ = False"

fun Sflonump :: "ptr \<Rightarrow> bool" where
  "Sflonump (Sflonum _) = True"
| "Sflonump _ = False"

fun Svectorp :: "ptr \<Rightarrow> bool" where
  "Svectorp (Svector _) = True"
| "Svectorp _ = False"

definition scheme_to_sql_type :: "ptr \<Rightarrow> int" where
  "scheme_to_sql_type datum =
     (if datum = Sfalse then SQLITE_NULL
      else if Sintegerp datum then SQLITE_INTEGER
      else if Sflonump datum then SQLITE_FLOAT
      else if Sstringp datum then SQLITE_TEXT
      else if Sbytevectorp datum then SQLITE_BLOB
      else - 1)"

text \<open>The substitute for run times without \<^verbatim>\<open>Stry_integer64_value\<close>, on top of \<^verbatim>\<open>Sinteger64_value\<close>.\<close>

definition Stry_integer64_value :: "(int \<Rightarrow> u64) \<Rightarrow> int \<Rightarrow> u64 option" where
  "Stry_integer64_value Sinteger64_value n = Some (Sinteger64_value n)"

section \<open>One binding\<close>

text \<open>
  The error code, or the binding filled in. The two conversions that allocate are functions of their
  own. After an error nobody looks at the binding.
\<close>

definition set_text :: "env \<Rightarrow> scheme_string \<Rightarrow> osi \<Rightarrow> ((int + binding_t) \<times> osi) option" where
  "set_text E str s =
     (let (utf8, s) = malloc_container E s
      in do {
        (r, len) \<leftarrow> osi_string_to_utf8 (utf8 \<noteq> 0) str;
        case r of
          None \<Rightarrow> Some (Inl (uv_errno E ENOMEM), s)
        | Some text \<Rightarrow> do {
            s \<leftarrow> store utf8 (C_string text) s;
            Some (Inr (Binding_text utf8 len), s)
          }
      })"

definition set_blob :: "env \<Rightarrow> nat \<Rightarrow> osi \<Rightarrow> ((int + binding_t) \<times> osi) option" where
  "set_blob E i s =
     (let bytes = bytevectors s i; (blob, s) = malloc_container E s
      in if blob = 0 then Some (Inl (uv_errno E ENOMEM), s)
      else do {
        s \<leftarrow> store blob (C_string bytes) s;
        Some (Inr (Binding_blob blob (of_nat (length bytes))), s)
      })"

definition set_binding :: "env \<Rightarrow> (int \<Rightarrow> u64 option) \<Rightarrow> ptr \<Rightarrow> osi \<Rightarrow> ((int + binding_t) \<times> osi) option" where
  "set_binding E try64 datum s =
     (let type = scheme_to_sql_type datum
      in if type = SQLITE_NULL then Some (Inr Binding_null, s)
      else if type = SQLITE_INTEGER then
        (case datum of Sinteger n \<Rightarrow>
           Some (case try64 n of None \<Rightarrow> Inl (uv_errno E EINVAL) | Some v \<Rightarrow> Inr (Binding_integer v), s)
         | _ \<Rightarrow> None)
      else if type = SQLITE_FLOAT then
        (case datum of Sflonum d \<Rightarrow> Some (Inr (Binding_float d), s) | _ \<Rightarrow> None)
      else if type = SQLITE_TEXT then
        (case datum of Sstring str \<Rightarrow> set_text E str s | _ \<Rightarrow> None)
      else if type = SQLITE_BLOB then
        (case datum of Sbytevector i \<Rightarrow> set_blob E i s | _ \<Rightarrow> None)
      else Some (Inl (uv_errno E EINVAL), s))"

text \<open>The bytes behind a pointer and a size; reading past the end of the block is undefined.\<close>

definition c_bytes :: "uptr \<Rightarrow> u64 \<Rightarrow> osi \<Rightarrow> u8 list option" where
  "c_bytes a sz s =
     (case heap s a of
        Some (C_string bs) \<Rightarrow> if unat sz \<le> length bs then Some (take (unat sz) bs) else None
      | _ \<Rightarrow> None)"

text \<open>\<open>i\<close> is the new bytevector that \<^verbatim>\<open>Smake_bytevector\<close> returns for a blob.\<close>

fun get_binding :: "env \<Rightarrow> nat \<Rightarrow> binding_t \<Rightarrow> osi \<Rightarrow> (ptr \<times> osi) option" where
  "get_binding E i Binding_null s = Some (Sfalse, s)"
| "get_binding E i (Binding_integer v) s = Some (Sinteger64 v, s)"
| "get_binding E i (Binding_float d) s = Some (Sflonum d, s)"
| "get_binding E i (Binding_text utf8 sz) s = do { bs \<leftarrow> c_bytes utf8 sz s; Some (Sstring_utf8 E bs, s) }"
| "get_binding E i (Binding_blob blob sz) s = do {
     bs \<leftarrow> c_bytes blob sz s;
     Some (Sbytevector i, s\<lparr>bytevectors := (bytevectors s)(i := bs)\<rparr>)
   }"
| "get_binding E i (Binding_other t) s = Some (osi_make_error_pair ''osi_get_binding'' (uv_errno E EINVAL), s)"

fun free_binding :: "binding_t \<Rightarrow> osi \<Rightarrow> (binding_t \<times> osi) option" where
  "free_binding (Binding_text utf8 sz) s =
     (if utf8 \<noteq> 0 then do { s \<leftarrow> c_free utf8 s; Some (Binding_text 0 sz, s) } else Some (Binding_text utf8 sz, s))"
| "free_binding (Binding_blob blob sz) s =
     (if blob \<noteq> 0 then do { s \<leftarrow> c_free blob s; Some (Binding_blob 0 sz, s) } else Some (Binding_blob blob sz, s))"
| "free_binding b s = Some (b, s)"

section \<open>Lists of bindings\<close>

fun get_bindings_loop :: "env \<Rightarrow> nat \<Rightarrow> binding_t list \<Rightarrow> osi \<Rightarrow> ((ptr + ptr list) \<times> osi) option" where
  "get_bindings_loop E i [] s = Some (Inr [], s)"
| "get_bindings_loop E i (b # bs) s = do {
     (x, s) \<leftarrow> get_binding E i b s;
     if Spairp x then Some (Inl x, s)
     else do {
       (r, s) \<leftarrow> get_bindings_loop E (Suc i) bs s;
       Some (map_sum id ((#) x) r, s)
     }
   }"

definition load_bindings :: "uptr \<Rightarrow> osi \<Rightarrow> binding_t list option" where
  "load_bindings a s = (case heap s a of Some (Bindings bs) \<Rightarrow> Some bs | _ \<Rightarrow> None)"

text \<open>New bytevectors are numbered from \<open>i\<close> on.\<close>

definition osi_get_bindings :: "env \<Rightarrow> nat \<Rightarrow> uptr \<Rightarrow> osi \<Rightarrow> (ptr \<times> osi) option" where
  "osi_get_bindings E i mbindings s = do {
     bs \<leftarrow> (if mbindings = 0 then Some [] else load_bindings mbindings s);
     (r, s) \<leftarrow> get_bindings_loop E i bs s;
     Some (case r of Inl x \<Rightarrow> x | Inr xs \<Rightarrow> Svector xs, s)
   }"

fun free_bindings :: "binding_t list \<Rightarrow> osi \<Rightarrow> osi option" where
  "free_bindings [] s = Some s"
| "free_bindings (b # bs) s = do { (_, s) \<leftarrow> free_binding b s; free_bindings bs s }"

text \<open>
  The loop that fills the array: \<open>done\<close> are the bindings stored so far. At the first error they are
  freed in order, then the array.
\<close>

fun marshal_loop ::
  "env \<Rightarrow> (int \<Rightarrow> u64 option) \<Rightarrow> uptr \<Rightarrow> binding_t list \<Rightarrow> ptr list \<Rightarrow> osi \<Rightarrow> (ptr \<times> osi) option" where
  "marshal_loop E try64 mbindings done [] s = do {
     s \<leftarrow> store mbindings (Bindings done) s;
     Some (Sunsigned mbindings, s)
   }"
| "marshal_loop E try64 mbindings done (datum # data) s = do {
     (r, s) \<leftarrow> set_binding E try64 datum s;
     case r of
       Inl rc \<Rightarrow> do {
         s \<leftarrow> free_bindings done s;
         s \<leftarrow> c_free mbindings s;
         Some (osi_make_error_pair ''osi_marshal_bindings'' rc, s)
       }
     | Inr b \<Rightarrow> marshal_loop E try64 mbindings (done @ [b]) data s
   }"

text \<open>
  Counting the elements of a list takes the \<^verbatim>\<open>cdr\<close> of everything that is not the empty list, which is
  undefined for an improper list. More elements than an \<^verbatim>\<open>int\<close> can count are undefined as well.
\<close>

fun list_elements :: "ptr \<Rightarrow> ptr list option" where
  "list_elements Snil = Some []"
| "list_elements (Scons a d) = map_option ((#) a) (list_elements d)"
| "list_elements _ = None"

definition marshal_elements :: "env \<Rightarrow> (int \<Rightarrow> u64 option) \<Rightarrow> ptr list \<Rightarrow> osi \<Rightarrow> (ptr \<times> osi) option" where
  "marshal_elements E try64 data s =
     (if length data \<ge> 2 ^ 31 then None
      else if data = [] then Some (Sunsigned 0, s)
      else let (mbindings, s) = malloc_container E s
      in if mbindings = 0 then Some (osi_make_error_pair ''osi_marshal_bindings'' (uv_errno E ENOMEM), s)
      else marshal_loop E try64 mbindings [] data s)"

definition osi_marshal_bindings :: "env \<Rightarrow> (int \<Rightarrow> u64 option) \<Rightarrow> ptr \<Rightarrow> osi \<Rightarrow> (ptr \<times> osi) option" where
  "osi_marshal_bindings E try64 bindings s =
     (if bindings = Snil \<or> Spairp bindings
      then do { data \<leftarrow> list_elements bindings; marshal_elements E try64 data s }
      else case bindings of
        Svector data \<Rightarrow> marshal_elements E try64 data s
      | _ \<Rightarrow> Some (osi_make_error_pair ''osi_marshal_bindings'' (uv_errno E EINVAL), s))"

definition osi_unmarshal_bindings :: "uptr \<Rightarrow> osi \<Rightarrow> (ptr \<times> osi) option" where
  "osi_unmarshal_bindings mbindings s =
     (if mbindings = 0 then Some (Strue, s)
      else do {
        bs \<leftarrow> load_bindings mbindings s;
        s \<leftarrow> free_bindings bs s;
        s \<leftarrow> c_free mbindings s;
        Some (Strue, s)
      })"

section \<open>Handing bindings to SQLite\<close>

text \<open>
  A statement that has been finalized must not be used any more; a null statement may, SQLite
  answers with an error code.
\<close>

definition stmt_do :: "env \<Rightarrow> (nat \<Rightarrow> sqlite_call) \<Rightarrow> nat \<Rightarrow> osi \<Rightarrow> (int \<times> osi) option" where
  "stmt_do E f stmt s =
     (if stmt \<noteq> 0 \<and> stmt \<notin> sqlite_objs s then None else Some (uv_do E (Sql (f stmt)) s))"

fun binding_value :: "binding_t \<Rightarrow> osi \<Rightarrow> (string \<times> sqlite_value) option option" where
  "binding_value Binding_null s = Some (Some (''sqlite3_bind_null'', Value_null))"
| "binding_value (Binding_integer v) s = Some (Some (''sqlite3_bind_int64'', Value_int64 v))"
| "binding_value (Binding_float d) s = Some (Some (''sqlite3_bind_double'', Value_double d))"
| "binding_value (Binding_text utf8 sz) s =
     do { bs \<leftarrow> c_bytes utf8 sz s; Some (Some (''sqlite3_bind_text64'', Value_text bs)) }"
| "binding_value (Binding_blob blob sz) s =
     do { bs \<leftarrow> c_bytes blob sz s; Some (Some (''sqlite3_bind_blob'', Value_blob bs)) }"
| "binding_value (Binding_other t) s = Some None"

text \<open>\<open>j\<close> is the loop index; the result is the status of the last call together with its name.\<close>

fun bind_loop ::
  "env \<Rightarrow> nat \<Rightarrow> nat \<Rightarrow> binding_t list \<Rightarrow> int \<times> string option \<Rightarrow> osi \<Rightarrow> ((int \<times> string option) \<times> osi) option" where
  "bind_loop E stmt j [] r s = Some (r, s)"
| "bind_loop E stmt j (b # bs) r s = do {
     v \<leftarrow> binding_value b s;
     case v of
       None \<Rightarrow> bind_loop E stmt (Suc j) bs r s
     | Some (who, v) \<Rightarrow> do {
         (rc, s) \<leftarrow> stmt_do E (\<lambda>h. Sqlite3_bind h (int j + 1) v) stmt s;
         bind_loop E stmt (Suc j) bs (rc, Some who) s
       }
   }"

definition bind_bindings :: "env \<Rightarrow> nat \<Rightarrow> uptr \<Rightarrow> osi \<Rightarrow> ((int \<times> string option) \<times> osi) option" where
  "bind_bindings E stmt mbindings s =
     (if mbindings = 0 then Some ((0, None), s)
      else do { bs \<leftarrow> load_bindings mbindings s; bind_loop E stmt 0 bs (0, None) s })"


section \<open>Memory of a list of bindings\<close>

text \<open>The block a binding owns.\<close>

fun owned :: "binding_t \<Rightarrow> uptr list" where
  "owned (Binding_text a _) = [a]"
| "owned (Binding_blob a _) = [a]"
| "owned _ = []"

text \<open>Strings and bytevectors fit the address space.\<close>

fun small_datum :: "osi \<Rightarrow> ptr \<Rightarrow> bool" where
  "small_datum s (Sstring str) \<longleftrightarrow> 4 * length str + 1 < 2 ^ 64"
| "small_datum s (Sbytevector i) \<longleftrightarrow> length (bytevectors s i) < 2 ^ 64"
| "small_datum s _ \<longleftrightarrow> True"

text \<open>The value a binding stands for: \<open>bv\<close> are the bytevectors the data refer to, \<open>h\<close> is the C heap.\<close>

fun represents :: "(int \<Rightarrow> u64 option) \<Rightarrow> (nat \<Rightarrow> u8 list) \<Rightarrow> (uptr \<Rightarrow> cobj option) \<Rightarrow> binding_t \<Rightarrow> ptr \<Rightarrow> bool" where
  "represents try64 bv h Binding_null d \<longleftrightarrow> d = Sfalse"
| "represents try64 bv h (Binding_integer v) d \<longleftrightarrow> (\<exists>n. d = Sinteger n \<and> try64 n = Some v)"
| "represents try64 bv h (Binding_float x) d \<longleftrightarrow> d = Sflonum x"
| "represents try64 bv h (Binding_text a sz) d \<longleftrightarrow>
     (\<exists>str. d = Sstring str \<and> h a = Some (C_string (utf8_encode str @ [0])) \<and> unat sz = length (utf8_encode str))"
| "represents try64 bv h (Binding_blob a sz) d \<longleftrightarrow>
     (\<exists>i. d = Sbytevector i \<and> h a = Some (C_string (bv i)) \<and> unat sz = length (bv i))"
| "represents try64 bv h (Binding_other t) d \<longleftrightarrow> False"

text \<open>What the code relies on in the Scheme run time.\<close>

definition decodes :: "env \<Rightarrow> bool" where
  "decodes E \<longleftrightarrow> (\<forall>str. (\<forall>c \<in> set str. scalar_value c) \<longrightarrow> Sstring_utf8 E (utf8_encode str) = Sstring str)"

definition exact64 :: "(int \<Rightarrow> u64 option) \<Rightarrow> bool" where
  "exact64 try64 \<longleftrightarrow> (\<forall>n. - (2 ^ 63) \<le> n \<and> n < 2 ^ 63 \<longrightarrow> try64 n = Some (word_of_int n))"

text \<open>The data SQLite can store: integers of 64 bits, strings of scalar values.\<close>

fun storable :: "ptr \<Rightarrow> bool" where
  "storable Sfalse \<longleftrightarrow> True"
| "storable (Sinteger n) \<longleftrightarrow> - (2 ^ 63) \<le> n \<and> n < 2 ^ 63"
| "storable (Sflonum _) \<longleftrightarrow> True"
| "storable (Sstring str) \<longleftrightarrow> (\<forall>c \<in> set str. scalar_value c)"
| "storable (Sbytevector _) \<longleftrightarrow> True"
| "storable _ \<longleftrightarrow> False"

text \<open>Nothing outside the data is in the way of a conversion.\<close>

definition converts :: "env \<Rightarrow> (int \<Rightarrow> u64 option) \<Rightarrow> bool" where
  "converts E try64 \<longleftrightarrow> (\<forall>n. \<not> oom E n) \<and> exact64 try64"

text \<open>\<open>s'\<close> is \<open>s\<close> with new blocks at the addresses \<open>as\<close>.\<close>

definition grown :: "osi \<Rightarrow> uptr list \<Rightarrow> osi \<Rightarrow> bool" where
  "grown s as s' \<longleftrightarrow>
     (\<exists>m h. s' = s\<lparr>mallocs := m, heap := h\<rparr> \<and> mallocs s \<le> m \<and> distinct as
        \<and> (\<forall>a \<in> set as. mallocs s < a \<and> a \<le> m \<and> h a \<noteq> None) \<and> (\<forall>a. a \<notin> set as \<longrightarrow> h a = heap s a))"

lemma grownE:
  assumes "grown s as s'"
  obtains m h where "s' = s\<lparr>mallocs := m, heap := h\<rparr>" "mallocs s \<le> m" "distinct as"
    "\<And>a. a \<in> set as \<Longrightarrow> mallocs s < a \<and> a \<le> m \<and> h a \<noteq> None" "\<And>a. a \<notin> set as \<Longrightarrow> h a = heap s a"
  using assms unfolding grown_def by blast

lemma grown_heap: "grown s as s' \<Longrightarrow> a \<notin> set as \<Longrightarrow> heap s' a = heap s a"
  by (auto simp: grown_def)

lemma grown_refl: "grown s [] s"
  unfolding grown_def by (intro exI [of _ "mallocs s"] exI [of _ "heap s"]) simp

lemma grown_failed_malloc: "grown s [] (s\<lparr>mallocs := Suc (mallocs s)\<rparr>)"
  unfolding grown_def by (intro exI [of _ "Suc (mallocs s)"] exI [of _ "heap s"]) simp

lemma grown_malloc: "grown s [Suc (mallocs s)] (s\<lparr>mallocs := Suc (mallocs s), heap := (heap s)(Suc (mallocs s) \<mapsto> x)\<rparr>)"
  unfolding grown_def by (intro exI [of _ "Suc (mallocs s)"] exI [of _ "(heap s)(Suc (mallocs s) \<mapsto> x)"]) simp

lemma grown_restore: "grown s as s' \<Longrightarrow> grown s [] (s'\<lparr>heap := heap s\<rparr>)"
proof (erule grownE)
  fix m h
  assume "s' = s\<lparr>mallocs := m, heap := h\<rparr>" and "mallocs s \<le> m"
  then show ?thesis unfolding grown_def by (intro exI [of _ m] exI [of _ "heap s"]) simp
qed

lemma grown_trans:
  assumes "grown s as s'" and "grown s' bs s''"
  shows "grown s (as @ bs) s''"
proof -
  obtain m h where 1: "s' = s\<lparr>mallocs := m, heap := h\<rparr>" "mallocs s \<le> m" "distinct as"
    "\<And>a. a \<in> set as \<Longrightarrow> mallocs s < a \<and> a \<le> m \<and> h a \<noteq> None" "\<And>a. a \<notin> set as \<Longrightarrow> h a = heap s a"
    using grownE [OF assms(1)] by blast
  obtain m' h' where 2: "s'' = s'\<lparr>mallocs := m', heap := h'\<rparr>" "mallocs s' \<le> m'" "distinct bs"
    "\<And>a. a \<in> set bs \<Longrightarrow> mallocs s' < a \<and> a \<le> m' \<and> h' a \<noteq> None" "\<And>a. a \<notin> set bs \<Longrightarrow> h' a = heap s' a"
    using grownE [OF assms(2)] by blast
  have "set as \<inter> set bs = {}" using 1(1,4) 2(4) by fastforce
  moreover have "h' a \<noteq> None" if "a \<in> set as" for a
  proof -
    have "a \<notin> set bs" using calculation that by auto
    then show ?thesis using 1(1) 1(4) [OF that] 2(5) [of a] by simp
  qed
  ultimately have "mallocs s \<le> m' \<and> distinct (as @ bs)
      \<and> (\<forall>a \<in> set (as @ bs). mallocs s < a \<and> a \<le> m' \<and> h' a \<noteq> None) \<and> (\<forall>a. a \<notin> set (as @ bs) \<longrightarrow> h' a = heap s a)"
    using 1 2 by fastforce
  then show ?thesis unfolding grown_def using 1(1) 2(1) by (intro exI [of _ m'] exI [of _ h']) simp
qed

lemma represents_grown:
  assumes "represents try64 bv (heap s) b d" and "grown s as s'" and "\<And>a. a \<in> set (owned b) \<Longrightarrow> a \<le> mallocs s"
  shows "represents try64 bv (heap s') b d"
proof -
  have "heap s' a = heap s a" if "a \<in> set (owned b)" for a
  proof -
    have "a \<notin> set as" using assms(2) assms(3) [OF that] by (auto simp: grown_def)
    then show ?thesis by (rule grown_heap [OF assms(2)])
  qed
  then show ?thesis using assms(1) by (cases b) auto
qed

lemma set_text_spec:
  assumes "4 * length str + 1 < 2 ^ 64"
  shows "\<exists>r s'. set_text E str s = Some (r, s')
    \<and> (case r of Inl e \<Rightarrow> grown s [] s' \<and> \<not> converts E try64
        | Inr b \<Rightarrow> grown s (owned b) s' \<and> represents try64 bv (heap s') b (Sstring str))"
proof (cases "oom E (mallocs s)")
  case True
  then show ?thesis by (auto simp: set_text_def osi_ops osi_string_to_utf8_def grown_failed_malloc converts_def)
next
  case False
  have "length (utf8_encode str) < 2 ^ 64" using length_utf8_encode_le [of str] assms by linarith
  then have "unat (of_nat (length (utf8_encode str)) :: u64) = length (utf8_encode str)" by (simp add: unat_of_nat)
  with False grown_malloc [of s "C_string (utf8_encode str @ [0])"] show ?thesis
    by (simp add: set_text_def osi_ops osi_string_to_utf8_ok [OF assms])
qed

lemma set_blob_spec:
  assumes "length (bytevectors s i) < 2 ^ 64"
  shows "\<exists>r s'. set_blob E i s = Some (r, s')
    \<and> (case r of Inl e \<Rightarrow> grown s [] s' \<and> \<not> converts E try64
        | Inr b \<Rightarrow> grown s (owned b) s' \<and> represents try64 (bytevectors s) (heap s') b (Sbytevector i))"
  using assms grown_malloc [of s "C_string (bytevectors s i)"]
  by (cases "oom E (mallocs s)") (auto simp: set_blob_def osi_ops grown_failed_malloc unat_of_nat converts_def)

lemma set_binding_spec:
  assumes "small_datum s d"
  shows "\<exists>r s'. set_binding E try64 d s = Some (r, s')
    \<and> (case r of Inl e \<Rightarrow> grown s [] s' \<and> (converts E try64 \<longrightarrow> \<not> storable d)
        | Inr b \<Rightarrow> grown s (owned b) s' \<and> represents try64 (bytevectors s) (heap s') b d)"
proof -
  note defs = set_binding_def scheme_to_sql_type_def SQLITE_INTEGER_def SQLITE_FLOAT_def SQLITE_TEXT_def
    SQLITE_BLOB_def SQLITE_NULL_def Let_def grown_refl
  show ?thesis
  proof (cases d)
    case (Sstring str)
    show ?thesis using set_text_spec [of str E s try64 "bytevectors s"] assms unfolding Sstring
      by (fastforce simp: defs split: sum.splits)
  next
    case (Sbytevector i)
    show ?thesis using set_blob_spec [of s i E try64] assms unfolding Sbytevector
      by (fastforce simp: defs split: sum.splits)
  next
    case (Sinteger n)
    then show ?thesis by (cases "try64 n") (auto simp: defs converts_def exact64_def)
  qed (simp_all add: defs)
qed

lemma free_bindings_spec:
  "distinct (concat (map owned bs)) \<Longrightarrow> (\<And>a. a \<in> set (concat (map owned bs)) \<Longrightarrow> heap s a \<noteq> None \<and> a \<noteq> 0) \<Longrightarrow>
   free_bindings bs s = Some (s\<lparr>heap := (\<lambda>a. if a \<in> set (concat (map owned bs)) then None else heap s a)\<rparr>)"
proof (induction bs arbitrary: s)
  case (Cons b bs)
  let ?s = "s\<lparr>heap := (\<lambda>a. if a \<in> set (owned b) then None else heap s a)\<rparr>"
  have "\<exists>b'. free_binding b s = Some (b', ?s)"
    using Cons.prems(2) by (cases b) (auto simp: c_free_def fun_eq_iff intro!: arg_cong [of _ _ "\<lambda>h. s\<lparr>heap := h\<rparr>"])
  then obtain b' where "free_binding b s = Some (b', ?s)" by blast
  moreover have "free_bindings bs ?s = Some (?s\<lparr>heap := (\<lambda>a. if a \<in> set (concat (map owned bs)) then None else heap ?s a)\<rparr>)"
    using Cons.prems by (intro Cons.IH) auto
  ultimately show ?case by (auto simp: fun_eq_iff intro!: arg_cong [of _ _ "\<lambda>h. s\<lparr>heap := h\<rparr>"])
qed simp

text \<open>Everything the array and its bindings own, and that freeing it gives the old heap back.\<close>

definition marshalled :: "(int \<Rightarrow> u64 option) \<Rightarrow> osi \<Rightarrow> uptr \<Rightarrow> binding_t list \<Rightarrow> ptr list \<Rightarrow> osi \<Rightarrow> bool" where
  "marshalled try64 s mb bs ds s' \<longleftrightarrow>
     grown s (mb # concat (map owned bs)) s' \<and> list_all2 (represents try64 (bytevectors s) (heap s')) bs ds"

lemma free_marshalled:
  assumes g: "grown s (mb # concat (map owned bs)) s'" and fresh: "\<And>a. mallocs s < a \<Longrightarrow> heap s a = None"
  shows "\<exists>s''. free_bindings bs s' = Some s'' \<and> heap s'' mb \<noteq> None \<and> c_free mb s'' = Some (s'\<lparr>heap := heap s\<rparr>)"
proof -
  obtain m h where s': "s' = s\<lparr>mallocs := m, heap := h\<rparr>" "mallocs s \<le> m" "distinct (mb # concat (map owned bs))"
    "\<And>a. a \<in> set (mb # concat (map owned bs)) \<Longrightarrow> mallocs s < a \<and> a \<le> m \<and> h a \<noteq> None"
    "\<And>a. a \<notin> set (mb # concat (map owned bs)) \<Longrightarrow> h a = heap s a"
    using grownE [OF g] by metis
  let ?h = "\<lambda>a. if a \<in> set (concat (map owned bs)) then None else heap s' a"
  have "heap s' a \<noteq> None \<and> a \<noteq> 0" if "a \<in> set (concat (map owned bs))" for a
    using s'(4) [of a] that by (simp add: s'(1))
  then have "free_bindings bs s' = Some (s'\<lparr>heap := ?h\<rparr>)"
    using s'(3) by (intro free_bindings_spec) auto
  moreover have "?h mb \<noteq> None" "mb \<noteq> 0" using s'(3) s'(4) [of mb] by (auto simp: s'(1))
  moreover have "?h(mb := None) = heap s"
  proof
    fix a
    have "heap s a = None" if "a \<in> set (mb # concat (map owned bs))" using s'(4) [OF that] fresh [of a] by simp
    then show "(?h(mb := None)) a = heap s a" using s'(5) [of a] by (auto simp: s'(1))
  qed
  ultimately show ?thesis by (auto simp: c_free_def)
qed

lemma marshal_loop_spec:
  assumes "marshalled try64 s0 mb done ds0 s" and "\<And>a. mallocs s0 < a \<Longrightarrow> heap s0 a = None"
    and "\<forall>d \<in> set data. small_datum s0 d"
  shows "\<exists>r s'. marshal_loop E try64 mb done data s = Some (r, s')
      \<and> (error_pair r \<and> grown s0 [] s' \<and> (converts E try64 \<longrightarrow> (\<exists>d \<in> set data. \<not> storable d))
         \<or> r = Sunsigned mb \<and> (\<exists>bs. heap s' mb = Some (Bindings bs) \<and> marshalled try64 s0 mb bs (ds0 @ data) s'))"
  using assms(1,3)
proof (induction data arbitrary: "done" ds0 s)
  case Nil
  obtain m h where s: "s = s0\<lparr>mallocs := m, heap := h\<rparr>" "mallocs s0 \<le> m" "distinct (mb # concat (map owned done))"
    "\<And>a. a \<in> set (mb # concat (map owned done)) \<Longrightarrow> mallocs s0 < a \<and> a \<le> m \<and> h a \<noteq> None"
    "\<And>a. a \<notin> set (mb # concat (map owned done)) \<Longrightarrow> h a = heap s0 a"
    using grownE [of s0 "mb # concat (map owned done)" s] Nil.prems(1) unfolding marshalled_def by metis
  let ?s = "s\<lparr>heap := (heap s)(mb \<mapsto> Bindings done)\<rparr>"
  have "grown s0 (mb # concat (map owned done)) ?s"
    unfolding grown_def using s by (intro exI [of _ m] exI [of _ "h(mb \<mapsto> Bindings done)"]) auto
  moreover have "list_all2 (represents try64 (bytevectors s0) (heap ?s)) done ds0"
  proof (rule list.rel_mono_strong)
    show "list_all2 (represents try64 (bytevectors s0) (heap s)) done ds0"
      using Nil.prems(1) unfolding marshalled_def by simp
    show "represents try64 (bytevectors s0) (heap ?s) b d"
      if "b \<in> set done" "represents try64 (bytevectors s0) (heap s) b d" for b d
    proof -
      have "mb \<notin> set (owned b)" using s(3) that(1) by auto
      then show ?thesis using that(2) by (cases b) auto
    qed
  qed
  moreover have "store mb (Bindings done) s = Some ?s" using s(1) s(4) [of mb] by (simp add: store_def)
  ultimately show ?case by (simp add: marshalled_def)
next
  case (Cons d data)
  have bv: "bytevectors s = bytevectors s0" and g: "grown s0 (mb # concat (map owned done)) s"
    using Cons.prems(1) by (auto simp: marshalled_def grown_def)
  have "small_datum s d" using Cons.prems(2) bv by (cases d) auto
  then obtain r s1 where sb: "set_binding E try64 d s = Some (r, s1)"
    and r: "case r of Inl e \<Rightarrow> grown s [] s1 \<and> (converts E try64 \<longrightarrow> \<not> storable d) | Inr b \<Rightarrow> grown s (owned b) s1 \<and> represents try64 (bytevectors s) (heap s1) b d"
    using set_binding_spec by blast
  show ?case
  proof (cases r)
    case (Inl e)
    then have "grown s0 (mb # concat (map owned done)) s1" using grown_trans [OF g, of "[]" s1] r by simp
    from free_marshalled [OF this assms(2)] obtain s2
      where "free_bindings done s1 = Some s2" "c_free mb s2 = Some (s1\<lparr>heap := heap s0\<rparr>)" by blast
    moreover have "grown s0 [] (s1\<lparr>heap := heap s0\<rparr>)"
      by (rule grown_restore [OF \<open>grown s0 (mb # concat (map owned done)) s1\<close>])
    ultimately show ?thesis using sb Inl r by simp
  next
    case (Inr b)
    then have gb: "grown s (owned b) s1" and rb: "represents try64 (bytevectors s) (heap s1) b d" using r by simp_all
    have "marshalled try64 s0 mb (done @ [b]) (ds0 @ [d]) s1"
    proof -
      have "list_all2 (represents try64 (bytevectors s0) (heap s1)) done ds0"
      proof (rule list.rel_mono_strong)
        show "list_all2 (represents try64 (bytevectors s0) (heap s)) done ds0"
          using Cons.prems(1) unfolding marshalled_def by simp
        show "represents try64 (bytevectors s0) (heap s1) b' d'"
          if "b' \<in> set done" "represents try64 (bytevectors s0) (heap s) b' d'" for b' d'
          using g that(1) by (intro represents_grown [OF that(2) gb]) (fastforce simp: grown_def)
      qed
      then show ?thesis using grown_trans [OF g gb] rb bv by (simp add: marshalled_def list_all2_appendI)
    qed
    from Cons.IH [OF this] show ?thesis using sb Inr Cons.prems(2) by fastforce
  qed
qed


section \<open>Reading bindings back\<close>

text \<open>Equal values; bytevectors are compared by content.\<close>

fun same_datum :: "(nat \<Rightarrow> u8 list) \<Rightarrow> (nat \<Rightarrow> u8 list) \<Rightarrow> ptr \<Rightarrow> ptr \<Rightarrow> bool" where
  "same_datum bv bv' (Sbytevector i) x \<longleftrightarrow> (\<exists>j. x = Sbytevector j \<and> bv' j = bv i)"
| "same_datum bv bv' d x \<longleftrightarrow> x = d"

lemma sint_word_of_int: "- (2 ^ 63) \<le> n \<Longrightarrow> n < 2 ^ 63 \<Longrightarrow> sint (word_of_int n :: u64) = n"
  by (simp add: signed_of_int signed_take_bit_int_eq_self)

lemma get_binding_spec:
  assumes r: "represents try64 bv (heap s) b d" and d: "storable d" and E: "decodes E" and t: "exact64 try64"
  shows "\<exists>x bv'. get_binding E i b s = Some (x, s\<lparr>bytevectors := bv'\<rparr>) \<and> \<not> Spairp x \<and> (\<forall>j. j \<noteq> i \<longrightarrow> bv' j = bytevectors s j)
     \<and> (\<forall>bv''. bv'' i = bv' i \<longrightarrow> same_datum bv bv'' d x)"
proof (cases b)
  case (Binding_integer v)
  then obtain n where n: "d = Sinteger n" "try64 n = Some v" using r by auto
  then have "v = word_of_int n" using d t by (simp add: exact64_def)
  then show ?thesis using Binding_integer n d sint_word_of_int [of n]
    by (intro exI [of _ "Sinteger n"] exI [of _ "bytevectors s"]) (simp add: Sinteger64_def)
next
  case (Binding_text a sz)
  then show ?thesis using r d E
    by (auto simp: c_bytes_def decodes_def intro!: exI [of _ "bytevectors s"])
next
  case (Binding_blob a sz)
  then obtain k where k: "d = Sbytevector k" "heap s a = Some (C_string (bv k))" "unat sz = length (bv k)" using r by auto
  then show ?thesis using Binding_blob by (auto simp: c_bytes_def intro!: exI [of _ "(bytevectors s)(i := bv k)"])
qed (use r in \<open>auto intro!: exI [of _ "bytevectors s"]\<close>)

lemma get_bindings_loop_spec:
  assumes "list_all2 (represents try64 bv (heap s)) bs ds" and "\<forall>d \<in> set ds. storable d" and "decodes E" and "exact64 try64"
  shows "\<exists>xs bv'. get_bindings_loop E i bs s = Some (Inr xs, s\<lparr>bytevectors := bv'\<rparr>) \<and> (\<forall>j < i. bv' j = bytevectors s j)
     \<and> list_all2 (same_datum bv bv') ds xs"
  using assms(1,2)
proof (induction bs arbitrary: i s ds)
  case Nil
  then show ?case by (auto intro: exI [of _ "bytevectors s"])
next
  case (Cons b bs)
  then obtain d ds' where ds: "ds = d # ds'" "represents try64 bv (heap s) b d" "list_all2 (represents try64 bv (heap s)) bs ds'"
    by (auto simp: list_all2_Cons1)
  obtain x bv1 where x: "get_binding E i b s = Some (x, s\<lparr>bytevectors := bv1\<rparr>)" "\<not> Spairp x" "\<forall>j. j \<noteq> i \<longrightarrow> bv1 j = bytevectors s j"
    "\<forall>bv''. bv'' i = bv1 i \<longrightarrow> same_datum bv bv'' d x"
    using get_binding_spec [OF ds(2) _ assms(3,4), of i] Cons.prems(2) ds(1) by auto
  obtain xs bv' where "get_bindings_loop E (Suc i) bs (s\<lparr>bytevectors := bv1\<rparr>) = Some (Inr xs, s\<lparr>bytevectors := bv'\<rparr>)"
    "\<forall>j < Suc i. bv' j = bv1 j" "list_all2 (same_datum bv bv') ds' xs"
    using Cons.IH [of "s\<lparr>bytevectors := bv1\<rparr>" ds' "Suc i"] ds Cons.prems(2) by auto
  with x ds(1) show ?case by (auto intro!: exI [of _ "x # xs"] exI [of _ bv'])
qed

section \<open>Properties\<close>

lemma list_elements_scheme_list: "list_elements (scheme_list ds) = Some ds"
  by (induction ds) simp_all

lemma osi_marshal_bindings_elements:
  "v = scheme_list ds \<or> v = Svector ds \<Longrightarrow> osi_marshal_bindings E try64 v s = marshal_elements E try64 ds s"
  by (cases ds) (auto simp: osi_marshal_bindings_def list_elements_scheme_list)

lemma marshal_elements_spec:
  assumes inv: "osi_inv X s" and len: "length ds < 2 ^ 31" and small: "\<forall>d \<in> set ds. small_datum s d"
  shows "\<exists>r s'. marshal_elements E try64 ds s = Some (r, s')
      \<and> (error_pair r \<and> grown s [] s' \<and> (converts E try64 \<longrightarrow> (\<exists>d \<in> set ds. \<not> storable d)) \<or> r = Sunsigned 0 \<and> ds = [] \<and> s' = s
         \<or> (\<exists>mb bs. r = Sunsigned mb \<and> mb \<noteq> 0 \<and> heap s' mb = Some (Bindings bs) \<and> marshalled try64 s mb bs ds s'))"
proof -
  note fresh = osi_inv_above [OF inv]
  show ?thesis
  proof (cases "ds = [] \<or> oom E (mallocs s)")
    case True
    then show ?thesis using len grown_failed_malloc by (auto simp: marshal_elements_def osi_ops converts_def)
  next
    case False
    let ?s = "s\<lparr>mallocs := Suc (mallocs s), heap := (heap s)(Suc (mallocs s) \<mapsto> Raw)\<rparr>"
    have "marshalled try64 s (Suc (mallocs s)) [] [] ?s" using grown_malloc [of s Raw] by (simp add: marshalled_def)
    from marshal_loop_spec [OF this fresh small, of E] False len show ?thesis
      by (fastforce simp: marshal_elements_def osi_ops)
  qed
qed

text \<open>C25: Marshalling loses nothing and leaks nothing. A list or vector of storable values is either
  refused with an error pair, which happens only when memory runs out, and then every block allocated
  on the way has been freed again, or
  copied into C structures from which \<^verbatim>\<open>osi_get_bindings\<close> gives equal values back, in order; and
  \<^verbatim>\<open>osi_unmarshal_bindings\<close> then frees exactly what was allocated. This holds for every pattern of
  allocation failures.\<close>

theorem marshal_bindings_roundtrip:
  assumes "osi_inv X s" and "length ds < 2 ^ 31" and "\<forall>d \<in> set ds. small_datum s d \<and> storable d"
    and "decodes E" and "exact64 try64" and "v = scheme_list ds \<or> v = Svector ds"
  shows "\<exists>r s'. osi_marshal_bindings E try64 v s = Some (r, s')
     \<and> (error_pair r \<and> heap s' = heap s \<and> (\<exists>n. oom E n)
        \<or> (\<exists>mb xs bv. r = Sunsigned mb
             \<and> osi_get_bindings E i mb s' = Some (Svector xs, s'\<lparr>bytevectors := bv\<rparr>)
             \<and> list_all2 (same_datum (bytevectors s) bv) ds xs
             \<and> (\<exists>s''. osi_unmarshal_bindings mb s' = Some (Strue, s'') \<and> heap s'' = heap s)))"
proof -
  note fresh = osi_inv_above [OF assms(1)]
  obtain r s' where r: "osi_marshal_bindings E try64 v s = Some (r, s')"
    and alt: "error_pair r \<and> grown s [] s' \<and> (converts E try64 \<longrightarrow> (\<exists>d \<in> set ds. \<not> storable d)) \<or> r = Sunsigned 0 \<and> ds = [] \<and> s' = s
         \<or> (\<exists>mb bs. r = Sunsigned mb \<and> mb \<noteq> 0 \<and> heap s' mb = Some (Bindings bs) \<and> marshalled try64 s mb bs ds s')"
    using marshal_elements_spec [OF assms(1,2), of E try64] assms(3)
    unfolding osi_marshal_bindings_elements [OF assms(6)] by blast
  consider (error) "error_pair r" "grown s [] s'" "\<not> converts E try64" | (empty) "r = Sunsigned 0" "ds = []" "s' = s"
    | (full) mb bs where "r = Sunsigned mb" "mb \<noteq> 0" "heap s' mb = Some (Bindings bs)" "marshalled try64 s mb bs ds s'"
    using alt assms(3) by blast
  then show ?thesis
  proof cases
    case error
    then have "heap s' = heap s" by (auto simp: grown_def fun_eq_iff)
    then show ?thesis using r error assms(5) by (auto simp: converts_def)
  next
    case empty
    then show ?thesis using r
      by (auto simp: osi_get_bindings_def osi_unmarshal_bindings_def intro!: exI [of _ "bytevectors s"])
  next
    case full
    then have g: "grown s (mb # concat (map owned bs)) s'"
      and rep: "list_all2 (represents try64 (bytevectors s) (heap s')) bs ds" by (simp_all add: marshalled_def)
    obtain xs bv where "get_bindings_loop E i bs s' = Some (Inr xs, s'\<lparr>bytevectors := bv\<rparr>)"
      "list_all2 (same_datum (bytevectors s) bv) ds xs"
      using get_bindings_loop_spec [OF rep _ assms(4,5), of i] assms(3) by blast
    moreover obtain s1 where "free_bindings bs s' = Some s1" "c_free mb s1 = Some (s'\<lparr>heap := heap s\<rparr>)"
      using free_marshalled [OF g fresh] by blast
    ultimately have "osi_get_bindings E i mb s' = Some (Svector xs, s'\<lparr>bytevectors := bv\<rparr>)"
      and "osi_unmarshal_bindings mb s' = Some (Strue, s'\<lparr>heap := heap s\<rparr>)"
      and "list_all2 (same_datum (bytevectors s) bv) ds xs"
      using full(1-3) by (simp_all add: osi_get_bindings_def osi_unmarshal_bindings_def load_bindings_def)
    then show ?thesis using r full(1) by fastforce
  qed
qed

definition try64_signed :: "int \<Rightarrow> u64 option" where
  "try64_signed n = (if - (2 ^ 63) \<le> n \<and> n < 2 ^ 63 then Some (word_of_int n) else None)"

lemma exact64_signed: "exact64 try64_signed"
  by (simp add: exact64_def try64_signed_def)

lemma decodes_quiet: "decodes quiet_env"
  by (simp add: decodes_def quiet_env_def utf8_decode_encode)

theorem marshal_bindings_roundtrip_witness:
  "let s = osi_start\<lparr>bytevectors := (\<lambda>_. [])(0 := [1, 2, 3])\<rparr>;
       ds = [Sfalse, Sinteger (- 5), Sflonum 7, Sstring [0x20AC], Sbytevector 0]
   in \<exists>r s'. osi_marshal_bindings quiet_env try64_signed (scheme_list ds) s = Some (r, s')
     \<and> (error_pair r \<and> heap s' = heap s \<and> (\<exists>n. oom quiet_env n)
        \<or> (\<exists>mb xs bv. r = Sunsigned mb
             \<and> osi_get_bindings quiet_env 1 mb s' = Some (Svector xs, s'\<lparr>bytevectors := bv\<rparr>)
             \<and> list_all2 (same_datum (bytevectors s) bv) ds xs
             \<and> (\<exists>s''. osi_unmarshal_bindings mb s' = Some (Strue, s'') \<and> heap s'' = heap s)))"
proof -
  have "osi_inv {#} (osi_start\<lparr>bytevectors := (\<lambda>_. [])(0 := [1, 2, 3])\<rparr>)"
    by (rule osi_inv_same [OF osi_inv_start]) simp_all
  from marshal_bindings_roundtrip [OF this _ _ decodes_quiet exact64_signed disjI1 [OF refl],
      of "[Sfalse, Sinteger (- 5), Sflonum 7, Sstring [0x20AC], Sbytevector 0]" 1]
  show ?thesis unfolding Let_def by (simp add: scalar_value_def del: scheme_list.simps)
qed


end
