(* ===== verification/Sqlite_Db.thy ===== *)
theory Sqlite_Db
  imports Sqlite_Bindings
begin

text \<open>
  Databases and statements of \<^verbatim>\<open>sqlite.c\<close>. Every database has a thread of its own that runs one work
  function at a time; the operations started from Scheme leave a work function in the structure and
  return, and a callback in the event loop reports the result. SQLite is reached through the same
  environment as libuv: the status of every call comes from there. What SQLite returns besides a
  status (a handle, a message, the columns of a row) is an argument of the function that asks for it.
  Using a connection after it was closed or a statement after it was finalized is undefined.
\<close>

section \<open>Result codes and handles\<close>

definition SQLITE_OK :: int where "SQLITE_OK = 0"
definition SQLITE_NOMEM :: int where "SQLITE_NOMEM = 7"
definition SQLITE_TOOBIG :: int where "SQLITE_TOOBIG = 18"
definition SQLITE_ROW :: int where "SQLITE_ROW = 100"
definition SQLITE_DONE :: int where "SQLITE_DONE = 101"

definition load_db :: "uptr \<Rightarrow> osi \<Rightarrow> database_t option" where
  "load_db a s = (case heap s a of Some (Database d) \<Rightarrow> Some d | _ \<Rightarrow> None)"

definition load_stmt :: "uptr \<Rightarrow> osi \<Rightarrow> statement_t option" where
  "load_stmt a s = (case heap s a of Some (Statement st) \<Rightarrow> Some st | _ \<Rightarrow> None)"

definition load_open_req :: "uptr \<Rightarrow> osi \<Rightarrow> open_req_t option" where
  "load_open_req a s = (case heap s a of Some (Open_req r) \<Rightarrow> Some r | _ \<Rightarrow> None)"

definition load_bulk :: "uptr \<Rightarrow> osi \<Rightarrow> bulk_t option" where
  "load_bulk a s = (case heap s a of Some (Bulk b) \<Rightarrow> Some b | _ \<Rightarrow> None)"

definition load_pointers :: "uptr \<Rightarrow> osi \<Rightarrow> uptr list option" where
  "load_pointers a s = (case heap s a of Some (Pointers ps) \<Rightarrow> Some ps | _ \<Rightarrow> None)"

text \<open>A call on a connection, closing one, and finalizing a statement; null is allowed in the last two.\<close>

definition db_do :: "env \<Rightarrow> (nat \<Rightarrow> sqlite_call) \<Rightarrow> nat \<Rightarrow> osi \<Rightarrow> (int \<times> osi) option" where
  "db_do E f db s = (if db \<notin> sqlite_objs s then None else Some (uv_do E (Sql (f db)) s))"

definition sqlite3_close :: "env \<Rightarrow> nat \<Rightarrow> osi \<Rightarrow> (int \<times> osi) option" where
  "sqlite3_close E db s =
     (if db = 0 then Some (SQLITE_OK, s)
      else do {
        (rc, s) \<leftarrow> db_do E Sqlite3_close db s;
        Some (rc, if rc = SQLITE_OK then s\<lparr>sqlite_objs := sqlite_objs s - {db}\<rparr> else s)
      })"

definition sqlite3_finalize :: "nat \<Rightarrow> osi \<Rightarrow> osi option" where
  "sqlite3_finalize stmt s =
     (if stmt = 0 then Some s
      else if stmt \<notin> sqlite_objs s then None
      else Some (s\<lparr>calls := calls s @ [Sql (Sqlite3_finalize stmt)], sqlite_objs := sqlite_objs s - {stmt}\<rparr>))"

text \<open>\<open>msg\<close> is what \<^verbatim>\<open>sqlite3_errmsg\<close> returns for the connection.\<close>

definition make_sqlite_error :: "env \<Rightarrow> string \<Rightarrow> int \<Rightarrow> nat \<Rightarrow> u8 list \<Rightarrow> osi \<Rightarrow> ptr option" where
  "make_sqlite_error E who rc db msg s =
     (if db \<notin> sqlite_objs s then None
      else Some (Scons (Ssymbol who) (Scons (Sinteger (TRANSLATE_SQLITE_ERRNO rc)) (Sstring_utf8 E msg))))"

section \<open>Opening\<close>

text \<open>
  The work function runs on a thread of libuv's pool. \<open>got\<close> says whether SQLite stored a connection,
  which it does in case of success and may do otherwise. A null file name is passed on as such.
\<close>

definition open_worker :: "env \<Rightarrow> bool \<Rightarrow> uptr \<Rightarrow> osi \<Rightarrow> osi option" where
  "open_worker E got req s = do {
     r \<leftarrow> load_open_req req s;
     name \<leftarrow> (if or_filename r = 0 then Some []
             else case heap s (or_filename r) of Some (C_string t) \<Rightarrow> Some t | _ \<Rightarrow> None);
     let (rc, s) = uv_do E (Sql (Sqlite3_open_v2 name (or_flags r))) s;
     let db = (if got then length (calls s) else 0);
     let s = (if got then s\<lparr>sqlite_objs := insert db (sqlite_objs s)\<rparr> else s);
     store req (Open_req (r\<lparr>or_db := db, or_sqlite_rc := rc\<rparr>)) s
   }"

definition new_database :: "nat \<Rightarrow> database_t" where
  "new_database db = \<lparr>d_db = db, d_statement = 0, d_thread = Gone, d_async_data = None, d_async_sent = False,
     d_busy = False, d_work = None, d_callback = Svoid, d_arg = Db_null, d_sql_len = 0, d_sqlite_rc = SQLITE_OK\<rparr>"

text \<open>
  The steps after the structure has been filled in: the async handle, the mutex, the condition
  variable and the thread, each with its own way back.
\<close>

definition start_database :: "env \<Rightarrow> uptr \<Rightarrow> nat \<Rightarrow> ptr \<Rightarrow> osi \<Rightarrow> osi option" where
  "start_database E d db callback s =
     (let (rc, s) = uv_do E (Hnd (Uv_async_init d)) s
      in if rc < 0 then do {
        (_, s) \<leftarrow> sqlite3_close E db s;
        s \<leftarrow> c_free d s;
        osi_add_callback1 callback (osi_make_error_pair ''uv_async_init'' rc) s
      } else let (rc, s) = uv_do E (Hnd (Uv_mutex_init d)) s
      in if rc < 0 then do {
        (_, s) \<leftarrow> sqlite3_close E db s;
        s \<leftarrow> uv_close d Close_free_cb s;
        osi_add_callback1 callback (osi_make_error_pair ''uv_mutex_init'' rc) s
      } else let (rc, s) = uv_do E (Hnd (Uv_cond_init d)) s
      in if rc < 0 then do {
        let s = uv_void (Hnd (Uv_mutex_destroy d)) s;
        (_, s) \<leftarrow> sqlite3_close E db s;
        s \<leftarrow> uv_close d Close_free_cb s;
        osi_add_callback1 callback (osi_make_error_pair ''uv_cond_init'' rc) s
      } else let (rc, s) = uv_do E (Hnd (Uv_thread_create d)) s
      in if rc < 0 then do {
        let s = uv_void (Hnd (Uv_cond_destroy d)) s;
        let s = uv_void (Hnd (Uv_mutex_destroy d)) s;
        (_, s) \<leftarrow> sqlite3_close E db s;
        s \<leftarrow> uv_close d Close_free_cb s;
        osi_add_callback1 callback (osi_make_error_pair ''uv_thread_create'' rc) s
      } else do {
        s \<leftarrow> store d (Database ((new_database db)\<lparr>d_thread := At_top\<rparr>)) s;
        osi_add_callback1 callback (Sunsigned d) s
      })"

text \<open>\<open>xrc\<close> is the extended error code of the connection.\<close>

definition open_cb :: "env \<Rightarrow> int \<Rightarrow> u8 list \<Rightarrow> uptr \<Rightarrow> osi \<Rightarrow> osi option" where
  "open_cb E xrc msg req s = do {
     r \<leftarrow> load_open_req req s;
     let callback = or_callback r;
     let db = or_db r;
     let sqlite_rc = or_sqlite_rc r;
     s \<leftarrow> c_free (or_filename r) s;
     s \<leftarrow> Sunlock_object callback s;
     s \<leftarrow> c_free req s;
     if sqlite_rc \<noteq> SQLITE_OK then
       if db \<noteq> 0 then do {
         e \<leftarrow> make_sqlite_error E ''sqlite3_open_v2'' xrc db msg s;
         s \<leftarrow> osi_add_callback1 callback e s;
         (_, s) \<leftarrow> sqlite3_close E db s;
         Some s
       } else osi_add_callback1 callback (osi_make_error_pair ''sqlite3_open_v2'' (TRANSLATE_SQLITE_ERRNO sqlite_rc)) s
     else do {
       (_, s) \<leftarrow> db_do E Sqlite3_extended_result_codes db s;
       let (d, s) = malloc_container E s;
       if d = 0 then do {
         (_, s) \<leftarrow> sqlite3_close E db s;
         osi_add_callback1 callback (osi_make_error_pair ''osi_open_database'' (uv_errno E ENOMEM)) s
       } else do {
         s \<leftarrow> store d (Database (new_database db)) s;
         start_database E d db callback s
       }
     }
   }"

definition osi_open_database :: "env \<Rightarrow> u8 list \<Rightarrow> int \<Rightarrow> ptr \<Rightarrow> osi \<Rightarrow> (ptr \<times> osi) option" where
  "osi_open_database E filename flags callback s =
     (let (req, s) = malloc_container E s
      in if req = 0 then Some (osi_make_error_pair ''osi_open_database'' (uv_errno E ENOMEM), s)
      else let (name, s) = malloc_container E s
      in do {
        s \<leftarrow> (if name = 0 then Some s else store name (C_string filename) s);
        let s = Slock_object callback s;
        s \<leftarrow> store req (Open_req \<lparr>or_filename = name, or_flags = flags, or_callback = callback, or_db = 0, or_sqlite_rc = 0\<rparr>) s;
        let (rc, s) = uv_do E (Hnd (Uv_queue_work req)) s;
        if rc < 0 then do {
          s \<leftarrow> Sunlock_object callback s;
          s \<leftarrow> c_free name s;
          s \<leftarrow> c_free req s;
          Some (osi_make_error_pair ''uv_queue_work'' rc, s)
        } else Some (Strue, s)
      })"

definition close_free_cb :: "uptr \<Rightarrow> osi \<Rightarrow> osi option" where
  "close_free_cb d s = c_free d (s\<lparr>closing := (closing s)(d := None)\<rparr>)"

section \<open>Handing over work\<close>

text \<open>
  The block every operation ends with: the completion is recorded in the async handle, the callback
  is locked, and under the mutex the structure is marked busy and the work left in it; then the
  thread is woken if it waits.
\<close>

definition submit_work :: "db_cb \<Rightarrow> db_work \<Rightarrow> db_union \<Rightarrow> int \<Rightarrow> ptr \<Rightarrow> uptr \<Rightarrow> database_t \<Rightarrow> osi \<Rightarrow> (ptr \<times> osi) option" where
  "submit_work cb work arg len callback a d s = do {
     let s = Slock_object callback s;
     s \<leftarrow> store a (Database (d\<lparr>d_async_data := Some cb, d_busy := True, d_work := Some work, d_callback := callback,
                                d_arg := arg, d_sql_len := len,
                                d_thread := (if d_thread d = Waiting then At_top else d_thread d)\<rparr>)) s;
     Some (Strue, s)
   }"

text \<open>The start of every completion: the structure is idle again and the callback unlocked.\<close>

definition finish_work :: "db_union \<Rightarrow> uptr \<Rightarrow> database_t \<Rightarrow> osi \<Rightarrow> osi option" where
  "finish_work arg a d s = do {
     s \<leftarrow> store a (Database (d\<lparr>d_busy := False, d_callback := Svoid, d_arg := arg\<rparr>)) s;
     Sunlock_object (d_callback d) s
   }"

section \<open>Closing\<close>

text \<open>
  The loop over the statements of a database. It follows pointers that other operations maintain, so
  that it ends is a theorem about those operations.
\<close>

partial_function (option) close_loop :: "uptr \<Rightarrow> osi \<Rightarrow> osi option" where
  "close_loop a s =
     Option.bind (load_db a s) (\<lambda>d.
       if d_statement d = 0 then Some s
       else Option.bind (load_stmt (d_statement d) s) (\<lambda>st.
         Option.bind (store a (Database (d\<lparr>d_statement := st_next st\<rparr>)) s) (\<lambda>s.
           Option.bind (sqlite3_finalize (st_stmt st) s) (\<lambda>s.
             Option.bind (store (d_statement d) (Statement \<lparr>st_stmt = 0, st_database = 0, st_prev = 0, st_next = 0\<rparr>) s) (\<lambda>s.
               close_loop a s)))))"

definition close_worker :: "env \<Rightarrow> uptr \<Rightarrow> osi \<Rightarrow> osi option" where
  "close_worker E a s = do {
     s \<leftarrow> close_loop a s;
     d \<leftarrow> load_db a s;
     (rc, s) \<leftarrow> sqlite3_close E (d_db d) s;
     store a (Database (d\<lparr>d_sqlite_rc := rc\<rparr>)) s
   }"

definition close_cb :: "env \<Rightarrow> u8 list \<Rightarrow> uptr \<Rightarrow> osi \<Rightarrow> osi option" where
  "close_cb E msg a s = do {
     d \<leftarrow> load_db a s;
     let callback = d_callback d;
     s \<leftarrow> finish_work (d_arg d) a d s;
     let rc = d_sqlite_rc d;
     if rc = SQLITE_OK then do {
       let s = uv_void (Hnd (Uv_thread_join a)) s;
       let s = uv_void (Hnd (Uv_cond_destroy a)) s;
       let s = uv_void (Hnd (Uv_mutex_destroy a)) s;
       s \<leftarrow> uv_close a Close_free_cb s;
       osi_add_callback1 callback Strue s
     } else do {
       e \<leftarrow> make_sqlite_error E ''sqlite3_close'' rc (d_db d) msg s;
       osi_add_callback1 callback e s
     }
   }"

definition osi_close_database :: "env \<Rightarrow> uptr \<Rightarrow> ptr \<Rightarrow> osi \<Rightarrow> (ptr \<times> osi) option" where
  "osi_close_database E database callback s = do {
     d \<leftarrow> load_db database s;
     if d_busy d then Some (osi_make_error_pair ''osi_close_database'' (uv_errno E EBUSY), s)
     else submit_work Close_cb Close_worker (d_arg d) (d_sql_len d) callback database d s
   }"

section \<open>Statements\<close>

text \<open>\<open>got\<close> says whether the text contained a statement: for an empty text SQLite stores a null pointer.\<close>

definition prepare_worker :: "env \<Rightarrow> bool \<Rightarrow> uptr \<Rightarrow> osi \<Rightarrow> osi option" where
  "prepare_worker E got a s = do {
     d \<leftarrow> load_db a s;
     sql \<leftarrow> (case d_arg d of Db_sql p \<Rightarrow> c_bytes p (of_int (d_sql_len d)) s | _ \<Rightarrow> None);
     (rc, s) \<leftarrow> db_do E (\<lambda>db. Sqlite3_prepare_v2 db sql) (d_db d) s;
     if rc = SQLITE_OK then do {
       let stmt = (if got then length (calls s) else 0);
       let s = (if got then s\<lparr>sqlite_objs := insert stmt (sqlite_objs s)\<rparr> else s);
       let (st, s) = malloc_container E s;
       if st \<noteq> 0 then do {
         s \<leftarrow> store st (Statement \<lparr>st_stmt = stmt, st_database = a, st_prev = 0, st_next = d_statement d\<rparr>) s;
         s \<leftarrow> (if d_statement d \<noteq> 0 then do {
                 old \<leftarrow> load_stmt (d_statement d) s;
                 store (d_statement d) (Statement (old\<lparr>st_prev := st\<rparr>)) s
               } else Some s);
         store a (Database (d\<lparr>d_statement := st, d_sqlite_rc := rc\<rparr>)) s
       } else do {
         s \<leftarrow> sqlite3_finalize stmt s;
         store a (Database (d\<lparr>d_sqlite_rc := SQLITE_NOMEM\<rparr>)) s
       }
     } else store a (Database (d\<lparr>d_sqlite_rc := rc\<rparr>)) s
   }"

definition prepare_cb :: "env \<Rightarrow> u8 list \<Rightarrow> uptr \<Rightarrow> osi \<Rightarrow> osi option" where
  "prepare_cb E msg a s = do {
     d \<leftarrow> load_db a s;
     let callback = d_callback d;
     s \<leftarrow> (case d_arg d of Db_sql p \<Rightarrow> c_free p s | Db_null \<Rightarrow> Some s | _ \<Rightarrow> None);
     s \<leftarrow> finish_work Db_null a (d\<lparr>d_sql_len := 0\<rparr>) s;
     let rc = d_sqlite_rc d;
     if rc = SQLITE_OK then osi_add_callback1 callback (Sunsigned (d_statement d)) s
     else do {
       e \<leftarrow> make_sqlite_error E ''sqlite3_prepare_v2'' rc (d_db d) msg s;
       osi_add_callback1 callback e s
     }
   }"

definition osi_prepare_statement :: "env \<Rightarrow> uptr \<Rightarrow> ptr \<Rightarrow> ptr \<Rightarrow> osi \<Rightarrow> (ptr \<times> osi) option" where
  "osi_prepare_statement E database sql callback s = do {
     d \<leftarrow> load_db database s;
     if d_busy d then Some (osi_make_error_pair ''osi_prepare_statement'' (uv_errno E EBUSY), s)
     else case sql of
       Sstring str \<Rightarrow>
         (let (utf8, s) = malloc_container E s
          in do {
            (r, len) \<leftarrow> osi_string_to_utf8 (utf8 \<noteq> 0) str;
            case r of
              None \<Rightarrow> Some (osi_make_error_pair ''osi_prepare_statement'' (uv_errno E ENOMEM), s)
            | Some text \<Rightarrow> do {
                s \<leftarrow> store utf8 (C_string text) s;
                if len > 0x7fffffff then do {
                  s \<leftarrow> c_free utf8 s;
                  Some (osi_make_error_pair ''sqlite3_prepare_v2'' (TRANSLATE_SQLITE_ERRNO SQLITE_TOOBIG), s)
                } else submit_work Prepare_cb Prepare_worker (Db_sql utf8) (uint len) callback database d s
              }
          })
     | _ \<Rightarrow> Some (osi_make_error_pair ''osi_prepare_statement'' (uv_errno E EINVAL), s)
   }"

text \<open>
  \<^verbatim>\<open>osi_finalize_statement\<close> in two halves: the test whether the database is gone, and the rest, which
  reads the field again.
\<close>

definition unlink_statement :: "uptr \<Rightarrow> osi \<Rightarrow> osi option" where
  "unlink_statement statement s = do {
     st \<leftarrow> load_stmt statement s;
     s \<leftarrow> (if st_prev st \<noteq> 0 then do {
             p \<leftarrow> load_stmt (st_prev st) s;
             store (st_prev st) (Statement (p\<lparr>st_next := st_next st\<rparr>)) s
           } else do {
             d \<leftarrow> load_db (st_database st) s;
             store (st_database st) (Database (d\<lparr>d_statement := st_next st\<rparr>)) s
           });
     if st_next st \<noteq> 0 then do {
       n \<leftarrow> load_stmt (st_next st) s;
       store (st_next st) (Statement (n\<lparr>st_prev := st_prev st\<rparr>)) s
     } else Some s
   }"

definition finalize_attached :: "env \<Rightarrow> uptr \<Rightarrow> osi \<Rightarrow> (ptr \<times> osi) option" where
  "finalize_attached E statement s = do {
     st \<leftarrow> load_stmt statement s;
     d \<leftarrow> load_db (st_database st) s;
     if d_busy d then Some (osi_make_error_pair ''osi_finalize_statement'' (uv_errno E EBUSY), s)
     else do {
       s \<leftarrow> sqlite3_finalize (st_stmt st) s;
       s \<leftarrow> unlink_statement statement s;
       s \<leftarrow> c_free statement s;
       Some (Strue, s)
     }
   }"

definition osi_finalize_statement :: "env \<Rightarrow> uptr \<Rightarrow> osi \<Rightarrow> (ptr \<times> osi) option" where
  "osi_finalize_statement E statement s = do {
     st \<leftarrow> load_stmt statement s;
     if st_database st = 0 then do { s \<leftarrow> c_free statement s; Some (Strue, s) }
     else finalize_attached E statement s
   }"

section \<open>Operations on an idle statement\<close>

text \<open>The guard all of them start with: the database must exist and must not be busy.\<close>

definition idle_statement :: "env \<Rightarrow> string \<Rightarrow> uptr \<Rightarrow> osi \<Rightarrow> (ptr + statement_t \<times> database_t) option" where
  "idle_statement E who statement s = do {
     st \<leftarrow> load_stmt statement s;
     if st_database st = 0 then Some (Inl (osi_make_error_pair who (uv_errno E EINVAL)))
     else do {
       d \<leftarrow> load_db (st_database st) s;
       if d_busy d then Some (Inl (osi_make_error_pair who (uv_errno E EBUSY))) else Some (Inr (st, d))
     }
   }"

text \<open>The result of a call that returns a status.\<close>

definition sqlite_result :: "env \<Rightarrow> string \<Rightarrow> u8 list \<Rightarrow> database_t \<Rightarrow> int \<Rightarrow> osi \<Rightarrow> (ptr \<times> osi) option" where
  "sqlite_result E who msg d rc s =
     (if rc \<noteq> SQLITE_OK then do { e \<leftarrow> make_sqlite_error E who rc (d_db d) msg s; Some (e, s) } else Some (Strue, s))"

text \<open>
  SQLite frees a text with the destructor it is given, \<^verbatim>\<open>free\<close>, also when it reports an error: the block is
  gone from the heap of this program with the call.
\<close>

definition osi_bind_statement :: "env \<Rightarrow> (int \<Rightarrow> u64 option) \<Rightarrow> u8 list \<Rightarrow> uptr \<Rightarrow> int \<Rightarrow> ptr \<Rightarrow> osi \<Rightarrow> (ptr \<times> osi) option" where
  "osi_bind_statement E try64 msg statement index datum s = do {
     g \<leftarrow> idle_statement E ''osi_bind_statement'' statement s;
     case g of Inl e \<Rightarrow> Some (e, s)
     | Inr (st, d) \<Rightarrow>
         (let bind = (\<lambda>who v s. do {
                (rc, s) \<leftarrow> stmt_do E (\<lambda>h. Sqlite3_bind h index v) (st_stmt st) s;
                sqlite_result E who msg d rc s
              })
          in case datum of
            Sfalse \<Rightarrow> bind ''sqlite3_bind_null'' Value_null s
          | Sinteger n \<Rightarrow>
              (case try64 n of Some v \<Rightarrow> bind ''sqlite3_bind_int64'' (Value_int64 v) s
               | None \<Rightarrow> Some (osi_make_error_pair ''osi_bind_statement'' (uv_errno E EINVAL), s))
          | Sflonum x \<Rightarrow> bind ''sqlite3_bind_double'' (Value_double x) s
          | Sstring str \<Rightarrow>
              (let (utf8, s) = malloc_container E s
               in do {
                 (r, len) \<leftarrow> osi_string_to_utf8 (utf8 \<noteq> 0) str;
                 case r of
                   None \<Rightarrow> Some (osi_make_error_pair ''osi_bind_statement'' (uv_errno E ENOMEM), s)
                 | Some text \<Rightarrow> do {
                     s \<leftarrow> c_free utf8 s;
                     bind ''sqlite3_bind_text64'' (Value_text (take (unat len) text)) s
                   }
               })
          | Sbytevector i \<Rightarrow> bind ''sqlite3_bind_blob64'' (Value_blob (bytevectors s i)) s
          | _ \<Rightarrow> Some (osi_make_error_pair ''osi_bind_statement'' (uv_errno E EINVAL), s))
   }"

definition osi_bind_statement_bindings :: "env \<Rightarrow> u8 list \<Rightarrow> uptr \<Rightarrow> uptr \<Rightarrow> osi \<Rightarrow> (ptr \<times> osi) option" where
  "osi_bind_statement_bindings E msg statement mbindings s = do {
     g \<leftarrow> idle_statement E ''osi_bind_statement_bindings'' statement s;
     case g of Inl e \<Rightarrow> Some (e, s)
     | Inr (st, d) \<Rightarrow> do {
         ((rc, who), s) \<leftarrow> bind_bindings E (st_stmt st) mbindings s;
         if rc \<noteq> SQLITE_OK then do {
           who \<leftarrow> who;
           e \<leftarrow> make_sqlite_error E who rc (d_db d) msg s;
           Some (e, s)
         } else Some (Strue, s)
       }
   }"

definition osi_clear_statement_bindings :: "env \<Rightarrow> u8 list \<Rightarrow> uptr \<Rightarrow> osi \<Rightarrow> (ptr \<times> osi) option" where
  "osi_clear_statement_bindings E msg statement s = do {
     g \<leftarrow> idle_statement E ''osi_clear_statement_bindings'' statement s;
     case g of Inl e \<Rightarrow> Some (e, s)
     | Inr (st, d) \<Rightarrow> do {
         (rc, s) \<leftarrow> stmt_do E Sqlite3_clear_bindings (st_stmt st) s;
         sqlite_result E ''osi_clear_statement_bindings'' msg d rc s
       }
   }"

definition osi_reset_statement :: "env \<Rightarrow> u8 list \<Rightarrow> uptr \<Rightarrow> osi \<Rightarrow> (ptr \<times> osi) option" where
  "osi_reset_statement E msg statement s = do {
     g \<leftarrow> idle_statement E ''osi_reset_statement'' statement s;
     case g of Inl e \<Rightarrow> Some (e, s)
     | Inr (st, d) \<Rightarrow> do {
         (rc, s) \<leftarrow> stmt_do E Sqlite3_reset (st_stmt st) s;
         sqlite_result E ''sqlite3_reset'' msg d rc s
       }
   }"

text \<open>\<open>names\<close> are the column names, \<open>sql\<close> the expanded text or \<^const>\<open>None\<close> when SQLite is out of memory.\<close>

definition osi_get_statement_columns :: "env \<Rightarrow> u8 list list \<Rightarrow> uptr \<Rightarrow> osi \<Rightarrow> (ptr \<times> osi) option" where
  "osi_get_statement_columns E names statement s = do {
     g \<leftarrow> idle_statement E ''osi_get_statement_columns'' statement s;
     case g of Inl e \<Rightarrow> Some (e, s)
     | Inr (st, d) \<Rightarrow>
         if st_stmt st \<noteq> 0 \<and> st_stmt st \<notin> sqlite_objs s then None
         else Some (Svector (map (Sstring_utf8 E) names), s)
   }"

definition osi_get_statement_expanded_sql :: "env \<Rightarrow> u8 list option \<Rightarrow> uptr \<Rightarrow> osi \<Rightarrow> (ptr \<times> osi) option" where
  "osi_get_statement_expanded_sql E sql statement s = do {
     g \<leftarrow> idle_statement E ''osi_get_statement_expanded_sql'' statement s;
     case g of Inl e \<Rightarrow> Some (e, s)
     | Inr (st, d) \<Rightarrow>
         if st_stmt st \<noteq> 0 \<and> st_stmt st \<notin> sqlite_objs s then None
         else case sql of
           None \<Rightarrow> Some (osi_make_error_pair ''osi_get_statement_expanded_sql'' (uv_errno E ENOMEM), s)
         | Some t \<Rightarrow> Some (Sstring_utf8 E t, s)
   }"

section \<open>Operations on a database\<close>

definition osi_get_last_insert_rowid :: "env \<Rightarrow> u64 \<Rightarrow> uptr \<Rightarrow> osi \<Rightarrow> (ptr \<times> osi) option" where
  "osi_get_last_insert_rowid E rowid database s = do {
     d \<leftarrow> load_db database s;
     if d_busy d then Some (osi_make_error_pair ''osi_get_last_insert_rowid'' (uv_errno E EBUSY), s)
     else if d_db d \<notin> sqlite_objs s then None
     else Some (Sinteger64 rowid, s)
   }"

definition osi_interrupt_database :: "env \<Rightarrow> uptr \<Rightarrow> osi \<Rightarrow> (ptr \<times> osi) option" where
  "osi_interrupt_database E database s = do {
     d \<leftarrow> load_db database s;
     (_, s) \<leftarrow> db_do E Sqlite3_interrupt (d_db d) s;
     Some (if d_busy d then Strue else Sfalse, s)
   }"

definition osi_get_sqlite_status :: "env \<Rightarrow> u64 \<Rightarrow> u64 \<Rightarrow> int \<Rightarrow> int \<Rightarrow> osi \<Rightarrow> ptr \<times> osi" where
  "osi_get_sqlite_status E current highwater operation resetp s =
     (let (rc, s) = uv_do E (Sql (Sqlite3_status64 operation resetp)) s
      in (if rc \<noteq> SQLITE_OK then osi_make_error_pair ''sqlite3_status'' (TRANSLATE_SQLITE_ERRNO rc)
          else Svector [Sinteger64 current, Sinteger64 highwater], s))"

section \<open>Stepping\<close>

definition step_worker :: "env \<Rightarrow> uptr \<Rightarrow> osi \<Rightarrow> osi option" where
  "step_worker E a s = do {
     d \<leftarrow> load_db a s;
     stmt \<leftarrow> (case d_arg d of Db_stmt h \<Rightarrow> Some h | Db_null \<Rightarrow> Some 0 | _ \<Rightarrow> None);
     (rc, s) \<leftarrow> stmt_do E Sqlite3_step stmt s;
     store a (Database (d\<lparr>d_sqlite_rc := rc\<rparr>)) s
   }"

text \<open>The columns of the row; new bytevectors are numbered from \<open>i\<close> on.\<close>

fun column_value :: "env \<Rightarrow> nat \<Rightarrow> sqlite_value \<Rightarrow> osi \<Rightarrow> ptr \<times> osi" where
  "column_value E i Value_null s = (Sfalse, s)"
| "column_value E i (Value_int64 v) s = (Sinteger64 v, s)"
| "column_value E i (Value_double x) s = (Sflonum x, s)"
| "column_value E i (Value_text bs) s = (Sstring_utf8 E bs, s)"
| "column_value E i (Value_blob bs) s = (Sbytevector i, s\<lparr>bytevectors := (bytevectors s)(i := bs)\<rparr>)"

fun row_loop :: "env \<Rightarrow> nat \<Rightarrow> sqlite_value list \<Rightarrow> osi \<Rightarrow> ptr list \<times> osi" where
  "row_loop E i [] s = ([], s)"
| "row_loop E i (v # vs) s =
     (let (x, s) = column_value E i v s; (xs, s) = row_loop E (Suc i) vs s in (x # xs, s))"

definition step_cb :: "env \<Rightarrow> nat \<Rightarrow> sqlite_value list \<Rightarrow> u8 list \<Rightarrow> uptr \<Rightarrow> osi \<Rightarrow> osi option" where
  "step_cb E i row msg a s = do {
     d \<leftarrow> load_db a s;
     let callback = d_callback d;
     stmt \<leftarrow> (case d_arg d of Db_stmt h \<Rightarrow> Some h | Db_null \<Rightarrow> Some 0 | _ \<Rightarrow> None);
     s \<leftarrow> finish_work Db_null a d s;
     let rc = d_sqlite_rc d;
     (arg, s) \<leftarrow>
       (if rc = SQLITE_DONE then Some (Sfalse, s)
        else if rc = SQLITE_ROW then
          if stmt \<noteq> 0 \<and> stmt \<notin> sqlite_objs s then None
          else let (xs, s) = row_loop E i row s in Some (Svector xs, s)
        else do { e \<leftarrow> make_sqlite_error E ''sqlite3_step'' rc (d_db d) msg s; Some (e, s) });
     osi_add_callback1 callback arg s
   }"

definition osi_step_statement :: "env \<Rightarrow> uptr \<Rightarrow> ptr \<Rightarrow> osi \<Rightarrow> (ptr \<times> osi) option" where
  "osi_step_statement E statement callback s = do {
     g \<leftarrow> idle_statement E ''osi_step_statement'' statement s;
     case g of Inl e \<Rightarrow> Some (e, s)
     | Inr (st, d) \<Rightarrow> submit_work Step_cb Step_worker (Db_stmt (st_stmt st)) (d_sql_len d) callback (st_database st) d s
   }"

section \<open>Bulk execution\<close>

text \<open>One statement with its bindings; the flag says whether the loop goes on.\<close>

definition bulk_step :: "env \<Rightarrow> uptr \<Rightarrow> uptr \<Rightarrow> uptr \<Rightarrow> bulk_t \<Rightarrow> osi \<Rightarrow> (int \<times> bool \<times> osi) option" where
  "bulk_step E statement mbindings b bulk s = do {
     st \<leftarrow> load_stmt statement s;
     (_, s) \<leftarrow> stmt_do E Sqlite3_reset (st_stmt st) s;
     ((rc, who), s) \<leftarrow> bind_bindings E (st_stmt st) mbindings s;
     s \<leftarrow> store b (Bulk (bulk\<lparr>bulk_who := who\<rparr>)) s;
     if rc \<noteq> SQLITE_OK then Some (rc, False, s)
     else do {
       (rc, s) \<leftarrow> stmt_do E Sqlite3_step (st_stmt st) s;
       if rc = SQLITE_OK \<or> rc = SQLITE_DONE \<or> rc = SQLITE_ROW then do {
         (_, s) \<leftarrow> stmt_do E Sqlite3_clear_bindings (st_stmt st) s;
         (_, s) \<leftarrow> stmt_do E Sqlite3_reset (st_stmt st) s;
         Some (SQLITE_OK, True, s)
       } else Some (rc, False, s)
     }
   }"

fun bulk_loop :: "env \<Rightarrow> (uptr \<times> uptr) list \<Rightarrow> uptr \<Rightarrow> bulk_t \<Rightarrow> osi \<Rightarrow> (int \<times> osi) option" where
  "bulk_loop E [] b bulk s = Some (SQLITE_OK, s)"
| "bulk_loop E ((st, mb) # work) b bulk s = do {
     (rc, more, s) \<leftarrow> bulk_step E st mb b bulk s;
     if more then bulk_loop E work b bulk s else Some (rc, s)
   }"

definition bulk_worker :: "env \<Rightarrow> uptr \<Rightarrow> osi \<Rightarrow> osi option" where
  "bulk_worker E a s = do {
     d \<leftarrow> load_db a s;
     b \<leftarrow> (case d_arg d of Db_bulk b \<Rightarrow> Some b | _ \<Rightarrow> None);
     bulk \<leftarrow> load_bulk b s;
     statements \<leftarrow> load_pointers (bulk_statements bulk) s;
     bindings \<leftarrow> load_pointers (bulk_mbindings bulk) s;
     if bulk_count bulk \<noteq> length statements \<or> bulk_count bulk \<noteq> length bindings then None
     else do {
       (rc, s) \<leftarrow> bulk_loop E (zip statements bindings) b bulk s;
       store a (Database (d\<lparr>d_sqlite_rc := rc\<rparr>)) s
     }
   }"

definition bulk_cb :: "env \<Rightarrow> u8 list \<Rightarrow> uptr \<Rightarrow> osi \<Rightarrow> osi option" where
  "bulk_cb E msg a s = do {
     d \<leftarrow> load_db a s;
     let callback = d_callback d;
     b \<leftarrow> (case d_arg d of Db_bulk b \<Rightarrow> Some b | _ \<Rightarrow> None);
     s \<leftarrow> finish_work Db_null a d s;
     bulk \<leftarrow> load_bulk b s;
     let who = bulk_who bulk;
     s \<leftarrow> c_free (bulk_mbindings bulk) s;
     s \<leftarrow> c_free (bulk_statements bulk) s;
     s \<leftarrow> c_free b s;
     let rc = d_sqlite_rc d;
     arg \<leftarrow>
       (if rc = SQLITE_OK \<or> rc = SQLITE_DONE \<or> rc = SQLITE_ROW then Some Strue
        else make_sqlite_error E (case who of Some w \<Rightarrow> w | None \<Rightarrow> ''osi_bulk_execute'') rc (d_db d) msg s);
     osi_add_callback1 callback arg s
   }"

text \<open>The addresses in a vector; anything else in it is an error of the caller.\<close>

fun vector_pointers :: "ptr list \<Rightarrow> uptr list option" where
  "vector_pointers [] = Some []"
| "vector_pointers (Sinteger n # xs) = (if 0 \<le> n then map_option ((#) (nat n)) (vector_pointers xs) else None)"
| "vector_pointers (_ # xs) = None"

definition fill_bulk :: "env \<Rightarrow> ptr list \<Rightarrow> ptr list \<Rightarrow> ptr \<Rightarrow> uptr \<Rightarrow> database_t \<Rightarrow> osi \<Rightarrow> (ptr \<times> osi) option" where
  "fill_bulk E statements mbindings callback a d s =
     (let (b, s) = malloc_container E s
      in if b = 0 then Some (osi_make_error_pair ''osi_bulk_execute'' (uv_errno E ENOMEM), s)
      else let (ss, s) = malloc_container E s
      in if ss = 0 then do {
        s \<leftarrow> c_free b s;
        Some (osi_make_error_pair ''osi_bulk_execute'' (uv_errno E ENOMEM), s)
      } else let (ms, s) = malloc_container E s
      in if ms = 0 then do {
        s \<leftarrow> c_free ss s;
        s \<leftarrow> c_free b s;
        Some (osi_make_error_pair ''osi_bulk_execute'' (uv_errno E ENOMEM), s)
      } else do {
        ps \<leftarrow> vector_pointers statements;
        qs \<leftarrow> vector_pointers mbindings;
        s \<leftarrow> store ss (Pointers ps) s;
        s \<leftarrow> store ms (Pointers qs) s;
        s \<leftarrow> store b (Bulk \<lparr>bulk_count = length statements, bulk_statements = ss, bulk_mbindings = ms, bulk_who = None\<rparr>) s;
        submit_work Bulk_cb Bulk_worker (Db_bulk b) (d_sql_len d) callback a d s
      })"

definition osi_bulk_execute :: "env \<Rightarrow> ptr \<Rightarrow> ptr \<Rightarrow> ptr \<Rightarrow> osi \<Rightarrow> (ptr \<times> osi) option" where
  "osi_bulk_execute E statements mbindings callback s =
     (case (statements, mbindings) of
        (Svector ss, Svector ms) \<Rightarrow>
          if length ss \<noteq> length ms \<or> length ss < 1
          then Some (osi_make_error_pair ''osi_bulk_execute'' (uv_errno E EINVAL), s)
          else do {
            ps \<leftarrow> vector_pointers [hd ss];
            g \<leftarrow> idle_statement E ''osi_bulk_execute'' (hd ps) s;
            case g of Inl e \<Rightarrow> Some (e, s)
            | Inr (st, d) \<Rightarrow> fill_bulk E ss ms callback (st_database st) d s
          }
      | _ \<Rightarrow> Some (osi_make_error_pair ''osi_bulk_execute'' (uv_errno E EINVAL), s))"

end
