(* ===== verification/Sqlite_Statements.thy ===== *)
theory Sqlite_Statements
  imports Sqlite_Db
begin

text \<open>
  The statements of a database form a doubly linked list in the C heap. The theory relates the list to
  its abstraction, a HOL list of addresses, and shows what preparing, finalizing and closing do to it.
\<close>

section \<open>Doubly linked lists\<close>

text \<open>
  A segment of the list of database \<open>a\<close>: it starts at \<open>q\<close>, whose predecessor is \<open>p\<close>, runs through
  \<open>xs\<close>, and ends with \<open>r\<close> as the last element before \<open>t\<close>.
\<close>

fun seg :: "(uptr \<Rightarrow> cobj option) \<Rightarrow> uptr \<Rightarrow> uptr \<Rightarrow> uptr \<Rightarrow> uptr list \<Rightarrow> uptr \<Rightarrow> uptr \<Rightarrow> bool" where
  "seg h a p q [] r t \<longleftrightarrow> p = r \<and> q = t"
| "seg h a p q (x # xs) r t \<longleftrightarrow>
     q = x \<and> x \<noteq> 0 \<and> (\<exists>st. h x = Some (Statement st) \<and> st_database st = a \<and> st_prev st = p \<and> seg h a x (st_next st) xs r t)"

lemma seg_append: "seg h a p q (xs @ ys) r t \<longleftrightarrow> (\<exists>r' t'. seg h a p q xs r' t' \<and> seg h a r' t' ys r t)"
  by (induction xs arbitrary: p q) auto

lemma seg_cong: "(\<And>x. x \<in> set xs \<Longrightarrow> h' x = h x) \<Longrightarrow> seg h' a p q xs r t \<longleftrightarrow> seg h a p q xs r t"
  by (induction xs arbitrary: p q) auto

lemma seg_upd [simp]: "y \<notin> set xs \<Longrightarrow> seg (h(y := z)) a p q xs r t \<longleftrightarrow> seg h a p q xs r t"
  by (rule seg_cong) auto

lemma seg_stmt: "seg h a p q xs r t \<Longrightarrow> x \<in> set xs \<Longrightarrow> \<exists>st. h x = Some (Statement st) \<and> st_database st = a \<and> x \<noteq> 0"
  by (induction xs arbitrary: p q) auto

lemma seg_snoc:
  "seg h a p q (xs @ [x]) r t \<longleftrightarrow> r = x \<and> x \<noteq> 0 \<and> (\<exists>st. h x = Some (Statement st) \<and> st_database st = a
     \<and> st_next st = t \<and> seg h a p q xs (st_prev st) x)"
  by (auto simp: seg_append)

text \<open>The SQLite statements behind the elements; a statement prepared from an empty text has none.\<close>

definition handle :: "(uptr \<Rightarrow> cobj option) \<Rightarrow> uptr \<Rightarrow> nat" where
  "handle h x = (case h x of Some (Statement st) \<Rightarrow> st_stmt st | _ \<Rightarrow> 0)"

definition handles :: "(uptr \<Rightarrow> cobj option) \<Rightarrow> uptr list \<Rightarrow> nat list" where
  "handles h xs = filter (\<lambda>n. n \<noteq> 0) (map (handle h) xs)"

lemma handles_simps [simp]:
  "handles h [] = []"
  "handles h (xs @ ys) = handles h xs @ handles h ys"
  "handles h (x # xs) = (if handle h x = 0 then [] else [handle h x]) @ handles h xs"
  by (simp_all add: handles_def)

lemma handles_cong: "(\<And>x. x \<in> set xs \<Longrightarrow> handle h' x = handle h x) \<Longrightarrow> handles h' xs = handles h xs"
  by (induction xs) auto

lemma handle_upd [simp]: "handle (h(y := z)) x = (if x = y then (case z of Some (Statement st) \<Rightarrow> st_stmt st | _ \<Rightarrow> 0) else handle h x)"
  by (simp add: handle_def)

lemma handles_upd [simp]: "y \<notin> set xs \<Longrightarrow> handles (h(y := z)) xs = handles h xs"
  by (rule handles_cong) auto

section \<open>Closing\<close>

abbreviation null_statement :: statement_t where
  "null_statement \<equiv> \<lparr>st_stmt = 0, st_database = 0, st_prev = 0, st_next = 0\<rparr>"

text \<open>The heap after the loop: the statements stay allocated, emptied, for Scheme to free.\<close>

definition detached :: "uptr list \<Rightarrow> uptr \<Rightarrow> database_t \<Rightarrow> (uptr \<Rightarrow> cobj option) \<Rightarrow> uptr \<Rightarrow> cobj option" where
  "detached xs a d h = (\<lambda>b. if b \<in> set xs then Some (Statement null_statement)
                            else if b = a then Some (Database (d\<lparr>d_statement := 0\<rparr>)) else h b)"

lemma sqlite3_finalize_handle:
  assumes "heap s x = Some (Statement st)" and "set (handles (heap s) [x]) \<subseteq> sqlite_objs s"
  shows "sqlite3_finalize (st_stmt st) s = Some (s\<lparr>calls := calls s @ map (Sql \<circ> Sqlite3_finalize) (handles (heap s) [x]),
      sqlite_objs := sqlite_objs s - set (handles (heap s) [x])\<rparr>)"
  using assms by (simp add: sqlite3_finalize_def handle_def split: if_splits)

lemma close_loop_spec:
  assumes "heap s a = Some (Database d)" and "seg (heap s) a p (d_statement d) xs r 0" and "distinct xs"
    and "distinct (handles (heap s) xs)" and "set (handles (heap s) xs) \<subseteq> sqlite_objs s"
  shows "close_loop a s = Some (s\<lparr>heap := detached xs a d (heap s),
      calls := calls s @ map (Sql \<circ> Sqlite3_finalize) (handles (heap s) xs),
      sqlite_objs := sqlite_objs s - set (handles (heap s) xs)\<rparr>)"
  using assms
proof (induction xs arbitrary: s d p)
  case Nil
  have "detached [] a d (heap s) = heap s" using Nil.prems(1,2) by (auto simp: detached_def fun_eq_iff)
  then show ?case using Nil.prems(1,2) by (subst close_loop.simps) (simp add: load_db_def)
next
  case (Cons x xs)
  obtain st where st: "d_statement d = x" "x \<noteq> 0" "heap s x = Some (Statement st)" "seg (heap s) a x (st_next st) xs r 0"
    using Cons.prems(2) by auto
  have xa: "x \<noteq> a" using st(3) Cons.prems(1) by auto
  have axs: "a \<notin> set xs" using seg_stmt [OF st(4), of a] Cons.prems(1) by auto
  let ?s1 = "s\<lparr>heap := (heap s)(a \<mapsto> Database (d\<lparr>d_statement := st_next st\<rparr>))\<rparr>"
  let ?s2 = "?s1\<lparr>calls := calls s @ map (Sql \<circ> Sqlite3_finalize) (handles (heap s) [x]),
      sqlite_objs := sqlite_objs s - set (handles (heap s) [x])\<rparr>"
  let ?s3 = "?s2\<lparr>heap := (heap ?s2)(x \<mapsto> Statement null_statement)\<rparr>"
  have fin: "sqlite3_finalize (st_stmt st) ?s1 = Some ?s2"
    using sqlite3_finalize_handle [of ?s1 x st] st(3) xa Cons.prems(5) by auto
  have hs: "handles (heap ?s3) xs = handles (heap s) xs" using Cons.prems(3) axs by simp
  have "close_loop a ?s3 = Some (?s3\<lparr>heap := detached xs a (d\<lparr>d_statement := st_next st\<rparr>) (heap ?s3),
      calls := calls ?s3 @ map (Sql \<circ> Sqlite3_finalize) (handles (heap ?s3) xs),
      sqlite_objs := sqlite_objs ?s3 - set (handles (heap ?s3) xs)\<rparr>)"
  proof (rule Cons.IH [where p = x])
    show "seg (heap ?s3) a x (d_statement (d\<lparr>d_statement := st_next st\<rparr>)) xs r 0"
      using st(4) Cons.prems(3) axs by simp
    show "set (handles (heap ?s3) xs) \<subseteq> sqlite_objs ?s3"
      unfolding hs using Cons.prems(4,5) by auto
    show "distinct (handles (heap ?s3) xs)" unfolding hs using Cons.prems(4) by simp
  qed (use Cons.prems(3) xa in auto)
  moreover have "close_loop a s = close_loop a ?s3"
    using Cons.prems(1) st xa fin by (subst close_loop.simps) (simp add: load_db_def load_stmt_def store_def)
  moreover have "detached xs a (d\<lparr>d_statement := st_next st\<rparr>) (heap ?s3) = detached (x # xs) a d (heap s)"
    using xa by (auto simp: detached_def fun_eq_iff)
  ultimately show ?case unfolding hs by (simp add: Diff_eq Int_assoc Compl_Un)
qed

section \<open>Updates that leave ownership alone\<close>

text \<open>Two structures that hold, owe and refer to the same.\<close>

definition similar :: "cobj \<Rightarrow> cobj \<Rightarrow> bool" where
  "similar x y \<longleftrightarrow> obj_held y = obj_held x \<and> obj_owed y = obj_owed x \<and> port_kind y = port_kind x
     \<and> obj_link y = obj_link x \<and> (obj_ok x \<longrightarrow> obj_ok y) \<and> (\<forall>cb. closes cb x \<longrightarrow> closes cb y)"

lemma similar_refl [simp]: "similar x x"
  by (simp add: similar_def)

lemma similar_statement [simp]: "similar (Statement st) (Statement st')"
  by (simp add: similar_def)

lemma closes_database [simp]: "closes cb (Database d) \<longleftrightarrow> cb = Close_free_cb \<and> \<not> d_busy d"
  by (cases cb) auto

lemma similar_database [simp]:
  "d_busy d' = d_busy d \<Longrightarrow> d_callback d' = d_callback d \<Longrightarrow> similar (Database d) (Database d')"
  by (simp add: similar_def)

lemma rel_option_similar_refl: "rel_option similar x x"
  by (cases x) simp_all

lemma heap_sum_rel:
  assumes "\<And>y. rel_option similar (h y) (h' y)" and "\<And>x y. similar x y \<Longrightarrow> f y = f x"
  shows "heap_sum f h' = heap_sum f h"
proof -
  have dom: "dom h' = dom h"
    using assms(1) by (auto simp: dom_def) (metis option.rel_distinct option.exhaust)+
  show ?thesis unfolding heap_sum_def dom
  proof (rule sum.cong [OF refl])
    fix b assume "b \<in> dom h"
    then show "f (the (h' b)) = f (the (h b))" using assms(1) [of b] assms(2) by (auto simp: option_rel_Some1)
  qed
qed

lemma osi_inv_similar:
  assumes inv: "osi_inv X s" and rel: "\<And>y. rel_option similar (heap s y) (heap s' y)"
    and "locked s' = locked s" and "mallocs s \<le> mallocs s'" and "closing s' = closing s"
  shows "osi_inv X s'" and "owed s' = owed s"
proof -
  have dom: "dom (heap s') = dom (heap s)"
    using rel by (auto simp: dom_def) (metis option.rel_distinct option.exhaust)+
  have some: "\<exists>z. heap s' y = Some z \<and> similar x z" if "heap s y = Some x" for x y
    using rel [of y] that by (simp add: option_rel_Some1)
  have some': "\<exists>z. heap s y = Some z \<and> similar z x" if "heap s' y = Some x" for x y
    using rel [of y] that by (simp add: option_rel_Some2)
  have links: "links_to (heap s') p k b \<longleftrightarrow> links_to (heap s) p k b" for p k b
    unfolding links_to_def using some [of b] some' [of b] by (auto simp: similar_def)
  show "osi_inv X s'"
  proof (rule osi_invI)
    show "finite (dom (heap s'))" unfolding dom by (rule osi_inv_finite [OF inv])
    show "0 < b \<and> b \<le> mallocs s'" if "b \<in> dom (heap s')" for b
      using osi_inv_addr [OF inv, of b] that assms(4) unfolding dom by auto
    have "\<exists>z. heap s' b = Some z \<and> closes cb z" if "closing s b = Some cb" for b cb
      using closing_ok_closes [OF osi_inv_closing [OF inv] that] some [of b] by (fastforce simp: similar_def)
    then show "closing_ok (closing s') (heap s')"
      using osi_inv_closing [OF inv] unfolding closing_ok_def assms(5) links by blast
    show "heap_ok (heap s')"
    proof (rule heap_okI)
      show "obj_ok x" if "heap s' b = Some x" for b x
        using some' [OF that] heap_ok_obj [OF osi_inv_heap [OF inv]] by (auto simp: similar_def)
      show "\<exists>y. heap s' p = Some y \<and> port_kind y = Some k" if "links_to (heap s') p k b" for b p k
        using heap_ok_port [OF osi_inv_heap [OF inv]] that some unfolding links by (fastforce simp: similar_def)
      show "c = b" if "links_to (heap s') p k b" "links_to (heap s') p k c" for b c p k
        using heap_ok_unique [OF osi_inv_heap [OF inv]] that unfolding links by blast
    qed
    show "locked s' = heap_sum obj_held (heap s') + X"
      unfolding assms(3) osi_inv_locked [OF inv]
      using heap_sum_rel [OF rel, of obj_held] by (simp add: similar_def)
  qed
  show "owed s' = owed s" unfolding owed_def using heap_sum_rel [OF rel, of obj_owed] by (simp add: similar_def)
qed

section \<open>Finalizing\<close>

text \<open>
  Taking an element out of the middle, the front or the back of the list. The neighbours are the only
  other structures that change.
\<close>

lemma unlink_statement_spec:
  assumes d: "heap s a = Some (Database d)" and sg: "seg (heap s) a 0 (d_statement d) (us @ x # vs) r 0"
    and dist: "distinct (us @ x # vs)"
  shows "\<exists>h q r'. unlink_statement x s = Some (s\<lparr>heap := h\<rparr>) \<and> h a = Some (Database (d\<lparr>d_statement := q\<rparr>))
      \<and> seg h a 0 q (us @ vs) r' 0 \<and> (\<forall>y. handle h y = handle (heap s) y) \<and> h x = heap s x
      \<and> (\<forall>y. rel_option similar (heap s y) (h y)) \<and> (\<forall>y. y \<notin> set (us @ vs) \<and> y \<noteq> a \<longrightarrow> h y = heap s y)"
proof -
  obtain p t where us: "seg (heap s) a 0 (d_statement d) us p t" and xvs: "seg (heap s) a p t (x # vs) r 0"
    using sg by (auto simp: seg_append)
  obtain st where st: "heap s x = Some (Statement st)" "st_database st = a" "st_prev st = p" "x \<noteq> 0" "t = x"
    and vs: "seg (heap s) a x (st_next st) vs r 0"
    using xvs by auto
  have a: "a \<notin> set (us @ x # vs)" using seg_stmt [OF sg, of a] d by auto
  \<comment> \<open>the predecessor, or the head pointer of the database\<close>
  have "\<exists>h q. (if st_prev st \<noteq> 0 then do {
             pr \<leftarrow> load_stmt (st_prev st) s;
             store (st_prev st) (Statement (pr\<lparr>st_next := st_next st\<rparr>)) s
           } else do {
             d \<leftarrow> load_db (st_database st) s;
             store (st_database st) (Database (d\<lparr>d_statement := st_next st\<rparr>)) s
           }) = Some (s\<lparr>heap := h\<rparr>) \<and> h a = Some (Database (d\<lparr>d_statement := q\<rparr>)) \<and> seg h a 0 q us p (st_next st)
         \<and> (\<forall>y. handle h y = handle (heap s) y) \<and> (\<forall>y. rel_option similar (heap s y) (h y))
         \<and> (\<forall>y. y \<notin> set us \<and> y \<noteq> a \<longrightarrow> h y = heap s y)"
  proof (cases us rule: rev_cases)
    case Nil
    then have "p = 0" using us by simp
    with Nil show ?thesis using st d a
      by (intro exI [of _ "(heap s)(a \<mapsto> Database (d\<lparr>d_statement := st_next st\<rparr>))"] exI [of _ "st_next st"])
         (auto simp: load_db_def store_def handle_def rel_option_similar_refl)
  next
    case (snoc us' u)
    then obtain su where su: "p = u" "u \<noteq> 0" "heap s u = Some (Statement su)" "st_database su = a"
      "seg (heap s) a 0 (d_statement d) us' (st_prev su) u" using us by (auto simp: seg_snoc)
    let ?h = "(heap s)(u \<mapsto> Statement (su\<lparr>st_next := st_next st\<rparr>))"
    have "seg ?h a 0 (d_statement d) us p (st_next st)"
      using su snoc dist by (simp add: seg_snoc)
    moreover have "?h a = Some (Database (d\<lparr>d_statement := d_statement d\<rparr>))" using d a snoc by simp
    ultimately show ?thesis using st(3) su snoc
      by (intro exI [of _ ?h] exI [of _ "d_statement d"]) (auto simp: load_stmt_def store_def handle_def rel_option_similar_refl)
  qed
  then obtain h1 q where h1: "h1 a = Some (Database (d\<lparr>d_statement := q\<rparr>))" "seg h1 a 0 q us p (st_next st)"
      "\<forall>y. handle h1 y = handle (heap s) y" "\<forall>y. rel_option similar (heap s y) (h1 y)"
      "\<forall>y. y \<notin> set us \<and> y \<noteq> a \<longrightarrow> h1 y = heap s y"
    and unlink: "unlink_statement x s = (if st_next st \<noteq> 0 then do {
           n \<leftarrow> load_stmt (st_next st) (s\<lparr>heap := h1\<rparr>);
           store (st_next st) (Statement (n\<lparr>st_prev := st_prev st\<rparr>)) (s\<lparr>heap := h1\<rparr>)
         } else Some (s\<lparr>heap := h1\<rparr>))"
    using st(1) by (auto simp: unlink_statement_def load_stmt_def)
  show ?thesis
  proof (cases vs)
    case Nil
    then show ?thesis using h1 unlink vs st a dist by (intro exI [of _ h1] exI [of _ q] exI [of _ p]) auto
  next
    case (Cons v vs')
    then obtain sv where sv: "st_next st = v" "v \<noteq> 0" "heap s v = Some (Statement sv)" "st_database sv = a"
      "seg (heap s) a v (st_next sv) vs' r 0" using vs by auto
    have vh: "h1 v = Some (Statement sv)" using h1(5) sv dist a Cons by auto
    let ?h = "h1(v \<mapsto> Statement (sv\<lparr>st_prev := st_prev st\<rparr>))"
    have "seg ?h a 0 q us p v" using h1(2) sv(1) dist Cons by simp
    moreover have "seg ?h a p v vs r 0"
    proof -
      have "seg h1 a v (st_next sv) vs' r 0"
        using sv(5) h1(5) dist a Cons by (subst seg_cong [where h = "heap s"]) auto
      then show ?thesis using Cons sv st(3) dist by simp
    qed
    ultimately have "seg ?h a 0 q (us @ vs) r 0" by (auto simp: seg_append)
    moreover have "rel_option similar (heap s y) (?h y)" for y
      using h1(4) sv(3) by simp
    moreover have "handle ?h y = handle (heap s) y" for y
      using h1(3) sv(3) by (simp add: handle_def)
    moreover have "?h a = Some (Database (d\<lparr>d_statement := q\<rparr>))" using h1(1) a Cons by auto
    moreover have "?h x = heap s x" using h1(5) a dist Cons by auto
    ultimately show ?thesis using unlink sv vh h1(5) Cons
      by (intro exI [of _ ?h] exI [of _ q] exI [of _ r]) (auto simp: load_stmt_def store_def)
  qed
qed

section \<open>The registry of a database\<close>

text \<open>
  The list as a whole: no element twice, no SQLite statement in two elements, and the SQLite objects in
  existence are those of the list and the set \<open>B\<close> of others.
\<close>

definition registry :: "nat set \<Rightarrow> uptr \<Rightarrow> database_t \<Rightarrow> uptr list \<Rightarrow> osi \<Rightarrow> bool" where
  "registry B a d xs s \<longleftrightarrow>
     (\<exists>r. seg (heap s) a 0 (d_statement d) xs r 0) \<and> distinct xs \<and> distinct (handles (heap s) xs)
     \<and> sqlite_objs s = B \<union> set (handles (heap s) xs) \<and> B \<inter> set (handles (heap s) xs) = {}
     \<and> (\<forall>n \<in> sqlite_objs s. n \<le> length (calls s))"

lemma registry_stmt: "registry B a d xs s \<Longrightarrow> x \<in> set xs \<Longrightarrow> \<exists>st. heap s x = Some (Statement st) \<and> st_database st = a \<and> x \<noteq> 0"
  by (auto simp: registry_def dest: seg_stmt)

lemma registry_fresh: "registry B a d xs s \<Longrightarrow> Suc (length (calls s)) \<notin> sqlite_objs s"
  unfolding registry_def by (meson not_less_eq_eq order_refl)

lemma registry_frame:
  assumes "registry B a d xs s" and "\<And>x. x \<in> set xs \<Longrightarrow> heap s' x = heap s x" and "d_statement d' = d_statement d"
    and "sqlite_objs s' = sqlite_objs s" and "length (calls s) \<le> length (calls s')"
  shows "registry B a d' xs s'"
proof -
  have "handles (heap s') xs = handles (heap s) xs" using assms(2) by (intro handles_cong) (simp add: handle_def)
  moreover have "seg (heap s') a p q xs r t \<longleftrightarrow> seg (heap s) a p q xs r t" for p q r t
    by (rule seg_cong) (rule assms(2))
  ultimately show ?thesis using assms(1,3-5) unfolding registry_def by (metis le_trans)
qed

text \<open>A new element at the front.\<close>

lemma registry_insert:
  assumes reg: "registry B a d xs s" and x: "x \<noteq> 0" "x \<notin> set xs" and xst: "heap s' x = Some (Statement st)"
    and st: "st_database st = a" "st_prev st = 0" "st_next st = d_statement d"
    and n: "st_stmt st \<noteq> 0 \<longrightarrow> st_stmt st \<notin> sqlite_objs s \<and> st_stmt st \<le> length (calls s')"
    and objs: "sqlite_objs s' = sqlite_objs s \<union> (if st_stmt st = 0 then {} else {st_stmt st})"
    and len: "length (calls s) \<le> length (calls s')" and d': "d_statement d' = x"
    and hd: "\<And>y ys. xs = y # ys \<Longrightarrow> \<exists>sy. heap s y = Some (Statement sy) \<and> heap s' y = Some (Statement (sy\<lparr>st_prev := x\<rparr>))"
    and tl: "\<And>y. y \<in> set (tl xs) \<Longrightarrow> heap s' y = heap s y"
  shows "registry B a d' (x # xs) s'"
proof -
  obtain r where sg: "seg (heap s) a 0 (d_statement d) xs r 0" using reg by (auto simp: registry_def)
  have hs: "handles (heap s') xs = handles (heap s) xs"
  proof (rule handles_cong)
    fix y assume "y \<in> set xs"
    then show "handle (heap s') y = handle (heap s) y" using hd tl by (cases xs) (auto simp: handle_def)
  qed
  have "\<exists>r'. seg (heap s') a x (d_statement d) xs r' 0"
  proof (cases xs)
    case Nil
    then show ?thesis using sg by simp
  next
    case (Cons y ys)
    then obtain sy where sy: "heap s y = Some (Statement sy)" "heap s' y = Some (Statement (sy\<lparr>st_prev := x\<rparr>))" using hd by blast
    have "seg (heap s') a y (st_next sy) ys r 0"
      using sg sy(1) Cons tl by (subst seg_cong [where h = "heap s"]) auto
    then show ?thesis using sg sy Cons by auto
  qed
  then have "\<exists>r'. seg (heap s') a 0 (d_statement d') (x # xs) r' 0" using xst st x(1) d' by auto
  moreover have "handle (heap s') x = st_stmt st" using xst by (simp add: handle_def)
  ultimately show ?thesis using reg x(2) n objs len hs unfolding registry_def by (auto intro: le_trans)
qed

text \<open>An element less.\<close>

lemma registry_remove:
  assumes reg: "registry B a d (us @ x # vs) s" and sg: "seg (heap s') a 0 (d_statement d') (us @ vs) r 0"
    and h: "\<And>y. y \<in> set (us @ vs) \<Longrightarrow> handle (heap s') y = handle (heap s) y"
    and objs: "sqlite_objs s' = sqlite_objs s - set (handles (heap s) [x])" and len: "length (calls s) \<le> length (calls s')"
  shows "registry B a d' (us @ vs) s'"
proof -
  have hs: "handles (heap s') us = handles (heap s) us" "handles (heap s') vs = handles (heap s) vs"
    using h by (auto intro!: handles_cong)
  have split: "distinct (us @ vs)" "distinct (handles (heap s) us @ handles (heap s) vs)"
    "set (handles (heap s) [x]) \<inter> set (handles (heap s) us @ handles (heap s) vs) = {}"
    "B \<inter> set (handles (heap s) us @ handles (heap s) [x] @ handles (heap s) vs) = {}"
    "sqlite_objs s = B \<union> set (handles (heap s) us @ handles (heap s) [x] @ handles (heap s) vs)"
    using reg unfolding registry_def by (auto split: if_splits)
  have bound: "\<forall>n \<in> sqlite_objs s. n \<le> length (calls s')" using reg len unfolding registry_def by (meson le_trans)
  have "sqlite_objs s' = B \<union> set (handles (heap s) us @ handles (heap s) vs)"
    unfolding objs split(5) using split(3,4) by auto
  then show ?thesis using sg split bound unfolding registry_def by (auto simp: hs objs)
qed

end
