(* ===== verification/Sqlite_Worker.thy ===== *)
theory Sqlite_Worker
  imports Sqlite_Statements
begin

text \<open>
  The thread of a database and its conversation with the event loop. A request goes round once: the
  Scheme thread leaves the work and wakes the thread, the thread runs the work and signals the async
  handle, the event loop calls the completion. The invariant says where a request is; the theorems are
  that the work and the completion belong together, that a wake-up is never lost, and that every
  request is answered exactly once.
\<close>

section \<open>The thread\<close>

text \<open>What SQLite produces besides a status, and the number of the next new bytevector.\<close>

record outcome =
  got :: bool
  row :: "sqlite_value list"
  errmsg :: "u8 list"
  fresh :: nat

fun do_work :: "env \<Rightarrow> outcome \<Rightarrow> db_work \<Rightarrow> uptr \<Rightarrow> osi \<Rightarrow> osi option" where
  "do_work E out Close_worker a s = close_worker E a s"
| "do_work E out Prepare_worker a s = prepare_worker E (got out) a s"
| "do_work E out Step_worker a s = step_worker E a s"
| "do_work E out Bulk_worker a s = bulk_worker E a s"

text \<open>
  One step of \<^verbatim>\<open>database_worker\<close>. At the top of the loop, with the mutex held, the thread looks for work
  and either releases the mutex to run it or waits. After the work it takes the mutex, clears the
  field, signals the async handle, and leaves the loop if the database has been closed, else waits.
  Waiting ends with a signal or spuriously.
\<close>

definition database_worker :: "env \<Rightarrow> outcome \<Rightarrow> uptr \<Rightarrow> osi \<Rightarrow> osi option" where
  "database_worker E out a s = do {
     d \<leftarrow> load_db a s;
     case d_thread d of
       At_top \<Rightarrow> store a (Database (d\<lparr>d_thread := (case d_work d of Some w \<Rightarrow> Running w | None \<Rightarrow> Waiting)\<rparr>)) s
     | Running w \<Rightarrow> do {
         s \<leftarrow> do_work E out w a s;
         d \<leftarrow> load_db a s;
         store a (Database (d\<lparr>d_work := None, d_async_sent := True,
           d_thread := (if w = Close_worker \<and> d_sqlite_rc d = SQLITE_OK then Gone else Waiting)\<rparr>)) s
       }
     | Waiting \<Rightarrow> store a (Database (d\<lparr>d_thread := At_top\<rparr>)) s
     | Gone \<Rightarrow> None
   }"

text \<open>The callback of the async handle calls the completion stored in its \<^verbatim>\<open>data\<close> field.\<close>

definition async_cb :: "env \<Rightarrow> outcome \<Rightarrow> uptr \<Rightarrow> osi \<Rightarrow> osi option" where
  "async_cb E out a s = do {
     d \<leftarrow> load_db a s;
     s \<leftarrow> store a (Database (d\<lparr>d_async_sent := False\<rparr>)) s;
     cb \<leftarrow> d_async_data d;
     (case cb of
        Close_cb \<Rightarrow> close_cb E (errmsg out) a s
      | Prepare_cb \<Rightarrow> prepare_cb E (errmsg out) a s
      | Step_cb \<Rightarrow> step_cb E (fresh out) (row out) (errmsg out) a s
      | Bulk_cb \<Rightarrow> bulk_cb E (errmsg out) a s)
   }"

section \<open>The protocol\<close>

fun cb_of :: "db_work \<Rightarrow> db_cb" where
  "cb_of Close_worker = Close_cb"
| "cb_of Prepare_worker = Prepare_cb"
| "cb_of Step_worker = Step_cb"
| "cb_of Bulk_worker = Bulk_cb"

text \<open>
  The argument of each work function: the text of a statement, a statement of this database, or a list
  of statements of this database with bindings whose memory is still there.
\<close>

definition bulk_ok :: "uptr list \<Rightarrow> uptr \<Rightarrow> osi \<Rightarrow> bool" where
  "bulk_ok xs b s \<longleftrightarrow>
     (\<exists>k ps qs. heap s b = Some (Bulk k) \<and> heap s (bulk_statements k) = Some (Pointers ps)
        \<and> heap s (bulk_mbindings k) = Some (Pointers qs) \<and> bulk_statements k \<noteq> bulk_mbindings k
        \<and> length ps = bulk_count k \<and> length qs = bulk_count k \<and> set ps \<subseteq> set xs
        \<and> (\<forall>q \<in> set qs. q = 0 \<or> (\<exists>bs. heap s q = Some (Bindings bs) \<and> (\<forall>x \<in> set bs. binding_value x s \<noteq> None))))"

definition arg_ok :: "db_work \<Rightarrow> database_t \<Rightarrow> uptr list \<Rightarrow> osi \<Rightarrow> bool" where
  "arg_ok w d xs s =
     (case w of
        Close_worker \<Rightarrow> d_arg d = Db_null
      | Prepare_worker \<Rightarrow> \<exists>p t. d_arg d = Db_sql p \<and> heap s p = Some (C_string t)
          \<and> 0 \<le> d_sql_len d \<and> d_sql_len d < 2 ^ 31 \<and> nat (d_sql_len d) \<le> length t
      | Step_worker \<Rightarrow> \<exists>n. d_arg d = Db_stmt n \<and> (n = 0 \<or> n \<in> set (handles (heap s) xs))
      | Bulk_worker \<Rightarrow> \<exists>b. d_arg d = Db_bulk b \<and> bulk_ok xs b s)"

text \<open>
  Idle, or busy with work \<open>w\<close>: waiting for the thread or in its hands, or done and waiting for the
  event loop. The thread is gone only after a database was closed without an error.
\<close>

definition done_ok :: "db_work \<Rightarrow> database_t \<Rightarrow> uptr list \<Rightarrow> bool" where
  "done_ok w d xs \<longleftrightarrow>
     (if w = Close_worker \<and> d_sqlite_rc d = SQLITE_OK then d_thread d = Gone \<and> xs = [] else d_thread d \<in> {At_top, Waiting})"

definition protocol :: "database_t \<Rightarrow> uptr list \<Rightarrow> osi \<Rightarrow> bool" where
  "protocol d xs s \<longleftrightarrow>
     (if d_busy d then
        \<exists>w. d_async_data d = Some (cb_of w) \<and> arg_ok w d xs s
          \<and> (if d_async_sent d
             then d_work d = None \<and> done_ok w d xs
             else d_work d = Some w \<and> d_thread d \<in> {At_top, Running w})
      else d_work d = None \<and> \<not> d_async_sent d \<and> d_thread d \<in> {At_top, Waiting} \<and> d_arg d = Db_null)"

text \<open>The SQLite objects outside the registry: \<open>B\<close> and, unless it has been closed, the connection.\<close>

definition others :: "nat set \<Rightarrow> database_t \<Rightarrow> nat set" where
  "others B d = (if d_thread d = Gone then B else insert (d_db d) B)"

definition db_inv :: "ptr multiset \<Rightarrow> nat set \<Rightarrow> uptr \<Rightarrow> database_t \<Rightarrow> uptr list \<Rightarrow> osi \<Rightarrow> bool" where
  "db_inv X B a d xs s \<longleftrightarrow>
     osi_inv X s \<and> closing s a = None \<and> heap s a = Some (Database d) \<and> d_db d \<notin> insert 0 B
     \<and> registry (others B d) a d xs s \<and> protocol d xs s"

lemma db_invD:
  assumes "db_inv X B a d xs s"
  shows "osi_inv X s" "closing s a = None" "heap s a = Some (Database d)" "d_db d \<notin> insert 0 B"
    "registry (others B d) a d xs s" "protocol d xs s"
  using assms by (simp_all add: db_inv_def)

lemma db_inv_not_stmt: "db_inv X B a d xs s \<Longrightarrow> a \<notin> set xs"
  using registry_stmt [OF db_invD(5), of X B a d xs s a] db_invD(3) [of X B a d xs s] by auto

lemma db_inv_nonnull: "db_inv X B a d xs s \<Longrightarrow> a \<noteq> 0"
  using osi_inv_null [OF db_invD(1)] db_invD(3) by (metis option.distinct(1))

section \<open>The work functions\<close>

text \<open>
  What running a work function may change: the list of statements and the status. Nothing is promised,
  queued or locked.
\<close>

definition worked :: "ptr multiset \<Rightarrow> nat set \<Rightarrow> uptr \<Rightarrow> database_t \<Rightarrow> db_work \<Rightarrow> osi \<Rightarrow> osi option \<Rightarrow> bool" where
  "worked X B a d w s res \<longleftrightarrow>
     (\<exists>s' xs q rc. res = Some s' \<and> osi_inv X s' \<and> owed s' = owed s \<and> locked s' = locked s \<and> g_callbacks s' = g_callbacks s
        \<and> bytevectors s' = bytevectors s \<and> closing s' = closing s
        \<and> heap s' a = Some (Database (d\<lparr>d_statement := q, d_sqlite_rc := rc\<rparr>))
        \<and> registry (if w = Close_worker \<and> rc = SQLITE_OK then B else insert (d_db d) B) a (d\<lparr>d_statement := q\<rparr>) xs s'
        \<and> (w = Close_worker \<longrightarrow> xs = []) \<and> arg_ok w d xs s')"

text \<open>Blocks of plain data: texts, bindings, and the arrays of a bulk request.\<close>

fun plain :: "cobj \<Rightarrow> bool" where
  "plain (C_string _) = True"
| "plain (Bindings _) = True"
| "plain (Bulk _) = True"
| "plain (Pointers _) = True"
| "plain _ = False"

definition keeps :: "osi \<Rightarrow> osi \<Rightarrow> bool" where
  "keeps s s' \<longleftrightarrow> (\<forall>b x. heap s b = Some x \<and> plain x \<longrightarrow> heap s' b = Some x)"

lemma keepsD: "keeps s s' \<Longrightarrow> heap s b = Some x \<Longrightarrow> plain x \<Longrightarrow> heap s' b = Some x"
  by (simp add: keeps_def)

lemma binding_value_keeps:
  assumes "keeps s s'" and "binding_value x s \<noteq> None"
  shows "binding_value x s' = binding_value x s"
proof -
  have "c_bytes p n s' = c_bytes p n s" if "c_bytes p n s \<noteq> None" for p n
    using that keepsD [OF assms(1), of p] by (auto simp: c_bytes_def split: option.splits cobj.splits)
  then show ?thesis using assms(2) by (cases x) (auto split: bind_splits)
qed

lemma bulk_ok_frame:
  assumes "bulk_ok xs b s" and k: "keeps s s'" and "set xs \<subseteq> set xs'"
  shows "bulk_ok xs' b s'"
proof -
  obtain c ps qs where *: "heap s b = Some (Bulk c)" "heap s (bulk_statements c) = Some (Pointers ps)"
    "heap s (bulk_mbindings c) = Some (Pointers qs)" "bulk_statements c \<noteq> bulk_mbindings c"
    "length ps = bulk_count c" "length qs = bulk_count c" "set ps \<subseteq> set xs"
    and qs: "\<And>q. q \<in> set qs \<Longrightarrow> q = 0 \<or> (\<exists>bs. heap s q = Some (Bindings bs) \<and> (\<forall>x \<in> set bs. binding_value x s \<noteq> None))"
    using assms(1) unfolding bulk_ok_def by blast
  have "q = 0 \<or> (\<exists>bs. heap s' q = Some (Bindings bs) \<and> (\<forall>x \<in> set bs. binding_value x s' \<noteq> None))" if "q \<in> set qs" for q
    using qs [OF that] keepsD [OF k, of q] binding_value_keeps [OF k] by fastforce
  then show ?thesis using * keepsD [OF k] assms(3) unfolding bulk_ok_def
    by (intro exI [of _ c] exI [of _ ps] exI [of _ qs]) auto
qed

lemma arg_ok_frame:
  assumes "arg_ok w d xs s" and "keeps s s'" and "set xs \<subseteq> set xs'" and "set (handles (heap s) xs) \<subseteq> set (handles (heap s') xs')"
    and "d_arg d' = d_arg d" and "d_sql_len d' = d_sql_len d"
  shows "arg_ok w d' xs' s'"
proof (cases w)
  case Bulk_worker
  then show ?thesis using assms(1,5) bulk_ok_frame [OF _ assms(2,3)] by (auto simp: arg_ok_def)
next
  case Step_worker
  then show ?thesis using assms(1,4,5) by (auto simp: arg_ok_def)
qed (use assms(1,5,6) keepsD [OF assms(2)] in \<open>auto simp: arg_ok_def\<close>)

lemma close_worker_works:
  assumes inv: "db_inv X B a d xs s" and th: "d_thread d \<noteq> Gone" and arg: "arg_ok Close_worker d xs s"
  shows "worked X B a d Close_worker s (close_worker E a s)"
proof -
  note D = db_invD [OF inv]
  obtain r where sg: "seg (heap s) a 0 (d_statement d) xs r 0" and reg: "distinct xs" "distinct (handles (heap s) xs)"
    "sqlite_objs s = insert (d_db d) B \<union> set (handles (heap s) xs)" "insert (d_db d) B \<inter> set (handles (heap s) xs) = {}"
    "\<forall>n \<in> sqlite_objs s. n \<le> length (calls s)"
    using D(5) th by (auto simp: registry_def others_def)
  let ?s1 = "s\<lparr>heap := detached xs a d (heap s), calls := calls s @ map (Sql \<circ> Sqlite3_finalize) (handles (heap s) xs),
      sqlite_objs := insert (d_db d) B\<rparr>"
  have "sqlite_objs s - set (handles (heap s) xs) = insert (d_db d) B" using reg(3,4) by auto
  then have loop: "close_loop a s = Some ?s1" using close_loop_spec [OF D(3) sg reg(1,2)] reg(3) by auto
  have ha: "heap ?s1 a = Some (Database (d\<lparr>d_statement := 0\<rparr>))" using db_inv_not_stmt [OF inv] by (simp add: detached_def)
  obtain rc s2 where cl: "sqlite3_close E (d_db d) ?s1 = Some (rc, s2)" and s2: "heap s2 = heap ?s1" "locked s2 = locked s"
    "closing s2 = closing s" "mallocs s2 = mallocs s" "g_callbacks s2 = g_callbacks s" "bytevectors s2 = bytevectors s"
    "length (calls ?s1) \<le> length (calls s2)" "sqlite_objs s2 = (if rc = SQLITE_OK then B else insert (d_db d) B)"
    using D(4) by (simp add: sqlite3_close_def db_do_def uv_do_def split: if_splits)
  let ?d = "d\<lparr>d_statement := 0, d_sqlite_rc := rc\<rparr>"
  let ?s3 = "s2\<lparr>heap := (heap s2)(a \<mapsto> Database ?d)\<rparr>"
  have res: "close_worker E a s = Some ?s3"
    using loop ha cl s2(1) by (simp add: close_worker_def load_db_def store_def)
  have xst: "\<exists>st. heap s x = Some (Statement st)" if "x \<in> set xs" for x using registry_stmt [OF D(5) that] by blast
  have rel: "rel_option similar (heap s y) (heap ?s3 y)" for y
    using D(3) xst [of y] s2(1) db_inv_not_stmt [OF inv]
    by (cases "y \<in> set xs"; cases "y = a") (auto simp: detached_def rel_option_similar_refl)
  have "osi_inv X ?s3" and "owed ?s3 = owed s"
    using osi_inv_similar [OF D(1), of ?s3] rel s2 by simp_all
  moreover have "registry (if rc = SQLITE_OK then B else insert (d_db d) B) a (d\<lparr>d_statement := 0\<rparr>) [] ?s3"
  proof -
    have "n \<le> length (calls s2)" if "n \<in> insert (d_db d) B" for n
    proof -
      have "n \<le> length (calls s)" using reg(3,5) that by blast
      then show ?thesis using s2(7) by simp
    qed
    then show ?thesis using s2(8) by (auto simp: registry_def)
  qed
  ultimately show ?thesis unfolding worked_def res using s2 arg
    by (intro exI [of _ ?s3] exI [of _ "[]"] exI [of _ 0] exI [of _ rc]) (auto simp: arg_ok_def)
qed


lemma worked_status:
  assumes inv: "db_inv X B a d xs s" and th: "d_thread d \<noteq> Gone" and arg: "arg_ok w d xs s" and w: "w \<noteq> Close_worker"
    and s': "heap s' = (heap s)(a \<mapsto> Database (d\<lparr>d_sqlite_rc := rc\<rparr>))" "locked s' = locked s" "mallocs s \<le> mallocs s'"
      "closing s' = closing s" "g_callbacks s' = g_callbacks s" "bytevectors s' = bytevectors s"
      "sqlite_objs s' = sqlite_objs s" "length (calls s) \<le> length (calls s')"
  shows "worked X B a d w s (Some s')"
proof -
  note D = db_invD [OF inv]
  have axs: "a \<notin> set xs" by (rule db_inv_not_stmt [OF inv])
  have "rel_option similar (heap s y) (heap s' y)" for y using D(3) s'(1) by (simp add: rel_option_similar_refl)
  then have "osi_inv X s'" and "owed s' = owed s" using osi_inv_similar [OF D(1), of s'] s' by simp_all
  moreover have "registry (insert (d_db d) B) a (d\<lparr>d_statement := d_statement d\<rparr>) xs s'"
  proof (rule registry_frame)
    show "registry (insert (d_db d) B) a d xs s" using D(5) th by (simp add: others_def)
    show "heap s' x = heap s x" if "x \<in> set xs" for x using that axs s'(1) by auto
  qed (use s'(7,8) in simp_all)
  moreover have "arg_ok w d xs s'"
    using axs D(3) s'(1) by (intro arg_ok_frame [OF arg]) (auto simp: keeps_def)
  ultimately show ?thesis unfolding worked_def using s' w
    by (intro exI [of _ s'] exI [of _ xs] exI [of _ "d_statement d"] exI [of _ rc]) simp
qed

lemma db_live: "db_inv X B a d xs s \<Longrightarrow> d_thread d \<noteq> Gone \<Longrightarrow> d_db d \<in> sqlite_objs s"
  by (auto simp: db_inv_def registry_def others_def)

lemma step_worker_works:
  assumes inv: "db_inv X B a d xs s" and th: "d_thread d \<noteq> Gone" and arg: "arg_ok Step_worker d xs s"
  shows "worked X B a d Step_worker s (step_worker E a s)"
proof -
  note D = db_invD [OF inv]
  obtain n where n: "d_arg d = Db_stmt n" "n = 0 \<or> n \<in> set (handles (heap s) xs)" using arg by (auto simp: arg_ok_def)
  then have "n = 0 \<or> n \<in> sqlite_objs s" using D(5) by (auto simp: registry_def)
  then have "step_worker E a s = Some (s\<lparr>calls := calls s @ [Sql (Sqlite3_step n)],
      heap := (heap s)(a \<mapsto> Database (d\<lparr>d_sqlite_rc := uv E (Sql (Sqlite3_step n)) (length (calls s))\<rparr>))\<rparr>)"
    using D(3) n(1) by (auto simp: step_worker_def load_db_def stmt_do_def uv_do_def store_def)
  then show ?thesis using worked_status [OF inv th arg] by simp
qed

lemma unat_small_len: "0 \<le> n \<Longrightarrow> n < 2 ^ 31 \<Longrightarrow> unat (word_of_int n :: u64) = nat n"
  by (simp add: unsigned_of_int take_bit_int_eq_self)

text \<open>The list after a statement has been put at its front.\<close>

lemma worked_insert:
  assumes inv: "db_inv X B a d xs s" and th: "d_thread d \<noteq> Gone" and arg: "arg_ok Prepare_worker d xs s"
    and x: "x = Suc (mallocs s)" and n: "n = 0 \<or> n = Suc (length (calls s))"
    and h: "h = (heap s)(x \<mapsto> Statement \<lparr>st_stmt = n, st_database = a, st_prev = 0, st_next = d_statement d\<rparr>)"
    and h': "h' = (if d_statement d = 0 then h else h(d_statement d \<mapsto> Statement (old\<lparr>st_prev := x\<rparr>)))"
    and old: "d_statement d \<noteq> 0 \<longrightarrow> heap s (d_statement d) = Some (Statement old)"
    and s': "heap s' = h'(a \<mapsto> Database (d\<lparr>d_statement := x, d_sqlite_rc := rc\<rparr>))" "locked s' = locked s" "mallocs s' = x"
      "closing s' = closing s" "g_callbacks s' = g_callbacks s" "bytevectors s' = bytevectors s"
      "sqlite_objs s' = sqlite_objs s \<union> (if n = 0 then {} else {n})" "length (calls s') = Suc (length (calls s))"
  shows "worked X B a d Prepare_worker s (Some s')"
proof -
  note D = db_invD [OF inv]
  have axs: "a \<notin> set xs" by (rule db_inv_not_stmt [OF inv])
  have fresh: "heap s x = None" unfolding x by (rule osi_inv_fresh [OF D(1)])
  have xa: "x \<noteq> a" "x \<noteq> d_statement d" "x \<notin> set xs" using fresh D(3) old x registry_stmt [OF D(5), of x] by auto
  have qa: "d_statement d \<noteq> a" using old D(3) db_inv_nonnull [OF inv] by (cases "d_statement d = 0") auto
  let ?s1 = "s\<lparr>mallocs := x, heap := h\<rparr>"
  have "heap_ok h" unfolding h by (rule heap_ok_new [OF osi_inv_heap [OF D(1)] fresh]) simp_all
  then have inv1: "osi_inv X ?s1" and owed1: "owed ?s1 = owed s"
    using osi_inv_new [OF D(1), of ?s1] owed_new [OF D(1), of ?s1] by (simp_all add: h x)
  have "rel_option similar (heap ?s1 y) (heap s' y)" for y
    using xa qa D(3) old by (simp add: s'(1) h' h rel_option_similar_refl)
  then have "osi_inv X s'" and "owed s' = owed s" using osi_inv_similar [OF inv1, of s'] s' owed1 by simp_all
  moreover have reg: "registry (insert (d_db d) B) a (d\<lparr>d_statement := x\<rparr>) (x # xs) s'"
  proof (rule registry_insert [of _ a d xs s])
    show "registry (insert (d_db d) B) a d xs s" using D(5) th by (simp add: others_def)
    show "heap s' x = Some (Statement \<lparr>st_stmt = n, st_database = a, st_prev = 0, st_next = d_statement d\<rparr>)"
      using xa by (simp add: s'(1) h' h)
    show "\<exists>sy. heap s y = Some (Statement sy) \<and> heap s' y = Some (Statement (sy\<lparr>st_prev := x\<rparr>))" if "xs = y # ys" for y ys
    proof -
      have "d_statement d = y" "y \<noteq> 0" using D(5) that by (auto simp: registry_def)
      then show ?thesis using old axs that by (auto simp: s'(1) h')
    qed
    show "heap s' y = heap s y" if "y \<in> set (tl xs)" for y
    proof -
      have "y \<noteq> d_statement d" "y \<noteq> x" "y \<noteq> a" using that xa axs D(5) by (cases xs; auto simp: registry_def)+
      then show ?thesis by (simp add: s'(1) h' h)
    qed
  qed (use x xa n s' registry_fresh [OF D(5)] in auto)
  moreover have "arg_ok Prepare_worker d (x # xs) s'"
  proof -
    have "heap s' b = heap s b" if "heap s b = Some (C_string t)" for b t
      using that xa(1) fresh D(3) old db_inv_nonnull [OF inv] by (auto simp: s'(1) h' h)
    then show ?thesis using arg by (auto simp: arg_ok_def)
  qed
  ultimately show ?thesis unfolding worked_def using s'
    by (intro exI [of _ s'] exI [of _ "x # xs"] exI [of _ x] exI [of _ rc]) simp
qed

lemma prepare_worker_works:
  assumes inv: "db_inv X B a d xs s" and th: "d_thread d \<noteq> Gone" and arg: "arg_ok Prepare_worker d xs s"
  shows "worked X B a d Prepare_worker s (prepare_worker E gotten a s)"
proof -
  note D = db_invD [OF inv]
  obtain p t where p: "d_arg d = Db_sql p" "heap s p = Some (C_string t)"
    and len: "0 \<le> d_sql_len d" "d_sql_len d < 2 ^ 31" "nat (d_sql_len d) \<le> length t" using arg by (auto simp: arg_ok_def)
  let ?sql = "take (nat (d_sql_len d)) t"
  let ?c = "Sql (Sqlite3_prepare_v2 (d_db d) ?sql)"
  have bytes: "c_bytes p (word_of_int (d_sql_len d)) s = Some ?sql"
    using p(2) len unat_small_len [OF len(1,2)] by (simp add: c_bytes_def)
  have n: "Suc (length (calls s)) \<notin> sqlite_objs s" by (rule registry_fresh [OF D(5)])
  have fresh: "heap s (Suc (mallocs s)) = None" by (rule osi_inv_fresh [OF D(1)])
  have a: "a \<noteq> Suc (mallocs s)" using fresh D(3) by auto
  show ?thesis
  proof (cases "uv E ?c (length (calls s)) = SQLITE_OK")
    case False
    then show ?thesis using D(3) p(1) bytes db_live [OF inv th] worked_status [OF inv th arg]
      by (simp add: prepare_worker_def load_db_def db_do_def uv_do_def store_def)
  next
    case ok: True
    show ?thesis
    proof (cases "oom E (mallocs s)")
      case True
      then show ?thesis using ok D(3) p(1) bytes db_live [OF inv th] n a worked_status [OF inv th arg]
        by (cases gotten) (simp_all add: prepare_worker_def load_db_def db_do_def uv_do_def store_def malloc_container_def sqlite3_finalize_def Let_def)
    next
      case False
      have old: "d_statement d \<noteq> 0 \<longrightarrow> (\<exists>old. heap s (d_statement d) = Some (Statement old))"
        using D(5) by (cases xs) (auto simp: registry_def)
      then obtain old where old: "d_statement d \<noteq> 0 \<longrightarrow> heap s (d_statement d) = Some (Statement old)" by blast
      have q: "d_statement d \<noteq> Suc (mallocs s) \<or> d_statement d = 0" using old fresh by auto
      have qa: "d_statement d \<noteq> a" using old D(3) db_inv_nonnull [OF inv] by (cases "d_statement d = 0") auto
      let ?x = "Suc (mallocs s)"
      let ?n = "if gotten then Suc (length (calls s)) else 0"
      let ?h = "(heap s)(?x \<mapsto> Statement \<lparr>st_stmt = ?n, st_database = a, st_prev = 0, st_next = d_statement d\<rparr>)"
      let ?h' = "if d_statement d = 0 then ?h else ?h(d_statement d \<mapsto> Statement (old\<lparr>st_prev := ?x\<rparr>))"
      have "\<exists>s'. prepare_worker E gotten a s = Some s' \<and> heap s' = ?h'(a \<mapsto> Database (d\<lparr>d_statement := ?x, d_sqlite_rc := SQLITE_OK\<rparr>))
          \<and> locked s' = locked s \<and> mallocs s' = ?x \<and> closing s' = closing s \<and> g_callbacks s' = g_callbacks s
          \<and> bytevectors s' = bytevectors s \<and> sqlite_objs s' = sqlite_objs s \<union> (if ?n = 0 then {} else {?n})
          \<and> length (calls s') = Suc (length (calls s))"
        using False ok D(3) p(1) bytes db_live [OF inv th] a q qa old
        by (cases gotten; cases "d_statement d = 0")
           (simp_all add: prepare_worker_def load_db_def load_stmt_def db_do_def uv_do_def store_def malloc_container_def Let_def)
      then obtain s' where "prepare_worker E gotten a s = Some s'"
        and s': "heap s' = ?h'(a \<mapsto> Database (d\<lparr>d_statement := ?x, d_sqlite_rc := SQLITE_OK\<rparr>))" "locked s' = locked s" "mallocs s' = ?x"
          "closing s' = closing s" "g_callbacks s' = g_callbacks s" "bytevectors s' = bytevectors s"
          "sqlite_objs s' = sqlite_objs s \<union> (if ?n = 0 then {} else {?n})" "length (calls s') = Suc (length (calls s))"
        by blast
      then show ?thesis using worked_insert [OF inv th arg refl _ refl refl old s'] by simp
    qed
  qed
qed


text \<open>Bulk requests only make SQLite calls and record who made the last one.\<close>

definition calls_only :: "osi \<Rightarrow> osi \<Rightarrow> bool" where
  "calls_only s s' \<longleftrightarrow> (\<exists>cs. s' = s\<lparr>calls := calls s @ cs\<rparr>)"

lemma calls_onlyI: "calls_only s (s\<lparr>calls := calls s @ cs\<rparr>)"
  by (auto simp: calls_only_def)

lemma calls_only_refl: "calls_only s s"
  using calls_onlyI [of s "[]"] by simp

lemma calls_only_trans: "calls_only s s' \<Longrightarrow> calls_only s' s'' \<Longrightarrow> calls_only s s''"
  by (auto simp: calls_only_def)

lemma calls_only_objs: "calls_only s s' \<Longrightarrow> sqlite_objs s' = sqlite_objs s"
  by (auto simp: calls_only_def)

lemma stmt_do_calls: "n = 0 \<or> n \<in> sqlite_objs s \<Longrightarrow> \<exists>rc s'. stmt_do E f n s = Some (rc, s') \<and> calls_only s s'"
  by (auto simp: stmt_do_def uv_do_def calls_onlyI)

lemma binding_value_calls [simp]: "binding_value x (s\<lparr>calls := c\<rparr>) = binding_value x s"
  by (cases x) (simp_all add: c_bytes_def)

lemma bind_loop_calls:
  "n = 0 \<or> n \<in> sqlite_objs s \<Longrightarrow> \<forall>x \<in> set bs. binding_value x s \<noteq> None \<Longrightarrow>
   \<exists>r' s'. bind_loop E n j bs r s = Some (r', s') \<and> calls_only s s'"
proof (induction bs arbitrary: j r s)
  case Nil
  then show ?case by (simp add: calls_only_refl)
next
  case (Cons b bs)
  obtain v where v: "binding_value b s = Some v" using Cons.prems(2) by auto
  show ?case
  proof (cases v)
    case None
    then show ?thesis using Cons.IH [of s "Suc j" r] Cons.prems v by simp
  next
    case (Some w)
    obtain who x where w: "w = (who, x)" by (cases w)
    obtain rc s1 where 1: "stmt_do E (\<lambda>h. Sqlite3_bind h (int j + 1) x) n s = Some (rc, s1)" "calls_only s s1"
      using stmt_do_calls [OF Cons.prems(1)] by blast
    then have "\<exists>r' s'. bind_loop E n (Suc j) bs (rc, Some who) s1 = Some (r', s') \<and> calls_only s1 s'"
      using Cons.prems by (intro Cons.IH) (auto simp: calls_only_def)
    then show ?thesis using 1 v Some w calls_only_trans [OF 1(2)] by auto
  qed
qed

definition binding_block_ok :: "osi \<Rightarrow> uptr \<Rightarrow> bool" where
  "binding_block_ok s q \<longleftrightarrow> q = 0 \<or> (\<exists>bs. heap s q = Some (Bindings bs) \<and> (\<forall>x \<in> set bs. binding_value x s \<noteq> None))"

lemma bind_bindings_calls:
  "n = 0 \<or> n \<in> sqlite_objs s \<Longrightarrow> binding_block_ok s q \<Longrightarrow> \<exists>r' s'. bind_bindings E n q s = Some (r', s') \<and> calls_only s s'"
  using bind_loop_calls [of n s _ E 0 "(0, None)"]
  by (auto simp: bind_bindings_def binding_block_ok_def load_bindings_def calls_only_refl)

lemma binding_block_ok_frame:
  assumes "binding_block_ok s q" and "keeps s s'"
  shows "binding_block_ok s' q"
  using assms(1) keepsD [OF assms(2), of q] binding_value_keeps [OF assms(2)] unfolding binding_block_ok_def by fastforce

text \<open>What one step may do to the block of the request and to the log.\<close>

definition bulk_effect :: "uptr \<Rightarrow> bulk_t \<Rightarrow> osi \<Rightarrow> osi \<Rightarrow> bool" where
  "bulk_effect b k s s' \<longleftrightarrow> (\<exists>cs who. s' = s\<lparr>heap := (heap s)(b \<mapsto> Bulk (k\<lparr>bulk_who := who\<rparr>)), calls := calls s @ cs\<rparr>)"

lemma bulk_effectI:
  "bulk_effect b k s (s\<lparr>heap := (heap s)(b \<mapsto> Bulk (k\<lparr>bulk_who := who\<rparr>)), calls := calls s @ cs\<rparr>)"
  unfolding bulk_effect_def by blast

lemma bulk_effect_trans: "bulk_effect b k s s' \<Longrightarrow> bulk_effect b k s' s'' \<Longrightarrow> bulk_effect b k s s''"
  by (auto simp: bulk_effect_def intro: bulk_effectI [unfolded bulk_effect_def])

lemma bulk_step_effect:
  assumes st: "heap s x = Some (Statement st)" "st_stmt st = 0 \<or> st_stmt st \<in> sqlite_objs s" and q: "binding_block_ok s q"
    and b: "heap s b = Some (Bulk k')"
  shows "\<exists>rc more s'. bulk_step E x q b k s = Some (rc, more, s') \<and> bulk_effect b k s s'"
proof -
  obtain rc1 s1 where 1: "stmt_do E Sqlite3_reset (st_stmt st) s = Some (rc1, s1)" "calls_only s s1"
    using stmt_do_calls [OF st(2)] by blast
  then obtain cs1 where s1: "s1 = s\<lparr>calls := calls s @ cs1\<rparr>" by (auto simp: calls_only_def)
  have "binding_block_ok s1 q" using q by (simp add: s1 binding_block_ok_def)
  then obtain rc2 who s2 where 2: "bind_bindings E (st_stmt st) q s1 = Some ((rc2, who), s2)" "calls_only s1 s2"
    using bind_bindings_calls [of "st_stmt st" s1 q E] st(2) by (auto simp: s1)
  then obtain cs2 where s2: "s2 = s\<lparr>calls := calls s @ cs2\<rparr>" by (auto simp: calls_only_def s1)
  let ?s3 = "s2\<lparr>heap := (heap s2)(b \<mapsto> Bulk (k\<lparr>bulk_who := who\<rparr>))\<rparr>"
  have store: "store b (Bulk (k\<lparr>bulk_who := who\<rparr>)) s2 = Some ?s3" using b by (simp add: store_def s2)
  have live: "st_stmt st = 0 \<or> st_stmt st \<in> sqlite_objs ?s3" using st(2) by (simp add: s2)
  have eff: "bulk_effect b k s s'" if "calls_only ?s3 s'" for s'
    using that bulk_effectI [where who = who] by (auto simp: calls_only_def s2)
  obtain rc4 s4 where 4: "stmt_do E Sqlite3_step (st_stmt st) ?s3 = Some (rc4, s4)" "calls_only ?s3 s4"
    using stmt_do_calls [OF live] by blast
  obtain rc5 s5 where 5: "stmt_do E Sqlite3_clear_bindings (st_stmt st) s4 = Some (rc5, s5)" "calls_only s4 s5"
    using stmt_do_calls [of "st_stmt st" s4] live unfolding calls_only_objs [OF 4(2)] by blast
  obtain rc6 s6 where 6: "stmt_do E Sqlite3_reset (st_stmt st) s5 = Some (rc6, s6)" "calls_only s5 s6"
    using stmt_do_calls [of "st_stmt st" s5] live unfolding calls_only_objs [OF 5(2)] calls_only_objs [OF 4(2)] by blast
  have all: "calls_only ?s3 s6" using 4(2) 5(2) 6(2) by (meson calls_only_trans)
  show ?thesis
    using 1(1) 2(1) store 4 5(1) 6(1) st(1) eff [OF calls_only_refl] eff [OF 4(2)] eff [OF all]
    by (auto simp: bulk_step_def load_stmt_def)
qed

lemma bulk_loop_effect:
  "heap s b = Some (Bulk k') \<Longrightarrow> b \<notin> fst ` set work \<Longrightarrow>
   (\<And>x q. (x, q) \<in> set work \<Longrightarrow> (\<exists>st. heap s x = Some (Statement st) \<and> (st_stmt st = 0 \<or> st_stmt st \<in> sqlite_objs s)) \<and> binding_block_ok s q) \<Longrightarrow>
   \<exists>rc s'. bulk_loop E work b k s = Some (rc, s') \<and> (work \<noteq> [] \<longrightarrow> bulk_effect b k s s') \<and> (work = [] \<longrightarrow> s' = s)"
proof (induction work arbitrary: s k')
  case (Cons w work)
  obtain x q where w: "w = (x, q)" by (cases w)
  have wq: "(\<exists>st. heap s x = Some (Statement st) \<and> (st_stmt st = 0 \<or> st_stmt st \<in> sqlite_objs s)) \<and> binding_block_ok s q"
    using Cons.prems(3) [of x q] w by simp
  then obtain rc more s1 where 1: "bulk_step E x q b k s = Some (rc, more, s1)" "bulk_effect b k s s1"
    using bulk_step_effect [of s x _ q b k' E k] Cons.prems(1) by blast
  then obtain cs who where s1: "s1 = s\<lparr>heap := (heap s)(b \<mapsto> Bulk (k\<lparr>bulk_who := who\<rparr>)), calls := calls s @ cs\<rparr>"
    by (auto simp: bulk_effect_def)
  have ok: "binding_block_ok s1 q'" if "binding_block_ok s q'" for q'
  proof -
    have "c_bytes p n s1 = c_bytes p n s" for p n using Cons.prems(1) by (simp add: s1 c_bytes_def)
    then have "binding_value x s1 = binding_value x s" for x by (cases x) simp_all
    then show ?thesis using that Cons.prems(1) by (auto simp: binding_block_ok_def s1)
  qed
  have "\<exists>rc s'. bulk_loop E work b k s1 = Some (rc, s') \<and> (work \<noteq> [] \<longrightarrow> bulk_effect b k s1 s') \<and> (work = [] \<longrightarrow> s' = s1)"
  proof (rule Cons.IH [of s1 "k\<lparr>bulk_who := who\<rparr>"])
    show "(\<exists>st. heap s1 y = Some (Statement st) \<and> (st_stmt st = 0 \<or> st_stmt st \<in> sqlite_objs s1)) \<and> binding_block_ok s1 q'"
      if "(y, q') \<in> set work" for y q'
      using Cons.prems(2) Cons.prems(3) [of y q'] that ok [of q'] by (auto simp: s1 image_iff)
  qed (use Cons.prems(2) in \<open>auto simp: s1\<close>)
  then obtain rc2 s2 where 2: "bulk_loop E work b k s1 = Some (rc2, s2)" "work \<noteq> [] \<longrightarrow> bulk_effect b k s1 s2" "work = [] \<longrightarrow> s2 = s1" by blast
  have "bulk_effect b k s s2" using 1(2) 2(2,3) bulk_effect_trans by (cases "work = []") auto
  then show ?case using 1 2(1) w by simp
qed simp


lemma bulk_worker_works:
  assumes inv: "db_inv X B a d xs s" and th: "d_thread d \<noteq> Gone" and arg: "arg_ok Bulk_worker d xs s"
  shows "worked X B a d Bulk_worker s (bulk_worker E a s)"
proof -
  note D = db_invD [OF inv]
  obtain b k ps qs where b: "d_arg d = Db_bulk b" "heap s b = Some (Bulk k)" "heap s (bulk_statements k) = Some (Pointers ps)"
    "heap s (bulk_mbindings k) = Some (Pointers qs)" "bulk_statements k \<noteq> bulk_mbindings k"
    "length ps = bulk_count k" "length qs = bulk_count k" "set ps \<subseteq> set xs" "\<forall>q \<in> set qs. binding_block_ok s q"
    using arg by (auto simp: arg_ok_def bulk_ok_def binding_block_ok_def)
  have stx: "\<exists>st. heap s x = Some (Statement st) \<and> (st_stmt st = 0 \<or> st_stmt st \<in> sqlite_objs s)" if x: "x \<in> set xs" for x
  proof -
    obtain st where st: "heap s x = Some (Statement st)" using registry_stmt [OF D(5) x] by blast
    have "st_stmt st = 0 \<or> st_stmt st \<in> set (handles (heap s) xs)"
      using x st by (force simp: handles_def handle_def)
    then show ?thesis using st D(5) by (auto simp: registry_def)
  qed
  have "b \<notin> fst ` set (zip ps qs)"
    using b(2,8) stx by (fastforce dest: set_zip_leftD)
  then have "\<exists>rc s'. bulk_loop E (zip ps qs) b k s = Some (rc, s')
      \<and> (zip ps qs \<noteq> [] \<longrightarrow> bulk_effect b k s s') \<and> (zip ps qs = [] \<longrightarrow> s' = s)"
  proof (rule bulk_loop_effect [OF b(2)])
    fix x q assume "(x, q) \<in> set (zip ps qs)"
    then have "x \<in> set xs" "q \<in> set qs" using b(8) by (auto dest: set_zip_leftD set_zip_rightD)
    then show "(\<exists>st. heap s x = Some (Statement st) \<and> (st_stmt st = 0 \<or> st_stmt st \<in> sqlite_objs s)) \<and> binding_block_ok s q"
      using stx b(9) by blast
  qed
  then obtain rc s1 where loop: "bulk_loop E (zip ps qs) b k s = Some (rc, s1)"
    and eff: "bulk_effect b k s s1 \<or> s1 = s" by blast
  have "\<exists>who cs. s1 = s\<lparr>heap := (heap s)(b \<mapsto> Bulk (k\<lparr>bulk_who := who\<rparr>)), calls := calls s @ cs\<rparr>"
    using eff bulk_effectI [where b = b and k = k and s = s and who = "bulk_who k" and cs = "[]"] b(2) by (auto simp: bulk_effect_def fun_upd_idem)
  then obtain who cs where s1: "s1 = s\<lparr>heap := (heap s)(b \<mapsto> Bulk (k\<lparr>bulk_who := who\<rparr>)), calls := calls s @ cs\<rparr>" by blast
  have ab: "a \<noteq> b" using D(3) b(2) by auto
  let ?s2 = "s1\<lparr>heap := (heap s1)(a \<mapsto> Database (d\<lparr>d_sqlite_rc := rc\<rparr>))\<rparr>"
  have res: "bulk_worker E a s = Some ?s2"
    using D(3) b loop ab by (simp add: bulk_worker_def load_db_def load_bulk_def load_pointers_def store_def s1)
  have axs: "a \<notin> set xs" by (rule db_inv_not_stmt [OF inv])
  have bxs: "b \<notin> set xs" using stx b(2) by force
  have "similar (Bulk k) (Bulk (k\<lparr>bulk_who := who\<rparr>))" by (simp add: similar_def)
  then have rel: "rel_option similar (heap s y) (heap ?s2 y)" for y
    using D(3) b(2) ab by (simp add: s1 rel_option_similar_refl)
  then have "osi_inv X ?s2" and "owed ?s2 = owed s" using osi_inv_similar [OF D(1), of ?s2] by (simp_all add: s1)
  moreover have "registry (insert (d_db d) B) a (d\<lparr>d_statement := d_statement d\<rparr>) xs ?s2"
  proof (rule registry_frame)
    show "registry (insert (d_db d) B) a d xs s" using D(5) th by (simp add: others_def)
    show "heap ?s2 x = heap s x" if "x \<in> set xs" for x using that axs bxs by (auto simp: s1)
  qed (simp_all add: s1)
  moreover have "arg_ok Bulk_worker d xs ?s2"
  proof -
    have cb: "c_bytes p n ?s2 = c_bytes p n s" for p n using D(3) b(2) by (simp add: s1 c_bytes_def)
    then have "binding_value x ?s2 = binding_value x s" for x by (cases x) simp_all
    moreover have plain: "heap ?s2 q = heap s q" if "q \<noteq> a" "q \<noteq> b" for q using that by (simp add: s1)
    moreover have "q \<noteq> a \<and> q \<noteq> b" if "heap s q = Some (Bindings bs)" for q bs using that D(3) b(2) by auto
    ultimately have "binding_block_ok ?s2 q" if "q \<in> set qs" for q
      using b(9) that by (fastforce simp: binding_block_ok_def)
    moreover have "bulk_statements k \<noteq> a" "bulk_statements k \<noteq> b" "bulk_mbindings k \<noteq> a" "bulk_mbindings k \<noteq> b"
      using b(2-4) D(3) by auto
    ultimately have "bulk_ok xs b ?s2" unfolding bulk_ok_def
      using b(2-8) ab by (intro exI [of _ "k\<lparr>bulk_who := who\<rparr>"] exI [of _ ps] exI [of _ qs]) (auto simp: s1 binding_block_ok_def)
    then show ?thesis using b(1) by (simp add: arg_ok_def)
  qed
  ultimately show ?thesis unfolding worked_def res
    by (intro exI [of _ ?s2] exI [of _ xs] exI [of _ "d_statement d"] exI [of _ rc]) (simp add: s1)
qed

lemma do_work_works:
  assumes "db_inv X B a d xs s" and "d_thread d \<noteq> Gone" and "arg_ok w d xs s"
  shows "worked X B a d w s (do_work E out w a s)"
  using assms close_worker_works prepare_worker_works step_worker_works bulk_worker_works by (cases w) auto


section \<open>Steps of the thread\<close>

lemma arg_ok_store:
  assumes "arg_ok w d xs s" and "heap s a = Some (Database d0)" and "a \<notin> set xs" and "heap s' = (heap s)(a \<mapsto> Database d1)"
    and "d_arg d' = d_arg d" and "d_sql_len d' = d_sql_len d"
  shows "arg_ok w d' xs s'"
  using assms(2-6) by (intro arg_ok_frame [OF assms(1)]) (auto simp: keeps_def)

text \<open>A change of the structure that leaves the request, the list and the connection alone.\<close>

lemma db_inv_store:
  assumes inv: "db_inv X B a d xs s" and s': "s' = s\<lparr>heap := (heap s)(a \<mapsto> Database d')\<rparr>"
    and d': "d_busy d' = d_busy d" "d_callback d' = d_callback d" "d_db d' = d_db d" "d_statement d' = d_statement d"
      "d_thread d' = Gone \<longleftrightarrow> d_thread d = Gone"
    and prot: "protocol d' xs s'"
  shows "db_inv X B a d' xs s'" and "owed s' = owed s"
proof -
  note D = db_invD [OF inv]
  have axs: "a \<notin> set xs" by (rule db_inv_not_stmt [OF inv])
  have "rel_option similar (heap s y) (heap s' y)" for y using D(3) d' s' by (simp add: rel_option_similar_refl)
  then have "osi_inv X s'" and ow: "owed s' = owed s" using osi_inv_similar [OF D(1), of s'] s' by simp_all
  moreover have "registry (others B d') a d' xs s'"
  proof (rule registry_frame)
    show "registry (others B d') a d xs s" using D(5) d' by (auto simp: others_def split: if_splits)
    show "heap s' x = heap s x" if "x \<in> set xs" for x using that axs s' by auto
  qed (use s' d' in simp_all)
  ultimately show "db_inv X B a d' xs s'" and "owed s' = owed s"
    using D d' s' prot by (simp_all add: db_inv_def)
qed

text \<open>How far the thread is from having done the work.\<close>

definition rank :: "database_t \<Rightarrow> nat" where
  "rank d = (if d_async_sent d then 0 else if d_thread d = At_top then 2 else 1)"

definition thread_step :: "ptr multiset \<Rightarrow> nat set \<Rightarrow> uptr \<Rightarrow> database_t \<Rightarrow> osi \<Rightarrow> osi option \<Rightarrow> bool" where
  "thread_step X B a d s res \<longleftrightarrow>
     (\<exists>s' d' xs'. res = Some s' \<and> db_inv X B a d' xs' s' \<and> owed s' = owed s \<and> g_callbacks s' = g_callbacks s
        \<and> d_busy d' = d_busy d \<and> d_callback d' = d_callback d
        \<and> (d_busy d \<and> \<not> d_async_sent d \<longrightarrow> rank d' < rank d) \<and> (d_async_sent d \<longrightarrow> d_async_sent d'))"

lemma protocol_busy:
  assumes "protocol d xs s" and "d_busy d" and "\<not> d_async_sent d"
  obtains w where "d_async_data d = Some (cb_of w)" "arg_ok w d xs s" "d_work d = Some w" "d_thread d \<in> {At_top, Running w}"
  using assms by (auto simp: protocol_def)

lemma protocol_running:
  assumes "protocol d xs s" and "d_thread d = Running w"
  shows "d_busy d" "\<not> d_async_sent d" "d_async_data d = Some (cb_of w)" "arg_ok w d xs s" "d_work d = Some w"
  using assms by (auto simp: protocol_def done_ok_def split: if_splits)

lemma thread_at_top:
  assumes inv: "db_inv X B a d xs s" and th: "d_thread d = At_top"
  shows "thread_step X B a d s (database_worker E out a s)"
proof -
  note D = db_invD [OF inv]
  let ?d = "d\<lparr>d_thread := (case d_work d of Some w \<Rightarrow> Running w | None \<Rightarrow> Waiting)\<rparr>"
  let ?s = "s\<lparr>heap := (heap s)(a \<mapsto> Database ?d)\<rparr>"
  have res: "database_worker E out a s = Some ?s" using D(3) th by (simp add: database_worker_def load_db_def store_def)
  have arg: "arg_ok w ?d xs ?s" if "arg_ok w d xs s" for w
    using that D(3) db_inv_not_stmt [OF inv] by (auto intro: arg_ok_store)
  have "protocol ?d xs ?s"
    using D(6) th arg unfolding protocol_def done_ok_def by (auto split: if_splits option.splits)
  then have "db_inv X B a ?d xs ?s" "owed ?s = owed s"
    using th by (intro db_inv_store [OF inv refl]; simp split: option.splits)+
  moreover have "rank ?d < rank d" if "d_busy d" "\<not> d_async_sent d"
    using th that D(6) by (auto simp: rank_def protocol_def)
  ultimately show ?thesis unfolding thread_step_def res by (intro exI [of _ ?s] exI [of _ ?d] exI [of _ xs]) auto
qed

lemma thread_waiting:
  assumes inv: "db_inv X B a d xs s" and th: "d_thread d = Waiting"
  shows "thread_step X B a d s (database_worker E out a s)"
proof -
  note D = db_invD [OF inv]
  let ?d = "d\<lparr>d_thread := At_top\<rparr>"
  let ?s = "s\<lparr>heap := (heap s)(a \<mapsto> Database ?d)\<rparr>"
  have res: "database_worker E out a s = Some ?s" using D(3) th by (simp add: database_worker_def load_db_def store_def)
  have arg: "arg_ok w ?d xs ?s" if "arg_ok w d xs s" for w
    using that D(3) db_inv_not_stmt [OF inv] by (auto intro: arg_ok_store)
  have "protocol ?d xs ?s" using D(6) th arg unfolding protocol_def done_ok_def by (auto split: if_splits)
  then have "db_inv X B a ?d xs ?s" "owed ?s = owed s"
    using th by (intro db_inv_store [OF inv refl]; simp)+
  moreover have "\<not> (d_busy d \<and> \<not> d_async_sent d)" using th D(6) by (auto simp: protocol_def split: if_splits)
  ultimately show ?thesis unfolding thread_step_def res by (intro exI [of _ ?s] exI [of _ ?d] exI [of _ xs]) auto
qed

lemma thread_running:
  assumes inv: "db_inv X B a d xs s" and th: "d_thread d = Running w"
  shows "thread_step X B a d s (database_worker E out a s)"
proof -
  note D = db_invD [OF inv] and P = protocol_running [OF db_invD(6) [OF inv] th]
  obtain s1 xs' q rc where w: "do_work E out w a s = Some s1" "osi_inv X s1" "owed s1 = owed s" "g_callbacks s1 = g_callbacks s"
      "closing s1 = closing s" "heap s1 a = Some (Database (d\<lparr>d_statement := q, d_sqlite_rc := rc\<rparr>))"
      "registry (if w = Close_worker \<and> rc = SQLITE_OK then B else insert (d_db d) B) a (d\<lparr>d_statement := q\<rparr>) xs' s1"
      "w = Close_worker \<longrightarrow> xs' = []" "arg_ok w d xs' s1"
    using do_work_works [OF inv _ P(4), of E out] th unfolding worked_def by auto
  let ?d1 = "d\<lparr>d_statement := q, d_sqlite_rc := rc\<rparr>"
  let ?d = "?d1\<lparr>d_work := None, d_async_sent := True, d_thread := (if w = Close_worker \<and> rc = SQLITE_OK then Gone else Waiting)\<rparr>"
  let ?s = "s1\<lparr>heap := (heap s1)(a \<mapsto> Database ?d)\<rparr>"
  have res: "database_worker E out a s = Some ?s"
    using D(3) th w(1,6) by (simp add: database_worker_def load_db_def store_def)
  have axs: "a \<notin> set xs'" using registry_stmt [OF w(7), of a] w(6) by auto
  have "rel_option similar (heap s1 y) (heap ?s y)" for y using w(6) by (simp add: rel_option_similar_refl)
  then have "osi_inv X ?s" and ow: "owed ?s = owed s" using osi_inv_similar [OF w(2), of ?s] w(3) by simp_all
  moreover have "registry (others B ?d) a ?d xs' ?s"
  proof (rule registry_frame)
    show "registry (others B ?d) a (d\<lparr>d_statement := q\<rparr>) xs' s1" using w(7) by (auto simp: others_def split: if_splits)
    show "heap ?s x = heap s1 x" if "x \<in> set xs'" for x using that axs by auto
  qed simp_all
  moreover have "protocol ?d xs' ?s"
  proof -
    have "arg_ok w ?d xs' ?s" by (rule arg_ok_store [OF w(9,6) axs]) simp_all
    then show ?thesis using P(1,3) w(8) unfolding protocol_def done_ok_def by (auto intro!: exI [of _ w])
  qed
  ultimately have "db_inv X B a ?d xs' ?s" using D(2,4) w(5) by (simp add: db_inv_def)
  then show ?thesis unfolding thread_step_def res using ow w(4) P(2) th
    by (intro exI [of _ ?s] exI [of _ ?d] exI [of _ xs']) (auto simp: rank_def)
qed

lemma database_worker_step:
  assumes "db_inv X B a d xs s" and "d_thread d \<noteq> Gone"
  shows "thread_step X B a d s (database_worker E out a s)"
  using assms thread_at_top thread_waiting thread_running by (cases "d_thread d") auto


section \<open>Completions\<close>

lemma plain_free:
  assumes "plain x"
  shows "obj_held x = {#}" "obj_owed x = {#}" "port_kind x = None" "\<forall>cb. \<not> closes cb x"
  using assms by (cases x; simp)+

lemma osi_inv_free_plain:
  "osi_inv X s \<Longrightarrow> distinct L \<Longrightarrow> (\<And>y. y \<in> set L \<Longrightarrow> \<exists>x. heap s y = Some x \<and> plain x) \<Longrightarrow>
   osi_inv X (s\<lparr>heap := (\<lambda>y. if y \<in> set L then None else heap s y)\<rparr>)
   \<and> owed (s\<lparr>heap := (\<lambda>y. if y \<in> set L then None else heap s y)\<rparr>) = owed s"
proof (induction L arbitrary: s)
  case (Cons a L)
  obtain x where x: "heap s a = Some x" "plain x" using Cons.prems(3) by auto
  let ?s = "s\<lparr>heap := (heap s)(a := None)\<rparr>"
  have "closing s a = None" by (rule osi_inv_not_closing [OF Cons.prems(1) x(1) plain_free(4) [OF x(2)]])
  then have "osi_inv X ?s" using plain_free [OF x(2)] by (intro osi_inv_del [OF Cons.prems(1) x(1)]) auto
  moreover have "owed ?s = owed s" using owed_del [OF Cons.prems(1) x(1), of ?s] plain_free [OF x(2)] by simp
  moreover have "(\<lambda>y. if y \<in> set (a # L) then None else heap s y) = (\<lambda>y. if y \<in> set L then None else heap ?s y)" by auto
  moreover have "\<exists>x. heap ?s y = Some x \<and> plain x" if "y \<in> set L" for y using Cons.prems(2,3) that by auto
  ultimately show ?case using Cons.IH [of ?s] Cons.prems(2) by simp
qed simp

text \<open>
  A completion: the structure becomes idle, the callback is unlocked and queued, and the blocks \<open>L\<close> of
  the request are freed.
\<close>

lemma completesI_request:
  assumes inv: "osi_inv X s" and a: "heap s a = Some (Database d)" "closing s a = None" and d: "d_busy d" "\<not> d_busy d'"
    and L: "distinct L" "\<And>y. y \<in> set L \<Longrightarrow> \<exists>x. heap s y = Some x \<and> plain x"
    and s': "heap s' = (\<lambda>y. if y \<in> set L then None else ((heap s)(a \<mapsto> Database d')) y)" "locked s' = locked s - {#d_callback d#}"
      "mallocs s \<le> mallocs s'" "closing s' = closing s" "g_callbacks s' = Some (Scons (Scons (d_callback d) args) q)"
    and q: "g_callbacks s = Some q"
  shows "completes X (d_callback d) s (Some s')"
proof -
  let ?s1 = "s\<lparr>heap := (heap s)(a \<mapsto> Database d'), locked := locked s - {#d_callback d#}\<rparr>"
  let ?s2 = "?s1\<lparr>heap := (\<lambda>y. if y \<in> set L then None else heap ?s1 y)\<rparr>"
  have "d_callback d \<in># locked s" using held_locked [OF inv a(1), of "d_callback d"] d(1) by simp
  then have inv1: "osi_inv X ?s1" using a(2) d by (intro osi_inv_upd [OF inv a(1)]) (auto simp: insert_DiffM2)
  have owed1: "owed s = add_mset (d_callback d) (owed ?s1)" using owed_upd [OF inv a(1), of ?s1 "Database d'"] d by simp
  have "\<exists>x. heap ?s1 y = Some x \<and> plain x" if "y \<in> set L" for y
    using L(2) [OF that] a(1) by (cases "y = a") auto
  from osi_inv_free_plain [OF inv1 L(1) this]
  have inv2: "osi_inv X ?s2" and owed2: "owed ?s2 = owed ?s1" by simp_all
  have h: "heap s' = heap ?s2" unfolding s'(1) by (rule ext) simp
  have "osi_inv X s'" by (rule osi_inv_same [OF inv2 h]) (use s' in simp_all)
  moreover have "owed s' = owed ?s2" unfolding owed_def h ..
  ultimately show ?thesis using owed1 owed2 s'(5) q by (intro completesI2) simp_all
qed

text \<open>After the completion the database is idle, or it is being closed and its connection is gone.\<close>

definition answered :: "ptr multiset \<Rightarrow> nat set \<Rightarrow> uptr \<Rightarrow> database_t \<Rightarrow> osi \<Rightarrow> osi option \<Rightarrow> bool" where
  "answered X B a d s res \<longleftrightarrow>
     completes X (d_callback d) s res
     \<and> (\<exists>s'. res = Some s' \<and>
          ((\<exists>d' xs'. db_inv X B a d' xs' s' \<and> \<not> d_busy d')
           \<or> closing s' a = Some Close_free_cb \<and> (\<exists>d'. heap s' a = Some (Database d') \<and> \<not> d_busy d') \<and> sqlite_objs s' = B))"

lemma answeredI:
  assumes inv: "db_inv X B a d xs s" and d: "d_busy d" "d_async_sent d" "d_thread d \<noteq> Gone" and q: "g_callbacks s = Some q"
    and L: "distinct L" "\<And>y. y \<in> set L \<Longrightarrow> \<exists>x. heap s y = Some x \<and> plain x"
    and d': "\<not> d_async_sent d'" "\<not> d_busy d'" "d_arg d' = Db_null" "d_work d' = d_work d" "d_thread d' = d_thread d"
      "d_db d' = d_db d" "d_statement d' = d_statement d"
    and s': "heap s' = (\<lambda>y. if y \<in> set L then None else ((heap s)(a \<mapsto> Database d')) y)" "locked s' = locked s - {#d_callback d#}"
      "mallocs s' = mallocs s" "closing s' = closing s" "g_callbacks s' = Some (Scons (Scons (d_callback d) args) q)"
      "sqlite_objs s' = sqlite_objs s" "length (calls s) \<le> length (calls s')"
  shows "answered X B a d s (Some s')"
proof -
  note D = db_invD [OF inv]
  have axs: "a \<notin> set xs" by (rule db_inv_not_stmt [OF inv])
  have comp: "completes X (d_callback d) s (Some s')"
    by (rule completesI_request [OF D(1,3,2) d(1) _ L s'(1,2) _ s'(4,5) q]) (simp_all add: d' s'(3))
  have aL: "a \<notin> set L" using L(2) [of a] D(3) by auto
  have "registry (others B d') a d' xs s'"
  proof (rule registry_frame)
    show "registry (others B d') a d xs s" using D(5) by (auto simp: others_def d' split: if_splits)
    show "heap s' x = heap s x" if "x \<in> set xs" for x
    proof -
      have "x \<notin> set L" using L(2) [of x] registry_stmt [OF D(5) that] by auto
      then show ?thesis using that axs s'(1) by auto
    qed
  qed (use s' d' in simp_all)
  moreover have "protocol d' xs s'" using D(6) d unfolding protocol_def done_ok_def by (auto simp: d' split: if_splits)
  ultimately have "db_inv X B a d' xs s'"
    using comp D(2,4) s'(1,4) aL by (simp add: db_inv_def completes_def d')
  then show ?thesis unfolding answered_def using comp by (auto simp: d')
qed


lemma protocol_done:
  assumes "protocol d xs s" and "d_async_sent d"
  obtains w where "d_busy d" "d_async_data d = Some (cb_of w)" "arg_ok w d xs s" "d_work d = None" "done_ok w d xs"
  using assms unfolding protocol_def by (auto split: if_splits)

text \<open>The start of the callback and of the completion.\<close>

lemma finish_work_eq:
  assumes "osi_inv X s" and "heap s a = Some (Database d)" and "d_busy d" and "s0 = s\<lparr>heap := h\<rparr>" and "h a \<noteq> None"
    and "d_callback d0 = d_callback d"
  shows "finish_work arg a d0 s0 = Some (s\<lparr>heap := h(a \<mapsto> Database (d0\<lparr>d_busy := False, d_callback := Svoid, d_arg := arg\<rparr>)),
      locked := locked s - {#d_callback d#}\<rparr>)"
  using held_locked [OF assms(1,2), of "d_callback d"] assms(3-6) by (simp add: finish_work_def store_def Sunlock_object_def)

lemma prepare_answers:
  assumes inv: "db_inv X B a d xs s" and d: "d_async_sent d" and w: "d_async_data d = Some Prepare_cb" and q: "g_callbacks s = Some q"
  shows "answered X B a d s (async_cb E out a s)"
proof -
  note D = db_invD [OF inv]
  obtain w' where b: "d_busy d" "d_async_data d = Some (cb_of w')" "arg_ok w' d xs s"
    and th: "done_ok w' d xs"
    by (rule protocol_done [OF D(6) d])
  have w': "w' = Prepare_worker" using b(2) w by (cases w') auto
  then have th: "d_thread d \<noteq> Gone" using th by (auto simp: done_ok_def)
  obtain p t where p: "d_arg d = Db_sql p" "heap s p = Some (C_string t)" using b(3) w' by (auto simp: arg_ok_def)
  have pa: "p \<noteq> a" "p \<noteq> 0" using p(2) D(3) osi_inv_null [OF D(1)] by (auto intro: ccontr)
  let ?d0 = "d\<lparr>d_async_sent := False\<rparr>"
  let ?d1 = "?d0\<lparr>d_sql_len := 0\<rparr>"
  let ?h = "(heap s)(a \<mapsto> Database ?d0, p := None)"
  let ?d' = "d\<lparr>d_async_sent := False, d_sql_len := 0, d_busy := False, d_callback := Svoid, d_arg := Db_null\<rparr>"
  let ?s1 = "s\<lparr>heap := ?h(a \<mapsto> Database ?d'), locked := locked s - {#d_callback d#}\<rparr>"
  have live: "d_db d \<in> sqlite_objs s" by (rule db_live [OF inv th])
  have fw: "finish_work Db_null a ?d1 (s\<lparr>heap := ?h\<rparr>) = Some ?s1"
    using finish_work_eq [OF D(1,3) b(1) refl, of ?h ?d1 Db_null] pa by simp
  have "\<exists>args. async_cb E out a s = Some (?s1\<lparr>g_callbacks := Some (Scons (Scons (d_callback d) args) q)\<rparr>)"
    using D(3) w p pa fw live q
    by (cases "d_sqlite_rc d = SQLITE_OK") (auto simp: async_cb_def prepare_cb_def Let_def load_db_def store_def c_free_def make_sqlite_error_def osi_add_callback1_def osi_add_callback_list_def)
  then obtain args where res: "async_cb E out a s = Some (?s1\<lparr>g_callbacks := Some (Scons (Scons (d_callback d) args) q)\<rparr>)" by blast
  show ?thesis unfolding res
    by (rule answeredI [OF inv b(1) d th q, of "[p]" ?d']) (use p pa in \<open>auto simp: fun_eq_iff\<close>)
qed

lemma step_answers:
  assumes inv: "db_inv X B a d xs s" and d: "d_async_sent d" and w: "d_async_data d = Some Step_cb" and q: "g_callbacks s = Some q"
  shows "answered X B a d s (async_cb E out a s)"
proof -
  note D = db_invD [OF inv]
  obtain w' where b: "d_busy d" "d_async_data d = Some (cb_of w')" "arg_ok w' d xs s"
    and th: "done_ok w' d xs"
    by (rule protocol_done [OF D(6) d])
  have w': "w' = Step_worker" using b(2) w by (cases w') auto
  then have th: "d_thread d \<noteq> Gone" using th by (auto simp: done_ok_def)
  obtain n where n: "d_arg d = Db_stmt n" "n = 0 \<or> n \<in> set (handles (heap s) xs)" using b(3) w' by (auto simp: arg_ok_def)
  then have nl: "n \<noteq> 0 \<Longrightarrow> n \<in> sqlite_objs s" using D(5) by (auto simp: registry_def)
  let ?d0 = "d\<lparr>d_async_sent := False\<rparr>"
  let ?d' = "d\<lparr>d_async_sent := False, d_busy := False, d_callback := Svoid, d_arg := Db_null\<rparr>"
  let ?s1 = "s\<lparr>heap := (heap s)(a \<mapsto> Database ?d'), locked := locked s - {#d_callback d#}\<rparr>"
  have live: "d_db d \<in> sqlite_objs s" by (rule db_live [OF inv th])
  have fw: "finish_work Db_null a ?d0 (s\<lparr>heap := (heap s)(a \<mapsto> Database ?d0)\<rparr>) = Some ?s1"
    using finish_work_eq [OF D(1,3) b(1) refl, of "(heap s)(a \<mapsto> Database ?d0)" ?d0 Db_null] by simp
  have row: "\<exists>xs bv. row_loop E i vs u = (xs, u\<lparr>bytevectors := bv\<rparr>)" for i vs u
  proof (induction vs arbitrary: i u)
    case Nil
    show ?case by (intro exI [of _ "[]"] exI [of _ "bytevectors u"]) simp
  next
    case (Cons v vs)
    obtain x bv where "column_value E i v u = (x, u\<lparr>bytevectors := bv\<rparr>)"
      by (cases v) (auto simp: that [of _ "bytevectors u"])
    then show ?case using Cons.IH [of "Suc i" "u\<lparr>bytevectors := bv\<rparr>"] by auto
  qed
  obtain xs' bv where row: "row_loop E (fresh out) (row out) ?s1 = (xs', ?s1\<lparr>bytevectors := bv\<rparr>)" using row by blast
  have "\<exists>s' args. async_cb E out a s = Some s' \<and> heap s' = (heap s)(a \<mapsto> Database ?d') \<and> locked s' = locked s - {#d_callback d#}
      \<and> mallocs s' = mallocs s \<and> closing s' = closing s \<and> g_callbacks s' = Some (Scons (Scons (d_callback d) args) q)
      \<and> sqlite_objs s' = sqlite_objs s \<and> calls s' = calls s"
    using D(3) w n(1) nl fw live q row
    by (auto simp: async_cb_def step_cb_def Let_def load_db_def store_def make_sqlite_error_def osi_add_callback1_def osi_add_callback_list_def)
  then obtain s' args where res: "async_cb E out a s = Some s'" and s': "heap s' = (heap s)(a \<mapsto> Database ?d')"
    "locked s' = locked s - {#d_callback d#}" "mallocs s' = mallocs s" "closing s' = closing s"
    "g_callbacks s' = Some (Scons (Scons (d_callback d) args) q)" "sqlite_objs s' = sqlite_objs s" "calls s' = calls s"
    by blast
  show ?thesis unfolding res
    by (rule answeredI [OF inv b(1) d th q, of "[]" ?d' s' args]) (use s' in \<open>simp_all add: fun_eq_iff\<close>)
qed


lemma bulk_answers:
  assumes inv: "db_inv X B a d xs s" and d: "d_async_sent d" and w: "d_async_data d = Some Bulk_cb" and q: "g_callbacks s = Some q"
  shows "answered X B a d s (async_cb E out a s)"
proof -
  note D = db_invD [OF inv]
  obtain w' where b: "d_busy d" "d_async_data d = Some (cb_of w')" "arg_ok w' d xs s" and th: "done_ok w' d xs"
    by (rule protocol_done [OF D(6) d])
  have w': "w' = Bulk_worker" using b(2) w by (cases w') auto
  then have th: "d_thread d \<noteq> Gone" using th by (auto simp: done_ok_def)
  obtain k kb ps qs where k: "d_arg d = Db_bulk kb" "heap s kb = Some (Bulk k)" "heap s (bulk_statements k) = Some (Pointers ps)"
    "heap s (bulk_mbindings k) = Some (Pointers qs)" "bulk_statements k \<noteq> bulk_mbindings k"
    using b(3) w' by (auto simp: arg_ok_def bulk_ok_def)
  have ne: "kb \<noteq> a" "bulk_statements k \<noteq> a" "bulk_mbindings k \<noteq> a" "bulk_statements k \<noteq> kb" "bulk_mbindings k \<noteq> kb"
    "kb \<noteq> 0" "bulk_statements k \<noteq> 0" "bulk_mbindings k \<noteq> 0"
    using k D(3) osi_inv_null [OF D(1)] by (auto intro: ccontr)
  let ?d0 = "d\<lparr>d_async_sent := False\<rparr>"
  let ?d' = "d\<lparr>d_async_sent := False, d_busy := False, d_callback := Svoid, d_arg := Db_null\<rparr>"
  define h where "h = (heap s)(a \<mapsto> Database ?d')"
  let ?s1 = "s\<lparr>heap := h, locked := locked s - {#d_callback d#}\<rparr>"
  have live: "d_db d \<in> sqlite_objs s" by (rule db_live [OF inv th])
  have fw: "finish_work Db_null a ?d0 (s\<lparr>heap := (heap s)(a \<mapsto> Database ?d0)\<rparr>) = Some ?s1"
    using finish_work_eq [OF D(1,3) b(1) refl, of "(heap s)(a \<mapsto> Database ?d0)" ?d0 Db_null] by (simp add: h_def)
  have hk: "h kb = Some (Bulk k)" "h (bulk_statements k) = Some (Pointers ps)" "h (bulk_mbindings k) = Some (Pointers qs)"
    using k ne by (simp_all add: h_def)
  let ?h' = "h(bulk_mbindings k := None, bulk_statements k := None, kb := None)"
  have frees: "Option.bind (c_free (bulk_mbindings k) ?s1) (\<lambda>s. Option.bind (c_free (bulk_statements k) s) (c_free kb)) = Some (?s1\<lparr>heap := ?h'\<rparr>)"
    using hk ne k(5) by (simp add: c_free_def)
  have "\<exists>v. async_cb E out a s = Option.bind (Some (?s1\<lparr>heap := ?h'\<rparr>)) (osi_add_callback1 (d_callback d) v)"
    using D(3) w k(1) hk(1) fw live unfolding frees [symmetric]
    by (auto simp: async_cb_def bulk_cb_def Let_def load_db_def load_bulk_def store_def make_sqlite_error_def c_free_def
        split: if_splits bind_splits)
  then obtain args where "async_cb E out a s = Some (?s1\<lparr>heap := ?h', g_callbacks := Some (Scons (Scons (d_callback d) args) q)\<rparr>)"
    using q by (auto simp: osi_add_callback1_def osi_add_callback_list_def)
  then obtain s' where res: "async_cb E out a s = Some s'" and s': "heap s' = ?h'"
    "locked s' = locked s - {#d_callback d#}" "mallocs s' = mallocs s" "closing s' = closing s"
    "g_callbacks s' = Some (Scons (Scons (d_callback d) args) q)" "sqlite_objs s' = sqlite_objs s" "calls s' = calls s"
    by simp
  let ?L = "[kb, bulk_statements k, bulk_mbindings k]"
  have h: "heap s' = (\<lambda>y. if y \<in> set ?L then None else ((heap s)(a \<mapsto> Database ?d')) y)"
    unfolding s'(1) h_def by (rule ext) (use ne in auto)
  have L: "\<exists>x. heap s y = Some x \<and> plain x" if "y \<in> set ?L" for y using that k(2-4) by auto
  have "distinct ?L" using ne k(5) by simp
  then show ?thesis unfolding res
    by (rule answeredI [OF inv b(1) d th q _ L, of ?L ?d' s' args]) (use s'(2-7) h in simp_all)
qed

lemma close_answers:
  assumes inv: "db_inv X B a d xs s" and d: "d_async_sent d" and w: "d_async_data d = Some Close_cb" and q: "g_callbacks s = Some q"
  shows "answered X B a d s (async_cb E out a s)"
proof -
  note D = db_invD [OF inv]
  obtain w' where b: "d_busy d" "d_async_data d = Some (cb_of w')" "arg_ok w' d xs s" and done_ok: "done_ok w' d xs"
    by (rule protocol_done [OF D(6) d])
  have w': "w' = Close_worker" using b(2) w by (cases w') auto
  have arg: "d_arg d = Db_null" using b(3) w' by (simp add: arg_ok_def)
  let ?d0 = "d\<lparr>d_async_sent := False\<rparr>"
  let ?d' = "d\<lparr>d_async_sent := False, d_busy := False, d_callback := Svoid, d_arg := Db_null\<rparr>"
  let ?s1 = "s\<lparr>heap := (heap s)(a \<mapsto> Database ?d'), locked := locked s - {#d_callback d#}\<rparr>"
  have fw: "finish_work Db_null a ?d0 (s\<lparr>heap := (heap s)(a \<mapsto> Database ?d0)\<rparr>) = Some ?s1"
    using finish_work_eq [OF D(1,3) b(1) refl, of "(heap s)(a \<mapsto> Database ?d0)" ?d0 Db_null] by simp
  show ?thesis
  proof (cases "d_sqlite_rc d = SQLITE_OK")
    case False
    then have th: "d_thread d \<noteq> Gone" using done_ok by (auto simp: done_ok_def)
    have live: "d_db d \<in> sqlite_objs s" by (rule db_live [OF inv th])
    have "\<exists>args. async_cb E out a s = Some (?s1\<lparr>g_callbacks := Some (Scons (Scons (d_callback d) args) q)\<rparr>)"
      using False D(3) w arg fw live q
      by (auto simp: async_cb_def close_cb_def Let_def load_db_def store_def make_sqlite_error_def osi_add_callback1_def osi_add_callback_list_def)
    then obtain args where res: "async_cb E out a s = Some (?s1\<lparr>g_callbacks := Some (Scons (Scons (d_callback d) args) q)\<rparr>)" by blast
    show ?thesis unfolding res by (rule answeredI [OF inv b(1) d th q, of "[]" ?d']) (auto simp: fun_eq_iff)
  next
    case True
    then have gone: "d_thread d = Gone" "xs = []" using done_ok w' by (simp_all add: done_ok_def)
    let ?c = "[Hnd (Uv_thread_join a), Hnd (Uv_cond_destroy a), Hnd (Uv_mutex_destroy a), Hnd (Uv_close a Close_free_cb)]"
    let ?s2 = "?s1\<lparr>g_callbacks := Some (Scons (Scons (d_callback d) (Scons Strue Snil)) q)\<rparr>"
    let ?s3 = "?s1\<lparr>calls := calls s @ ?c, closing := (closing s)(a \<mapsto> Close_free_cb), g_callbacks := Some (Scons (Scons (d_callback d) (Scons Strue Snil)) q)\<rparr>"
    have res: "async_cb E out a s = Some ?s3"
      using True D(2,3) w arg fw q
      by (simp add: async_cb_def close_cb_def Let_def load_db_def store_def uv_void_def uv_close_def osi_add_callback1_def osi_add_callback_list_def)
    have comp: "completes X (d_callback d) s (Some ?s2)"
      by (rule completesI_request [OF D(1,3,2) b(1), of ?d' "[]"]) (use q in \<open>simp_all add: fun_eq_iff\<close>)
    then have inv2: "osi_inv X ?s2" by (simp add: completes_def)
    have "\<forall>b. \<not> links_to (heap ?s2) a True b"
      by (intro allI heap_ok_no_link [OF osi_inv_heap [OF inv2], of a "Database ?d'"]) simp_all
    then have "osi_inv X ?s3" by (intro osi_inv_close [OF inv2, of a "Database ?d'" Close_free_cb]) simp_all
    moreover have "owed ?s3 = owed ?s2" by (simp add: owed_def)
    ultimately have "completes X (d_callback d) s (Some ?s3)" using comp q by (simp add: completes_def)
    moreover have "sqlite_objs s = B" using D(5) gone by (simp add: registry_def others_def)
    ultimately show ?thesis unfolding answered_def res by (intro conjI exI [of _ ?s3]) simp_all
  qed
qed

lemma async_cb_answers:
  assumes inv: "db_inv X B a d xs s" and d: "d_async_sent d" and q: "g_callbacks s = Some q"
  shows "answered X B a d s (async_cb E out a s)"
proof -
  obtain w where "d_async_data d = Some (cb_of w)" using protocol_done [OF db_invD(6) [OF inv] d] by metis
  then show ?thesis
    using prepare_answers [OF inv d _ q] step_answers [OF inv d _ q] bulk_answers [OF inv d _ q] close_answers [OF inv d _ q]
    by (cases w) simp_all
qed

end
