(* ===== verification/Sqlite_Requests.thy ===== *)
theory Sqlite_Requests
  imports Sqlite_Worker
begin

text \<open>
  The operations Scheme calls on a database, against the invariant of the preceding theory: each is
  accepted, refused, or done at once; the conversation of the three parties as a transition system; and
  what opening a database leaves behind.
\<close>

section \<open>Accepting work\<close>

text \<open>
  A request is accepted with \<open>#t\<close>, and then the database is busy with it and owes the callback, or
  refused with an error pair, and then nothing has changed but the count of allocations.
\<close>

definition requested :: "ptr multiset \<Rightarrow> nat set \<Rightarrow> uptr \<Rightarrow> database_t \<Rightarrow> uptr list \<Rightarrow> ptr \<Rightarrow> osi \<Rightarrow> (ptr \<times> osi) option \<Rightarrow> bool" where
  "requested X B a d xs cb s res \<longleftrightarrow>
     (\<exists>r s' d'. res = Some (r, s') \<and> db_inv X B a d' xs s' \<and> g_callbacks s' = g_callbacks s
        \<and> (if r = Strue then \<not> d_busy d \<and> d_busy d' \<and> d_callback d' = cb \<and> \<not> d_async_sent d' \<and> owed s' = add_mset cb (owed s)
           else error_pair r \<and> d' = d \<and> owed s' = owed s \<and> heap s' = heap s \<and> locked s' = locked s))"

lemma protocol_idle: "protocol d xs s \<Longrightarrow> \<not> d_busy d \<Longrightarrow> d_work d = None \<and> \<not> d_async_sent d \<and> d_thread d \<in> {At_top, Waiting} \<and> d_arg d = Db_null"
  by (simp add: protocol_def)

text \<open>The invariant does not depend on anything but the heap, the locks and the SQLite objects.\<close>

lemma db_inv_same:
  assumes inv: "db_inv X B a d xs s" and s': "heap s' = heap s" "locked s' = locked s" "mallocs s \<le> mallocs s'"
    "closing s' = closing s" "sqlite_objs s' = sqlite_objs s" "length (calls s) \<le> length (calls s')"
  shows "db_inv X B a d xs s'" and "owed s' = owed s"
proof -
  note D = db_invD [OF inv]
  have "arg_ok w d xs s'" if "arg_ok w d xs s" for w
    using that s'(1) by (intro arg_ok_frame [OF that]) (simp_all add: keeps_def)
  then have "protocol d xs s'" using D(6) unfolding protocol_def by (auto split: if_splits)
  moreover have "registry (others B d) a d xs s'" using s' by (intro registry_frame [OF D(5)]) simp_all
  moreover have "osi_inv X s'" by (rule osi_inv_same [OF D(1)]) (use s' in simp_all)
  ultimately show "db_inv X B a d xs s'" using D s' by (simp add: db_inv_def)
  show "owed s' = owed s" using s'(1) by (simp add: owed_def)
qed

lemma requested_refused:
  assumes "db_inv X B a d xs s" and "heap s' = heap s" "locked s' = locked s" "mallocs s \<le> mallocs s'"
    "closing s' = closing s" "sqlite_objs s' = sqlite_objs s" "calls s' = calls s" "g_callbacks s' = g_callbacks s"
  shows "requested X B a d xs cb s (Some (osi_make_error_pair who e, s'))"
  using db_inv_same [OF assms(1-6)] assms(2,3,7,8) unfolding requested_def by (auto intro!: exI [of _ d])

text \<open>A block of plain data more.\<close>

lemma db_inv_malloc:
  assumes inv: "db_inv X B a d xs s" and x: "plain x"
    and s': "s' = s\<lparr>mallocs := Suc (mallocs s), heap := (heap s)(Suc (mallocs s) \<mapsto> x)\<rparr>"
  shows "db_inv X B a d xs s'" and "owed s' = owed s"
proof -
  note D = db_invD [OF inv]
  have fresh: "heap s (Suc (mallocs s)) = None" by (rule osi_inv_fresh [OF D(1)])
  have free: "obj_held x = {#}" "obj_owed x = {#}" "obj_link x = None" "obj_ok x" using x by (cases x; simp)+
  have "heap_ok (heap s')" using heap_ok_new [OF osi_inv_heap [OF D(1)] fresh free(3,4)] s' by simp
  then have "osi_inv X s'" using free s' by (intro osi_inv_new [OF D(1), of s' x]) simp_all
  moreover have "registry (others B d) a d xs s'"
  proof (rule registry_frame [OF D(5)])
    show "heap s' y = heap s y" if "y \<in> set xs" for y using registry_stmt [OF D(5) that] fresh s' by auto
  qed (use s' in simp_all)
  moreover have "protocol d xs s'"
  proof -
    have "handles (heap s') xs = handles (heap s) xs"
      using fresh registry_stmt [OF D(5)] s' by (intro handles_cong) (fastforce simp: handle_def)
    then have "arg_ok w d xs s'" if "arg_ok w d xs s" for w
      using fresh s' by (intro arg_ok_frame [OF that]) (auto simp: keeps_def)
    then show ?thesis using D(6) unfolding protocol_def by (auto split: if_splits)
  qed
  moreover have "heap s' a = Some (Database d)" using D(3) fresh s' by auto
  ultimately show "db_inv X B a d xs s'" using D(2,4) s' by (simp add: db_inv_def)
  show "owed s' = owed s" using owed_new [OF D(1), of s' x] free s' by simp
qed

lemma submit_work_accepts:
  assumes inv: "db_inv X B a d xs s" and idle: "\<not> d_busy d" and arg: "arg_ok w (d\<lparr>d_arg := arg, d_sql_len := len\<rparr>) xs s"
  shows "requested X B a d xs cb s (submit_work (cb_of w) w arg len cb a d s)"
proof -
  note D = db_invD [OF inv]
  have axs: "a \<notin> set xs" by (rule db_inv_not_stmt [OF inv])
  note I = protocol_idle [OF D(6) idle]
  let ?d = "d\<lparr>d_async_data := Some (cb_of w), d_busy := True, d_work := Some w, d_callback := cb, d_arg := arg, d_sql_len := len,
      d_thread := (if d_thread d = Waiting then At_top else d_thread d)\<rparr>"
  let ?s = "s\<lparr>locked := add_mset cb (locked s), heap := (heap s)(a \<mapsto> Database ?d)\<rparr>"
  have res: "submit_work (cb_of w) w arg len cb a d s = Some (Strue, ?s)"
    using D(3) by (simp add: submit_work_def Slock_object_def store_def)
  have "osi_inv X ?s" using D(2) idle by (intro osi_inv_upd [OF D(1,3), where y = "Database ?d"]) simp_all
  moreover have "registry (others B ?d) a ?d xs ?s"
  proof (rule registry_frame)
    show "registry (others B ?d) a d xs s" using D(5) I by (auto simp: others_def split: if_splits)
    show "heap ?s x = heap s x" if "x \<in> set xs" for x using that axs by auto
  qed simp_all
  moreover have "protocol ?d xs ?s"
  proof -
    have "arg_ok w ?d xs ?s" by (rule arg_ok_store [OF arg D(3) axs]) simp_all
    then show ?thesis using I unfolding protocol_def by (auto intro!: exI [of _ w])
  qed
  ultimately have "db_inv X B a ?d xs ?s" using D(2,4) by (simp add: db_inv_def)
  moreover have "owed ?s = add_mset cb (owed s)" using owed_upd [OF D(1,3), of ?s "Database ?d"] idle by simp
  ultimately show ?thesis unfolding requested_def res using idle I
    by (intro exI [of _ Strue] exI [of _ ?s] exI [of _ ?d]) simp
qed

section \<open>The requests\<close>

lemma close_database_requested:
  assumes inv: "db_inv X B a d xs s"
  shows "requested X B a d xs cb s (osi_close_database E a cb s)"
proof (cases "d_busy d")
  case True
  then show ?thesis using requested_refused [OF inv, of s] db_invD(3) [OF inv] by (simp add: osi_close_database_def load_db_def)
next
  case False
  have "arg_ok Close_worker (d\<lparr>d_arg := d_arg d, d_sql_len := d_sql_len d\<rparr>) xs s"
    using protocol_idle [OF db_invD(6) [OF inv] False] by (simp add: arg_ok_def)
  from submit_work_accepts [OF inv False this] show ?thesis
    using False db_invD(3) [OF inv] by (simp add: osi_close_database_def load_db_def)
qed

lemma requested_trans:
  assumes "requested X B a d xs cb s' res" and "owed s' = owed s" and "g_callbacks s' = g_callbacks s"
    and "\<And>r s''. res = Some (r, s'') \<Longrightarrow> r = Strue"
  shows "requested X B a d xs cb s res"
  using assms unfolding requested_def by fastforce

lemma prepare_statement_requested:
  assumes inv: "db_inv X B a d xs s" and small: "\<And>str. sql = Sstring str \<Longrightarrow> 4 * length str + 1 < 2 ^ 64"
  shows "requested X B a d xs cb s (osi_prepare_statement E a sql cb s)"
proof (cases "d_busy d \<or> (\<forall>str. sql \<noteq> Sstring str)")
  case True
  then show ?thesis using requested_refused [OF inv, of s] db_invD(3) [OF inv]
    by (cases sql) (auto simp: osi_prepare_statement_def load_db_def)
next
  case False
  note D = db_invD [OF inv]
  obtain str where str: "sql = Sstring str" and idle: "\<not> d_busy d" using False by blast
  show ?thesis
  proof (cases "oom E (mallocs s)")
    case True
    then show ?thesis using idle str D(3) requested_refused [OF inv, of "s\<lparr>mallocs := Suc (mallocs s)\<rparr>"]
      by (simp add: osi_prepare_statement_def load_db_def malloc_container_def osi_string_to_utf8_def)
  next
    case alloc: False
    let ?t = "utf8_encode str @ [0]"
    let ?x = "Suc (mallocs s)"
    let ?s1 = "s\<lparr>mallocs := ?x, heap := (heap s)(?x \<mapsto> C_string ?t)\<rparr>"
    let ?len = "of_nat (length (utf8_encode str)) :: u64"
    have fresh: "heap s ?x = None" by (rule osi_inv_fresh [OF D(1)])
    have "length (utf8_encode str) < 2 ^ 64" using length_utf8_encode_le [of str] small [OF str] by linarith
    then have len: "unat ?len = length (utf8_encode str)" by (simp add: unat_of_nat)
    have ulen: "uint ?len = int (length (utf8_encode str))" using len by (metis uint_nat)
    have code: "osi_prepare_statement E a sql cb s =
        (if ?len > 0x7fffffff then Some (osi_make_error_pair ''sqlite3_prepare_v2'' (TRANSLATE_SQLITE_ERRNO SQLITE_TOOBIG), s\<lparr>mallocs := ?x, heap := heap s\<rparr>)
         else submit_work (cb_of Prepare_worker) Prepare_worker (Db_sql ?x) (uint ?len) cb a d ?s1)"
      using idle str D(3) alloc fresh osi_string_to_utf8_ok [OF small [OF str]]
      by (simp add: osi_prepare_statement_def load_db_def malloc_container_def store_def c_free_def fun_upd_idem)
    show ?thesis
    proof (cases "?len > 0x7fffffff")
      case True
      then show ?thesis unfolding code using requested_refused [OF inv, of "s\<lparr>mallocs := ?x, heap := heap s\<rparr>"] by simp
    next
      case False
      then have "unat ?len \<le> 0x7fffffff" by (simp add: word_less_nat_alt not_less)
      then have arg: "arg_ok Prepare_worker (d\<lparr>d_arg := Db_sql ?x, d_sql_len := uint ?len\<rparr>) xs ?s1"
        using len ulen by (simp add: arg_ok_def)
      note M = db_inv_malloc [OF inv, of "C_string ?t", OF _ refl, simplified]
      have "requested X B a d xs cb ?s1 (submit_work (cb_of Prepare_worker) Prepare_worker (Db_sql ?x) (uint ?len) cb a d ?s1)"
        by (rule submit_work_accepts [OF M(1) idle arg])
      then have "requested X B a d xs cb s (submit_work (cb_of Prepare_worker) Prepare_worker (Db_sql ?x) (uint ?len) cb a d ?s1)"
        using M(2) by (rule requested_trans) (auto simp: submit_work_def split: bind_splits)
      then show ?thesis unfolding code using False by simp
    qed
  qed
qed


lemma idle_statement_eq:
  assumes inv: "db_inv X B a d xs s" and x: "x \<in> set xs"
  obtains st where "heap s x = Some (Statement st)" "st_database st = a" "st_stmt st = handle (heap s) x"
    "idle_statement E who x s = Some (if d_busy d then Inl (osi_make_error_pair who (uv_errno E EBUSY)) else Inr (st, d))"
proof -
  note D = db_invD [OF inv]
  obtain st where "heap s x = Some (Statement st)" "st_database st = a" using registry_stmt [OF D(5) x] by blast
  then show ?thesis using that D(3) db_inv_nonnull [OF inv] by (simp add: idle_statement_def load_stmt_def load_db_def handle_def)
qed

lemma handle_in: "x \<in> set xs \<Longrightarrow> handle h x = 0 \<or> handle h x \<in> set (handles h xs)"
  by (auto simp: handles_def)

lemma step_statement_requested:
  assumes inv: "db_inv X B a d xs s" and x: "x \<in> set xs"
  shows "requested X B a d xs cb s (osi_step_statement E x cb s)"
proof -
  obtain st where st: "heap s x = Some (Statement st)" "st_database st = a" "st_stmt st = handle (heap s) x"
    "idle_statement E ''osi_step_statement'' x s =
       Some (if d_busy d then Inl (osi_make_error_pair ''osi_step_statement'' (uv_errno E EBUSY)) else Inr (st, d))"
    by (rule idle_statement_eq [OF inv x])
  show ?thesis
  proof (cases "d_busy d")
    case True
    then show ?thesis using st(4) requested_refused [OF inv, of s] by (simp add: osi_step_statement_def)
  next
    case False
    have "arg_ok Step_worker (d\<lparr>d_arg := Db_stmt (st_stmt st), d_sql_len := d_sql_len d\<rparr>) xs s"
      using handle_in [OF x, of "heap s"] st(3) by (simp add: arg_ok_def)
    from submit_work_accepts [OF inv False this] show ?thesis
      using st(2,4) False by (simp add: osi_step_statement_def)
  qed
qed

text \<open>Bulk requests: the statements are of this database, the bindings are marshalled blocks.\<close>

lemma vector_pointers_map: "vector_pointers (map (Sinteger \<circ> int) ps) = Some ps"
  by (induction ps) simp_all

lemma fill_bulk_requested:
  assumes inv: "db_inv X B a d xs s" and idle: "\<not> d_busy d" and len: "length ps = length qs" and ps: "set ps \<subseteq> set xs"
    and qs: "\<forall>q \<in> set qs. binding_block_ok s q"
  shows "requested X B a d xs cb s (fill_bulk E (map (Sinteger \<circ> int) ps) (map (Sinteger \<circ> int) qs) cb a d s)"
proof -
  note D = db_invD [OF inv]
  let ?m = "mallocs s"
  have fresh: "heap s (Suc ?m) = None" "heap s (Suc (Suc ?m)) = None" "heap s (Suc (Suc (Suc ?m))) = None"
    by (rule osi_inv_above [OF D(1)], simp)+
  let ?k = "\<lparr>bulk_count = length ps, bulk_statements = Suc (Suc ?m), bulk_mbindings = Suc (Suc (Suc ?m)), bulk_who = None\<rparr>"
  consider "oom E ?m" | "\<not> oom E ?m" "oom E (Suc ?m)" | "\<not> oom E ?m" "\<not> oom E (Suc ?m)" "oom E (Suc (Suc ?m))"
    | "\<not> oom E ?m" "\<not> oom E (Suc ?m)" "\<not> oom E (Suc (Suc ?m))" by blast
  then show ?thesis
  proof cases
    case 1
    then show ?thesis using requested_refused [OF inv, of "s\<lparr>mallocs := Suc ?m\<rparr>"] by (simp add: fill_bulk_def malloc_container_def)
  next
    case 2
    then show ?thesis using requested_refused [OF inv, of "s\<lparr>mallocs := Suc (Suc ?m), heap := heap s\<rparr>"] fresh
      by (simp add: fill_bulk_def malloc_container_def c_free_def fun_upd_idem)
  next
    case 3
    then show ?thesis using requested_refused [OF inv, of "s\<lparr>mallocs := Suc (Suc (Suc ?m)), heap := heap s\<rparr>"] fresh
      by (simp add: fill_bulk_def malloc_container_def c_free_def fun_upd_idem fun_upd_twist)
  next
    case 4
    let ?s1 = "s\<lparr>mallocs := Suc ?m, heap := (heap s)(Suc ?m \<mapsto> Bulk ?k)\<rparr>"
    let ?s2 = "?s1\<lparr>mallocs := Suc (Suc ?m), heap := (heap ?s1)(Suc (Suc ?m) \<mapsto> Pointers ps)\<rparr>"
    let ?s3 = "?s2\<lparr>mallocs := Suc (Suc (Suc ?m)), heap := (heap ?s2)(Suc (Suc (Suc ?m)) \<mapsto> Pointers qs)\<rparr>"
    note M1 = db_inv_malloc [OF inv, of "Bulk ?k" ?s1, simplified]
    note M2 = db_inv_malloc [OF M1(1), of "Pointers ps" ?s2, simplified]
    note M3 = db_inv_malloc [OF M2(1), of "Pointers qs" ?s3, simplified]
    have keep: "keeps s ?s3" unfolding keeps_def
    proof (intro allI impI)
      fix b x assume bx: "heap s b = Some x \<and> plain x"
      have "b \<noteq> Suc ?m" "b \<noteq> Suc (Suc ?m)" "b \<noteq> Suc (Suc (Suc ?m))" using bx fresh by (metis option.distinct(1))+
      then show "heap ?s3 b = Some x" using bx by simp
    qed
    have "binding_block_ok ?s3 q" if "q \<in> set qs" for q
      using qs that by (intro binding_block_ok_frame [OF _ keep]) blast
    then have "arg_ok Bulk_worker (d\<lparr>d_arg := Db_bulk (Suc ?m), d_sql_len := d_sql_len d\<rparr>) xs ?s3"
      using len ps unfolding arg_ok_def bulk_ok_def
      by (auto simp: binding_block_ok_def intro!: exI [of _ ?k] exI [of _ ps] exI [of _ qs])
    from submit_work_accepts [OF _ idle this, of X B a cb] M3
    have "requested X B a d xs cb ?s3 (submit_work (cb_of Bulk_worker) Bulk_worker (Db_bulk (Suc ?m)) (d_sql_len d) cb a d ?s3)" by simp
    then have "requested X B a d xs cb s (submit_work (cb_of Bulk_worker) Bulk_worker (Db_bulk (Suc ?m)) (d_sql_len d) cb a d ?s3)"
      by (rule requested_trans) (use M1 M2 M3 in \<open>auto simp: submit_work_def split: bind_splits\<close>)
    moreover have "fill_bulk E (map (Sinteger \<circ> int) ps) (map (Sinteger \<circ> int) qs) cb a d s =
        submit_work (cb_of Bulk_worker) Bulk_worker (Db_bulk (Suc ?m)) (d_sql_len d) cb a d ?s3"
    proof -
      have h: "(heap s)(Suc ?m \<mapsto> Raw, Suc (Suc ?m) \<mapsto> Raw, Suc (Suc (Suc ?m)) \<mapsto> Raw, Suc (Suc ?m) \<mapsto> Pointers ps,
            Suc (Suc (Suc ?m)) \<mapsto> Pointers qs, Suc ?m \<mapsto> Bulk ?k) = heap ?s3"
        by (rule ext) simp
      show ?thesis using 4 by (simp add: fill_bulk_def malloc_container_def store_def vector_pointers_map) (simp only: h [simplified])
    qed
    ultimately show ?thesis by simp
  qed
qed

lemma bulk_execute_requested:
  assumes inv: "db_inv X B a d xs s" and len: "length ps = length qs" and ps: "ps \<noteq> []" "set ps \<subseteq> set xs"
    and qs: "\<forall>q \<in> set qs. binding_block_ok s q"
  shows "requested X B a d xs cb s (osi_bulk_execute E (Svector (map (Sinteger \<circ> int) ps)) (Svector (map (Sinteger \<circ> int) qs)) cb s)"
proof -
  obtain p ps' where p: "ps = p # ps'" using ps(1) by (cases ps) auto
  then have nonempty: "qs \<noteq> []" using len by auto
  have "p \<in> set xs" using p ps(2) by simp
  then obtain st where st: "st_database st = a" "idle_statement E ''osi_bulk_execute'' p s =
       Some (if d_busy d then Inl (osi_make_error_pair ''osi_bulk_execute'' (uv_errno E EBUSY)) else Inr (st, d))"
    by (rule idle_statement_eq [OF inv, of p E "''osi_bulk_execute''"])
  show ?thesis
  proof (cases "d_busy d")
    case True
    then show ?thesis using st p len nonempty requested_refused [OF inv, of s] by (simp add: osi_bulk_execute_def)
  next
    case False
    then show ?thesis using st p len nonempty fill_bulk_requested [OF inv False len ps(2) qs, of cb E] by (simp add: osi_bulk_execute_def)
  qed
qed


section \<open>Finalizing and operations that finish at once\<close>

definition finalized :: "ptr multiset \<Rightarrow> nat set \<Rightarrow> uptr \<Rightarrow> database_t \<Rightarrow> uptr list \<Rightarrow> uptr \<Rightarrow> osi \<Rightarrow> (ptr \<times> osi) option \<Rightarrow> bool" where
  "finalized X B a d xs x s res \<longleftrightarrow>
     (if d_busy d then \<exists>e. error_pair e \<and> res = Some (e, s)
      else \<exists>s' q. res = Some (Strue, s') \<and> db_inv X B a (d\<lparr>d_statement := q\<rparr>) (remove1 x xs) s' \<and> heap s' x = None
        \<and> sqlite_objs s' = sqlite_objs s - set (handles (heap s) [x]) \<and> owed s' = owed s \<and> g_callbacks s' = g_callbacks s)"

lemma closing_statement: "osi_inv X s \<Longrightarrow> heap s x = Some (Statement st) \<Longrightarrow> closing s x = None"
proof (erule osi_inv_not_closing)
  show "\<forall>cb. \<not> closes cb (Statement st)"
  proof
    fix cb show "\<not> closes cb (Statement st)" by (cases cb) simp_all
  qed
qed

lemma finalize_statement_removes:
  assumes inv: "db_inv X B a d xs s" and x: "x \<in> set xs"
  shows "finalized X B a d xs x s (osi_finalize_statement E x s)"
proof -
  note D = db_invD [OF inv]
  obtain st where st: "heap s x = Some (Statement st)" "st_database st = a" "x \<noteq> 0" using registry_stmt [OF D(5) x] by blast
  have fin: "osi_finalize_statement E x s = finalize_attached E x s"
    using st db_inv_nonnull [OF inv] by (simp add: osi_finalize_statement_def load_stmt_def)
  show ?thesis
  proof (cases "d_busy d")
    case True
    then show ?thesis using fin st D(3) by (simp add: finalized_def finalize_attached_def load_stmt_def load_db_def)
  next
    case idle: False
    obtain us vs where xs: "xs = us @ x # vs" using x by (meson split_list)
    have dist: "distinct (us @ x # vs)" using D(5) xs by (simp add: registry_def)
    let ?n = "handles (heap s) [x]"
    let ?s1 = "s\<lparr>calls := calls s @ map (Sql \<circ> Sqlite3_finalize) ?n, sqlite_objs := sqlite_objs s - set ?n\<rparr>"
    have f: "sqlite3_finalize (st_stmt st) s = Some ?s1"
      using D(5) xs by (intro sqlite3_finalize_handle [OF st(1)]) (auto simp: registry_def)
    obtain r where sg: "seg (heap ?s1) a 0 (d_statement d) (us @ x # vs) r 0" using D(5) xs by (auto simp: registry_def)
    obtain h q r' where u: "unlink_statement x ?s1 = Some (?s1\<lparr>heap := h\<rparr>)" "h a = Some (Database (d\<lparr>d_statement := q\<rparr>))"
      "seg h a 0 q (us @ vs) r' 0" "\<forall>y. handle h y = handle (heap s) y" "h x = heap s x" "\<forall>y. rel_option similar (heap s y) (h y)"
      using unlink_statement_spec [of ?s1 a d us x vs r] D(3) sg dist by auto
    let ?s2 = "?s1\<lparr>heap := h\<rparr>"
    let ?s3 = "?s2\<lparr>heap := h(x := None)\<rparr>"
    let ?d = "d\<lparr>d_statement := q\<rparr>"
    have res: "osi_finalize_statement E x s = Some (Strue, ?s3)"
      unfolding fin using idle st f u D(3) by (simp add: finalize_attached_def load_stmt_def load_db_def c_free_def)
    have inv2: "osi_inv X ?s2" and owed2: "owed ?s2 = owed s" using osi_inv_similar [OF D(1), of ?s2] u(6) by simp_all
    have hx: "heap ?s2 x = Some (Statement st)" using u(5) st(1) by simp
    have "osi_inv X ?s3" using closing_statement [OF inv2 hx] by (intro osi_inv_del [OF inv2 hx]) auto
    moreover have owed3: "owed ?s3 = owed s" using owed_del [OF inv2 hx, of ?s3] owed2 by simp
    moreover have "registry (others B ?d) a ?d (us @ vs) ?s3"
    proof (rule registry_remove)
      show "registry (others B ?d) a d (us @ x # vs) s" using D(5) xs by (auto simp: others_def split: if_splits)
      show "seg (heap ?s3) a 0 (d_statement ?d) (us @ vs) r' 0" using u(3) dist by simp
      show "handle (heap ?s3) y = handle (heap s) y" if "y \<in> set (us @ vs)" for y using that u(4) dist by auto
    qed simp_all
    moreover have "protocol ?d (us @ vs) ?s3" using protocol_idle [OF D(6) idle] idle by (simp add: protocol_def)
    moreover have "heap ?s3 a = Some (Database ?d)" using u(2) D(3) st(1) by auto
    ultimately have "db_inv X B a ?d (us @ vs) ?s3" using D(2,4) by (simp add: db_inv_def)
    moreover have "remove1 x xs = us @ vs" using dist xs by (simp add: remove1_append)
    ultimately show ?thesis unfolding finalized_def res using idle owed3 by (auto intro!: exI [of _ q])
  qed
qed

text \<open>
  Binding, clearing, resetting and the queries only make SQLite calls, and only on an idle database. An
  answer is \<open>#t\<close> or an error, which may carry SQLite's message.
\<close>

definition immediate :: "ptr multiset \<Rightarrow> nat set \<Rightarrow> uptr \<Rightarrow> database_t \<Rightarrow> uptr list \<Rightarrow> osi \<Rightarrow> (ptr \<times> osi) option \<Rightarrow> bool" where
  "immediate X B a d xs s res \<longleftrightarrow>
     (\<exists>r s'. res = Some (r, s') \<and> db_inv X B a d xs s' \<and> heap s' = heap s \<and> owed s' = owed s \<and> locked s' = locked s
        \<and> g_callbacks s' = g_callbacks s \<and> mallocs s \<le> mallocs s' \<and> length (calls s) \<le> length (calls s')
        \<and> closing s' = closing s \<and> sqlite_objs s' = sqlite_objs s \<and> (d_busy d \<longrightarrow> error_pair r \<and> s' = s))"

lemma immediateI:
  assumes inv: "db_inv X B a d xs s" and idle: "\<not> d_busy d" and s': "heap s' = heap s" "locked s' = locked s" "mallocs s \<le> mallocs s'"
    "closing s' = closing s" "sqlite_objs s' = sqlite_objs s" "length (calls s) \<le> length (calls s')" "g_callbacks s' = g_callbacks s"
  shows "immediate X B a d xs s (Some (r, s'))"
  using db_inv_same [OF inv s'(1-6)] s' idle by (simp add: immediate_def)

lemma handle_live:
  assumes "db_inv X B a d xs s" and "x \<in> set xs"
  shows "handle (heap s) x = 0 \<or> handle (heap s) x \<in> sqlite_objs s"
  using handle_in [OF assms(2), of "heap s"] db_invD(5) [OF assms(1)] by (auto simp: registry_def)

lemma immediate_busy:
  assumes "db_inv X B a d xs s" and "d_busy d"
  shows "immediate X B a d xs s (Some (osi_make_error_pair who e, s))"
  using assms by (simp add: immediate_def)

lemma sqlite_result_immediate:
  assumes inv: "db_inv X B a d xs s" and idle: "\<not> d_busy d" and s': "heap s' = heap s" "locked s' = locked s" "mallocs s \<le> mallocs s'"
    "closing s' = closing s" "sqlite_objs s' = sqlite_objs s" "length (calls s) \<le> length (calls s')" "g_callbacks s' = g_callbacks s"
  shows "immediate X B a d xs s (sqlite_result E who msg d rc s')"
proof -
  have "d_thread d \<noteq> Gone" using protocol_idle [OF db_invD(6) [OF inv] idle] by auto
  then have "d_db d \<in> sqlite_objs s'" using db_live [OF inv] s'(5) by simp
  then show ?thesis using immediateI [OF inv idle s'] by (simp add: sqlite_result_def make_sqlite_error_def)
qed

lemma statement_call_immediate:
  assumes inv: "db_inv X B a d xs s" and x: "x \<in> set xs"
    and op: "op = do {
        g \<leftarrow> idle_statement E name x s;
        case g of Inl e \<Rightarrow> Some (e, s)
        | Inr (st, d) \<Rightarrow> do { (rc, s) \<leftarrow> stmt_do E f (st_stmt st) s; sqlite_result E who msg d rc s }
      }"
  shows "immediate X B a d xs s op"
proof -
  obtain st where st: "st_stmt st = handle (heap s) x"
    "idle_statement E name x s = Some (if d_busy d then Inl (osi_make_error_pair name (uv_errno E EBUSY)) else Inr (st, d))"
    by (rule idle_statement_eq [OF inv x])
  show ?thesis
  proof (cases "d_busy d")
    case True
    then show ?thesis using immediate_busy [OF inv True] st(2) op by simp
  next
    case False
    then have "op = sqlite_result E who msg d (uv E (Sql (f (st_stmt st))) (length (calls s))) (s\<lparr>calls := calls s @ [Sql (f (st_stmt st))]\<rparr>)"
      using st handle_live [OF inv x] op by (auto simp: stmt_do_def uv_do_def)
    then show ?thesis using sqlite_result_immediate [OF inv False] by simp
  qed
qed

lemma reset_statement_immediate:
  "db_inv X B a d xs s \<Longrightarrow> x \<in> set xs \<Longrightarrow> immediate X B a d xs s (osi_reset_statement E msg x s)"
  by (rule statement_call_immediate) (simp_all add: osi_reset_statement_def)

lemma clear_statement_bindings_immediate:
  "db_inv X B a d xs s \<Longrightarrow> x \<in> set xs \<Longrightarrow> immediate X B a d xs s (osi_clear_statement_bindings E msg x s)"
  by (rule statement_call_immediate) (simp_all add: osi_clear_statement_bindings_def)


lemma bind_statement_immediate:
  assumes inv: "db_inv X B a d xs s" and x: "x \<in> set xs" and small: "\<And>str. datum = Sstring str \<Longrightarrow> 4 * length str + 1 < 2 ^ 64"
  shows "immediate X B a d xs s (osi_bind_statement E try64 msg x index datum s)"
proof -
  obtain st where st: "st_stmt st = handle (heap s) x"
    "idle_statement E ''osi_bind_statement'' x s =
       Some (if d_busy d then Inl (osi_make_error_pair ''osi_bind_statement'' (uv_errno E EBUSY)) else Inr (st, d))"
    by (rule idle_statement_eq [OF inv x])
  show ?thesis
  proof (cases "d_busy d")
    case True
    then show ?thesis using immediate_busy [OF inv True] st(2) by (simp add: osi_bind_statement_def)
  next
    case idle: False
    have call: "immediate X B a d xs s (Option.bind (stmt_do E (\<lambda>h. Sqlite3_bind h index v) (st_stmt st) s')
        (\<lambda>(rc, s). sqlite_result E who msg d rc s))"
      if s': "heap s' = heap s" "locked s' = locked s" "mallocs s \<le> mallocs s'" "closing s' = closing s"
        "sqlite_objs s' = sqlite_objs s" "calls s' = calls s" "g_callbacks s' = g_callbacks s" for v who s'
    proof -
      have "stmt_do E (\<lambda>h. Sqlite3_bind h index v) (st_stmt st) s' = Some (uv_do E (Sql (Sqlite3_bind (st_stmt st) index v)) s')"
        using st(1) handle_live [OF inv x] s'(5) by (auto simp: stmt_do_def)
      then show ?thesis using sqlite_result_immediate [OF inv idle] s' by (simp add: uv_do_def)
    qed
    have refuse: "immediate X B a d xs s (Some (e, s\<lparr>mallocs := m\<rparr>))" if "mallocs s \<le> m" for e m
      using immediateI [OF inv idle, of "s\<lparr>mallocs := m\<rparr>"] that by simp
    have refuse0: "immediate X B a d xs s (Some (e, s))" for e using immediateI [OF inv idle, of s] by simp
    note defs = osi_bind_statement_def Let_def st(2) idle
    show ?thesis
    proof (cases datum)
      case (Sstring str)
      have fresh: "heap s (Suc (mallocs s)) = None" by (rule osi_inv_fresh [OF db_invD(1) [OF inv]])
      show ?thesis
      proof (cases "oom E (mallocs s)")
        case True
        then show ?thesis using Sstring refuse [of "Suc (mallocs s)"] by (simp add: defs malloc_container_def osi_string_to_utf8_def)
      next
        case False
        then show ?thesis using Sstring fresh osi_string_to_utf8_ok [OF small [OF Sstring]]
            call [of "s\<lparr>mallocs := Suc (mallocs s), heap := heap s\<rparr>"]
          by (simp add: defs malloc_container_def c_free_def fun_upd_idem)
      qed
    next
      case (Sinteger n)
      then show ?thesis using call [of s] refuse0 by (cases "try64 n") (simp_all add: defs)
    qed (use call [of s] refuse0 in \<open>simp_all add: defs\<close>)
  qed
qed

lemma bind_loop_who: "bind_loop E n j bs r s = Some ((rc, who), s') \<Longrightarrow> rc \<noteq> 0 \<Longrightarrow> fst r \<noteq> 0 \<longrightarrow> snd r \<noteq> None \<Longrightarrow> who \<noteq> None"
  by (induction bs arbitrary: j r s) (auto split: bind_splits option.splits, fastforce+)

lemma bind_statement_bindings_immediate:
  assumes inv: "db_inv X B a d xs s" and x: "x \<in> set xs" and mb: "binding_block_ok s mb"
  shows "immediate X B a d xs s (osi_bind_statement_bindings E msg x mb s)"
proof -
  obtain st where st: "st_stmt st = handle (heap s) x"
    "idle_statement E ''osi_bind_statement_bindings'' x s =
       Some (if d_busy d then Inl (osi_make_error_pair ''osi_bind_statement_bindings'' (uv_errno E EBUSY)) else Inr (st, d))"
    by (rule idle_statement_eq [OF inv x])
  show ?thesis
  proof (cases "d_busy d")
    case True
    then show ?thesis using immediate_busy [OF inv True] st(2) by (simp add: osi_bind_statement_bindings_def)
  next
    case False
    obtain rc who s' where b: "bind_bindings E (st_stmt st) mb s = Some ((rc, who), s')" "calls_only s s'"
      using bind_bindings_calls [OF _ mb, of "st_stmt st" E] handle_live [OF inv x] st(1) by auto
    have w: "who \<noteq> None" if "rc \<noteq> SQLITE_OK"
      using b(1) that by (auto simp: bind_bindings_def SQLITE_OK_def split: if_splits bind_splits dest!: bind_loop_who)
    have s': "heap s' = heap s" "locked s' = locked s" "mallocs s \<le> mallocs s'" "closing s' = closing s"
      "sqlite_objs s' = sqlite_objs s" "length (calls s) \<le> length (calls s')" "g_callbacks s' = g_callbacks s"
      using b(2) by (auto simp: calls_only_def)
    have live: "d_db d \<in> sqlite_objs s'"
      using db_live [OF inv] protocol_idle [OF db_invD(6) [OF inv] False] s'(5) by auto
    show ?thesis using st(2) False b(1) w live immediateI [OF inv False s']
      by (auto simp: osi_bind_statement_bindings_def make_sqlite_error_def)
  qed
qed

lemma query_immediate:
  assumes inv: "db_inv X B a d xs s" and x: "x \<in> set xs"
  shows "immediate X B a d xs s (osi_get_statement_columns E names x s)"
    and "immediate X B a d xs s (osi_get_statement_expanded_sql E sql x s)"
    and "immediate X B a d xs s (osi_get_last_insert_rowid E rowid a s)"
proof -
  have idle: "immediate X B a d xs s (Some (v, s))" if "\<not> d_busy d" for v using immediateI [OF inv that, of s] by simp
  have busy: "immediate X B a d xs s (Some (osi_make_error_pair w e, s))" if "d_busy d" for w e by (rule immediate_busy [OF inv that])
  have live: "d_db d \<in> sqlite_objs s" if "\<not> d_busy d" using db_live [OF inv] protocol_idle [OF db_invD(6) [OF inv] that] by auto
  obtain st where st: "st_stmt st = handle (heap s) x" "\<And>who. idle_statement E who x s =
       Some (if d_busy d then Inl (osi_make_error_pair who (uv_errno E EBUSY)) else Inr (st, d))"
  proof -
    obtain st where "heap s x = Some (Statement st)" "st_database st = a" using registry_stmt [OF db_invD(5) [OF inv] x] by blast
    then show thesis using that [of st] db_invD(3) [OF inv] db_inv_nonnull [OF inv]
      by (simp add: idle_statement_def load_stmt_def load_db_def handle_def)
  qed
  show "immediate X B a d xs s (osi_get_statement_columns E names x s)"
    using st handle_live [OF inv x] idle busy by (auto simp: osi_get_statement_columns_def)
  show "immediate X B a d xs s (osi_get_statement_expanded_sql E sql x s)"
    using st handle_live [OF inv x] idle busy by (auto simp: osi_get_statement_expanded_sql_def split: option.splits)
  show "immediate X B a d xs s (osi_get_last_insert_rowid E rowid a s)"
    using db_invD(3) [OF inv] live idle busy by (auto simp: osi_get_last_insert_rowid_def load_db_def)
qed


section \<open>The conversation as a transition system\<close>

datatype db_request = Ask_close ptr | Ask_prepare ptr ptr | Ask_step uptr ptr | Ask_bulk "uptr list" "uptr list" ptr

fun ask :: "env \<Rightarrow> uptr \<Rightarrow> db_request \<Rightarrow> osi \<Rightarrow> (ptr \<times> osi) option" where
  "ask E a (Ask_close cb) s = osi_close_database E a cb s"
| "ask E a (Ask_prepare sql cb) s = osi_prepare_statement E a sql cb s"
| "ask E a (Ask_step x cb) s = osi_step_statement E x cb s"
| "ask E a (Ask_bulk ps qs cb) s =
     osi_bulk_execute E (Svector (map (Sinteger \<circ> int) ps)) (Svector (map (Sinteger \<circ> int) qs)) cb s"

fun ask_cb :: "db_request \<Rightarrow> ptr" where
  "ask_cb (Ask_close cb) = cb"
| "ask_cb (Ask_prepare _ cb) = cb"
| "ask_cb (Ask_step _ cb) = cb"
| "ask_cb (Ask_bulk _ _ cb) = cb"

text \<open>
  A statement is on the list of the database when following the pointers from its head gets there. What
  a caller must respect: statements are on the list, strings fit the address space, bindings are
  marshalled and not yet freed.
\<close>

definition on_list :: "osi \<Rightarrow> uptr \<Rightarrow> uptr \<Rightarrow> bool" where
  "on_list s a x \<longleftrightarrow> (\<exists>d us r t. heap s a = Some (Database d) \<and> seg (heap s) a 0 (d_statement d) (us @ [x]) r t)"

fun ask_ok :: "uptr \<Rightarrow> db_request \<Rightarrow> osi \<Rightarrow> bool" where
  "ask_ok a (Ask_close cb) s \<longleftrightarrow> True"
| "ask_ok a (Ask_prepare sql cb) s \<longleftrightarrow> (\<forall>str. sql = Sstring str \<longrightarrow> 4 * length str + 1 < 2 ^ 64)"
| "ask_ok a (Ask_step x cb) s \<longleftrightarrow> on_list s a x"
| "ask_ok a (Ask_bulk ps qs cb) s \<longleftrightarrow> ps \<noteq> [] \<and> length ps = length qs \<and> (\<forall>x \<in> set ps. on_list s a x) \<and> (\<forall>q \<in> set qs. binding_block_ok s q)"

lemma seg_prefix:
  "seg h a p q us r t \<Longrightarrow> seg h a p q xs r' 0 \<Longrightarrow> \<exists>vs. xs = us @ vs"
proof (induction us arbitrary: p q xs)
  case (Cons u us)
  then obtain xs' where "xs = u # xs'" by (cases xs) auto
  with Cons show ?case by auto
qed simp

lemma on_list_registered: "db_inv X B a d xs s \<Longrightarrow> on_list s a x \<Longrightarrow> x \<in> set xs"
  by (fastforce simp: on_list_def db_inv_def registry_def dest: seg_prefix)

lemma ask_requested:
  assumes inv: "db_inv X B a d xs s" and ok: "ask_ok a r s"
  shows "requested X B a d xs (ask_cb r) s (ask E a r s)"
proof (cases r)
  case (Ask_close cb)
  then show ?thesis using close_database_requested [OF inv] by simp
next
  case (Ask_prepare sql cb)
  then show ?thesis using prepare_statement_requested [OF inv] ok by simp
next
  case (Ask_step x cb)
  then show ?thesis using step_statement_requested [OF inv on_list_registered [OF inv]] ok by simp
next
  case (Ask_bulk ps qs cb)
  then have "set ps \<subseteq> set xs" using on_list_registered [OF inv] ok by auto
  then show ?thesis using bulk_execute_requested [OF inv] ok Ask_bulk by simp
qed

text \<open>
  The three parties: Scheme asks, finalizes statements and does immediate operations; the thread of the database makes
  steps; the event loop delivers. The state carries the callbacks accepted and delivered so far.
\<close>

datatype db_now = Now_reset uptr | Now_clear uptr | Now_bind uptr int ptr | Now_bind_all uptr uptr | Now_columns uptr "u8 list list"

fun now :: "env \<Rightarrow> (int \<Rightarrow> u64 option) \<Rightarrow> u8 list \<Rightarrow> db_now \<Rightarrow> osi \<Rightarrow> (ptr \<times> osi) option" where
  "now E try64 msg (Now_reset x) s = osi_reset_statement E msg x s"
| "now E try64 msg (Now_clear x) s = osi_clear_statement_bindings E msg x s"
| "now E try64 msg (Now_bind x i v) s = osi_bind_statement E try64 msg x i v s"
| "now E try64 msg (Now_bind_all x mb) s = osi_bind_statement_bindings E msg x mb s"
| "now E try64 msg (Now_columns x names) s = osi_get_statement_columns E names x s"

fun now_ok :: "uptr \<Rightarrow> db_now \<Rightarrow> osi \<Rightarrow> bool" where
  "now_ok a (Now_reset x) s \<longleftrightarrow> on_list s a x"
| "now_ok a (Now_clear x) s \<longleftrightarrow> on_list s a x"
| "now_ok a (Now_bind x i v) s \<longleftrightarrow> on_list s a x \<and> (\<forall>str. v = Sstring str \<longrightarrow> 4 * length str + 1 < 2 ^ 64)"
| "now_ok a (Now_bind_all x mb) s \<longleftrightarrow> on_list s a x \<and> binding_block_ok s mb"
| "now_ok a (Now_columns x names) s \<longleftrightarrow> on_list s a x"

lemma now_immediate:
  assumes inv: "db_inv X B a d xs s" and ok: "now_ok a c s"
  shows "immediate X B a d xs s (now E try64 msg c s)"
  using ok on_list_registered [OF inv] reset_statement_immediate [OF inv] clear_statement_bindings_immediate [OF inv]
    bind_statement_immediate [OF inv] bind_statement_bindings_immediate [OF inv] query_immediate(1) [OF inv]
  by (cases c) auto

type_synonym db_config = "osi \<times> ptr multiset \<times> ptr multiset"

inductive db_step :: "env \<Rightarrow> uptr \<Rightarrow> db_config \<Rightarrow> db_config \<Rightarrow> bool" for E a where
  ask: "closing s a = None \<Longrightarrow> ask_ok a r s \<Longrightarrow> ask E a r s = Some (v, s') \<Longrightarrow>
    db_step E a (s, A, D) (s', if v = Strue then add_mset (ask_cb r) A else A, D)"
| finalize: "closing s a = None \<Longrightarrow> on_list s a x \<Longrightarrow> osi_finalize_statement E x s = Some (v, s') \<Longrightarrow> db_step E a (s, A, D) (s', A, D)"
| now: "closing s a = None \<Longrightarrow> now_ok a c s \<Longrightarrow> now E try64 msg c s = Some (v, s') \<Longrightarrow> db_step E a (s, A, D) (s', A, D)"
| thread: "closing s a = None \<Longrightarrow> database_worker E out a s = Some s' \<Longrightarrow> db_step E a (s, A, D) (s', A, D)"
| deliver: "closing s a = None \<Longrightarrow> heap s a = Some (Database d) \<Longrightarrow> d_async_sent d \<Longrightarrow>
    async_cb E out a (s\<lparr>g_callbacks := Some Snil\<rparr>) = Some s' \<Longrightarrow> g_callbacks s' = Some q \<Longrightarrow>
    db_step E a (s, A, D) (s'\<lparr>g_callbacks := None\<rparr>, A, D + queued q)"

inductive db_reach :: "env \<Rightarrow> uptr \<Rightarrow> db_config \<Rightarrow> db_config \<Rightarrow> bool" for E a where
  refl: "db_reach E a c c"
| step: "db_reach E a c c' \<Longrightarrow> db_step E a c' c'' \<Longrightarrow> db_reach E a c c''"

text \<open>The database is open and its callbacks are accounted for, or it is closed and owes nothing.\<close>

definition config_ok :: "ptr multiset \<Rightarrow> nat set \<Rightarrow> uptr \<Rightarrow> db_config \<Rightarrow> bool" where
  "config_ok X B a c =
     (case c of (s, A, D) \<Rightarrow> g_callbacks s = None \<and>
        ((\<exists>d xs. db_inv X B a d xs s \<and> A = D + obj_owed (Database d))
         \<or> osi_inv X s \<and> closing s a = Some Close_free_cb \<and> (\<exists>d. heap s a = Some (Database d) \<and> \<not> d_busy d) \<and> sqlite_objs s = B \<and> A = D))"

lemma db_inv_g_callbacks: "db_inv X B a d xs s \<Longrightarrow> db_inv X B a d xs (s\<lparr>g_callbacks := q\<rparr>)"
  by (erule db_inv_same) simp_all

lemma db_step_config:
  assumes "db_step E a c c'" and "config_ok X B a c"
  shows "config_ok X B a c'"
  using assms
proof (cases rule: db_step.cases)
  case (ask s r v s' A D)
  then obtain d xs where inv: "db_inv X B a d xs s" and A: "A = D + obj_owed (Database d)" and g: "g_callbacks s = None"
    using assms(2) by (auto simp: config_ok_def)
  from ask_requested [OF inv ask(4), of E] obtain d' where "db_inv X B a d' xs s'" "g_callbacks s' = g_callbacks s"
    "if v = Strue then \<not> d_busy d \<and> d_busy d' \<and> d_callback d' = ask_cb r else d' = d"
    unfolding requested_def ask(5) by (auto split: if_splits)
  then show ?thesis using ask(2) A g by (auto simp: config_ok_def split: if_splits)
next
  case (finalize s x v s' A D)
  then obtain d xs where inv: "db_inv X B a d xs s" and A: "A = D + obj_owed (Database d)" and g: "g_callbacks s = None"
    using assms(2) by (auto simp: config_ok_def)
  note fin = finalize_statement_removes [OF inv on_list_registered [OF inv finalize(4)], of E]
  show ?thesis
  proof (cases "d_busy d")
    case True
    then show ?thesis using fin finalize(2,5) A g inv by (auto simp: finalized_def config_ok_def)
  next
    case False
    then obtain q where "db_inv X B a (d\<lparr>d_statement := q\<rparr>) (remove1 x xs) s'" "g_callbacks s' = None"
      using fin finalize(5) g by (auto simp: finalized_def)
    moreover have "A = D + obj_owed (Database (d\<lparr>d_statement := q\<rparr>))" using A by simp
    ultimately show ?thesis unfolding config_ok_def finalize(2) by blast
  qed
next
  case (now s c try64 msg v s' A D)
  then obtain d xs where inv: "db_inv X B a d xs s" and A: "A = D + obj_owed (Database d)" and g: "g_callbacks s = None"
    using assms(2) by (auto simp: config_ok_def)
  from now_immediate [OF inv now(4), of E try64 msg] show ?thesis
    using now(2,5) A g by (auto simp: immediate_def config_ok_def)
next
  case (thread s out s' A D)
  then obtain d xs where inv: "db_inv X B a d xs s" and A: "A = D + obj_owed (Database d)" and g: "g_callbacks s = None"
    using assms(2) by (auto simp: config_ok_def)
  have "d_thread d \<noteq> Gone" using thread(4) db_invD(3) [OF inv] by (auto simp: database_worker_def load_db_def)
  from database_worker_step [OF inv this, of E out] show ?thesis
    using thread(2,4) A g by (fastforce simp: thread_step_def config_ok_def)
next
  case (deliver s d out s' q A D)
  then obtain xs where inv: "db_inv X B a d xs s" and A: "A = D + obj_owed (Database d)"
    using assms(2) by (auto simp: config_ok_def db_inv_def)
  have b: "d_busy d" by (rule protocol_done [OF db_invD(6) [OF inv] deliver(5)])
  note async_cb_answers [OF db_inv_g_callbacks [OF inv, of "Some Snil"] deliver(5), of Snil E out, simplified]
  then have q: "queued q = {#d_callback d#}" and inv': "osi_inv X s'" and alt: "(\<exists>d' xs'. db_inv X B a d' xs' s' \<and> \<not> d_busy d')
           \<or> closing s' a = Some Close_free_cb \<and> (\<exists>d'. heap s' a = Some (Database d') \<and> \<not> d_busy d') \<and> sqlite_objs s' = B"
    using deliver(6,7) by (auto simp: answered_def completes_def)
  have "osi_inv X (s'\<lparr>g_callbacks := None\<rparr>)" by (rule osi_inv_same [OF inv']) simp_all
  then show ?thesis using alt q A b deliver(2)
    by (auto simp: config_ok_def intro: db_inv_g_callbacks)
qed

lemma db_reach_config: "db_reach E a c c' \<Longrightarrow> config_ok X B a c \<Longrightarrow> config_ok X B a c'"
  by (induction rule: db_reach.induct) (auto intro: db_step_config)


fun thread_steps :: "env \<Rightarrow> outcome \<Rightarrow> nat \<Rightarrow> uptr \<Rightarrow> osi \<Rightarrow> osi option" where
  "thread_steps E out 0 a s = Some s"
| "thread_steps E out (Suc n) a s = Option.bind (database_worker E out a s) (thread_steps E out n a)"

lemma busy_not_gone: "protocol d xs s \<Longrightarrow> d_busy d \<Longrightarrow> \<not> d_async_sent d \<Longrightarrow> d_thread d \<noteq> Gone"
  by (auto elim: protocol_busy)

lemma thread_finishes:
  assumes "db_inv X B a d xs s" and "d_busy d"
  shows "\<exists>n s' d' xs'. n \<le> rank d \<and> thread_steps E out n a s = Some s' \<and> db_inv X B a d' xs' s' \<and> d_async_sent d'
     \<and> d_busy d' \<and> d_callback d' = d_callback d \<and> owed s' = owed s \<and> g_callbacks s' = g_callbacks s"
  using assms
proof (induction "rank d" arbitrary: d xs s rule: less_induct)
  case less
  show ?case
  proof (cases "d_async_sent d")
    case True
    then show ?thesis using less.prems by (intro exI [of _ 0] exI [of _ s] exI [of _ d] exI [of _ xs]) simp
  next
    case False
    from database_worker_step [OF less.prems(1) busy_not_gone [OF db_invD(6) [OF less.prems(1)] less.prems(2) False], of E out]
    obtain s1 d1 xs1 where 1: "database_worker E out a s = Some s1" "db_inv X B a d1 xs1 s1" "owed s1 = owed s"
      "g_callbacks s1 = g_callbacks s" "d_busy d1" "d_callback d1 = d_callback d" "rank d1 < rank d"
      using less.prems(2) False by (auto simp: thread_step_def)
    obtain n s2 d2 xs2 where "n \<le> rank d1" "thread_steps E out n a s1 = Some s2" "db_inv X B a d2 xs2 s2" "d_async_sent d2"
      "d_busy d2" "d_callback d2 = d_callback d1" "owed s2 = owed s1" "g_callbacks s2 = g_callbacks s1"
      using less.hyps [OF 1(7,2,5)] by blast
    then show ?thesis using 1 by (intro exI [of _ "Suc n"] exI [of _ s2] exI [of _ d2] exI [of _ xs2]) simp
  qed
qed

section \<open>Properties of the conversation\<close>

text \<open>An open database without statements, the instance for the witnesses.\<close>

definition one_database :: osi where
  "one_database = osi_start\<lparr>heap := [1 \<mapsto> Database ((new_database 1)\<lparr>d_thread := Waiting\<rparr>)], mallocs := 1,
     calls := [Sql (Sqlite3_open_v2 [] 0)], sqlite_objs := {1}\<rparr>"

lemma one_database_inv: "db_inv {#} {} 1 ((new_database 1)\<lparr>d_thread := Waiting\<rparr>) [] one_database"
proof -
  have "heap_ok [1 \<mapsto> Database ((new_database 1)\<lparr>d_thread := Waiting\<rparr>)]"
    by (auto simp: heap_ok_def links_to_def split: if_splits)
  then have "osi_inv {#} one_database"
    by (intro osi_inv_new [OF osi_inv_start, where x = "Database ((new_database 1)\<lparr>d_thread := Waiting\<rparr>)"]) (simp_all add: one_database_def osi_start_def new_database_def)
  then show ?thesis
    by (simp add: db_inv_def one_database_def osi_start_def registry_def others_def protocol_def new_database_def)
qed

lemma one_database_close: "\<exists>s. osi_close_database quiet_env 1 (Sprocedure 7) one_database = Some (Strue, s)"
  by (simp add: osi_close_database_def load_db_def one_database_def new_database_def submit_work_def store_def Let_def Slock_object_def)

text \<open>C6: A database answers every request exactly once. Start from an idle database and let Scheme, the
  thread of the database and the event loop take turns in any order, with requests, finalizations and
  immediate operations, and with any failures of the allocator and of SQLite: the callbacks
  accepted are at all times those delivered and the one the database still owes, if it is busy.
  When the close has been reported, nothing is owed and every SQLite object of the database, the
  connection and all its statements, has been released.\<close>

theorem database_answers_once:
  assumes "db_inv X B a d0 xs0 s0" and "\<not> d_busy d0" and "g_callbacks s0 = None" and "db_reach E a (s0, {#}, {#}) (s, A, D)"
  shows "osi_inv X s \<and> (\<exists>d. heap s a = Some (Database d) \<and> A = D + obj_owed (Database d)
     \<and> (closing s a \<noteq> None \<longrightarrow> A = D \<and> sqlite_objs s = B))"
proof -
  have "config_ok X B a (s0, {#}, {#})" using assms(1-3) by (auto simp: config_ok_def intro!: exI [of _ d0])
  from db_reach_config [OF assms(4) this] show ?thesis by (auto simp: config_ok_def db_inv_def)
qed

theorem database_answers_once_witness:
  "\<exists>s A D. db_reach quiet_env 1 (one_database, {#}, {#}) (s, A, D) \<and> A = {#Sprocedure 7#}
     \<and> osi_inv {#} s \<and> (\<exists>d. heap s 1 = Some (Database d) \<and> A = D + obj_owed (Database d)
     \<and> (closing s 1 \<noteq> None \<longrightarrow> A = D \<and> sqlite_objs s = {}))"
proof -
  obtain s' where ask: "ask quiet_env 1 (Ask_close (Sprocedure 7)) one_database = Some (Strue, s')"
    using one_database_close by auto
  have "closing one_database 1 = None" by (simp add: one_database_def osi_start_def)
  then have "db_step quiet_env 1 (one_database, {#}, {#}) (s', {#Sprocedure 7#}, {#})"
    using db_step.ask [OF _ _ ask, of "{#}" "{#}"] by simp
  then have r: "db_reach quiet_env 1 (one_database, {#}, {#}) (s', {#Sprocedure 7#}, {#})" by (meson db_reach.intros)
  have "\<not> d_busy ((new_database 1)\<lparr>d_thread := Waiting\<rparr>)" "g_callbacks one_database = None"
    by (simp_all add: new_database_def one_database_def osi_start_def)
  from database_answers_once [OF one_database_inv this r] r show ?thesis by blast
qed

text \<open>C7: No request gets stuck and no wake-up is lost: as long as the database is busy, at most two steps
  of its thread bring the request to its end, none of them undefined, and then the event loop calls the completion that
  belongs to the work, which queues the callback of the request.\<close>

theorem database_request_completes:
  assumes "db_inv X B a d xs s" and "d_busy d"
  shows "\<exists>n s1 s2 args. n \<le> 2 \<and> thread_steps E out n a s = Some s1
     \<and> async_cb E out' a (s1\<lparr>g_callbacks := Some Snil\<rparr>) = Some s2
     \<and> g_callbacks s2 = Some (Scons (Scons (d_callback d) args) Snil) \<and> owed s = add_mset (d_callback d) (owed s2)"
proof -
  obtain n s1 d1 xs1 where 1: "n \<le> rank d" "thread_steps E out n a s = Some s1" "db_inv X B a d1 xs1 s1" "d_async_sent d1"
    "d_callback d1 = d_callback d" "owed s1 = owed s" using thread_finishes [OF assms] by blast
  have "owed (s1\<lparr>g_callbacks := Some Snil\<rparr>) = owed s" using 1(6) by (simp add: owed_def)
  with async_cb_answers [OF db_inv_g_callbacks [OF 1(3), of "Some Snil"] 1(4), of Snil E out'] 1(5)
  obtain s2 args where "async_cb E out' a (s1\<lparr>g_callbacks := Some Snil\<rparr>) = Some s2"
    "g_callbacks s2 = Some (Scons (Scons (d_callback d) args) Snil)" "owed s = add_mset (d_callback d) (owed s2)"
    by (auto simp: answered_def completes_def)
  moreover have "n \<le> 2" using 1(1) by (auto simp: rank_def split: if_splits)
  ultimately show ?thesis using 1(2) by blast
qed

definition plain_outcome :: outcome where
  "plain_outcome = \<lparr>got = True, row = [], errmsg = [], fresh = 0\<rparr>"

theorem database_request_completes_witness:
  "\<exists>s n s1 s2 args. osi_close_database quiet_env 1 (Sprocedure 7) one_database = Some (Strue, s) \<and> n \<le> 2
     \<and> thread_steps quiet_env plain_outcome n 1 s = Some s1
     \<and> async_cb quiet_env plain_outcome 1 (s1\<lparr>g_callbacks := Some Snil\<rparr>) = Some s2
     \<and> g_callbacks s2 = Some (Scons (Scons (Sprocedure 7) args) Snil) \<and> owed s = add_mset (Sprocedure 7) (owed s2)"
proof -
  obtain s where ask: "osi_close_database quiet_env 1 (Sprocedure 7) one_database = Some (Strue, s)"
    using one_database_close by blast
  obtain d where "db_inv {#} {} 1 d [] s" "d_busy d" "d_callback d = Sprocedure 7"
    using close_database_requested [OF one_database_inv, of "Sprocedure 7" quiet_env] ask by (auto simp: requested_def)
  from database_request_completes [OF this(1,2), of quiet_env plain_outcome plain_outcome] this(3) ask show ?thesis by auto
qed

end
