(* ===== verification/Sqlite_Lifecycle.thy ===== *)
theory Sqlite_Lifecycle
  imports Sqlite_Requests
begin

text \<open>
  From opening a database to closing it: what the completion of an open leaves behind on each of its
  paths, the statements of a database as a registry whose entries are released exactly once, and
  what may go wrong when statements are finalized while the database is being closed.
\<close>

section \<open>Registries\<close>

text \<open>
  The contract of a registry of objects: an entry can be taken out, which releases its object, and
  the registry can be emptied, which releases the objects of all entries left.
\<close>

locale object_registry =
  fixes rep :: "'s \<Rightarrow> 'k list \<Rightarrow> bool"
    and objects :: "'s \<Rightarrow> nat set"
    and base :: "nat set"
    and object_of :: "'s \<Rightarrow> 'k \<Rightarrow> nat set"
    and remove :: "'k \<Rightarrow> 's \<Rightarrow> 's option"
    and empty :: "'s \<Rightarrow> 's option"
  assumes rep_objects: "rep s xs \<Longrightarrow> objects s = base \<union> (\<Union>x \<in> set xs. object_of s x)"
    and rep_distinct: "rep s xs \<Longrightarrow> distinct xs"
    and remove_entry: "rep s xs \<Longrightarrow> x \<in> set xs \<Longrightarrow> \<exists>s'. remove x s = Some s' \<and> rep s' (remove1 x xs)"
    and remove_object: "rep s xs \<Longrightarrow> x \<in> set xs \<Longrightarrow> remove x s = Some s' \<Longrightarrow> objects s' = objects s - object_of s x"
    and empty_releases: "rep s xs \<Longrightarrow> \<exists>s'. empty s = Some s' \<and> objects s' = base"
begin

primrec remove_all :: "'k list \<Rightarrow> 's \<Rightarrow> 's option" where
  "remove_all [] s = Some s"
| "remove_all (x # xs) s = Option.bind (remove x s) (remove_all xs)"

lemma remove_all_entries:
  "rep s xs \<Longrightarrow> distinct ys \<Longrightarrow> set ys \<subseteq> set xs \<Longrightarrow> \<exists>s'. remove_all ys s = Some s' \<and> rep s' (filter (\<lambda>x. x \<notin> set ys) xs)"
proof (induction ys arbitrary: s xs)
  case (Cons y ys)
  obtain s' where s': "remove y s = Some s'" "rep s' (remove1 y xs)" 
    using remove_entry [OF Cons.prems(1), of y] Cons.prems(3) by auto
  have d: "distinct xs" using rep_distinct Cons.prems(1) .
  then have "set ys \<subseteq> set (remove1 y xs)" using Cons.prems by auto
  then obtain s'' where "remove_all ys s' = Some s''" "rep s'' (filter (\<lambda>x. x \<notin> set ys) (remove1 y xs))"
    using Cons.IH [OF s'(2)] Cons.prems(2) by auto
  moreover have "filter (\<lambda>x. x \<notin> set ys) (remove1 y xs) = filter (\<lambda>x. x \<notin> set (y # ys)) xs"
    using d by (auto simp: distinct_remove1_removeAll removeAll_filter_not_eq intro!: filter_cong)
  ultimately show ?case using s'(1) by auto
qed simp

lemma all_released:
  assumes "rep s xs" and "distinct ys" and "set ys \<subseteq> set xs"
  shows "\<exists>s' s''. remove_all ys s = Some s' \<and> empty s' = Some s'' \<and> objects s'' = base"
  using remove_all_entries [OF assms] empty_releases by blast

end

text \<open>The statements of an idle database, finalized one by one, then the loop of \<^verbatim>\<open>close_worker\<close>.\<close>

definition idle_registry :: "ptr multiset \<Rightarrow> nat set \<Rightarrow> uptr \<Rightarrow> osi \<Rightarrow> uptr list \<Rightarrow> bool" where
  "idle_registry X B a s xs \<longleftrightarrow> (\<exists>d. db_inv X (B - {d_db d}) a d xs s \<and> d_db d \<in> B \<and> \<not> d_busy d)"

definition finalize :: "env \<Rightarrow> uptr \<Rightarrow> osi \<Rightarrow> osi option" where
  "finalize E x s = map_option snd (osi_finalize_statement E x s)"

lemma idle_others: "db_inv X (B - {d_db d}) a d xs s \<Longrightarrow> d_db d \<in> B \<Longrightarrow> \<not> d_busy d \<Longrightarrow> others (B - {d_db d}) d = B"
  using protocol_idle [OF db_invD(6)] by (fastforce simp: others_def)

lemma set_handles: "set (handles h xs) = (\<Union>x \<in> set xs. set (handles h [x]))"
  by (induction xs) auto

interpretation statements: object_registry "\<lambda>s xs. idle_registry X B a s xs" sqlite_objs B
  "\<lambda>s x. set (handles (heap s) [x])" "finalize E" "close_loop a"
  for X B a E
proof unfold_locales
  fix s xs x s'
  assume "idle_registry X B a s xs"
  then obtain d where inv: "db_inv X (B - {d_db d}) a d xs s" and d: "d_db d \<in> B" "\<not> d_busy d" by (auto simp: idle_registry_def)
  note D = db_invD [OF inv]
  have reg: "registry B a d xs s" using D(5) idle_others [OF inv d] by simp
  show "sqlite_objs s = B \<union> (\<Union>x \<in> set xs. set (handles (heap s) [x]))"
    using reg unfolding registry_def set_handles [of _ xs] by blast
  show "distinct xs" using reg by (simp add: registry_def)
  obtain r where "seg (heap s) a 0 (d_statement d) xs r 0" "distinct xs" "distinct (handles (heap s) xs)"
    "set (handles (heap s) xs) \<subseteq> sqlite_objs s" "sqlite_objs s - set (handles (heap s) xs) = B"
    using reg by (auto simp: registry_def)
  with close_loop_spec [OF D(3)] show "\<exists>s'. close_loop a s = Some s' \<and> sqlite_objs s' = B" by fastforce
  assume x: "x \<in> set xs"
  from finalize_statement_removes [OF inv x, of E] d(2) obtain u q where
    u: "osi_finalize_statement E x s = Some (Strue, u)" "db_inv X (B - {d_db d}) a (d\<lparr>d_statement := q\<rparr>) (remove1 x xs) u"
      "sqlite_objs u = sqlite_objs s - set (handles (heap s) [x])" by (auto simp: finalized_def)
  then have "idle_registry X B a u (remove1 x xs)" using d by (auto simp: idle_registry_def intro!: exI [of _ "d\<lparr>d_statement := q\<rparr>"])
  then show "\<exists>s'. finalize E x s = Some s' \<and> idle_registry X B a s' (remove1 x xs)" using u(1) by (simp add: finalize_def)
  show "sqlite_objs s' = sqlite_objs s - set (handles (heap s) [x])" if "finalize E x s = Some s'"
    using that u(1,3) by (simp add: finalize_def)
qed

primrec finalize_all :: "env \<Rightarrow> uptr list \<Rightarrow> osi \<Rightarrow> osi option" where
  "finalize_all E [] s = Some s"
| "finalize_all E (x # xs) s = Option.bind (finalize E x s) (finalize_all E xs)"

lemma finalize_all_eq: "statements.remove_all E xs = finalize_all E xs"
proof (induction xs)
  case (Cons x xs)
  show ?case by (rule ext) (simp add: Cons.IH)
qed (rule ext, simp)

lemma idle_registryI: "db_inv X B a d xs s \<Longrightarrow> \<not> d_busy d \<Longrightarrow> idle_registry X (insert (d_db d) B) a s xs"
  using db_invD(4) [of X B a d xs s] by (auto simp: idle_registry_def intro!: exI [of _ d])

text \<open>C24: However many statements Scheme finalizes, and in whatever order, before it closes an idle database:
  no finalization and no turn of the loop in \<^verbatim>\<open>close_worker\<close> touches a freed structure or a finalized
  statement, the loop ends, and every statement of the database has been released, none twice.\<close>

theorem statements_released:
  assumes "db_inv X B a d xs s" and "\<not> d_busy d" and "distinct ys" and "set ys \<subseteq> set xs"
  shows "\<exists>s' s''. finalize_all E ys s = Some s' \<and> close_loop a s' = Some s'' \<and> sqlite_objs s'' = insert (d_db d) B"
  using statements.all_released [OF idle_registryI [OF assms(1,2)] assms(3,4), of E] by (simp add: finalize_all_eq)

section \<open>Opening\<close>

text \<open>
  The end of an open: the callback is queued with one argument, and that is the address of an idle
  database without statements, or the connection has been closed.
\<close>

definition opened :: "ptr multiset \<Rightarrow> nat \<Rightarrow> ptr \<Rightarrow> osi \<Rightarrow> osi option \<Rightarrow> bool" where
  "opened X db cb s res \<longleftrightarrow>
     (\<exists>s' q arg. res = Some s' \<and> osi_inv X s' \<and> owed s' = owed s \<and> g_callbacks s = Some q
        \<and> g_callbacks s' = Some (Scons (Scons cb (Scons arg Snil)) q)
        \<and> (sqlite_objs s' = sqlite_objs s - {db}
           \<or> (\<exists>a d. arg = Sunsigned a \<and> db_inv X (sqlite_objs s - {db}) a d [] s' \<and> \<not> d_busy d)))"

lemma sqlite3_close_ok:
  assumes "\<forall>n. uv E (Sql (Sqlite3_close db)) n = SQLITE_OK" and "db \<in> sqlite_objs s" and "db \<noteq> 0"
  shows "sqlite3_close E db s = Some (SQLITE_OK, s\<lparr>calls := calls s @ [Sql (Sqlite3_close db)], sqlite_objs := sqlite_objs s - {db}\<rparr>)"
  using assms by (simp add: sqlite3_close_def db_do_def uv_do_def)

lemma abandoned:
  assumes inv: "osi_inv X s" and a: "heap s a = Some (Database d)" "\<not> d_busy d"
    and s': "heap s' = heap s" "locked s' = locked s" "mallocs s' = mallocs s" "closing s' = (closing s)(a \<mapsto> Close_free_cb)"
  shows "osi_inv X s'" and "owed s' = owed s"
proof -
  have "\<forall>b. \<not> links_to (heap s) a True b" by (intro allI heap_ok_no_link [OF osi_inv_heap [OF inv] a(1)]) simp
  then show "osi_inv X s'" using a(2) by (intro osi_inv_close [OF inv a(1) _ s']) simp_all
  show "owed s' = owed s" using s'(1) by (simp add: owed_def)
qed

lemma openedI_failed:
  assumes "osi_inv X s'" and "owed s' = owed s" and "g_callbacks s = Some q"
    and "g_callbacks s' = Some (Scons (Scons cb (Scons arg Snil)) q)" and "sqlite_objs s' = sqlite_objs s - {db}"
  shows "opened X db cb s (Some s')"
  using assms by (auto simp: opened_def)

lemma openedI_started:
  assumes "osi_inv X s'" and "owed s' = owed s" and "g_callbacks s = Some q"
    and "g_callbacks s' = Some (Scons (Scons cb (Scons (Sunsigned a) Snil)) q)"
    and "db_inv X (sqlite_objs s - {db}) a d [] s'" and "\<not> d_busy d"
  shows "opened X db cb s (Some s')"
  using assms by (auto simp: opened_def)

lemma start_database_opened:
  assumes inv: "osi_inv X s" and a: "heap s a = Some (Database (new_database db))" "closing s a = None"
    and db: "db \<in> sqlite_objs s" "db \<noteq> 0" and bound: "\<forall>n \<in> sqlite_objs s. n \<le> length (calls s)"
    and q: "g_callbacks s = Some q" and ok: "\<forall>n. uv E (Sql (Sqlite3_close db)) n = SQLITE_OK"
  shows "opened X db cb s (start_database E a db cb s)"
proof -
  let ?n = "length (calls s)"
  have a0: "a \<noteq> 0" using a(1) osi_inv_null [OF inv] by (metis option.distinct(1))
  let ?ca = "Hnd (Uv_async_init a)" and ?cm = "Hnd (Uv_mutex_init a)" and ?cc = "Hnd (Uv_cond_init a)" and ?ct = "Hnd (Uv_thread_create a)"
  let ?cl = "Sql (Sqlite3_close db)"
  note run = start_database_def uv_do_def sqlite3_close_ok [OF ok _ db(2)]
  note close = abandoned [OF inv a(1)]
  have idle: "\<not> d_busy (new_database db)" by (simp add: new_database_def)
  have failed: "opened X db cb s (Some s')"
    if "heap s' = heap s" "locked s' = locked s" "mallocs s' = mallocs s" "closing s' = (closing s)(a \<mapsto> Close_free_cb)"
      "g_callbacks s' = Some (Scons (Scons cb (Scons arg Snil)) q)" "sqlite_objs s' = sqlite_objs s - {db}" for s' arg
    using openedI_failed [OF close [OF idle that(1-4)] q that(5,6)] .
  show ?thesis
  proof (cases "uv E ?ca ?n < 0")
    case True
    let ?s = "s\<lparr>calls := calls s @ [?ca, ?cl], sqlite_objs := sqlite_objs s - {db}, heap := (heap s)(a := None),
        g_callbacks := Some (Scons (Scons cb (Scons (osi_make_error_pair ''uv_async_init'' (uv E ?ca ?n)) Snil)) q)\<rparr>"
    have res: "start_database E a db cb s = Some ?s" using True a(1) db(1) q a0 by (simp add: run c_free_def osi_queue)
    have "osi_inv X ?s" using a(2) by (intro osi_inv_del [OF inv a(1)]) (auto simp: new_database_def)
    moreover have "owed ?s = owed s" using owed_del [OF inv a(1), of ?s] by (simp add: new_database_def)
    ultimately show ?thesis unfolding res by (rule openedI_failed [OF _ _ q]) simp_all
  next
    case A: False
    show ?thesis
    proof (cases "uv E ?cm (Suc ?n) < 0 \<or> uv E ?cc (Suc (Suc ?n)) < 0 \<or> uv E ?ct (Suc (Suc (Suc ?n))) < 0")
      case True
      then show ?thesis using A a db(1) q
        by (auto simp: run uv_void_def uv_close_def osi_queue intro!: failed)
    next
      case False
      let ?d = "(new_database db)\<lparr>d_thread := At_top\<rparr>"
      let ?s = "s\<lparr>calls := calls s @ [?ca, ?cm, ?cc, ?ct], heap := (heap s)(a \<mapsto> Database ?d),
          g_callbacks := Some (Scons (Scons cb (Scons (Sunsigned a) Snil)) q)\<rparr>"
      have res: "start_database E a db cb s = Some ?s" using A False a(1) q by (simp add: run store_def osi_queue)
      have inv': "osi_inv X ?s" using a(2) by (intro osi_inv_upd [OF inv a(1), of ?s "Database ?d"]) (auto simp: new_database_def)
      moreover have "owed ?s = owed s" using owed_upd [OF inv a(1), of ?s "Database ?d"] by (simp add: new_database_def)
      moreover have "registry (sqlite_objs s) a ?d [] ?s"
        using bound by (auto simp: registry_def new_database_def)
      then have "db_inv X (sqlite_objs s - {db}) a ?d [] ?s"
        using inv' a(2) db by (simp add: db_inv_def others_def protocol_def new_database_def insert_absorb)
      ultimately show ?thesis unfolding res by (intro openedI_started [OF _ _ q, where d = ?d and a = a]) (simp_all add: new_database_def)
    qed
  qed
qed

text \<open>The first part of \<^verbatim>\<open>open_cb\<close>: the request and the file name are freed and the callback unlocked.\<close>

definition open_request :: "uptr \<Rightarrow> open_req_t \<Rightarrow> osi \<Rightarrow> bool" where
  "open_request req r s \<longleftrightarrow>
     heap s req = Some (Open_req r) \<and> (or_filename r = 0 \<or> (\<exists>t. heap s (or_filename r) = Some (C_string t)))
     \<and> (or_sqlite_rc r = SQLITE_OK \<longrightarrow> or_db r \<noteq> 0) \<and> (or_db r \<noteq> 0 \<longrightarrow> or_db r \<in> sqlite_objs s)
     \<and> 0 \<notin> sqlite_objs s \<and> (\<forall>n \<in> sqlite_objs s. n \<le> length (calls s))"

lemma open_request_released:
  assumes inv: "osi_inv X s" and req: "open_request req r s"
  shows "\<exists>s'. (do { s \<leftarrow> c_free (or_filename r) s; s \<leftarrow> Sunlock_object (or_callback r) s; c_free req s }) = Some s'
     \<and> osi_inv X s' \<and> owed s = add_mset (or_callback r) (owed s') \<and> sqlite_objs s' = sqlite_objs s \<and> calls s' = calls s
     \<and> g_callbacks s' = g_callbacks s"
proof -
  have r: "heap s req = Some (Open_req r)" using req by (simp add: open_request_def)
  have r0: "req \<noteq> 0" using r osi_inv_null [OF inv] by (metis option.distinct(1))
  obtain s1 where s1: "c_free (or_filename r) s = Some s1" "osi_inv X s1" "owed s1 = owed s" "heap s1 req = Some (Open_req r)"
    "sqlite_objs s1 = sqlite_objs s" "calls s1 = calls s" "g_callbacks s1 = g_callbacks s"
  proof (cases "or_filename r = 0")
    case True
    then show ?thesis using that [of s] inv r by (simp add: c_free_def)
  next
    case False
    then obtain t where t: "heap s (or_filename r) = Some (C_string t)" using req by (auto simp: open_request_def)
    let ?s = "s\<lparr>heap := (heap s)(or_filename r := None)\<rparr>"
    have "closing s (or_filename r) = None" by (rule osi_inv_not_closing [OF inv t]) simp
    then have "osi_inv X ?s" by (intro osi_inv_del [OF inv t]) auto
    moreover have "owed ?s = owed s" using owed_del [OF inv t, of ?s] by simp
    moreover have "heap ?s req = Some (Open_req r)" using r t by auto
    ultimately show ?thesis using that [of ?s] False t by (simp add: c_free_def)
  qed
  let ?s = "s1\<lparr>locked := locked s1 - {#or_callback r#}, heap := (heap s1)(req := None)\<rparr>"
  have lk: "or_callback r \<in># locked s1" using held_locked [OF s1(2,4), of "or_callback r"] by simp
  have "closing s1 req = None" by (rule osi_inv_not_closing [OF s1(2,4)]) simp
  then have "osi_inv X ?s" using lk by (intro osi_inv_del [OF s1(2,4)]) auto
  moreover have "owed s1 = add_mset (or_callback r) (owed ?s)" using owed_del [OF s1(2,4), of ?s] by simp
  ultimately show ?thesis using s1 lk r0 by (simp add: Sunlock_object_def c_free_def)
qed

text \<open>The second part, from the test of the status on.\<close>

definition open_result :: "env \<Rightarrow> int \<Rightarrow> u8 list \<Rightarrow> open_req_t \<Rightarrow> osi \<Rightarrow> osi option" where
  "open_result E xrc msg r s =
     (if or_sqlite_rc r \<noteq> SQLITE_OK then
        if or_db r \<noteq> 0 then do {
          e \<leftarrow> make_sqlite_error E ''sqlite3_open_v2'' xrc (or_db r) msg s;
          s \<leftarrow> osi_add_callback1 (or_callback r) e s;
          (_, s) \<leftarrow> sqlite3_close E (or_db r) s;
          Some s
        } else osi_add_callback1 (or_callback r) (osi_make_error_pair ''sqlite3_open_v2'' (TRANSLATE_SQLITE_ERRNO (or_sqlite_rc r))) s
      else do {
        (_, s) \<leftarrow> db_do E Sqlite3_extended_result_codes (or_db r) s;
        let (d, s) = malloc_container E s;
        if d = 0 then do {
          (_, s) \<leftarrow> sqlite3_close E (or_db r) s;
          osi_add_callback1 (or_callback r) (osi_make_error_pair ''osi_open_database'' (uv_errno E ENOMEM)) s
        } else do {
          s \<leftarrow> store d (Database (new_database (or_db r))) s;
          start_database E d (or_db r) (or_callback r) s
        }
      })"

lemma open_cb_eq:
  "heap s req = Some (Open_req r) \<Longrightarrow> open_cb E xrc msg req s =
     Option.bind (do { s \<leftarrow> c_free (or_filename r) s; s \<leftarrow> Sunlock_object (or_callback r) s; c_free req s }) (open_result E xrc msg r)"
  by (simp add: open_cb_def load_open_req_def open_result_def [abs_def] Let_def cong: if_cong)

lemma open_result_opened:
  assumes inv: "osi_inv X s" and rc: "or_sqlite_rc r = SQLITE_OK \<longrightarrow> or_db r \<noteq> 0" and db: "or_db r \<noteq> 0 \<longrightarrow> or_db r \<in> sqlite_objs s"
    and bound: "0 \<notin> sqlite_objs s" "\<forall>n \<in> sqlite_objs s. n \<le> length (calls s)"
    and q: "g_callbacks s = Some q" and ok: "\<forall>n. uv E (Sql (Sqlite3_close (or_db r))) n = SQLITE_OK"
  shows "opened X (or_db r) (or_callback r) s (open_result E xrc msg r s)"
proof (cases "or_sqlite_rc r = SQLITE_OK")
  case False
  then obtain s' arg where res: "open_result E xrc msg r s = Some s'" and s': "heap s' = heap s" "locked s' = locked s" "mallocs s' = mallocs s"
    "closing s' = closing s" "g_callbacks s' = Some (Scons (Scons (or_callback r) (Scons arg Snil)) q)" "sqlite_objs s' = sqlite_objs s - {or_db r}"
    using db bound(1) q ok
    by (cases "or_db r = 0") (simp_all add: open_result_def make_sqlite_error_def sqlite3_close_def db_do_def uv_do_def osi_queue)
  have "osi_inv X s'" using s' by (intro osi_inv_same [OF inv]) simp_all
  moreover have "owed s' = owed s" using s'(1) by (simp add: owed_def)
  ultimately show ?thesis unfolding res using q s'(5,6) by (rule openedI_failed)
next
  case True
  then have n: "or_db r \<noteq> 0" "or_db r \<in> sqlite_objs s" using rc db by simp_all
  let ?c = "calls s @ [Sql (Sqlite3_extended_result_codes (or_db r))]"
  show ?thesis
  proof (cases "oom E (mallocs s)")
    case oom: True
    then obtain s' arg where res: "open_result E xrc msg r s = Some s'" and s': "heap s' = heap s" "locked s' = locked s" "mallocs s \<le> mallocs s'"
      "closing s' = closing s" "g_callbacks s' = Some (Scons (Scons (or_callback r) (Scons arg Snil)) q)" "sqlite_objs s' = sqlite_objs s - {or_db r}"
      using True n q ok by (simp add: open_result_def sqlite3_close_def db_do_def uv_do_def malloc_container_def osi_queue)
    have "osi_inv X s'" using s' by (intro osi_inv_same [OF inv]) simp_all
    moreover have "owed s' = owed s" using s'(1) by (simp add: owed_def)
    ultimately show ?thesis unfolding res using q s'(5,6) by (rule openedI_failed)
  next
    case False
    let ?a = "Suc (mallocs s)"
    let ?s = "s\<lparr>calls := ?c, mallocs := ?a, heap := (heap s)(?a \<mapsto> Database (new_database (or_db r)))\<rparr>"
    have res: "open_result E xrc msg r s = start_database E ?a (or_db r) (or_callback r) ?s"
      using True False n by (simp add: open_result_def db_do_def uv_do_def malloc_container_def store_def)
    have "heap_ok (heap ?s)" using heap_ok_new [OF osi_inv_heap [OF inv] osi_inv_fresh [OF inv]] by simp
    then have "osi_inv X ?s" by (intro osi_inv_new [OF inv, where x = "Database (new_database (or_db r))"]) (simp_all add: new_database_def)
    moreover have "owed ?s = owed s" using owed_new [OF inv, of ?s "Database (new_database (or_db r))"] by (simp add: new_database_def)
    moreover have "closing ?s ?a = None" using osi_inv_fresh_closing [OF inv] by simp
    ultimately have "opened X (or_db r) (or_callback r) ?s (start_database E ?a (or_db r) (or_callback r) ?s)"
      using n bound q ok by (intro start_database_opened) auto
    then show ?thesis unfolding res using \<open>owed ?s = owed s\<close> by (simp add: opened_def)
  qed
qed


definition open_started :: osi where
  "open_started = osi_start\<lparr>g_callbacks := Some Snil, locked := {#Sprocedure 3#}, mallocs := 1, calls := [Sql (Sqlite3_open_v2 [] 0)],
     heap := [1 \<mapsto> Open_req \<lparr>or_filename = 0, or_flags = 0, or_callback = Sprocedure 3, or_db = 1, or_sqlite_rc = 0\<rparr>], sqlite_objs := {1}\<rparr>"


section \<open>Finalizing during a close\<close>

text \<open>An open database with one statement, idle or being closed: the instance for the witnesses.\<close>

definition busy_closing :: "database_t \<Rightarrow> database_t" where
  "busy_closing d = d\<lparr>d_thread := Running Close_worker, d_async_data := Some Close_cb, d_busy := True, d_work := Some Close_worker,
     d_callback := Sprocedure 4\<rparr>"

definition one_statement :: "database_t \<Rightarrow> osi" where
  "one_statement d = osi_start\<lparr>locked := (if d_busy d then {#d_callback d#} else {#}), mallocs := 2,
     calls := [Sql (Sqlite3_open_v2 [] 0), Sql (Sqlite3_prepare_v2 1 [])],
     heap := [1 \<mapsto> Database d, 2 \<mapsto> Statement \<lparr>st_stmt = 2, st_database = 1, st_prev = 0, st_next = 0\<rparr>], sqlite_objs := {1, 2}\<rparr>"

lemma one_statement_inv:
  assumes "d_db d = 1" and "d_statement d = 2" and "d_thread d \<noteq> Gone" and "protocol d [2] (one_statement d)"
  shows "db_inv {#} {} 1 d [2] (one_statement d)"
proof -
  let ?st = "Statement \<lparr>st_stmt = 2, st_database = 1, st_prev = 0, st_next = 0\<rparr>"
  have ok1: "heap_ok [1 \<mapsto> Database d]" and ok2: "heap_ok [1 \<mapsto> Database d, 2 \<mapsto> ?st]"
    by (auto simp: heap_ok_def links_to_def split: if_splits)
  let ?s = "osi_start\<lparr>mallocs := 1, heap := [1 \<mapsto> Database d], locked := (if d_busy d then {#d_callback d#} else {#})\<rparr>"
  have i1: "osi_inv {#} ?s"
    using ok1 by (intro osi_inv_new [OF osi_inv_start, where x = "Database d"]) (simp_all add: osi_start_def)
  have "osi_inv {#} (one_statement d)"
    using ok2 by (intro osi_inv_new [OF i1, where x = ?st]) (simp_all add: one_statement_def osi_start_def numeral_2_eq_2)
  moreover have "registry {1} 1 d [2] (one_statement d)"
    using assms(2) by (auto simp: registry_def one_statement_def handle_def)
  ultimately show ?thesis using assms by (simp add: db_inv_def others_def one_statement_def osi_start_def)
qed

definition with_statement :: database_t where
  "with_statement = (new_database 1)\<lparr>d_thread := Waiting, d_statement := 2\<rparr>"

theorem statements_released_witness:
  "\<exists>s' s''. finalize_all quiet_env [2] (one_statement with_statement) = Some s' \<and> close_loop 1 s' = Some s'' \<and> sqlite_objs s'' = {1}"
proof -
  have "db_inv {#} {} 1 with_statement [2] (one_statement with_statement)"
    by (rule one_statement_inv) (simp_all add: with_statement_def new_database_def protocol_def)
  from statements_released [OF this, of "[2]" quiet_env] show ?thesis by (simp add: with_statement_def new_database_def)
qed

lemma close_detaches:
  assumes inv: "db_inv X B a d xs s" and th: "d_thread d = Running Close_worker" and x: "x \<in> set xs"
  shows "\<exists>s'. database_worker E out a s = Some s' \<and> heap s' x = Some (Statement null_statement) \<and> heap s' 0 = None"
proof -
  note D = db_invD [OF inv]
  obtain s' where s': "database_worker E out a s = Some s'" "osi_inv X s'"
    using database_worker_step [OF inv, of E out] th by (auto simp: thread_step_def db_inv_def)
  obtain r where "seg (heap s) a 0 (d_statement d) xs r 0" "distinct xs" "distinct (handles (heap s) xs)"
    "set (handles (heap s) xs) \<subseteq> sqlite_objs s" using D(5) by (auto simp: registry_def)
  note loop = close_loop_spec [OF D(3) this]
  have "x \<noteq> a" using x db_inv_not_stmt [OF inv] by auto
  then have "heap s' x = Some (Statement null_statement)"
    using s'(1) D(3) th loop x
    by (auto simp: database_worker_def close_worker_def load_db_def store_def sqlite3_close_def db_do_def uv_do_def detached_def
        split: bind_splits if_splits)
  then show ?thesis using s' osi_inv_null by blast
qed

text \<open>C26: Finalizing a statement while its database is being closed is a race. \<^verbatim>\<open>osi_finalize_statement\<close> tests
  \<^verbatim>\<open>statement->database\<close> and reads it again without the mutex, while \<^verbatim>\<open>close_worker\<close> clears it on
  the thread of the database. Before the thread runs, the operation is refused with \<^verbatim>\<open>UV_EBUSY\<close>; after it, the
  structure is freed; but when the thread runs between the test and the second read, the operation
  dereferences a null pointer.\<close>

theorem finalize_races_with_close:
  assumes "db_inv X B a d xs s" and "d_thread d = Running Close_worker" and "x \<in> set xs"
  shows "(\<exists>st. load_stmt x s = Some st \<and> st_database st \<noteq> 0)
     \<and> osi_finalize_statement E x s = Some (osi_make_error_pair ''osi_finalize_statement'' (uv_errno E EBUSY), s)
     \<and> (\<exists>s'. database_worker E out a s = Some s' \<and> finalize_attached E x s' = None
           \<and> osi_finalize_statement E x s' = Some (Strue, s'\<lparr>heap := (heap s')(x := None)\<rparr>))"
proof -
  note D = db_invD [OF assms(1)]
  obtain st where st: "heap s x = Some (Statement st)" "st_database st = a" "x \<noteq> 0" using registry_stmt [OF D(5) assms(3)] by blast
  obtain s' where "database_worker E out a s = Some s'" "heap s' x = Some (Statement null_statement)" "heap s' 0 = None"
    using close_detaches [OF assms] by blast
  then show ?thesis using st D(3) protocol_running(1) [OF D(6) assms(2)] db_inv_nonnull [OF assms(1)]
    by (simp add: osi_finalize_statement_def finalize_attached_def load_stmt_def load_db_def c_free_def)
qed

theorem finalize_races_with_close_witness:
  "\<exists>s'. database_worker quiet_env plain_outcome 1 (one_statement (busy_closing with_statement)) = Some s'
     \<and> finalize_attached quiet_env 2 s' = None"
proof -
  let ?d = "busy_closing with_statement"
  have "db_inv {#} {} 1 ?d [2] (one_statement ?d)"
    by (rule one_statement_inv) (simp_all add: busy_closing_def with_statement_def new_database_def protocol_def arg_ok_def exI [of _ Close_worker])
  moreover have "d_thread ?d = Running Close_worker" by (simp add: busy_closing_def)
  ultimately show ?thesis using finalize_races_with_close [of "{#}" "{}" 1 ?d "[2]" "one_statement ?d" 2 quiet_env plain_outcome] by simp blast
qed

end
