(* ===== verification/Finite_Work.thy ===== *)
theory Finite_Work
  imports Prelude
begin

text \<open>
  A contract shared by the components that run in steps: the work is finite, whatever the order of the steps.
\<close>

text \<open>
  The contract of a system that does a finite amount of work: every step keeps an invariant and uses
  up some of a budget, and as long as the work is not finished there is a step.
\<close>

locale finite_work =
  fixes step :: "'s \<Rightarrow> 's \<Rightarrow> bool" and inv :: "'s \<Rightarrow> bool" and budget :: "'s \<Rightarrow> nat" and finished :: "'s \<Rightarrow> bool"
  assumes step_inv: "inv s \<Longrightarrow> step s s' \<Longrightarrow> inv s'"
    and step_budget: "inv s \<Longrightarrow> step s s' \<Longrightarrow> budget s' < budget s"
    and step_progress: "inv s \<Longrightarrow> \<not> finished s \<Longrightarrow> \<exists>s'. step s s'"
begin

lemma run_inv: "inv s \<Longrightarrow> (step ^^ k) s s' \<Longrightarrow> inv s'"
  by (induction k arbitrary: s') (auto intro: step_inv)

lemma run_bounded: "inv s \<Longrightarrow> (step ^^ k) s s' \<Longrightarrow> k + budget s' \<le> budget s"
proof (induction k arbitrary: s')
  case (Suc k)
  then obtain t where t: "(step ^^ k) s t" "step t s'" by auto
  with Suc.IH [OF Suc.prems(1) t(1)] step_budget [OF run_inv [OF Suc.prems(1) t(1)] t(2)] show ?case by simp
qed simp

lemma stuck_finished: "inv s \<Longrightarrow> (step ^^ k) s s' \<Longrightarrow> \<nexists>s''. step s' s'' \<Longrightarrow> finished s'"
  using run_inv step_progress by blast

lemma halts: "inv s \<Longrightarrow> \<exists>k s'. (step ^^ k) s s' \<and> (\<nexists>s''. step s' s'')"
proof (induction "budget s" arbitrary: s rule: less_induct)
  case less
  show ?case
  proof (cases "\<exists>t. step s t")
    case True
    then obtain t where t: "step s t" by blast
    then obtain k s' where "(step ^^ k) t s'" "\<nexists>s''. step s' s''" using less step_inv step_budget by blast
    then show ?thesis using relpowp_Suc_I2 [of step s t] t by blast
  next
    case False
    then show ?thesis by (intro exI [of _ 0]) auto
  qed
qed

lemma finishes: "inv s \<Longrightarrow> \<exists>s'. step\<^sup>*\<^sup>* s s' \<and> finished s'"
proof (induction "budget s" arbitrary: s rule: less_induct)
  case less
  show ?case
  proof (cases "finished s")
    case False
    then obtain t where "step s t" using step_progress less.prems by blast
    with less.hyps [of t] less.prems step_inv step_budget show ?thesis by (meson converse_rtranclp_into_rtranclp)
  qed auto
qed

end

end
