(* ===== verification/Send_Request.thy ===== *)
theory Send_Request
  imports Osi_State Finite_Work
begin

text \<open>
  \<^verbatim>\<open>osi_send_request\<close>: a foreign thread asks the event loop to run a function and waits until it has run.
  The fields of \<^verbatim>\<open>g_send_request\<close> are read and written with its mutex held only, so that what a thread
  does between taking the mutex and releasing it, or waiting on a condition variable, is one
  step. Calls are numbered; \<open>caller\<close> is the thread that makes a call.
\<close>

section \<open>The shared structure and the calls\<close>

text \<open>
  \<open>sender\<close> is the call whose local condition variable the pointer refers to; \<open>async\<close> tells whether the
  async handle has been signalled and its callback has not run yet.
\<close>

record ('p, 's) send_request_t =
  async :: bool
  code :: "('p \<Rightarrow> 's \<Rightarrow> 's) option"
  payload :: "'p option"
  sender :: "nat option"

text \<open>
  Where a call is: not made, about to take the mutex at the first loop, waiting for its turn on
  \<^verbatim>\<open>cond\<close>, waiting for its request on \<^verbatim>\<open>self\<close>, about to take the mutex at the second loop, or returned.
\<close>

datatype pc = Not_called | Entering | Waiting_turn | Waiting_done | Woken | Returned int

record ('p, 's) request_world =
  g_send_request :: "('p, 's) send_request_t"
  pcs :: "nat \<Rightarrow> pc"
  scheme_state :: 's
  ran :: "nat list"

text \<open>The calls: who makes them, with which function (possibly null) and which payload.\<close>

record ('p, 's) send_call =
  caller :: nat
  call_code :: "('p \<Rightarrow> 's \<Rightarrow> 's) option"
  call_payload :: 'p

definition thread_self :: "('p, 's) send_call \<Rightarrow> nat" where
  "thread_self c = caller c"

section \<open>The operations\<close>

text \<open>The beginning of a call, up to \<^verbatim>\<open>uv_mutex_lock\<close>.\<close>

definition osi_send_request :: "env \<Rightarrow> nat \<Rightarrow> ('p, 's) send_call \<Rightarrow> pc" where
  "osi_send_request E g_scheme_thread c =
     (if call_code c = None then Returned (uv_errno E EINVAL)
      else if thread_self c = g_scheme_thread then Returned (uv_errno E EPERM)
      else Entering)"

text \<open>With the mutex held at the first loop. \<open>rc\<close> is the result of \<^verbatim>\<open>uv_async_send\<close>.\<close>

definition send_enter :: "int \<Rightarrow> ('p, 's) send_call \<Rightarrow> nat \<Rightarrow> ('p, 's) request_world \<Rightarrow> ('p, 's) request_world" where
  "send_enter rc c t w =
     (if sender (g_send_request w) \<noteq> None then w\<lparr>pcs := (pcs w)(t := Waiting_turn)\<rparr>
      else if rc \<noteq> 0 then w\<lparr>pcs := (pcs w)(t := Returned rc)\<rparr>
      else w\<lparr>g_send_request := \<lparr>async = True, code = call_code c, payload = Some (call_payload c), sender = Some t\<rparr>,
             pcs := (pcs w)(t := Waiting_done)\<rparr>)"

text \<open>With the mutex held at the second loop. The signal wakes call \<open>u\<close>, if any waits for its turn.\<close>

definition send_leave :: "nat option \<Rightarrow> nat \<Rightarrow> ('p, 's) request_world \<Rightarrow> ('p, 's) request_world" where
  "send_leave u t w =
     (if sender (g_send_request w) = Some t then w\<lparr>pcs := (pcs w)(t := Waiting_done)\<rparr>
      else w\<lparr>pcs := (case u of None \<Rightarrow> pcs w | Some v \<Rightarrow> (pcs w)(v := Entering))(t := Returned 0)\<rparr>)"

definition signals :: "nat option \<Rightarrow> ('p, 's) request_world \<Rightarrow> bool" where
  "signals u w \<longleftrightarrow> (case u of None \<Rightarrow> \<forall>v. pcs w v \<noteq> Waiting_turn | Some v \<Rightarrow> pcs w v = Waiting_turn)"

text \<open>The callback of the async handle. Calling a null function is undefined, and so is signalling a null condition variable.\<close>

definition send_request_async_cb :: "('p, 's) request_world \<Rightarrow> ('p, 's) request_world option" where
  "send_request_async_cb w =
     (let g = g_send_request w
      in case (code g, payload g, sender g) of
        (Some f, Some p, Some t) \<Rightarrow>
          Some (w\<lparr>scheme_state := f p (scheme_state w), ran := ran w @ [t],
                  g_send_request := \<lparr>async = False, code = None, payload = None, sender = None\<rparr>,
                  pcs := (if pcs w t = Waiting_done then (pcs w)(t := Woken) else pcs w)\<rparr>)
      | _ \<Rightarrow> None)"

text \<open>
  The steps of a set of calls. With \<open>fail\<close>, \<^verbatim>\<open>uv_async_send\<close> may fail; with \<open>spur\<close>, waiting on a
  condition variable may end without a signal.
\<close>

inductive req_step :: "env \<Rightarrow> nat \<Rightarrow> ('p, 's) send_call list \<Rightarrow> bool \<Rightarrow> bool \<Rightarrow> ('p, 's) request_world \<Rightarrow> ('p, 's) request_world \<Rightarrow> bool"
  for E st cs fail spur where
  arrive: "t < length cs \<Longrightarrow> pcs w t = Not_called \<Longrightarrow>
     req_step E st cs fail spur w (w\<lparr>pcs := (pcs w)(t := osi_send_request E st (cs ! t))\<rparr>)"
| enter: "t < length cs \<Longrightarrow> pcs w t = Entering \<Longrightarrow> rc = 0 \<or> fail \<Longrightarrow> req_step E st cs fail spur w (send_enter rc (cs ! t) t w)"
| leave: "t < length cs \<Longrightarrow> pcs w t = Woken \<Longrightarrow> signals u w \<Longrightarrow> req_step E st cs fail spur w (send_leave u t w)"
| serve: "async (g_send_request w) \<Longrightarrow> send_request_async_cb w = Some w' \<Longrightarrow> req_step E st cs fail spur w w'"
| wake_turn: "spur \<Longrightarrow> pcs w t = Waiting_turn \<Longrightarrow> req_step E st cs fail spur w (w\<lparr>pcs := (pcs w)(t := Entering)\<rparr>)"
| wake_done: "spur \<Longrightarrow> pcs w t = Waiting_done \<Longrightarrow> req_step E st cs fail spur w (w\<lparr>pcs := (pcs w)(t := Woken)\<rparr>)"

definition idle_request :: "('p, 's) send_request_t" where
  "idle_request = \<lparr>async = False, code = None, payload = None, sender = None\<rparr>"

definition request_start :: "'s \<Rightarrow> ('p, 's) request_world" where
  "request_start s = \<lparr>g_send_request = idle_request, pcs = (\<lambda>_. Not_called), scheme_state = s, ran = []\<rparr>"

section \<open>The invariant\<close>

text \<open>The effect of serving the calls \<open>ts\<close> in this order.\<close>

definition serve_all :: "('p, 's) send_call list \<Rightarrow> nat list \<Rightarrow> 's \<Rightarrow> 's" where
  "serve_all cs ts s = fold (\<lambda>t. the (call_code (cs ! t)) (call_payload (cs ! t))) ts s"

lemma serve_all_simps [simp]:
  "serve_all cs [] s = s"
  "serve_all cs (ts @ [t]) s = the (call_code (cs ! t)) (call_payload (cs ! t)) (serve_all cs ts s)"
  by (simp_all add: serve_all_def)

definition valid_call :: "nat \<Rightarrow> ('p, 's) send_call \<Rightarrow> bool" where
  "valid_call st c \<longleftrightarrow> call_code c \<noteq> None \<and> caller c \<noteq> st"

text \<open>The structure is idle, or holds the request of one call, which waits for it.\<close>

definition slot_ok :: "nat \<Rightarrow> ('p, 's) send_call list \<Rightarrow> ('p, 's) request_world \<Rightarrow> bool" where
  "slot_ok st cs w \<longleftrightarrow>
     (case sender (g_send_request w) of
        None \<Rightarrow> g_send_request w = idle_request
      | Some t \<Rightarrow> t < length cs \<and> valid_call st (cs ! t) \<and> t \<notin> set (ran w) \<and> pcs w t \<in> {Waiting_done, Woken}
          \<and> g_send_request w = \<lparr>async = True, code = call_code (cs ! t), payload = Some (call_payload (cs ! t)), sender = Some t\<rparr>)"

definition pc_ok :: "nat \<Rightarrow> ('p, 's) send_call list \<Rightarrow> ('p, 's) request_world \<Rightarrow> nat \<Rightarrow> bool" where
  "pc_ok st cs w t \<longleftrightarrow>
     (case pcs w t of
        Not_called \<Rightarrow> t \<notin> set (ran w)
      | Entering \<Rightarrow> t < length cs \<and> valid_call st (cs ! t) \<and> t \<notin> set (ran w)
      | Waiting_turn \<Rightarrow> t < length cs \<and> valid_call st (cs ! t) \<and> t \<notin> set (ran w)
      | Waiting_done \<Rightarrow> t < length cs \<and> sender (g_send_request w) = Some t
      | Woken \<Rightarrow> t < length cs \<and> valid_call st (cs ! t) \<and> (sender (g_send_request w) = Some t \<or> t \<in> set (ran w))
      | Returned rc \<Rightarrow> t < length cs \<and> (rc = 0 \<longleftrightarrow> t \<in> set (ran w)) \<and> (rc = 0 \<longrightarrow> valid_call st (cs ! t)))"

definition req_inv :: "nat \<Rightarrow> ('p, 's) send_call list \<Rightarrow> 's \<Rightarrow> ('p, 's) request_world \<Rightarrow> bool" where
  "req_inv st cs s w \<longleftrightarrow>
     slot_ok st cs w \<and> (\<forall>t. pc_ok st cs w t) \<and> distinct (ran w) \<and> scheme_state w = serve_all cs (ran w) s"

lemma req_invD:
  "req_inv st cs s w \<Longrightarrow> slot_ok st cs w" "req_inv st cs s w \<Longrightarrow> pc_ok st cs w t"
  "req_inv st cs s w \<Longrightarrow> distinct (ran w)" "req_inv st cs s w \<Longrightarrow> scheme_state w = serve_all cs (ran w) s"
  by (simp_all add: req_inv_def)

lemma req_inv_start: "req_inv st cs s (request_start s)"
  by (simp add: req_inv_def slot_ok_def pc_ok_def request_start_def idle_request_def)

text \<open>A step that only moves calls from one place to another.\<close>

lemma req_inv_move:
  assumes inv: "req_inv st cs s w" and slot: "\<And>t. sender (g_send_request w) = Some t \<Longrightarrow> f t \<in> {Waiting_done, Woken}"
    and pc: "\<And>t. f t \<noteq> pcs w t \<Longrightarrow> pc_ok st cs (w\<lparr>pcs := f\<rparr>) t"
  shows "req_inv st cs s (w\<lparr>pcs := f\<rparr>)"
proof -
  have "pc_ok st cs (w\<lparr>pcs := f\<rparr>) t" for t
    using pc [of t] req_invD(2) [OF inv, of t] by (cases "f t = pcs w t") (auto simp: pc_ok_def split: pc.splits)
  then show ?thesis using inv slot by (auto simp: req_inv_def slot_ok_def split: option.splits)
qed

lemma serve_defined:
  assumes "req_inv st cs s w" and "async (g_send_request w)"
  shows "\<exists>w' t. send_request_async_cb w = Some w' \<and> sender (g_send_request w) = Some t"
  using req_invD(1) [OF assms(1)] assms(2)
  by (auto simp: slot_ok_def idle_request_def send_request_async_cb_def valid_call_def split: option.splits)

lemma serve_inv:
  assumes inv: "req_inv st cs s w" and step: "send_request_async_cb w = Some w'"
  shows "req_inv st cs s w'"
proof -
  obtain t where t: "sender (g_send_request w) = Some t"
    using step by (auto simp: send_request_async_cb_def Let_def split: option.splits)
  then have g: "g_send_request w = \<lparr>async = True, code = call_code (cs ! t), payload = Some (call_payload (cs ! t)), sender = Some t\<rparr>"
    and T: "t < length cs" "valid_call st (cs ! t)" "t \<notin> set (ran w)" "pcs w t \<in> {Waiting_done, Woken}"
    using req_invD(1) [OF inv] by (auto simp: slot_ok_def)
  then obtain f where f: "call_code (cs ! t) = Some f" by (auto simp: valid_call_def)
  have w': "w' = w\<lparr>scheme_state := f (call_payload (cs ! t)) (scheme_state w), ran := ran w @ [t], g_send_request := idle_request,
      pcs := (pcs w)(t := Woken)\<rparr>"
    using step g f T(4) by (auto simp: send_request_async_cb_def idle_request_def fun_upd_idem)
  have "pc_ok st cs w' u" for u
  proof (cases "u = t")
    case True
    then show ?thesis using T w' by (simp add: pc_ok_def)
  next
    case False
    then show ?thesis using req_invD(2) [OF inv, of u] w' t by (auto simp: pc_ok_def split: pc.splits)
  qed
  then show ?thesis using req_invD(3,4) [OF inv] T(3) f w' by (simp add: req_inv_def slot_ok_def idle_request_def)
qed

lemma enter_inv:
  assumes inv: "req_inv st cs s w" and t: "pcs w t = Entering"
  shows "req_inv st cs s (send_enter rc (cs ! t) t w)"
proof -
  have T: "t < length cs" "valid_call st (cs ! t)" "t \<notin> set (ran w)" using req_invD(2) [OF inv, of t] t by (simp_all add: pc_ok_def)
  have st: "sender (g_send_request w) \<noteq> Some t" using req_invD(1) [OF inv] t by (auto simp: slot_ok_def split: option.splits)
  consider (busy) v where "sender (g_send_request w) = Some v" | (failed) "sender (g_send_request w) = None" "rc \<noteq> 0"
    | (sent) "sender (g_send_request w) = None" "rc = 0" by auto
  then show ?thesis
  proof cases
    case busy
    then show ?thesis unfolding send_enter_def using T st req_invD(1) [OF inv]
      by (simp, intro req_inv_move [OF inv]) (auto simp: pc_ok_def slot_ok_def split: if_splits)
  next
    case failed
    then show ?thesis unfolding send_enter_def using T by (simp, intro req_inv_move [OF inv]) (auto simp: pc_ok_def split: if_splits)
  next
    case sent
    then have w': "send_enter rc (cs ! t) t w = w\<lparr>g_send_request := \<lparr>async = True, code = call_code (cs ! t), payload = Some (call_payload (cs ! t)), sender = Some t\<rparr>,
             pcs := (pcs w)(t := Waiting_done)\<rparr>" (is "_ = ?w") by (simp add: send_enter_def)
    have "pc_ok st cs ?w u" for u
      using req_invD(2) [OF inv, of u] T sent by (cases "u = t") (auto simp: pc_ok_def split: pc.splits)
    then show ?thesis unfolding w' using req_invD(3,4) [OF inv] T by (simp add: req_inv_def slot_ok_def)
  qed
qed

lemma leave_inv:
  assumes inv: "req_inv st cs s w" and t: "pcs w t = Woken" and u: "signals u w"
  shows "req_inv st cs s (send_leave u t w)"
proof -
  have T: "t < length cs" "valid_call st (cs ! t)" "sender (g_send_request w) = Some t \<or> t \<in> set (ran w)"
    using req_invD(2) [OF inv, of t] t by (simp_all add: pc_ok_def)
  have U: "v < length cs \<and> valid_call st (cs ! v) \<and> v \<notin> set (ran w) \<and> v \<noteq> t \<and> sender (g_send_request w) \<noteq> Some v" if "u = Some v" for v
    using req_invD(1) [OF inv] req_invD(2) [OF inv, of v] u t that by (auto simp: signals_def pc_ok_def slot_ok_def split: option.splits)
  show ?thesis
  proof (cases "sender (g_send_request w) = Some t")
    case True
    then show ?thesis unfolding send_leave_def using T by (simp, intro req_inv_move [OF inv]) (auto simp: pc_ok_def split: if_splits)
  next
    case False
    then show ?thesis unfolding send_leave_def using T U req_invD(1) [OF inv]
      by (simp, intro req_inv_move [OF inv]) (auto simp: pc_ok_def slot_ok_def split: if_splits option.splits)
  qed
qed

lemma req_step_inv:
  assumes "req_step E st cs fail spur w w'" and inv: "req_inv st cs s w"
    and codes: "uv_errno E EINVAL \<noteq> 0" "uv_errno E EPERM \<noteq> 0"
  shows "req_inv st cs s w'"
  using assms(1)
proof cases
  case (arrive t)
  have "t \<notin> set (ran w)" "sender (g_send_request w) \<noteq> Some t"
    using req_invD(1) [OF inv] req_invD(2) [OF inv, of t] arrive(3) by (auto simp: pc_ok_def slot_ok_def split: option.splits)
  then show ?thesis unfolding arrive(1) using arrive(2) codes req_invD(1) [OF inv]
    by (intro req_inv_move [OF inv]) (auto simp: pc_ok_def osi_send_request_def valid_call_def thread_self_def slot_ok_def split: if_splits)
next
  case (wake_turn t)
  have "t < length cs" "valid_call st (cs ! t)" "t \<notin> set (ran w)" "sender (g_send_request w) \<noteq> Some t"
    using req_invD(1) [OF inv] req_invD(2) [OF inv, of t] wake_turn(3) by (auto simp: pc_ok_def slot_ok_def split: option.splits)
  then show ?thesis unfolding wake_turn(1) using req_invD(1) [OF inv]
    by (intro req_inv_move [OF inv]) (auto simp: pc_ok_def slot_ok_def split: if_splits)
next
  case (wake_done t)
  then show ?thesis unfolding wake_done(1) using req_invD(1) [OF inv] req_invD(2) [OF inv, of t]
    by (intro req_inv_move [OF inv]) (auto simp: pc_ok_def slot_ok_def split: if_splits)
qed (use enter_inv [OF inv] leave_inv [OF inv] serve_inv [OF inv] in auto)

lemma reqs_inv: "(req_step E st cs fail spur)\<^sup>*\<^sup>* w w' \<Longrightarrow> req_inv st cs s w \<Longrightarrow> uv_errno E EINVAL \<noteq> 0 \<Longrightarrow> uv_errno E EPERM \<noteq> 0 \<Longrightarrow> req_inv st cs s w'"
  by (induction rule: rtranclp_induct) (auto intro: req_step_inv)

section \<open>Termination\<close>

text \<open>
  As long as sending does not fail, no wake-up is lost: when a call waits for its turn, the slot is
  taken or another call is on its way through. Without spurious wake-ups, a call woken at the second
  loop has been served; and only calls that are not valid return an error.
\<close>

definition turn_ok :: "nat \<Rightarrow> ('p, 's) send_call list \<Rightarrow> ('p, 's) request_world \<Rightarrow> bool" where
  "turn_ok st cs w \<longleftrightarrow>
     (\<forall>t. pcs w t = Waiting_turn \<longrightarrow> sender (g_send_request w) \<noteq> None \<or> (\<exists>v < length cs. pcs w v \<in> {Entering, Woken}))
     \<and> (\<forall>t. pcs w t = Woken \<longrightarrow> sender (g_send_request w) \<noteq> Some t)
     \<and> (\<forall>t rc. pcs w t = Returned rc \<longrightarrow> rc \<noteq> 0 \<longrightarrow> \<not> valid_call st (cs ! t))"

fun weight :: "pc \<Rightarrow> nat" where
  "weight Not_called = 6"
| "weight Entering = 5"
| "weight Waiting_turn = 4"
| "weight Waiting_done = 3"
| "weight Woken = 2"
| "weight (Returned _) = 0"

definition weigh :: "nat \<Rightarrow> ('p, 's) request_world \<Rightarrow> nat" where
  "weigh n w = (\<Sum>t < n. weight (pcs w t))"

lemma weigh_move: "t < n \<Longrightarrow> weigh n (w\<lparr>pcs := (pcs w)(t := x)\<rparr>) + weight (pcs w t) = weigh n w + weight x"
proof -
  assume "t < n"
  then have "(\<Sum>u < n. weight (((pcs w)(t := x)) u)) = weight x + (\<Sum>u \<in> {..<n} - {t}. weight (pcs w u))"
    and "(\<Sum>u < n. weight (pcs w u)) = weight (pcs w t) + (\<Sum>u \<in> {..<n} - {t}. weight (pcs w u))"
    by (simp_all add: sum.remove [of _ t])
  then show ?thesis by (simp add: weigh_def)
qed

lemma weigh_same [simp]: "weigh n (w\<lparr>g_send_request := g\<rparr>) = weigh n w" "weigh n (w\<lparr>scheme_state := x, ran := r\<rparr>) = weigh n w"
  by (simp_all add: weigh_def)

definition quiet_inv :: "env \<Rightarrow> nat \<Rightarrow> ('p, 's) send_call list \<Rightarrow> 's \<Rightarrow> ('p, 's) request_world \<Rightarrow> bool" where
  "quiet_inv E st cs s w \<longleftrightarrow> req_inv st cs s w \<and> turn_ok st cs w \<and> uv_errno E EINVAL \<noteq> 0 \<and> uv_errno E EPERM \<noteq> 0"

definition all_returned :: "nat \<Rightarrow> ('p, 's) request_world \<Rightarrow> bool" where
  "all_returned n w \<longleftrightarrow> (\<forall>t < n. \<exists>rc. pcs w t = Returned rc)"

lemma turn_ok_step:
  assumes step: "req_step E st cs False False w w'" and inv: "req_inv st cs s w" and ok: "turn_ok st cs w"
  shows "turn_ok st cs w'"
  using step
proof cases
  case (arrive t)
  have keep: "\<exists>v < length cs. pcs w' v \<in> {Entering, Woken}" if "v < length cs" "pcs w v \<in> {Entering, Woken}" for v
    using that arrive by (intro exI [of _ v]) auto
  have "pcs w v = pcs w' v" "sender (g_send_request w') = sender (g_send_request w)" if "pcs w' v \<in> {Waiting_turn, Woken}" for v
    using that arrive by (auto simp: osi_send_request_def split: if_splits)
  moreover have "\<not> valid_call st (cs ! v)" if "pcs w' v = Returned rc" "rc \<noteq> 0" for v rc
    using that arrive ok by (auto simp: osi_send_request_def turn_ok_def valid_call_def thread_self_def split: if_splits)
  ultimately show ?thesis using ok keep unfolding turn_ok_def by simp (metis (no_types))
next
  case (enter t rc)
  then show ?thesis using ok by (auto simp: turn_ok_def send_enter_def)
next
  case (leave t u)
  have "sender (g_send_request w) \<noteq> Some t" using ok leave(3) by (simp add: turn_ok_def)
  moreover have "v < length cs \<and> v \<noteq> t" if "u = Some v" for v
    using leave that req_invD(2) [OF inv, of v] by (auto simp: signals_def pc_ok_def)
  ultimately show ?thesis using ok leave
    by (cases u) (auto simp: turn_ok_def send_leave_def signals_def)
next
  case serve
  obtain t where "sender (g_send_request w) = Some t" "pcs w t = Waiting_done" "t < length cs"
    using serve_defined [OF inv serve(1)] req_invD(1) [OF inv] ok by (auto simp: slot_ok_def turn_ok_def)
  then show ?thesis using ok serve(2) by (auto simp: turn_ok_def send_request_async_cb_def Let_def split: option.splits if_splits)
qed simp_all

lemma weigh_step:
  assumes step: "req_step E st cs False False w w'" and inv: "req_inv st cs s w" and ok: "turn_ok st cs w"
  shows "weigh (length cs) w' < weigh (length cs) w"
  using step
proof cases
  case (arrive t)
  then show ?thesis using weigh_move [of t "length cs" w "osi_send_request E st (cs ! t)"]
    by (auto simp: osi_send_request_def split: if_splits)
next
  case (enter t rc)
  then show ?thesis
    using weigh_move [of t "length cs" w Waiting_turn]
      weigh_move [of t "length cs" "w\<lparr>g_send_request := \<lparr>async = True, code = call_code (cs ! t), payload = Some (call_payload (cs ! t)), sender = Some t\<rparr>\<rparr>" Waiting_done]
    by (auto simp: send_enter_def split: if_splits)
next
  case (leave t u)
  have t: "sender (g_send_request w) \<noteq> Some t" using ok leave(3) by (simp add: turn_ok_def)
  show ?thesis
  proof (cases u)
    case None
    then show ?thesis using leave t weigh_move [of t "length cs" w "Returned 0"] by (simp add: send_leave_def)
  next
    case (Some v)
    then have v: "v < length cs" "v \<noteq> t" "pcs w v = Waiting_turn"
      using leave req_invD(2) [OF inv, of v] by (auto simp: signals_def pc_ok_def)
    let ?w = "w\<lparr>pcs := (pcs w)(v := Entering)\<rparr>"
    show ?thesis using Some leave t v weigh_move [of t "length cs" ?w "Returned 0"] weigh_move [of v "length cs" w Entering]
      by (simp add: send_leave_def)
  qed
next
  case serve
  obtain t where t: "sender (g_send_request w) = Some t" "pcs w t = Waiting_done" "t < length cs"
    using serve_defined [OF inv serve(1)] req_invD(1) [OF inv] ok by (auto simp: slot_ok_def turn_ok_def)
  then have "pcs w' = (pcs w)(t := Woken)"
    using serve(2) by (auto simp: send_request_async_cb_def Let_def split: option.splits)
  then have "weigh (length cs) w' = weigh (length cs) (w\<lparr>pcs := (pcs w)(t := Woken)\<rparr>)" by (simp add: weigh_def)
  then show ?thesis using weigh_move [of t "length cs" w Woken] t by simp
qed simp_all

lemma req_progress:
  assumes inv: "req_inv st cs s w" and ok: "turn_ok st cs w" and open_call: "\<not> all_returned (length cs) w"
  shows "\<exists>w'. req_step E st cs False False w w'"
proof -
  have sent: ?thesis if "sender (g_send_request w) \<noteq> None"
  proof -
    have "async (g_send_request w)" using req_invD(1) [OF inv] that by (auto simp: slot_ok_def)
    with serve_defined [OF inv this] show ?thesis by (blast intro: req_step.serve)
  qed
  have go: ?thesis if "t < length cs" "pcs w t \<in> {Entering, Woken}" for t
  proof -
    have "signals None w \<or> (\<exists>v. signals (Some v) w)" by (auto simp: signals_def)
    then obtain u where "signals u w" by blast
    then show ?thesis using that by (auto intro: req_step.enter req_step.leave)
  qed
  obtain t where t: "t < length cs" "\<forall>rc. pcs w t \<noteq> Returned rc" using open_call by (auto simp: all_returned_def)
  show ?thesis
  proof (cases "pcs w t")
    case Not_called
    then show ?thesis using t(1) by (blast intro: req_step.arrive)
  next
    case Waiting_turn
    then show ?thesis using ok sent go by (auto simp: turn_ok_def)
  next
    case Waiting_done
    then show ?thesis using req_invD(2) [OF inv, of t] sent by (simp add: pc_ok_def)
  qed (use t go in auto)
qed

interpretation requests: finite_work "req_step E st cs False False" "quiet_inv E st cs s" "weigh (length cs)" "all_returned (length cs)"
  for E st cs s
proof unfold_locales
  fix w w'
  assume inv: "quiet_inv E st cs s w"
  then have i: "req_inv st cs s w" "turn_ok st cs w" "uv_errno E EINVAL \<noteq> 0" "uv_errno E EPERM \<noteq> 0" by (simp_all add: quiet_inv_def)
  show "\<exists>w'. req_step E st cs False False w w'" if "\<not> all_returned (length cs) w" by (rule req_progress [OF i(1,2) that])
  assume step: "req_step E st cs False False w w'"
  show "quiet_inv E st cs s w'" using req_step_inv [OF step i(1,3,4)] turn_ok_step [OF step i(1,2)] i(3,4) by (simp add: quiet_inv_def)
  show "weigh (length cs) w' < weigh (length cs) w" by (rule weigh_step [OF step i(1,2)])
qed

lemma count_list_1: "distinct xs \<Longrightarrow> x \<in> set xs \<Longrightarrow> count_list xs x = 1"
  by (induction xs) auto

section \<open>Properties\<close>

text \<open>C9: Requests from foreign threads are served once, one at a time. Whatever the order of the calls, with
  spurious wake-ups and failing sends: no null function is called, a call has returned 0 exactly when it returned and
  its function has been run, no function is run twice, functions of refused calls (no function, the
  Scheme thread itself, a failed send) are never run, and the state is the one left by running the
  functions one after the other.\<close>

theorem requests_served_once:
  assumes "(req_step E st cs fail spur)\<^sup>*\<^sup>* (request_start s) w" and "uv_errno E EINVAL \<noteq> 0" and "uv_errno E EPERM \<noteq> 0"
  shows "(async (g_send_request w) \<longrightarrow> send_request_async_cb w \<noteq> None)
     \<and> distinct (ran w) \<and> scheme_state w = serve_all cs (ran w) s
     \<and> (\<forall>t rc. pcs w t = Returned rc \<longrightarrow> (rc = 0 \<longleftrightarrow> t \<in> set (ran w)))
     \<and> (\<forall>t \<in> set (ran w). t < length cs \<and> call_code (cs ! t) \<noteq> None \<and> caller (cs ! t) \<noteq> st)"
proof -
  have inv: "req_inv st cs s w" by (rule reqs_inv [OF assms(1) req_inv_start assms(2,3)])
  have "t < length cs \<and> call_code (cs ! t) \<noteq> None \<and> caller (cs ! t) \<noteq> st" if "t \<in> set (ran w)" for t
    using req_invD(1) [OF inv] req_invD(2) [OF inv, of t] that by (auto simp: pc_ok_def slot_ok_def valid_call_def split: pc.splits)
  moreover have "rc = 0 \<longleftrightarrow> t \<in> set (ran w)" if "pcs w t = Returned rc" for t rc
    using req_invD(2) [OF inv, of t] that by (simp add: pc_ok_def)
  ultimately show ?thesis using serve_defined [OF inv] req_invD(3,4) [OF inv] by fastforce
qed

definition two_calls :: "(nat, nat list) send_call list" where
  "two_calls = [\<lparr>caller = 1, call_code = Some Cons, call_payload = 7\<rparr>, \<lparr>caller = 0, call_code = Some Cons, call_payload = 8\<rparr>]"

theorem requests_served_once_witness:
  "\<exists>w. (req_step quiet_env 0 two_calls True True)\<^sup>*\<^sup>* (request_start []) w \<and> ran w = [0] \<and> scheme_state w = [7]
     \<and> (\<forall>t rc. pcs w t = Returned rc \<longrightarrow> (rc = 0 \<longleftrightarrow> t \<in> set (ran w)))"
proof -
  let ?S = "req_step quiet_env 0 two_calls True True"
  let ?w1 = "(request_start [])\<lparr>pcs := (\<lambda>_. Not_called)(0 := Entering)\<rparr>"
  let ?w2 = "send_enter 0 (two_calls ! 0) 0 ?w1"
  let ?w3 = "the (send_request_async_cb ?w2)"
  note ev = two_calls_def request_start_def idle_request_def osi_send_request_def thread_self_def send_enter_def send_request_async_cb_def
  have "?S (request_start []) ?w1" by (rule back_subst [of "?S _", OF req_step.arrive [of 0]]) (simp_all add: ev)
  moreover have "?S ?w1 ?w2" by (rule req_step.enter) (simp_all add: ev)
  moreover have "?S ?w2 ?w3" by (rule req_step.serve) (simp_all add: ev)
  ultimately have r: "?S\<^sup>*\<^sup>* (request_start []) ?w3" by (meson converse_rtranclp_into_rtranclp rtranclp.rtrancl_refl)
  have "ran ?w3 = [0]" "scheme_state ?w3 = [7]" by (simp_all add: ev)
  moreover have "uv_errno quiet_env EINVAL \<noteq> 0" "uv_errno quiet_env EPERM \<noteq> 0" by (simp_all add: quiet_env_def)
  ultimately show ?thesis using requests_served_once [OF r] r by blast
qed

text \<open>C13: Requests from foreign threads are answered. As long as \<^verbatim>\<open>uv_async_send\<close> succeeds, \<open>n\<close> calls take at
  most \<open>6n\<close> steps in any order, none of them gets stuck, and at the end every call with a function that was made
  by a foreign thread has returned 0, with its function run exactly once.\<close>

theorem requests_terminate:
  assumes "uv_errno E EINVAL \<noteq> 0" and "uv_errno E EPERM \<noteq> 0"
  shows "(\<forall>k w. (req_step E st cs False False ^^ k) (request_start s) w \<longrightarrow> k \<le> 6 * length cs
       \<and> ((\<exists>w'. req_step E st cs False False w w')
          \<or> (\<forall>t < length cs. \<exists>rc. pcs w t = Returned rc
               \<and> (call_code (cs ! t) \<noteq> None \<and> caller (cs ! t) \<noteq> st \<longrightarrow> rc = 0 \<and> count_list (ran w) t = 1))))"
proof (intro allI impI conjI)
  have inv: "quiet_inv E st cs s (request_start s)"
    using assms req_inv_start by (simp add: quiet_inv_def turn_ok_def request_start_def)
  fix k w assume run: "(req_step E st cs False False ^^ k) (request_start s) w"
  have "weigh (length cs) (request_start s :: ('a, 'b) request_world) = 6 * length cs" by (simp add: weigh_def request_start_def)
  then show "k \<le> 6 * length cs" using requests.run_bounded [OF inv run] by simp
  have qi: "quiet_inv E st cs s w" by (rule requests.run_inv [OF inv run])
  have "rc = 0 \<and> count_list (ran w) t = 1" if "pcs w t = Returned rc" "valid_call st (cs ! t)" for t rc
  proof -
    have "rc = 0" using qi that by (auto simp: quiet_inv_def turn_ok_def)
    then show ?thesis using qi that(1) by (auto simp: quiet_inv_def req_inv_def pc_ok_def count_list_1 dest!: spec [of _ t])
  qed
  then show "(\<exists>w'. req_step E st cs False False w w') \<or> (\<forall>t < length cs. \<exists>rc. pcs w t = Returned rc
      \<and> (call_code (cs ! t) \<noteq> None \<and> caller (cs ! t) \<noteq> st \<longrightarrow> rc = 0 \<and> count_list (ran w) t = 1))"
    using requests.stuck_finished [OF inv run] by (fastforce simp: all_returned_def valid_call_def)
qed

theorem requests_terminate_witness:
  "\<exists>k w. (req_step quiet_env 0 two_calls False False ^^ k) (request_start []) w \<and> k \<le> 12 \<and> pcs w 0 = Returned 0 \<and> count_list (ran w) 0 = 1"
proof -
  have e: "uv_errno quiet_env EINVAL \<noteq> 0" "uv_errno quiet_env EPERM \<noteq> 0" by (simp_all add: quiet_env_def)
  have inv: "quiet_inv quiet_env 0 two_calls [] (request_start [])"
    using e req_inv_start by (simp add: quiet_inv_def turn_ok_def request_start_def)
  obtain k w where run: "(req_step quiet_env 0 two_calls False False ^^ k) (request_start []) w"
    and stuck: "\<nexists>w'. req_step quiet_env 0 two_calls False False w w'" using requests.halts [OF inv] by auto
  have n: "length two_calls = 2" "call_code (two_calls ! 0) \<noteq> None" "caller (two_calls ! 0) \<noteq> 0" by (simp_all add: two_calls_def)
  have "k \<le> 6 * length two_calls \<and> (\<forall>t < length two_calls. \<exists>rc. pcs w t = Returned rc
      \<and> (call_code (two_calls ! t) \<noteq> None \<and> caller (two_calls ! t) \<noteq> 0 \<longrightarrow> rc = 0 \<and> count_list (ran w) t = 1))"
    using requests_terminate [OF e, of 0 two_calls "[]"] run stuck by blast
  moreover have "0 < length two_calls" by (simp add: n(1))
  ultimately have "k \<le> 6 * length two_calls" "\<exists>rc. pcs w 0 = Returned rc \<and> rc = 0 \<and> count_list (ran w) 0 = 1" using n(2,3) by blast+
  then have "k \<le> 12" "pcs w 0 = Returned 0 \<and> count_list (ran w) 0 = 1" using n(1) by auto
  then show ?thesis using run by blast
qed

text \<open>C28: A failing \<^verbatim>\<open>uv_async_send\<close> loses a wake-up. \<^verbatim>\<open>osi_send_request\<close> returns the error without
  signalling \<^verbatim>\<open>cond\<close>, although the signal that let it in may have been the only one: three calls can get
  into a state where two have returned, the third waits for its turn, the slot is free, and nothing
  but a spurious wake-up or a new call will ever end its waiting.\<close>

theorem failed_send_loses_wakeup:
  "\<exists>w. (req_step E 0 (replicate 3 \<lparr>caller = 1, call_code = Some (\<lambda>_ s. s), call_payload = ()\<rparr>) True False)\<^sup>*\<^sup>* (request_start ()) w
     \<and> pcs w 2 = Waiting_turn \<and> sender (g_send_request w) = None
     \<and> (\<nexists>w'. req_step E 0 (replicate 3 \<lparr>caller = 1, call_code = Some (\<lambda>_ s. s), call_payload = ()\<rparr>) True False w w')"
proof -
  let ?c = "\<lparr>caller = 1, call_code = Some (\<lambda>_ s. s), call_payload = ()\<rparr> :: (unit, unit) send_call"
  let ?cs = "replicate 3 ?c"
  let ?S = "req_step E 0 ?cs True False"
  let ?g = "\<lparr>async = True, code = call_code ?c, payload = Some (), sender = Some 0\<rparr>"
  define W :: "_ \<Rightarrow> pc \<Rightarrow> pc \<Rightarrow> pc \<Rightarrow> nat list \<Rightarrow> (unit, unit) request_world" where
    "W g a b c r = \<lparr>g_send_request = g, pcs = (\<lambda>_. Not_called)(0 := a, 1 := b, 2 := c), scheme_state = (), ran = r\<rparr>" for g a b c r
  note ev = W_def fun_eq_iff idle_request_def osi_send_request_def thread_self_def send_enter_def send_leave_def signals_def
    send_request_async_cb_def numeral_2_eq_2 less_Suc_eq eval_nat_numeral
  have "?S (request_start ()) (W idle_request Entering Not_called Not_called [])"
    by (rule back_subst [of "?S _", OF req_step.arrive [of 0]]) (auto simp: ev request_start_def)
  moreover have "?S (W idle_request Entering Not_called Not_called []) (W idle_request Entering Entering Not_called [])"
    by (rule back_subst [of "?S _", OF req_step.arrive [of 1]]) (auto simp: ev)
  moreover have "?S (W idle_request Entering Entering Not_called []) (W idle_request Entering Entering Entering [])"
    by (rule back_subst [of "?S _", OF req_step.arrive [of 2]]) (auto simp: ev)
  moreover have "?S (W idle_request Entering Entering Entering []) (W ?g Waiting_done Entering Entering [])"
    by (rule back_subst [of "?S _", OF req_step.enter [of 0 _ _ 0]]) (auto simp: ev)
  moreover have "?S (W ?g Waiting_done Entering Entering []) (W ?g Waiting_done Waiting_turn Entering [])"
    by (rule back_subst [of "?S _", OF req_step.enter [of 1 _ _ 0]]) (auto simp: ev)
  moreover have "?S (W ?g Waiting_done Waiting_turn Entering []) (W ?g Waiting_done Waiting_turn Waiting_turn [])"
    by (rule back_subst [of "?S _", OF req_step.enter [of 2 _ _ 0]]) (auto simp: ev)
  moreover have "?S (W ?g Waiting_done Waiting_turn Waiting_turn []) (W idle_request Woken Waiting_turn Waiting_turn [0])"
    by (rule req_step.serve) (auto simp: ev)
  moreover have "?S (W idle_request Woken Waiting_turn Waiting_turn [0]) (W idle_request (Returned 0) Entering Waiting_turn [0])"
    by (rule back_subst [of "?S _", OF req_step.leave [of 0 _ _ "Some 1"]]) (auto simp: ev)
  moreover have "?S (W idle_request (Returned 0) Entering Waiting_turn [0]) (W idle_request (Returned 0) (Returned 1) Waiting_turn [0])"
    by (rule back_subst [of "?S _", OF req_step.enter [of 1 _ _ 1]]) (auto simp: ev)
  ultimately have "?S\<^sup>*\<^sup>* (request_start ()) (W idle_request (Returned 0) (Returned 1) Waiting_turn [0])"
    by (meson converse_rtranclp_into_rtranclp rtranclp.rtrancl_refl)
  moreover have "\<nexists>w'. ?S (W idle_request (Returned 0) (Returned 1) Waiting_turn [0]) w'"
    by (auto elim!: req_step.cases simp: W_def idle_request_def less_Suc_eq eval_nat_numeral split: if_splits)
  ultimately show ?thesis by (intro exI [of _ "W idle_request (Returned 0) (Returned 1) Waiting_turn [0]"]) (simp add: W_def idle_request_def)
qed

end
