(* ===== verification/Run.thy ===== *)
theory Run
  imports Event_Loop C_Text
begin

text \<open>
  \<^verbatim>\<open>run.c\<close>: start-up of the Scheme system, the run of a program, and the Linux service. What the host
  answers (libuv, Chez Scheme, systemd) is a parameter; the calls made are recorded in order. A
  function that may end the process returns \<open>Inl\<close> of the exit status in that case, and \<^const>\<open>None\<close>
  stands for undefined behaviour as everywhere.
\<close>

section \<open>The host\<close>

datatype login1_signal = PrepareForShutdown | PrepareForSleep

text \<open>The calls whose order matters, with the arguments that matter.\<close>

datatype host_call =
    Sscheme_init
  | Sset_verbose int
  | Sregister_boot_file "u8 list"
  | Sbuild_heap "u8 list option"
  | Sforeign_symbol string
  | Custom_init
  | Sscheme_start "u8 list list"
  | Sscheme_deinit
  | Sd_bus_default_system
  | Sd_bus_get_fd
  | Uv_poll_init int
  | Sd_bus_add_match "u8 list" login1_signal
  | Uv_poll_start
  | Sd_notify string
  | Sd_bus_unref
  | Uv_poll_stop
  | Uv_poll_close

text \<open>
  What may become of \<^verbatim>\<open>Sscheme_start\<close>: the start procedure returns a status, or the program calls
  \<^verbatim>\<open>osi_exit\<close>, in whose course libuv delivers some events and closes the loop or not, or Scheme gives up and
  calls \<^verbatim>\<open>abnormal_exit\<close>.
\<close>

datatype scheme_end =
    Scheme_returns int world
  | Scheme_exits int world "loop_event list" int
  | Scheme_aborts

record host =
  exepath :: "int \<times> u8 list"
  boot_memory :: bool
  scheme_runs :: "u8 list list \<Rightarrow> world \<Rightarrow> scheme_end"
  host_rc :: "host_call \<Rightarrow> int"
  top_level_value :: "string \<Rightarrow> ptr"
  main_thread :: nat
  last_events :: "loop_event list"
  last_close :: int

record process_state =
  p_world :: world
  g_argv :: "u8 list list"
  g_aux_init :: bool
  g_is_service :: bool
  trace :: "host_call list"

definition host_void :: "host_call \<Rightarrow> process_state \<Rightarrow> process_state" where
  "host_void c s = s\<lparr>trace := trace s @ [c]\<rparr>"

definition host_do :: "host \<Rightarrow> host_call \<Rightarrow> process_state \<Rightarrow> int \<times> process_state" where
  "host_do h c s = (host_rc h c, host_void c s)"

section \<open>Start-up\<close>

definition foreign_symbols :: "string list" where
  "foreign_symbols =
     [''osi_bind_statement'', ''osi_bind_statement_bindings'', ''osi_bulk_execute'', ''osi_chmod'',
      ''osi_clear_statement_bindings'', ''osi_close_SHA1'', ''osi_close_database'', ''osi_close_path_watcher'',
      ''osi_close_port'', ''osi_close_tcp_listener'', ''osi_connect_tcp'', ''osi_exit'', ''osi_finalize_statement'',
      ''osi_get_SHA1'', ''osi_get_argv'', ''osi_get_bindings'', ''osi_get_bytes_used'', ''osi_get_callbacks'',
      ''osi_get_error_text'', ''osi_get_executable_path'', ''osi_get_file_size'', ''osi_get_home_directory'',
      ''osi_get_hostname'', ''osi_get_hrtime'', ''osi_get_ip_address'', ''osi_get_last_insert_rowid'',
      ''osi_get_pid'', ''osi_get_real_path'', ''osi_get_sqlite_status'', ''osi_get_stat'',
      ''osi_get_statement_columns'', ''osi_get_statement_expanded_sql'', ''osi_get_tcp_listener_port'',
      ''osi_get_temp_directory'', ''osi_get_time'', ''osi_get_uname'', ''osi_hash_data'', ''osi_init'',
      ''osi_interrupt_database'', ''osi_is_quantum_over'', ''osi_is_service'', ''osi_kill'', ''osi_list_directory'',
      ''osi_list_uv_handles'', ''osi_listen_tcp'', ''osi_make_directory'', ''osi_make_uuid'',
      ''osi_marshal_bindings'', ''osi_open_SHA1'', ''osi_open_database'', ''osi_open_fd'', ''osi_open_file'',
      ''osi_prepare_statement'', ''osi_read_port'', ''osi_remove_directory'', ''osi_rename'',
      ''osi_reset_statement'', ''osi_set_quantum'', ''osi_spawn'', ''osi_spawn_detached'', ''osi_start_signal'',
      ''osi_step_statement'', ''osi_stop_signal'', ''osi_tcp_nodelay'', ''osi_tcp_write2'', ''osi_unlink'',
      ''osi_unmarshal_bindings'', ''osi_watch_path'', ''osi_write_port'', ''uv_get_free_memory'',
      ''uv_get_total_memory'']"

definition swish_init :: "process_state \<Rightarrow> process_state" where
  "swish_init s =
     (let s = fold (\<lambda>sym. host_void (Sforeign_symbol sym)) foreign_symbols s
      in if g_aux_init s then host_void Custom_init s else s)"

text \<open>Parts of \<^verbatim>\<open>string.h\<close>: comparing without case, and the last occurrence of a byte.\<close>

definition to_lower :: "u8 \<Rightarrow> u8" where
  "to_lower b = (if 0x41 \<le> b \<and> b \<le> 0x5A then b + 0x20 else b)"

definition equal_nocase :: "u8 list \<Rightarrow> u8 list \<Rightarrow> bool" where
  "equal_nocase xs ys \<longleftrightarrow> List.map to_lower xs = List.map to_lower ys"

fun strrchr :: "u8 list \<Rightarrow> u8 \<Rightarrow> u8 list option" where
  "strrchr [] c = None"
| "strrchr (x # xs) c = (case strrchr xs c of Some r \<Rightarrow> Some r | None \<Rightarrow> if x = c then Some (x # xs) else None)"

definition memcpy :: "u8 list \<Rightarrow> nat \<Rightarrow> u8 list \<Rightarrow> u8 list option" where
  "memcpy buf off xs =
     (if off + length xs \<le> length buf then Some (take off buf @ xs @ drop (off + length xs) buf) else None)"

text \<open>The buffer allocated for the name, and the copies of the first \<open>pathlast\<close> bytes of the path, the suffix and the final zero.\<close>

definition boot_buffer :: "u8 list \<Rightarrow> nat \<Rightarrow> u8 list option" where
  "boot_buffer execfn pathlast = do {
     let suffix = bytes ''.boot'';
     let bootfn = replicate (length execfn + length suffix + 1) 0;
     bootfn \<leftarrow> memcpy bootfn 0 (take pathlast execfn);
     bootfn \<leftarrow> memcpy bootfn pathlast suffix;
     bootfn \<leftarrow> memcpy bootfn (pathlast + length suffix) [0];
     Some (takeWhile (\<lambda>b. b \<noteq> 0) bootfn)
   }"

text \<open>\<open>win\<close> selects the code of Windows.\<close>

definition get_boot_fn :: "bool \<Rightarrow> host \<Rightarrow> (int + u8 list) option" where
  "get_boot_fn win h =
     (let (rc, execfn) = exepath h
      in if rc < 0 then Some (Inl 1)
      else if \<not> boot_memory h then Some (Inl 1)
      else let pathlast = length execfn;
               pathlast = (if win \<and> (case strrchr execfn 0x2E of None \<Rightarrow> False | Some end \<Rightarrow> equal_nocase end (bytes ''.exe''))
                           then pathlast - length (bytes ''.exe'') else pathlast)
      in map_option Inr (boot_buffer execfn pathlast))"

definition allow_verbose_flag :: "bool \<Rightarrow> u8 list \<Rightarrow> bool" where
  "allow_verbose_flag win bootfn =
     (let suffix = bytes (if win then [CHR 0x5C] @ ''swish.boot'' else ''/swish.boot'')
      in length suffix \<le> length bootfn
         \<and> (if win then equal_nocase (drop (length bootfn - length suffix) bootfn) suffix
            else drop (length bootfn - length suffix) bootfn = suffix))"

definition abnormal_exit :: int where
  "abnormal_exit = 1"

definition osi_set_argv :: "u8 list list \<Rightarrow> process_state \<Rightarrow> process_state" where
  "osi_set_argv argv s = s\<lparr>g_argv := argv\<rparr>"

definition scheme_init :: "bool \<Rightarrow> host \<Rightarrow> u8 list list \<Rightarrow> bool \<Rightarrow> process_state \<Rightarrow> (int + process_state) option" where
  "scheme_init win h argv custom_init s = do {
     r \<leftarrow> get_boot_fn win h;
     case r of
       Inl status \<Rightarrow> Some (Inl status)
     | Inr bootfn \<Rightarrow>
         (let s = host_void Sscheme_init s;
              s = (if 2 \<le> length argv \<and> argv ! 1 = bytes ''--verbose'' \<and> allow_verbose_flag win bootfn
                   then host_void (Sset_verbose 1) s else s);
              s = host_void (Sregister_boot_file bootfn) s;
              s = osi_set_argv argv s;
              s = s\<lparr>g_aux_init := custom_init\<rparr>;
              s = host_void (Sbuild_heap (if argv = [] then None else Some (hd argv))) s;
              s = swish_init s
          in Some (Inr (s\<lparr>p_world := osi_init (main_thread h) (p_world s)\<rparr>)))
   }"

section \<open>Running\<close>

definition swish_start :: "env \<Rightarrow> host \<Rightarrow> u8 list list \<Rightarrow> process_state \<Rightarrow> (int + int \<times> process_state) option" where
  "swish_start E h argv s = do {
     let w = (p_world s)\<lparr>g_exit := (g_exit (p_world s))\<lparr>initialized := True\<rparr>\<rparr>;
     let s = host_void (Sscheme_start argv) s;
     r \<leftarrow> (case scheme_runs h argv w of
             Scheme_returns status w \<Rightarrow> Some (Inr (w\<lparr>g_exit := (g_exit w)\<lparr>exit_status := status\<rparr>\<rparr>))
           | Scheme_exits status w evs close \<Rightarrow> do {
               (l, w) \<leftarrow> osi_exit E evs close status w;
               Some (case l of Longjmp _ \<Rightarrow> Inr w | Process_exit st \<Rightarrow> Inl st)
             }
           | Scheme_aborts \<Rightarrow> Some (Inl abnormal_exit));
     Some (case r of Inl st \<Rightarrow> Inl st
           | Inr w \<Rightarrow> Inr (exit_status (g_exit w), host_void Sscheme_deinit (s\<lparr>p_world := w\<rparr>)))
   }"

definition swish_run :: "bool \<Rightarrow> env \<Rightarrow> host \<Rightarrow> u8 list list \<Rightarrow> bool \<Rightarrow> process_state \<Rightarrow> (int + int \<times> process_state) option" where
  "swish_run win E h argv custom_init s = do {
     r \<leftarrow> scheme_init win h argv custom_init s;
     case r of Inl st \<Rightarrow> Some (Inl st)
     | Inr s \<Rightarrow> do {
         r \<leftarrow> swish_start E h argv s;
         Some (case r of Inl st \<Rightarrow> Inl st
               | Inr (rc, s) \<Rightarrow> if exit_force (g_exit (p_world s)) \<noteq> 0 then Inl rc else Inr (rc, s))
       }
   }"

definition request_call :: "host \<Rightarrow> string \<Rightarrow> osi \<Rightarrow> osi option" where
  "request_call h arg s = osi_add_callback_list (top_level_value h arg) Snil s"

section \<open>The Linux service\<close>

text \<open>A message: whether its signature is a boolean, the result of reading it, and the value read.\<close>

record sd_bus_message =
  m_boolean :: bool
  m_read :: int
  m_data :: bool

definition handle_message :: "host \<Rightarrow> int \<Rightarrow> sd_bus_message \<Rightarrow> login1_signal \<Rightarrow> osi \<times> string list \<Rightarrow> (int \<times> osi \<times> string list) option" where
  "handle_message h ENOSYS m userdata ss =
     (let (s, notes) = ss
      in if \<not> m_boolean m then Some (- ENOSYS, s, notes)
      else if m_read m < 0 then Some (m_read m, s, notes)
      else if userdata = PrepareForShutdown \<and> m_data m then do {
        s \<leftarrow> request_call h ''$shutdown'' s;
        Some (0, s, notes @ [''STOPPING=1''])
      } else if userdata = PrepareForSleep then do {
        s \<leftarrow> request_call h (if m_data m then ''$suspend'' else ''$resume'') s;
        Some (0, s, notes)
      } else Some (0, s, notes))"

text \<open>
  \<open>bus i\<close> is the outcome of the \<open>i\<close>-th call of \<^verbatim>\<open>sd_bus_process\<close>: its result, and the messages it hands to
  \<^verbatim>\<open>handle_message\<close>. The loop ends with a result of zero.
\<close>

fun dispatch :: "host \<Rightarrow> int \<Rightarrow> (sd_bus_message \<times> login1_signal) list \<Rightarrow> osi \<times> string list \<Rightarrow> (osi \<times> string list) option" where
  "dispatch h e [] ss = Some ss"
| "dispatch h e ((m, u) # ms) ss = Option.bind (handle_message h e m u ss) (\<lambda>(_, ss). dispatch h e ms ss)"

partial_function (option) process_sd_bus_message ::
  "host \<Rightarrow> int \<Rightarrow> (nat \<Rightarrow> int \<times> (sd_bus_message \<times> login1_signal) list) \<Rightarrow> nat \<Rightarrow> osi \<times> string list \<Rightarrow> (osi \<times> string list) option" where
  "process_sd_bus_message h e bus i ss =
     Option.bind (dispatch h e (snd (bus i)) ss) (\<lambda>ss.
       if fst (bus i) = 0 then Some ss else process_sd_bus_message h e bus (Suc i) ss)"

definition member_name :: "login1_signal \<Rightarrow> string" where
  "member_name m = (case m of PrepareForShutdown \<Rightarrow> ''PrepareForShutdown'' | PrepareForSleep \<Rightarrow> ''PrepareForSleep'')"

definition match_rule :: "string \<Rightarrow> u8 list" where
  "match_rule member = bytes (
     ''type='' @ [CHR 0x27] @ ''signal'' @ [CHR 0x27] @ '','' @
     ''sender='' @ [CHR 0x27] @ ''org.freedesktop.login1'' @ [CHR 0x27] @ '','' @
     ''path='' @ [CHR 0x27] @ ''/org/freedesktop/login1'' @ [CHR 0x27] @ '','' @
     ''interface='' @ [CHR 0x27] @ ''org.freedesktop.login1.Manager'' @ [CHR 0x27] @ '','' @
     ''member='' @ [CHR 0x27] @ member @ [CHR 0x27])"

definition match_login1_manager_signal :: "host \<Rightarrow> login1_signal \<Rightarrow> process_state \<Rightarrow> int + process_state" where
  "match_login1_manager_signal h member s =
     (let text = match_rule (member_name member); match = snprintf 256 text; n = length text
      in if n \<ge> 256 then Inl 1
      else let (rc, s) = host_do h (Sd_bus_add_match match member) s
      in if rc < 0 then Inl 1 else Inr s)"

text \<open>Everything between the start of Scheme and \<^verbatim>\<open>READY=1\<close>.\<close>

definition service_setup :: "host \<Rightarrow> process_state \<Rightarrow> int + process_state" where
  "service_setup h s =
     (let (rc, s) = host_do h Sd_bus_default_system s
      in if rc < 0 then Inl 1
      else let (fd, s) = host_do h Sd_bus_get_fd s
      in if fd < 0 then Inl 1
      else let (rc, s) = host_do h (Uv_poll_init fd) s
      in if rc \<noteq> 0 then Inl 1
      else case match_login1_manager_signal h PrepareForShutdown s of Inl st \<Rightarrow> Inl st
      | Inr s \<Rightarrow> (case match_login1_manager_signal h PrepareForSleep s of Inl st \<Rightarrow> Inl st
      | Inr s \<Rightarrow>
         (let (rc, s) = host_do h Uv_poll_start s
          in if rc \<noteq> 0 then Inl 1 else Inr (host_void (Sd_notify ''READY=1'') s))))"

definition swish_service :: "env \<Rightarrow> host \<Rightarrow> u8 list list \<Rightarrow> process_state \<Rightarrow> (int + int \<times> process_state) option" where
  "swish_service E h argv s = do {
     r \<leftarrow> scheme_init False h argv False (s\<lparr>g_is_service := True\<rparr>);
     case r of Inl st \<Rightarrow> Some (Inl st)
     | Inr s \<Rightarrow> (case service_setup h s of Inl st \<Rightarrow> Some (Inl st)
     | Inr s \<Rightarrow> do {
         r \<leftarrow> swish_start E h argv s;
         case r of Inl st \<Rightarrow> Some (Inl st)
         | Inr (status, s) \<Rightarrow> do {
             let s = host_void Uv_poll_close (host_void Uv_poll_stop (host_void Sd_bus_unref s));
             (_, t, o1) \<leftarrow> osi_get_callbacks E 0 (last_events h) [] (w_timer (p_world s), w_osi (p_world s));
             let w = (p_world s)\<lparr>w_timer := t, w_osi := o1\<rparr>;
             let w = w\<lparr>g_exit := (g_exit w)\<lparr>exit_force := last_close h\<rparr>\<rparr>;
             let s = s\<lparr>p_world := w\<rparr>;
             Some (if exit_force (g_exit w) \<noteq> 0 then Inl status else Inr (status, s))
           }
       })
   }"

definition osi_is_service :: "process_state \<Rightarrow> int" where
  "osi_is_service s = (if g_is_service s then 1 else 0)"

section \<open>The foreign interface\<close>

text \<open>
  The names the Scheme libraries look up: those of \<^verbatim>\<open>osi.ss\<close>, declared with \<^verbatim>\<open>fdefine\<close>, \<^verbatim>\<open>define-osi\<close> or
  \<^verbatim>\<open>foreign-procedure\<close>, and those of \<^verbatim>\<open>digest.ss\<close>.
\<close>

definition osi_ss_procedures :: "string list" where
  "osi_ss_procedures =
     [''osi_init'', ''osi_get_argv'', ''osi_get_bytes_used'', ''osi_get_callbacks'', ''osi_get_error_text'',
      ''osi_get_hostname'', ''osi_get_hrtime'', ''osi_get_pid'', ''osi_get_time'', ''osi_get_uname'',
      ''osi_is_quantum_over'', ''osi_list_uv_handles'', ''osi_make_uuid'', ''osi_set_quantum'', ''osi_start_signal'',
      ''osi_stop_signal'', ''osi_is_service'', ''osi_read_port'', ''osi_write_port'', ''osi_close_port'',
      ''osi_tcp_write2'', ''osi_exit'', ''osi_spawn'', ''osi_spawn_detached'', ''osi_kill'', ''osi_open_fd'',
      ''osi_open_file'', ''osi_get_executable_path'', ''osi_get_file_size'', ''osi_get_real_path'',
      ''osi_get_home_directory'', ''osi_get_temp_directory'', ''osi_chmod'', ''osi_make_directory'',
      ''osi_list_directory'', ''osi_remove_directory'', ''osi_rename'', ''osi_get_stat'', ''osi_unlink'',
      ''osi_watch_path'', ''osi_close_path_watcher'', ''osi_connect_tcp'', ''osi_listen_tcp'',
      ''osi_close_tcp_listener'', ''osi_get_tcp_listener_port'', ''osi_get_ip_address'', ''osi_tcp_nodelay'',
      ''osi_open_database'', ''osi_close_database'', ''osi_prepare_statement'', ''osi_finalize_statement'',
      ''osi_bind_statement'', ''osi_bind_statement_bindings'', ''osi_clear_statement_bindings'',
      ''osi_get_bindings'', ''osi_get_last_insert_rowid'', ''osi_get_statement_columns'',
      ''osi_get_statement_expanded_sql'', ''osi_reset_statement'', ''osi_step_statement'',
      ''osi_interrupt_database'', ''osi_get_sqlite_status'', ''osi_bulk_execute'', ''osi_marshal_bindings'',
      ''osi_unmarshal_bindings'', ''uv_get_free_memory'', ''uv_get_total_memory'']"

definition digest_ss_procedures :: "string list" where
  "digest_ss_procedures = [''osi_open_SHA1'', ''osi_hash_data'', ''osi_get_SHA1'', ''osi_close_SHA1'']"

fun symbol_of :: "host_call \<Rightarrow> string option" where
  "symbol_of (Sforeign_symbol s) = Some s"
| "symbol_of _ = None"

lemma fold_host_void: "fold (\<lambda>x. host_void (f x)) xs s = s\<lparr>trace := trace s @ List.map f xs\<rparr>"
  by (induction xs arbitrary: s) (simp_all add: host_void_def)

lemma symbols_registered: "List.map_filter symbol_of (List.map Sforeign_symbol xs) = xs"
  by (induction xs) (simp_all add: map_filter_simps)

lemma map_filter_append: "List.map_filter f (xs @ ys) = List.map_filter f xs @ List.map_filter f ys"
  by (induction xs) (simp_all add: map_filter_simps split: option.splits)

lemma swish_init_trace:
  "trace (swish_init s) = trace s @ List.map Sforeign_symbol foreign_symbols @ (if g_aux_init s then [Custom_init] else [])"
  by (simp add: swish_init_def fold_host_void host_void_def)


section \<open>The boot file\<close>

lemma memcpy_ok: "off + length xs \<le> length buf \<Longrightarrow> memcpy buf off xs = Some (take off buf @ xs @ drop (off + length xs) buf)"
  by (simp add: memcpy_def)

lemma strrchr_suffix: "strrchr xs c = Some r \<Longrightarrow> \<exists>ys. xs = ys @ r"
  by (induction xs arbitrary: r) (auto split: option.splits if_splits intro: exI [of _ "_ # _"])

lemma bytes_nonzero: "0 \<notin> set (bytes ''.boot'')"
  by (simp add: bytes_def)

lemma boot_buffer_ok:
  assumes "k \<le> length path" and "0 \<notin> set path"
  shows "boot_buffer path k = Some (take k path @ bytes ''.boot'')"
proof -
  define suf pre where "suf = bytes ''.boot''" and "pre = take k path"
  have z: "0 \<notin> set (pre @ suf)" using assms(2) bytes_nonzero set_take_subset [of k path] by (auto simp: suf_def pre_def)
  have "takeWhile (\<lambda>b. b \<noteq> 0) (xs @ 0 # ys) = xs" if "(0 :: u8) \<notin> set xs" for xs ys
    using that by (induction xs) auto
  note tw = this [OF z, unfolded append_assoc]
  have k: "length pre = k" using assms(1) by (simp add: pre_def)
  have "boot_buffer path k = Some (pre @ suf)"
    unfolding boot_buffer_def Let_def suf_def [symmetric] pre_def [symmetric]
    using assms(1) k tw by (simp add: memcpy_ok)
  then show ?thesis by (simp add: suf_def pre_def)
qed

lemma to_lower_dot: "to_lower b = 0x2E \<longleftrightarrow> b = 0x2E"
proof
  assume l: "to_lower b = 0x2E"
  show "b = 0x2E"
  proof (cases "0x41 \<le> b \<and> b \<le> 0x5A")
    case True
    then have "b = 0x2E - 0x20" using l by (simp add: to_lower_def eq_diff_eq)
    then show ?thesis using True by (auto simp: word_le_nat_alt)
  qed (use l in \<open>auto simp: to_lower_def\<close>)
qed (simp add: to_lower_def)

lemma strrchr_append: "strrchr ys c = Some r \<Longrightarrow> strrchr (xs @ ys) c = Some r"
  by (induction xs) simp_all

lemma strrchr_none: "c \<notin> set xs \<Longrightarrow> strrchr xs c = None"
  by (induction xs) auto

lemma exe_extension:
  assumes "equal_nocase ext (bytes ''.exe'')"
  shows "length ext = 4" and "strrchr (base @ ext) 0x2E = Some ext"
proof -
  have m: "List.map to_lower ext = [0x2E, 0x65, 0x78, 0x65]" using assms by (simp add: equal_nocase_def bytes_def to_lower_def)
  then obtain x y where ext: "ext = x # y" "to_lower x = 0x2E" "List.map to_lower y = [0x65, 0x78, 0x65]" by auto
  show "length ext = 4" using arg_cong [OF m, of length] by simp
  have "0x2E \<notin> set y"
  proof
    assume "0x2E \<in> set y"
    then have "to_lower 0x2E \<in> set (List.map to_lower y)" by simp
    then show False unfolding ext(3) by (simp add: to_lower_def)
  qed
  then have "strrchr ext 0x2E = Some ext" using ext(1,2) to_lower_dot [of x] by (simp add: strrchr_none)
  then show "strrchr (base @ ext) 0x2E = Some ext" by (rule strrchr_append)
qed

text \<open>The boot file lies beside the executable: its name is the path of the executable with \<^verbatim>\<open>.boot\<close>
  appended, on Windows in place of an extension \<^verbatim>\<open>.exe\<close> in upper or lower case, and the copies into the
  allocated buffer stay within it. The \<^verbatim>\<open>--verbose\<close> flag is taken from the program exactly when the
  executable is called \<^verbatim>\<open>swish\<close>.\<close>

theorem boot_file_beside_executable:
  assumes "exepath h = (0, path)" and "boot_memory h" and "0 \<notin> set path"
  shows "get_boot_fn False h = Some (Inr (path @ bytes ''.boot''))
     \<and> (\<forall>base ext. path = base @ ext \<and> equal_nocase ext (bytes ''.exe'') \<longrightarrow> get_boot_fn True h = Some (Inr (base @ bytes ''.boot'')))
     \<and> ((\<nexists>base ext. path = base @ ext \<and> equal_nocase ext (bytes ''.exe'')) \<longrightarrow> get_boot_fn True h = Some (Inr (path @ bytes ''.boot'')))
     \<and> (allow_verbose_flag False (path @ bytes ''.boot'') \<longleftrightarrow> (\<exists>dir. path = dir @ bytes ''/swish''))"
proof (intro conjI allI impI)
  note name = boot_buffer_ok [OF _ assms(3)]
  show "get_boot_fn False h = Some (Inr (path @ bytes ''.boot''))"
    using name [of "length path"] by (simp add: get_boot_fn_def assms(1,2) Let_def)
  show "get_boot_fn True h = Some (Inr (base @ bytes ''.boot''))" if "path = base @ ext \<and> equal_nocase ext (bytes ''.exe'')" for base ext
    using name [of "length base"] that exe_extension(1) [of ext] exe_extension(2) [of ext base] by (simp add: get_boot_fn_def assms(1,2) Let_def)
  show "get_boot_fn True h = Some (Inr (path @ bytes ''.boot''))" if none: "\<nexists>base ext. path = base @ ext \<and> equal_nocase ext (bytes ''.exe'')"
  proof -
    have "\<not> (case strrchr path 0x2E of None \<Rightarrow> False | Some end \<Rightarrow> equal_nocase end (bytes ''.exe''))"
      using none strrchr_suffix [of path "0x2E"] by (auto split: option.splits)
    then show ?thesis using name [of "length path"] by (simp add: get_boot_fn_def assms(1,2) Let_def)
  qed
  have "allow_verbose_flag False (path @ bytes ''.boot'') \<longleftrightarrow> 6 \<le> length path \<and> drop (length path - 6) path = bytes ''/swish''"
    by (auto simp: allow_verbose_flag_def Let_def bytes_def eval_nat_numeral)
  also have "\<dots> \<longleftrightarrow> (\<exists>dir. path = dir @ bytes ''/swish'')"
    by (auto intro: exI [of _ "take (length path - 6) path"]) (metis append_take_drop_id)
  finally show "allow_verbose_flag False (path @ bytes ''.boot'') \<longleftrightarrow> (\<exists>dir. path = dir @ bytes ''/swish'')" .
qed

definition swish_exe :: host where
  "swish_exe = \<lparr>exepath = (0, bytes ''/bin/swish''), boot_memory = True, scheme_runs = (\<lambda>_ w. Scheme_exits 3 w [] (- 16)),
     host_rc = (\<lambda>_. 0), top_level_value = (\<lambda>_. Sprocedure 1), main_thread = 0, last_events = [], last_close = 0\<rparr>"

theorem boot_file_beside_executable_witness:
  "get_boot_fn False swish_exe = Some (Inr (bytes ''/bin/swish.boot'')) \<and> allow_verbose_flag False (bytes ''/bin/swish.boot'')"
proof -
  have "exepath swish_exe = (0, bytes ''/bin/swish'')" "boot_memory swish_exe" "0 \<notin> set (bytes ''/bin/swish'')"
    by (simp_all add: swish_exe_def bytes_def)
  note * = boot_file_beside_executable [OF this]
  have "bytes ''/bin/swish'' = bytes ''/bin'' @ bytes ''/swish''" "bytes ''/bin/swish'' @ bytes ''.boot'' = bytes ''/bin/swish.boot''"
    by (simp_all add: bytes_def)
  with * show ?thesis by metis
qed

section \<open>The end of a program\<close>

text \<open>The exit status of the process, whether it is returned from \<^verbatim>\<open>main\<close> or passed to \<^verbatim>\<open>_exit\<close>.\<close>

fun exit_code :: "int + int \<times> process_state \<Rightarrow> int" where
  "exit_code (Inl st) = st"
| "exit_code (Inr (st, _)) = st"

text \<open>
  What the program does with the process-wide state: it keeps the flag set by \<^verbatim>\<open>swish_start\<close>, and if it
  exits, the interface is in order and libuv delivers events it may deliver.
\<close>

definition ends_ok :: "env \<Rightarrow> scheme_end \<Rightarrow> bool" where
  "ends_ok E e =
     (case e of
        Scheme_returns st w \<Rightarrow> initialized (g_exit w)
      | Scheme_exits st w evs close \<Rightarrow> initialized (g_exit w) \<and> (\<exists>X. osi_inv X (w_osi w)) \<and> g_callbacks (w_osi w) = None
          \<and> loop_ok E 0 evs [] ((w_timer w)\<lparr>timer_armed := False\<rparr>, w_osi w)
      | Scheme_aborts \<Rightarrow> True)"

definition end_status :: "scheme_end \<Rightarrow> int" where
  "end_status e = (case e of Scheme_returns st _ \<Rightarrow> st | Scheme_exits st _ _ _ \<Rightarrow> st | Scheme_aborts \<Rightarrow> 1)"

lemma osi_exit_jumps:
  assumes "initialized (g_exit w)" and "osi_inv X (w_osi w)" and "g_callbacks (w_osi w) = None"
    and "loop_ok E 0 evs [] ((w_timer w)\<lparr>timer_armed := False\<rparr>, w_osi w)"
  shows "\<exists>w'. osi_exit E evs close status w = Some (Longjmp (- 1), w') \<and> exit_status (g_exit w') = status
     \<and> exit_force (g_exit w') = close \<and> osi_inv X (w_osi w') \<and> g_callbacks (w_osi w') = None \<and> \<not> timer_armed (w_timer w')"
  using get_callbacks_accounts [OF assms(2,3) _ assms(4)] assms(1) by (auto simp: osi_exit_def Let_def)

text \<open>What becomes of the program when \<^verbatim>\<open>swish_start\<close> runs it.\<close>

definition program_end :: "host \<Rightarrow> u8 list list \<Rightarrow> process_state \<Rightarrow> scheme_end" where
  "program_end h argv s = scheme_runs h argv ((p_world s)\<lparr>g_exit := (g_exit (p_world s))\<lparr>initialized := True\<rparr>\<rparr>)"

lemma swish_start_ends:
  assumes ok: "ends_ok E (program_end h argv s)"
  shows "\<exists>r. swish_start E h argv s = Some r \<and> exit_code r = end_status (program_end h argv s)
     \<and> (\<forall>st w evs close. program_end h argv s = Scheme_exits st w evs close
          \<longrightarrow> (\<exists>s'. r = Inr (st, s') \<and> exit_force (g_exit (p_world s')) = close))"
proof (cases "program_end h argv s")
  case (Scheme_exits st w evs close)
  then obtain X where "initialized (g_exit w)" "osi_inv X (w_osi w)" "g_callbacks (w_osi w) = None"
    "loop_ok E 0 evs [] ((w_timer w)\<lparr>timer_armed := False\<rparr>, w_osi w)" using ok by (auto simp: ends_ok_def)
  from osi_exit_jumps [OF this, of close st] Scheme_exits show ?thesis
    by (auto simp: swish_start_def program_end_def Let_def end_status_def host_void_def)
qed (simp_all add: swish_start_def program_end_def Let_def end_status_def host_void_def abnormal_exit_def)

text \<open>C29: The exit status of the process is the one the program asked for: what the start procedure returns
  or what was passed to \<^verbatim>\<open>osi_exit\<close>, and 1 if Scheme gives up. When \<^verbatim>\<open>osi_exit\<close> finds the event loop still
  busy, the process ends with \<^verbatim>\<open>_exit\<close> at once, otherwise \<^verbatim>\<open>swish_run\<close> returns.\<close>

theorem run_exits_with_status:
  assumes "scheme_init win h argv custom s = Some (Inr s1)" and "ends_ok E (program_end h argv s1)"
  shows "\<exists>r. swish_run win E h argv custom s = Some r \<and> exit_code r = end_status (program_end h argv s1)
     \<and> (\<forall>st w evs close. program_end h argv s1 = Scheme_exits st w evs close \<longrightarrow> (close = 0 \<longleftrightarrow> (\<exists>s'. r = Inr (st, s'))))"
proof -
  obtain r where r: "swish_start E h argv s1 = Some r" "exit_code r = end_status (program_end h argv s1)"
    "\<forall>st w evs close. program_end h argv s1 = Scheme_exits st w evs close
       \<longrightarrow> (\<exists>s'. r = Inr (st, s') \<and> exit_force (g_exit (p_world s')) = close)"
    using swish_start_ends [OF assms(2)] by blast
  then show ?thesis using assms(1) by (cases r) (auto simp: swish_run_def split: if_splits)
qed

definition fresh_process :: process_state where
  "fresh_process = \<lparr>p_world = \<lparr>osi_loop = False, w_timer = timer_idle, w_osi = osi_start, send_ready = False, scheme_thread = 0,
       g_exit = \<lparr>initialized = False, exit_status = 0, exit_force = 0\<rparr>\<rparr>,
     g_argv = [], g_aux_init = False, g_is_service = False, trace = []\<rparr>"

lemma scheme_init_ok:
  assumes "get_boot_fn win h = Some (Inr b)"
  shows "\<exists>s1. scheme_init win h argv custom s = Some (Inr s1) \<and> p_world s1 = osi_init (main_thread h) (p_world s)"
  using assms by (simp add: scheme_init_def Let_def swish_init_def fold_host_void host_void_def osi_set_argv_def)

lemma swish_exe_init: "\<exists>s1. scheme_init win swish_exe argv custom s = Some (Inr s1) \<and> p_world s1 = osi_init 0 (p_world s)"
proof -
  have "\<exists>b. get_boot_fn win swish_exe = Some (Inr b)" by (simp add: get_boot_fn_def swish_exe_def boot_buffer_ok bytes_def)
  moreover have "main_thread swish_exe = 0" by (simp add: swish_exe_def)
  ultimately show ?thesis using scheme_init_ok by metis
qed

lemma fresh_process_ends:
  assumes "p_world s1 = osi_init 0 (p_world fresh_process)"
  shows "ends_ok quiet_env (program_end swish_exe argv s1)" and "end_status (program_end swish_exe argv s1) = 3"
  using osi_inv_start
  by (auto simp: program_end_def ends_ok_def end_status_def swish_exe_def assms osi_init_def fresh_process_def osi_start_def loop_ok_def)

theorem run_exits_with_status_witness:
  "\<exists>r. swish_run False quiet_env swish_exe [bytes ''swish''] False fresh_process = Some r \<and> exit_code r = 3 \<and> (\<nexists>s'. r = Inr (3, s'))"
proof -
  obtain s1 where s1: "scheme_init False swish_exe [bytes ''swish''] False fresh_process = Some (Inr s1)"
    "p_world s1 = osi_init 0 (p_world fresh_process)"
    using swish_exe_init by blast
  from run_exits_with_status [OF s1(1) fresh_process_ends(1) [OF s1(2)]] fresh_process_ends(2) [OF s1(2)] show ?thesis
    by (auto simp: program_end_def swish_exe_def)
qed

section \<open>The service\<close>

lemma match_rule_fits: "length (match_rule (member_name m)) < 256"
  by (cases m) (simp_all add: match_rule_def member_name_def)

lemma match_eq:
  "match_login1_manager_signal h m s =
     (if host_rc h (Sd_bus_add_match (match_rule (member_name m)) m) < 0 then Inl 1
      else Inr (host_void (Sd_bus_add_match (match_rule (member_name m)) m) s))"
  using match_rule_fits [of m] by (simp add: match_login1_manager_signal_def Let_def host_do_def snprintf_fits)

text \<open>The service announces itself only when it can be told to stop: \<^verbatim>\<open>READY=1\<close> is sent after the bus has
  been opened, the rules for both signals of the login manager have been added untruncated and the
  bus is being polled; if any of this fails the process exits with status 1 instead and nothing is announced.\<close>

theorem service_ready_when_listening:
  "(\<exists>s'. service_setup h s = Inr s' \<and> trace s' = trace s @
      [Sd_bus_default_system, Sd_bus_get_fd, Uv_poll_init (host_rc h Sd_bus_get_fd),
       Sd_bus_add_match (match_rule ''PrepareForShutdown'') PrepareForShutdown,
       Sd_bus_add_match (match_rule ''PrepareForSleep'') PrepareForSleep, Uv_poll_start, Sd_notify ''READY=1''])
   \<or> service_setup h s = Inl 1"
  by (simp add: service_setup_def match_eq host_do_def host_void_def Let_def member_name_def)

text \<open>The Scheme procedures a sequence of messages asks for.\<close>

fun requested_call :: "sd_bus_message \<times> login1_signal \<Rightarrow> string list" where
  "requested_call (m, PrepareForShutdown) = (if m_boolean m \<and> 0 \<le> m_read m \<and> m_data m then [''$shutdown''] else [])"
| "requested_call (m, PrepareForSleep) =
     (if m_boolean m \<and> 0 \<le> m_read m then [if m_data m then ''$suspend'' else ''$resume''] else [])"

definition push_call :: "host \<Rightarrow> string \<Rightarrow> ptr \<Rightarrow> ptr" where
  "push_call h name q = Scons (Scons (top_level_value h name) Snil) q"

lemma handle_message_spec:
  assumes "g_callbacks s = Some q"
  shows "\<exists>rc nt2. handle_message h e m u (s, nt) =
     Some (rc, s\<lparr>g_callbacks := Some (fold (push_call h) (requested_call (m, u)) q)\<rparr>, nt2)"
  using assms by (cases u) (auto simp: handle_message_def request_call_def osi_add_callback_list_def push_call_def)

lemma dispatch_spec:
  "g_callbacks s = Some q \<Longrightarrow> \<exists>nt2. dispatch h e ms (s, nt) =
     Some (s\<lparr>g_callbacks := Some (fold (push_call h) (concat (List.map requested_call ms)) q)\<rparr>, nt2)"
proof (induction ms arbitrary: s q nt)
  case (Cons mu ms)
  obtain m u where mu: "mu = (m, u)" by (cases mu)
  let ?s = "s\<lparr>g_callbacks := Some (fold (push_call h) (requested_call (m, u)) q)\<rparr>"
  obtain rc n1 where 1: "handle_message h e m u (s, nt) = Some (rc, ?s, n1)" using handle_message_spec [OF Cons.prems] by blast
  obtain n2 where "dispatch h e ms (?s, n1) =
      Some (?s\<lparr>g_callbacks := Some (fold (push_call h) (concat (List.map requested_call ms)) (fold (push_call h) (requested_call (m, u)) q))\<rparr>, n2)"
    using Cons.IH [of ?s _ n1] by auto
  then show ?case using 1 mu by simp
qed simp

definition turn_calls :: "(nat \<Rightarrow> int \<times> (sd_bus_message \<times> login1_signal) list) \<Rightarrow> nat \<Rightarrow> string list" where
  "turn_calls bus i = concat (List.map requested_call (snd (bus i)))"

lemma process_returns:
  assumes "\<forall>j < n. fst (bus (i + j)) \<noteq> 0" and "fst (bus (i + n)) = 0" and "g_callbacks s = Some q"
  shows "\<exists>nt2. process_sd_bus_message h e bus i (s, nt) =
     Some (s\<lparr>g_callbacks := Some (fold (push_call h) (concat (List.map (turn_calls bus) [i ..< Suc (i + n)])) q)\<rparr>, nt2)"
  using assms
proof (induction n arbitrary: i s q nt)
  case 0
  obtain n1 where "dispatch h e (snd (bus i)) (s, nt) = Some (s\<lparr>g_callbacks := Some (fold (push_call h) (turn_calls bus i) q)\<rparr>, n1)"
    using dispatch_spec [OF 0(3)] unfolding turn_calls_def by blast
  then show ?case using 0(2) by (subst process_sd_bus_message.simps) simp
next
  case (Suc n)
  let ?q = "fold (push_call h) (turn_calls bus i) q"
  let ?s = "s\<lparr>g_callbacks := Some ?q\<rparr>"
  obtain n1 where d: "dispatch h e (snd (bus i)) (s, nt) = Some (?s, n1)"
    using dispatch_spec [OF Suc.prems(3)] unfolding turn_calls_def by blast
  have "\<forall>j < n. fst (bus (Suc i + j)) \<noteq> 0" "fst (bus (Suc i + n)) = 0" using Suc.prems(1,2) by (metis Suc_less_eq add_Suc_right add_Suc)+
  note IH = Suc.IH [OF this, of ?s ?q n1]
  have "fst (bus i) \<noteq> 0" using Suc.prems(1) by force
  then have "process_sd_bus_message h e bus i (s, nt) = process_sd_bus_message h e bus (Suc i) (?s, n1)"
    using d by (subst process_sd_bus_message.simps) simp
  moreover have "[i ..< Suc (i + Suc n)] = i # [Suc i ..< Suc (Suc i + n)]" by (simp add: upt_conv_Cons del: upt_Suc)
  ultimately show ?case using IH by (simp del: upt_Suc)
qed

lemma process_needs_zero: "process_sd_bus_message h e bus i ss = Some r \<Longrightarrow> \<exists>j \<ge> i. fst (bus j) = 0"
proof (induction h e bus i ss r rule: process_sd_bus_message.raw_induct [rotated, consumes 1])
  case (1 f h e bus i ss r)
  show ?case
  proof (cases "fst (bus i) = 0")
    case False
    have "(\<lambda>ss. if fst (bus i) = 0 then Some ss else f h e bus (Suc i) ss) = f h e bus (Suc i)" by (intro ext) (simp only: False if_False)
    with 1(2) have "Option.bind (dispatch h e (snd (bus i)) ss) (f h e bus (Suc i)) = Some r" by (simp only:)
    then obtain ss' where "f h e bus (Suc i) ss' = Some r" unfolding bind_eq_Some_conv by blast
    then have "\<exists>j \<ge> Suc i. fst (bus j) = 0" by (rule 1(1))
    then show ?thesis by (meson Suc_leD)
  qed blast
qed

text \<open>C30: The loop over the messages of the bus returns exactly when some call of \<^verbatim>\<open>sd_bus_process\<close> returns
  zero, and then every signal received before that has been turned into its callback, once and in
  order: \<^verbatim>\<open>$shutdown\<close> for a shutdown that is about to begin, \<^verbatim>\<open>$suspend\<close> before and \<^verbatim>\<open>$resume\<close> after sleep. A
  connection that keeps returning an error is never left: the loop does not test for negative results.\<close>

theorem bus_loop_returns_iff_idle:
  assumes "g_callbacks s = Some q"
  shows "(process_sd_bus_message h e bus 0 (s, nt) \<noteq> None \<longleftrightarrow> (\<exists>n. fst (bus n) = 0))
     \<and> (\<forall>n. fst (bus n) = 0 \<and> (\<forall>j < n. fst (bus j) \<noteq> 0) \<longrightarrow>
          (\<exists>nt'. process_sd_bus_message h e bus 0 (s, nt) =
             Some (s\<lparr>g_callbacks := Some (fold (push_call h) (concat (List.map (turn_calls bus) [0 ..< Suc n])) q)\<rparr>, nt')))"
proof -
  have ret: "\<exists>nt'. process_sd_bus_message h e bus 0 (s, nt) =
      Some (s\<lparr>g_callbacks := Some (fold (push_call h) (concat (List.map (turn_calls bus) [0 ..< Suc n])) q)\<rparr>, nt')"
    if "fst (bus n) = 0 \<and> (\<forall>j < n. fst (bus j) \<noteq> 0)" for n
    using process_returns [of n bus 0 s q h e nt] that assms by (simp del: upt_Suc)
  moreover have "\<exists>n. fst (bus n) = 0 \<and> (\<forall>j < n. fst (bus j) \<noteq> 0)" if "\<exists>n. fst (bus n) = 0"
    using that exists_least_iff [of "\<lambda>n. fst (bus n) = 0"] by blast
  ultimately show ?thesis using process_needs_zero [of h e bus 0 "(s, nt)"] by (metis not_None_eq)
qed

theorem bus_loop_returns_iff_idle_witness:
  "\<exists>nt'. process_sd_bus_message swish_exe 38 (\<lambda>i. if i = 0 then (1 :: int, [(\<lparr>m_boolean = True, m_read = 1, m_data = True\<rparr>, PrepareForShutdown)]) else (0, []))
       0 (osi_start\<lparr>g_callbacks := Some Snil\<rparr>, []) =
     Some (osi_start\<lparr>g_callbacks := Some (push_call swish_exe ''$shutdown'' Snil)\<rparr>, nt')"
proof -
  let ?bus = "\<lambda>i :: nat. if i = 0 then (1 :: int, [(\<lparr>m_boolean = True, m_read = 1, m_data = True\<rparr>, PrepareForShutdown)]) else (0, [])"
  have "fst (?bus 1) = 0 \<and> (\<forall>j < 1. fst (?bus j) \<noteq> 0)" by simp
  with bus_loop_returns_iff_idle [of "osi_start\<lparr>g_callbacks := Some Snil\<rparr>" Snil swish_exe 38 ?bus "[]"] show ?thesis
    by (auto simp: turn_calls_def dest!: spec [of _ "1 :: nat"])
qed

end
