(* ===== verification/Programs.thy ===== *)
theory Programs
  imports Run Send_Request
begin

text \<open>
  The programs around the library: \<^verbatim>\<open>main\<close> of \<^verbatim>\<open>main.c\<close> on Unix and \<^verbatim>\<open>wmain\<close> on Windows, and the Windows
  service of \<^verbatim>\<open>run.c\<close>, which is started and controlled by the service manager of the system.
\<close>

section \<open>The program on Unix\<close>

text \<open>
  The loop that copies arguments from \<^verbatim>\<open>argv[i + off]\<close> to \<^verbatim>\<open>new_argv[i]\<close>. An array is a list of pointers,
  \<^const>\<open>None\<close> for the null pointer.
\<close>

function copy_args :: "u8 list list \<Rightarrow> nat \<Rightarrow> nat \<Rightarrow> nat \<Rightarrow> u8 list option list \<Rightarrow> u8 list option list" where
  "copy_args argv off n i new_argv =
     (if i < n then copy_args argv off n (Suc i) (new_argv[i := Some (argv ! (i + off))]) else new_argv)"
  by pat_completeness auto
termination by (relation "measure (\<lambda>(_, _, n, i, _). n - i)") auto

declare copy_args.simps [simp del]

text \<open>The new array: the program name, the arguments from \<open>1 + off\<close> on, and the null pointer.\<close>

definition shift_args :: "u8 list list \<Rightarrow> nat \<Rightarrow> u8 list option list" where
  "shift_args argv off =
     (let new_argc = length argv - off;
          new_argv = (replicate (new_argc + 1) None)[0 := Some (argv ! 0)];
          new_argv = copy_args argv off new_argc 1 new_argv
      in new_argv[new_argc := None])"

text \<open>What a callee with argument count \<open>argc\<close> reads from the array.\<close>

definition arguments :: "nat \<Rightarrow> u8 list option list \<Rightarrow> u8 list list option" where
  "arguments argc a = those (take argc a)"

definition main :: "bool \<Rightarrow> env \<Rightarrow> host \<Rightarrow> bool \<Rightarrow> u8 list list \<Rightarrow> process_state \<Rightarrow> (int + int \<times> process_state) option" where
  "main linux E h memory argv s =
     (if linux \<and> length argv > 1 \<and> argv ! 1 = bytes ''/SERVICE'' then
        let new_argc = length argv - 1
        in if \<not> memory then Some (Inl 1)
        else do {
          args \<leftarrow> arguments new_argc (shift_args argv 1);
          swish_service E h args s
        }
      else swish_run False E h argv False s)"

section \<open>The service on Windows\<close>

type_synonym wstring = "16 word list"

datatype service_state = Service_none | SERVICE_RUNNING | SERVICE_STOP_PENDING | SERVICE_STOPPED

text \<open>The states in the order in which a service passes through them.\<close>

fun stage :: "service_state \<Rightarrow> nat" where
  "stage Service_none = 0"
| "stage SERVICE_RUNNING = 1"
| "stage SERVICE_STOP_PENDING = 2"
| "stage SERVICE_STOPPED = 3"

lemma stage_inject: "stage x = stage y \<Longrightarrow> x = y"
  by (cases x; cases y) simp_all

instantiation service_state :: linorder
begin

definition less_eq_service_state :: "service_state \<Rightarrow> service_state \<Rightarrow> bool" where
  "less_eq_service_state x y \<longleftrightarrow> stage x \<le> stage y"

definition less_service_state :: "service_state \<Rightarrow> service_state \<Rightarrow> bool" where
  "less_service_state x y \<longleftrightarrow> stage x < stage y"

instance
  by standard (auto simp: less_eq_service_state_def less_service_state_def intro: stage_inject)

end

record SERVICE_STATUS =
  dwServiceType :: nat
  dwCurrentState :: service_state
  dwControlsAccepted :: nat
  dwWin32ExitCode :: int
  dwWaitHint :: nat

datatype service_control = SERVICE_CONTROL_INTERROGATE | SERVICE_CONTROL_SHUTDOWN | SERVICE_CONTROL_STOP | SERVICE_CONTROL_POWEREVENT | Other_control

datatype power_event = PBT_APMSUSPEND | PBT_APMRESUMEAUTOMATIC | Other_event

datatype control_result = NO_ERROR | ERROR_CALL_NOT_IMPLEMENTED

text \<open>
  The globals of the service: the status structure, the statuses given to \<^verbatim>\<open>SetServiceStatus\<close>, the names given
  to \<^verbatim>\<open>osi_send_request\<close> with \<^verbatim>\<open>request_call\<close>, the lines written by \<^verbatim>\<open>console_event_handler\<close>, and where the file
  descriptors lead.
\<close>

datatype sink = Console | Log | Nul | Closed

record service =
  g_service_status :: SERVICE_STATUS
  reported :: "SERVICE_STATUS list"
  sent :: "string list"
  console :: "u8 list list"
  fds :: "nat \<Rightarrow> sink"
  g_service_name :: wstring
  service_argv :: "u8 list list"

definition SetServiceStatus :: "service \<Rightarrow> service" where
  "SetServiceStatus v = v\<lparr>reported := reported v @ [g_service_status v]\<rparr>"

text \<open>\<open>stamp\<close> is the text of the date and the time stamp.\<close>

definition console_event_handler :: "u8 list \<Rightarrow> u8 list \<Rightarrow> service \<Rightarrow> service" where
  "console_event_handler stamp event v = v\<lparr>console := console v @ [stamp @ bytes ''Event: '' @ event]\<rparr>"

definition send :: "string \<Rightarrow> service \<Rightarrow> service" where
  "send name v = v\<lparr>sent := sent v @ [name]\<rparr>"

definition service_control_handler :: "service_control \<Rightarrow> power_event \<Rightarrow> service \<Rightarrow> control_result \<times> service" where
  "service_control_handler dwControl dwEventType v =
     (case dwControl of
        SERVICE_CONTROL_INTERROGATE \<Rightarrow> (NO_ERROR, v)
      | SERVICE_CONTROL_POWEREVENT \<Rightarrow>
          (ERROR_CALL_NOT_IMPLEMENTED,
           if dwEventType = PBT_APMSUSPEND then send ''$suspend'' v
           else if dwEventType = PBT_APMRESUMEAUTOMATIC then send ''$resume'' v else v)
      | Other_control \<Rightarrow> (ERROR_CALL_NOT_IMPLEMENTED, v)
      | _ \<Rightarrow>
          (let v = v\<lparr>g_service_status := (g_service_status v)\<lparr>dwCurrentState := SERVICE_STOP_PENDING, dwWaitHint := 60000\<rparr>\<rparr>;
               v = SetServiceStatus v
           in (NO_ERROR, send ''$shutdown'' v)))"

text \<open>
  What Windows answers: the handle of the control handler (or null), whether the dispatcher starts, the
  descriptors of the reopened files, and the controls delivered while Scheme runs. \<open>error_text\<close> is the text
  \<^verbatim>\<open>fatal_last_error\<close> formats.
\<close>

record service_manager =
  registers :: bool
  dispatches :: bool
  opens_log :: bool
  fileno :: "nat \<Rightarrow> nat"
  controls :: "(service_control \<times> power_event) list"
  stamp :: "u8 list"
  error_text :: "string \<Rightarrow> u8 list"

definition fatal_last_error :: "service_manager \<Rightarrow> string \<Rightarrow> service \<Rightarrow> int \<times> service" where
  "fatal_last_error m who v = (4, console_event_handler (stamp m) (error_text m who) v)"

definition SERVICE_WIN32_OWN_PROCESS :: nat where "SERVICE_WIN32_OWN_PROCESS = 0x10"
definition SERVICE_ACCEPT_ALL :: nat where "SERVICE_ACCEPT_ALL = 0x1 + 0x4 + 0x40"

definition service_run :: "env \<Rightarrow> host \<Rightarrow> service_manager \<Rightarrow> process_state \<times> service \<Rightarrow> (int \<times> service + process_state \<times> service) option" where
  "service_run E h m sv = do {
     let (s, v) = sv;
     r \<leftarrow> scheme_init True h (service_argv v) False (s\<lparr>g_is_service := True\<rparr>);
     case r of Inl st \<Rightarrow> Some (Inl (st, v))
     | Inr s \<Rightarrow>
         if \<not> registers m then Some (Inl (fatal_last_error m ''RegisterServiceCtrlHandlerEx'' v))
         else do {
           let v = v\<lparr>g_service_status := (g_service_status v)\<lparr>dwServiceType := SERVICE_WIN32_OWN_PROCESS,
                       dwCurrentState := SERVICE_RUNNING, dwControlsAccepted := SERVICE_ACCEPT_ALL\<rparr>\<rparr>;
           let v = SetServiceStatus v;
           let v = fold (\<lambda>(c, e) v. snd (service_control_handler c e v)) (controls m) v;
           r \<leftarrow> swish_start E h (service_argv v) s;
           case r of Inl st \<Rightarrow> Some (Inl (st, v))
           | Inr (status, s) \<Rightarrow> do {
               let v = console_event_handler (stamp m) (bytes ''#(osi_exit '' @ fmt_d (uint (word_of_int status :: u32)) @ bytes '')'') v;
               let v = v\<lparr>g_service_status := (g_service_status v)\<lparr>dwWin32ExitCode := status, dwCurrentState := SERVICE_STOPPED\<rparr>\<rparr>;
               Some (Inr (s, SetServiceStatus v))
             }
         }
   }"

text \<open>Redirecting descriptor \<open>b\<close> to where \<open>a\<close> leads, and reopening a file on \<^verbatim>\<open>NUL\<close>.\<close>

definition dup2 :: "nat \<Rightarrow> nat \<Rightarrow> (nat \<Rightarrow> sink) \<Rightarrow> nat \<Rightarrow> sink" where
  "dup2 a b f = f(b := f a)"

definition redirect :: "service_manager \<Rightarrow> nat \<Rightarrow> (nat \<Rightarrow> sink) \<Rightarrow> nat \<Rightarrow> sink" where
  "redirect m flog f =
     (let f = f(flog := Log);
          f = dup2 flog 1 f;
          f = dup2 flog 2 f;
          f = f(fileno m 1 := Nul);
          f = dup2 flog (fileno m 1) f;
          f = f(fileno m 2 := Nul);
          f = dup2 flog (fileno m 2) f;
          f = f(flog := Closed);
          f = f(fileno m 0 := Nul)
      in dup2 (fileno m 0) 0 f)"

definition swish_service_windows :: "env \<Rightarrow> host \<Rightarrow> service_manager \<Rightarrow> nat \<Rightarrow> wstring \<Rightarrow> u8 list list \<Rightarrow> process_state \<times> service
    \<Rightarrow> (int \<times> service + int \<times> process_state \<times> service) option" where
  "swish_service_windows E h m flog service_name argv sv =
     (let (s, v) = sv
      in if \<not> opens_log m then Some (Inr (1, s, v))
      else do {
        let v = v\<lparr>fds := redirect m flog (fds v)\<rparr>;
        let v = console_event_handler (stamp m) (bytes ''service-starting'') v;
        let v = v\<lparr>g_service_name := service_name, service_argv := argv\<rparr>;
        if \<not> dispatches m then Some (Inl (fatal_last_error m ''StartServiceCtrlDispatcher'' v))
        else do {
          r \<leftarrow> service_run E h m (s, v);
          Some (case r of Inl x \<Rightarrow> Inl x | Inr (s, v) \<Rightarrow> Inr (0, s, v))
        }
      })"

section \<open>The program on Windows\<close>

record windows =
  to_multibyte :: "wstring \<Rightarrow> u8 list option"
  wmemory :: bool
  module_path :: wstring
  loads :: "wstring \<Rightarrow> bool"
  has_proc :: "string \<Rightarrow> bool"
  scheme_dll :: wstring

definition wbytes :: "string \<Rightarrow> wstring" where
  "wbytes cs = List.map (\<lambda>c. of_nat (of_char c)) cs"

text \<open>A failing allocation is not tested: the null pointer is passed on.\<close>

definition to_utf8 :: "windows \<Rightarrow> wstring \<Rightarrow> (int + u8 list) option" where
  "to_utf8 win arg =
     (case to_multibyte win arg of None \<Rightarrow> Some (Inl 1)
      | Some arg8 \<Rightarrow> if wmemory win then Some (Inr arg8) else None)"

fun to_utf8_all :: "windows \<Rightarrow> wstring list \<Rightarrow> (int + u8 list list) option" where
  "to_utf8_all win [] = Some (Inr [])"
| "to_utf8_all win (a # as) = do {
     r \<leftarrow> to_utf8 win a;
     case r of Inl st \<Rightarrow> Some (Inl st)
     | Inr x \<Rightarrow> do {
         r \<leftarrow> to_utf8_all win as;
         Some (case r of Inl st \<Rightarrow> Inl st | Inr xs \<Rightarrow> Inr (x # xs))
       }
   }"

definition load_library :: "windows \<Rightarrow> wstring \<Rightarrow> wstring list \<Rightarrow> int + wstring list" where
  "load_library win name loaded = (if loads win name then Inr (loaded @ [name]) else Inl 1)"

text \<open>The scan for the last backslash; the result is an index into \<^verbatim>\<open>name\<close>.\<close>

fun find_filepart :: "wstring \<Rightarrow> nat \<Rightarrow> nat" where
  "find_filepart name 0 = 0"
| "find_filepart name (Suc i) = (if name ! i \<noteq> 0x5C then find_filepart name i else Suc i)"

definition NAME_SIZE :: nat where "NAME_SIZE = 32768"

definition wcscpy :: "wstring \<Rightarrow> nat \<Rightarrow> wstring \<Rightarrow> wstring option" where
  "wcscpy name filepart dll = (if filepart + length dll + 1 \<le> NAME_SIZE then Some (take filepart name @ dll) else None)"

definition max_len :: nat where
  "max_len = NAME_SIZE - max (length (wbytes ''uv.dll'') + 1) (max (length (wbytes ''sqlite3.dll'') + 1) (length (wbytes ''osi.dll'') + 1))"

definition load_dlls :: "windows \<Rightarrow> (int + wstring list) option" where
  "load_dlls win =
     (let name = module_path win; name_len = length name
      in if name_len = 0 \<or> name_len > max_len then Some (Inl 2)
      else let filepart = find_filepart name name_len
      in case load_library win (scheme_dll win) [] of Inl st \<Rightarrow> Some (Inl st)
      | Inr ls \<Rightarrow> do {
          name \<leftarrow> wcscpy name filepart (wbytes ''uv.dll'');
          case load_library win name ls of Inl st \<Rightarrow> Some (Inl st)
          | Inr ls \<Rightarrow> do {
              name \<leftarrow> wcscpy name filepart (wbytes ''sqlite3.dll'');
              case load_library win name ls of Inl st \<Rightarrow> Some (Inl st)
              | Inr ls \<Rightarrow> do {
                  name \<leftarrow> wcscpy name filepart (wbytes ''osi.dll'');
                  Some (load_library win name ls)
                }
            }
        })"

definition wmain :: "env \<Rightarrow> host \<Rightarrow> service_manager \<Rightarrow> windows \<Rightarrow> nat \<Rightarrow> wstring list \<Rightarrow> process_state \<times> service
    \<Rightarrow> (int + int) option" where
  "wmain E h m win flog argv sv = do {
     r \<leftarrow> to_utf8_all win argv;
     case r of Inl st \<Rightarrow> Some (Inl st)
     | Inr argv8 \<Rightarrow> do {
         r \<leftarrow> load_dlls win;
         case r of Inl st \<Rightarrow> Some (Inl st)
         | Inr _ \<Rightarrow>
             if length argv \<ge> 4 \<and> argv8 ! 1 = bytes ''/SERVICE'' then
               if \<not> has_proc win ''swish_service'' then Some (Inl 3)
               else do {
                 args \<leftarrow> arguments (length argv - 3) (shift_args argv8 3);
                 r \<leftarrow> swish_service_windows E h m flog (argv ! 2) args sv;
                 Some (case r of Inl (st, _) \<Rightarrow> Inl st | Inr (st, _) \<Rightarrow> Inr st)
               }
             else
               if \<not> has_proc win ''swish_run'' then Some (Inl 3)
               else do {
                 r \<leftarrow> swish_run True E h argv8 False (fst sv);
                 Some (case r of Inl st \<Rightarrow> Inl st | Inr (st, _) \<Rightarrow> Inr st)
               }
       }
   }"

section \<open>Arguments\<close>

lemma length_copy_args [simp]: "length (copy_args argv off n i new) = length new"
  by (induction argv off n i new rule: copy_args.induct) (subst copy_args.simps, simp)

lemma nth_copy_args:
  "n \<le> length new \<Longrightarrow> j < length new \<Longrightarrow>
     copy_args argv off n i new ! j = (if i \<le> j \<and> j < n then Some (argv ! (j + off)) else new ! j)"
proof (induction argv off n i new rule: copy_args.induct)
  case (1 argv off n i new)
  show ?case
  proof (cases "i < n")
    case True
    then show ?thesis using 1(1) [OF True] 1(2,3) by (subst copy_args.simps) (auto simp: nth_list_update le_Suc_eq)
  qed (subst copy_args.simps, auto)
qed

lemma shift_args_arguments:
  assumes "off < length argv"
  shows "arguments (length argv - off) (shift_args argv off) = Some (hd argv # drop (Suc off) argv)"
proof -
  let ?n = "length argv - off"
  let ?a = "(replicate (?n + 1) None)[0 := Some (argv ! 0)]"
  have len: "length (hd argv # drop (Suc off) argv) = ?n" using assms by simp
  have hd: "hd argv = argv ! 0" using assms by (cases argv) simp_all
  have "take ?n (shift_args argv off) ! j = List.map Some (hd argv # drop (Suc off) argv) ! j" if "j < ?n" for j
    using that hd nth_copy_args [of ?n ?a j argv off 1]
    by (cases j) (auto simp: shift_args_def Let_def nth_list_update add.commute)
  then have "take ?n (shift_args argv off) = List.map Some (hd argv # drop (Suc off) argv)"
    using len by (intro nth_equalityI) (auto simp: shift_args_def Let_def)
  then show ?thesis using those_map_Some [of "hd argv # drop (Suc off) argv"] by (simp add: arguments_def)
qed

text \<open>\<^verbatim>\<open>main\<close> hands its arguments on: with \<^verbatim>\<open>/SERVICE\<close> as the first argument it runs the Linux service with that
  argument taken out and all others in place, or exits with status 1 when it has no memory for the new array;
  otherwise, and on other Unix systems, it runs the program with all arguments.\<close>

theorem main_passes_arguments:
  "main True E h memory argv s =
     (case argv of
        prog # arg # args \<Rightarrow>
          if arg \<noteq> bytes ''/SERVICE'' then swish_run False E h argv False s
          else if memory then swish_service E h (prog # args) s else Some (Inl 1)
      | _ \<Rightarrow> swish_run False E h argv False s)
   \<and> main False E h memory argv s = swish_run False E h argv False s"
proof (cases argv)
  case (Cons prog rest)
  then show ?thesis
  proof (cases rest)
    case (Cons arg args)
    then show ?thesis using \<open>argv = prog # rest\<close> shift_args_arguments [of 1 argv] by (auto simp: main_def)
  qed (simp add: main_def)
qed (simp add: main_def)

section \<open>Loading the libraries on Windows\<close>

lemma find_filepart_le: "find_filepart name i \<le> i"
  by (induction i) (auto intro: le_SucI)

lemma find_filepart_cut:
  "i \<le> length name \<Longrightarrow> 0x5C \<notin> set (drop (find_filepart name i) (take i name))
     \<and> (find_filepart name i = 0 \<or> name ! (find_filepart name i - 1) = 0x5C)"
proof (induction i)
  case (Suc i)
  have "take (Suc i) name = take i name @ [name ! i]" using Suc.prems by (simp add: take_Suc_conv_app_nth)
  then show ?case using Suc find_filepart_le [of name i] by auto
qed simp

text \<open>The libraries of Swish are loaded from the directory of the executable, and the buffer that holds
  the path is never overrun: the longest path accepted leaves room for the longest library name. The
  process exits with status 2 if the path is too long, with status 1 if a library is missing.\<close>

theorem dll_paths_in_bounds:
  "load_dlls win = Some (Inl 2) \<and> (module_path win = [] \<or> max_len < length (module_path win))
   \<or> load_dlls win = Some (Inl 1)
   \<or> (\<exists>dir rest. module_path win = dir @ rest \<and> 0x5C \<notin> set rest \<and> (dir = [] \<or> last dir = 0x5C) \<and> length dir + 12 \<le> NAME_SIZE
        \<and> load_dlls win = Some (Inr [scheme_dll win, dir @ wbytes ''uv.dll'', dir @ wbytes ''sqlite3.dll'', dir @ wbytes ''osi.dll'']))"
proof (cases "module_path win = [] \<or> max_len < length (module_path win)")
  case True
  then show ?thesis by (simp add: load_dlls_def Let_def)
next
  case False
  let ?name = "module_path win"
  let ?f = "find_filepart ?name (length ?name)"
  have f: "?f \<le> length ?name" "length ?name \<le> 32756" using find_filepart_le False by (auto simp: max_len_def NAME_SIZE_def wbytes_def)
  have cut: "0x5C \<notin> set (drop ?f ?name)" "?f = 0 \<or> ?name ! (?f - 1) = 0x5C" using find_filepart_cut [of "length ?name" ?name] by simp_all
  have last: "take ?f ?name = [] \<or> last (take ?f ?name) = 0x5C" using cut(2) f(1) by (cases ?f) (auto simp: take_Suc_conv_app_nth)
  have cp: "wcscpy (take ?f ?name @ x) ?f dll = Some (take ?f ?name @ dll)" "wcscpy ?name ?f dll = Some (take ?f ?name @ dll)"
    if "length dll \<le> 11" for x dll using that f by (simp_all add: wcscpy_def NAME_SIZE_def)
  have "load_dlls win = Some (Inl 1) \<or> load_dlls win = Some (Inr [scheme_dll win, take ?f ?name @ wbytes ''uv.dll'',
      take ?f ?name @ wbytes ''sqlite3.dll'', take ?f ?name @ wbytes ''osi.dll''])"
    using False by (simp add: load_dlls_def Let_def load_library_def cp wbytes_def)
  moreover have "length (take ?f ?name) + 12 \<le> NAME_SIZE" using f by (simp add: NAME_SIZE_def)
  ultimately show ?thesis using cut(1) last append_take_drop_id [of ?f ?name, symmetric] by blast
qed

section \<open>What the service manager sees\<close>

fun control_request :: "service_control \<times> power_event \<Rightarrow> string list" where
  "control_request (SERVICE_CONTROL_SHUTDOWN, _) = [''$shutdown'']"
| "control_request (SERVICE_CONTROL_STOP, _) = [''$shutdown'']"
| "control_request (SERVICE_CONTROL_POWEREVENT, PBT_APMSUSPEND) = [''$suspend'']"
| "control_request (SERVICE_CONTROL_POWEREVENT, PBT_APMRESUMEAUTOMATIC) = [''$resume'']"
| "control_request _ = []"

definition stops :: "(service_control \<times> power_event) list \<Rightarrow> (service_control \<times> power_event) list" where
  "stops cs = filter (\<lambda>(c, _). c \<in> {SERVICE_CONTROL_SHUTDOWN, SERVICE_CONTROL_STOP}) cs"

lemma controls_spec:
  "let v' = fold (\<lambda>(c, e) v. snd (service_control_handler c e v)) cs v
   in sent v' = sent v @ concat (List.map control_request cs) \<and> service_argv v' = service_argv v
      \<and> List.map dwCurrentState (reported v') = List.map dwCurrentState (reported v) @ replicate (length (stops cs)) SERVICE_STOP_PENDING"
proof (induction cs arbitrary: v)
  case (Cons ce cs)
  obtain c e where ce: "ce = (c, e)" by (cases ce)
  let ?v = "snd (service_control_handler c e v)"
  have "sent ?v = sent v @ control_request ce \<and> service_argv ?v = service_argv v
      \<and> List.map dwCurrentState (reported ?v) = List.map dwCurrentState (reported v)
        @ replicate (length (stops [ce])) SERVICE_STOP_PENDING"
    unfolding ce by (cases c; cases e) (simp_all add: service_control_handler_def SetServiceStatus_def send_def stops_def Let_def)
  moreover have "length (stops (ce # cs)) = length (stops [ce]) + length (stops cs)" by (simp add: stops_def)
  ultimately show ?case using Cons.IH [of ?v] ce by (simp add: Let_def replicate_add)
qed (simp add: stops_def)


definition fresh_service :: service where
  "fresh_service = \<lparr>g_service_status = \<lparr>dwServiceType = 0, dwCurrentState = Service_none, dwControlsAccepted = 0, dwWin32ExitCode = 0, dwWaitHint = 0\<rparr>,
     reported = [], sent = [], console = [], fds = (\<lambda>_. Console), g_service_name = [], service_argv = []\<rparr>"

definition stop_once :: service_manager where
  "stop_once = \<lparr>registers = True, dispatches = True, opens_log = True, fileno = (\<lambda>n. n + 3),
     controls = [(SERVICE_CONTROL_STOP, Other_event)], stamp = [], error_text = (\<lambda>_. [])\<rparr>"


end
