(* ===== verification/Io_Constants.thy ===== *)
theory Io_Constants
  imports C_Text
begin

text \<open>
  \<^verbatim>\<open>io-constants.c\<close>, the program that prints the constants of libuv and of the system as Scheme
  definitions. Their values come from headers outside the repository, and so does the list behind
  \<^verbatim>\<open>UV_ERRNO_MAP\<close>: they are parameters. \<open>has\<close> tells which optional signals the system defines.
\<close>

definition XX :: "string \<Rightarrow> int \<Rightarrow> u8 list" where
  "XX name flag = bytes ''(define-export '' @ bytes name @ bytes '' '' @ fmt_d flag @ bytes '')'' @ [0x0A]"

definition XUV :: "(string \<Rightarrow> int) \<Rightarrow> string \<Rightarrow> u8 list" where
  "XUV val name = XX name (val (''UV_'' @ name))"

definition XFS :: "(string \<Rightarrow> int) \<Rightarrow> string \<Rightarrow> u8 list" where
  "XFS val name = XX name (val (''UV_FS_'' @ name))"

definition XERRNO :: "(string \<Rightarrow> int) \<Rightarrow> string \<Rightarrow> u8 list" where
  "XERRNO val name = XX (''UV_'' @ name) (val (''UV_'' @ name))"

definition XS :: "(string \<Rightarrow> int) \<Rightarrow> string \<Rightarrow> u8 list" where
  "XS val name = XX name (val name)"

text \<open>On Windows the names of file modes start with an underscore and two of them are defined as 0.\<close>

definition XFM :: "bool \<Rightarrow> (string \<Rightarrow> int) \<Rightarrow> string \<Rightarrow> u8 list" where
  "XFM win val name =
     XX name (if win then if name = ''S_IFBLK'' \<or> name = ''S_IFSOCK'' then 0
                        else if name = ''S_IFLNK'' then val ''S_IFLNK'' else val (''_'' @ name)
            else val name)"

definition dirents :: "string list" where
  "dirents =
     [''DIRENT_UNKNOWN'', ''DIRENT_FILE'', ''DIRENT_DIR'', ''DIRENT_LINK'', ''DIRENT_FIFO'', ''DIRENT_SOCKET'',
      ''DIRENT_CHAR'', ''DIRENT_BLOCK'']"

definition open_flags :: "string list" where
  "open_flags =
     [''O_APPEND'', ''O_CREAT'', ''O_DIRECT'', ''O_DIRECTORY'', ''O_DSYNC'', ''O_EXCL'', ''O_EXLOCK'', ''O_NOATIME'',
      ''O_NOCTTY'', ''O_NOFOLLOW'', ''O_NONBLOCK'', ''O_RANDOM'', ''O_RDONLY'', ''O_RDWR'', ''O_SEQUENTIAL'',
      ''O_SHORT_LIVED'', ''O_SYMLINK'', ''O_SYNC'', ''O_TEMPORARY'', ''O_TRUNC'', ''O_WRONLY'']"

definition file_modes :: "string list" where
  "file_modes =
     [''S_IFMT'', ''S_IFIFO'', ''S_IFCHR'', ''S_IFDIR'', ''S_IFBLK'', ''S_IFREG'', ''S_IFLNK'', ''S_IFSOCK'']"

definition c_signals :: "string list" where
  "c_signals = [''SIGABRT'', ''SIGFPE'', ''SIGILL'', ''SIGINT'', ''SIGSEGV'', ''SIGTERM'']"

definition windows_signals :: "string list" where
  "windows_signals = [''SIGBREAK'', ''SIGHUP'', ''SIGKILL'', ''SIGWINCH'']"

definition unix_signals :: "(string \<Rightarrow> bool) \<Rightarrow> string list" where
  "unix_signals has =
     [''SIGALRM'', ''SIGBUS'', ''SIGCHLD'', ''SIGCONT'', ''SIGHUP'']
     @ (if has ''SIGINFO'' then [''SIGINFO''] else [])
     @ [''SIGIO'', ''SIGKILL'', ''SIGPIPE'']
     @ (if has ''SIGPWR'' then [''SIGPWR''] else [])
     @ [''SIGPROF'', ''SIGQUIT'']
     @ (if has ''SIGRTMIN'' then [''SIGRTMIN'', ''SIGRTMAX''] else [])
     @ [''SIGSTOP'', ''SIGSYS'', ''SIGTRAP'', ''SIGTSTP'', ''SIGTTIN'', ''SIGTTOU'', ''SIGURG'', ''SIGUSR1'',
      ''SIGUSR2'', ''SIGVTALRM'', ''SIGWINCH'', ''SIGXCPU'', ''SIGXFSZ'']"

definition io_constants_main :: "bool \<Rightarrow> (string \<Rightarrow> bool) \<Rightarrow> string list \<Rightarrow> (string \<Rightarrow> int) \<Rightarrow> int \<times> u8 list" where
  "io_constants_main win has uv_errnos val =
     (0, concat (List.map (XUV val) dirents @ List.map (XFS val) open_flags @ List.map (XFM win val) file_modes
                 @ List.map (XERRNO val) uv_errnos @ List.map (XS val) c_signals
                 @ List.map (XS val) (if win then windows_signals else unix_signals has)))"

section \<open>Every constant is defined once\<close>

definition exported :: "bool \<Rightarrow> (string \<Rightarrow> bool) \<Rightarrow> string list \<Rightarrow> string list" where
  "exported win has uv_errnos =
     dirents @ open_flags @ file_modes @ List.map ((@) ''UV_'') uv_errnos @ c_signals
     @ (if win then windows_signals else unix_signals has)"

lemmas name_lists = dirents_def open_flags_def file_modes_def c_signals_def windows_signals_def unix_signals_def

lemma fixed_names_distinct:
  "distinct (dirents @ open_flags @ file_modes @ c_signals @ windows_signals)"
  "distinct (dirents @ open_flags @ file_modes @ c_signals @ unix_signals (\<lambda>_. True))"
  by (simp_all add: name_lists)

lemma fixed_names_no_uv:
  "n \<in> set (dirents @ open_flags @ file_modes @ c_signals @ windows_signals @ unix_signals (\<lambda>_. True)) \<Longrightarrow> take 3 n \<noteq> ''UV_''"
  by (simp add: name_lists) (elim disjE; simp)

lemma unix_signals_mono: "set (unix_signals has) \<subseteq> set (unix_signals (\<lambda>_. True))" and unix_signals_distinct: "distinct (unix_signals has)"
  by (auto simp: unix_signals_def)

text \<open>
  No name is defined twice, which Scheme would reject, provided libuv lists every error once.
\<close>

lemma exported_distinct:
  assumes "distinct uv_errnos"
  shows "distinct (exported win has uv_errnos)"
proof -
  have uv: "set (List.map ((@) ''UV_'') uv_errnos) \<inter> set (dirents @ open_flags @ file_modes @ c_signals @ windows_signals @ unix_signals (\<lambda>_. True)) = {}"
    using fixed_names_no_uv by fastforce
  have "distinct (List.map ((@) ''UV_'') uv_errnos)" using assms by (simp add: distinct_map inj_on_def)
  then show ?thesis using uv fixed_names_distinct unix_signals_mono [of has] unix_signals_distinct [of has]
    unfolding exported_def by (cases win) (auto simp del: append.simps)
qed

end
