(* ===== verification/Test_Libraries.thy ===== *)
theory Test_Libraries
  imports Send_Request
begin

text \<open>
  The shared libraries of the test suite: \<^verbatim>\<open>test-request.c\<close>, whose threads send requests to the event loop,
  and \<^verbatim>\<open>shlibtest.c\<close>, which calls libuv, Scheme and the interface from a loaded library.
\<close>

section \<open>Threads that send requests\<close>

record test_thread_t =
  tt_number :: nat
  tt_iterations :: int
  tt_cb_name :: string

record payload_t =
  pl_rep :: int
  pl_cb_name :: string
  pl_who :: nat

definition MAX_THREADS :: nat where "MAX_THREADS = 128"

text \<open>The table and its count. \<open>created\<close> and \<open>joined\<close> record the threads in order.\<close>

record test_state =
  thread :: "test_thread_t option list"
  thread_count :: nat
  created :: "nat list"
  joined :: "nat list"

definition handle_call_now :: "'p \<Rightarrow> osi \<Rightarrow> osi" where
  "handle_call_now arg s = s"

definition call_now :: "nat \<Rightarrow> (unit, osi) send_call" where
  "call_now self = \<lparr>caller = self, call_code = Some handle_call_now, call_payload = ()\<rparr>"

text \<open>A failing allocation is not tested.\<close>

definition copy_string :: "bool \<Rightarrow> string \<Rightarrow> string option" where
  "copy_string memory s = (if memory then Some s else None)"

definition handle_request :: "(string \<Rightarrow> ptr) \<Rightarrow> payload_t \<Rightarrow> osi \<Rightarrow> osi option" where
  "handle_request top_level pl s =
     (case top_level (pl_cb_name pl) of
        Sprocedure p \<Rightarrow>
          osi_add_callback_list (Sprocedure p) (Scons (Sinteger (int (pl_who pl))) (Scons (Sinteger (pl_rep pl)) Snil)) s
      | _ \<Rightarrow> None)"

definition add_work :: "bool \<Rightarrow> int \<Rightarrow> string \<Rightarrow> test_state \<Rightarrow> (ptr \<times> test_state) option" where
  "add_work memory iterations cb_name s =
     (if iterations < 0 \<or> thread_count s = MAX_THREADS then Some (Sfalse, s)
      else do {
        name \<leftarrow> copy_string memory cb_name;
        if thread_count s < length (thread s)
        then Some (Strue, s\<lparr>thread := (thread s)[thread_count s := Some \<lparr>tt_number = thread_count s, tt_iterations = iterations, tt_cb_name = name\<rparr>],
                            thread_count := Suc (thread_count s)\<rparr>)
        else None
      })"

text \<open>The requests of one thread, in order: the loop counts down to zero and includes it.\<close>

function do_work_loop :: "test_thread_t \<Rightarrow> int \<Rightarrow> payload_t list" where
  "do_work_loop t i =
     (if i \<ge> 0 then \<lparr>pl_rep = i, pl_cb_name = tt_cb_name t, pl_who = tt_number t\<rparr> # do_work_loop t (i - 1) else [])"
  by pat_completeness auto
termination by (relation "measure (\<lambda>(_, i). nat (i + 1))") auto

declare do_work_loop.simps [simp del]

definition do_work :: "test_thread_t \<Rightarrow> payload_t list" where
  "do_work t = do_work_loop t (tt_iterations t)"

definition my_thread_create :: "(nat \<Rightarrow> int) \<Rightarrow> nat \<Rightarrow> test_state \<Rightarrow> int \<times> test_state" where
  "my_thread_create rc i s = (rc i, if rc i = 0 then s\<lparr>created := created s @ [i]\<rparr> else s)"

definition my_thread_join :: "nat \<Rightarrow> test_state \<Rightarrow> test_state" where
  "my_thread_join i s = s\<lparr>joined := joined s @ [i]\<rparr>"

fun create_loop :: "(nat \<Rightarrow> int) \<Rightarrow> nat list \<Rightarrow> test_state \<Rightarrow> ptr \<times> test_state" where
  "create_loop rc [] s = (Strue, s)"
| "create_loop rc (i # is) s =
     (let (r, s) = my_thread_create rc i s in if r \<noteq> 0 then (Sfalse, s) else create_loop rc is s)"

definition create_threads :: "(nat \<Rightarrow> int) \<Rightarrow> test_state \<Rightarrow> ptr \<times> test_state" where
  "create_threads rc s = create_loop rc [0 ..< thread_count s] s"

function join_threads :: "test_state \<Rightarrow> test_state" where
  "join_threads s =
     (if thread_count s \<noteq> 0
      then let s = s\<lparr>thread_count := thread_count s - 1\<rparr> in join_threads (my_thread_join (thread_count s) s)
      else s)"
  by pat_completeness auto
termination by (relation "measure thread_count") (auto simp: my_thread_join_def)

declare join_threads.simps [simp del]

section \<open>What the threads send\<close>

lemma do_work_sends:
  "0 \<le> tt_iterations t \<Longrightarrow> List.map pl_rep (do_work t) = rev [0 .. tt_iterations t] \<and> (\<forall>p \<in> set (do_work t). pl_who p = tt_number t)"
proof -
  have "List.map pl_rep (do_work_loop t i) = rev [0 .. i] \<and> (\<forall>p \<in> set (do_work_loop t i). pl_who p = tt_number t)" if "- 1 \<le> i" for i
    using that
  proof (induction t i rule: do_work_loop.induct)
    case (1 t i)
    show ?case
    proof (cases "0 \<le> i")
      case True
      have "[0 .. i] = [0 .. i - 1] @ [i]" using True by (simp add: upto_rec2)
      then show ?thesis using 1 True by (subst (1 2) do_work_loop.simps) auto
    qed (subst (1 2) do_work_loop.simps, simp)
  qed
  from this [of "tt_iterations t"] show "0 \<le> tt_iterations t \<Longrightarrow> List.map pl_rep (do_work t) = rev [0 .. tt_iterations t] \<and> (\<forall>p \<in> set (do_work t). pl_who p = tt_number t)"
    by (simp add: do_work_def)
qed

text \<open>The table is never overrun, and its entries are numbered by their position.\<close>

definition table_ok :: "test_state \<Rightarrow> bool" where
  "table_ok s \<longleftrightarrow> length (thread s) = MAX_THREADS \<and> thread_count s \<le> MAX_THREADS
     \<and> (\<forall>i < thread_count s. \<exists>t. thread s ! i = Some t \<and> tt_number t = i \<and> 0 \<le> tt_iterations t)"

lemma add_work_ok:
  assumes "table_ok s"
  shows "\<exists>r s'. add_work True n name s = Some (r, s') \<and> table_ok s' \<and> (r = Strue \<longleftrightarrow> 0 \<le> n \<and> thread_count s < MAX_THREADS)"
  using assms by (auto simp: add_work_def table_ok_def copy_string_def nth_list_update less_Suc_eq)

text \<open>Every thread is joined, the last one first.\<close>

lemma join_threads_all: "joined (join_threads s) = joined s @ rev [0 ..< thread_count s] \<and> thread_count (join_threads s) = 0"
proof (induction s rule: join_threads.induct)
  case (1 s)
  show ?case
  proof (cases "thread_count s")
    case (Suc n)
    then show ?thesis using 1 by (subst (1 2) join_threads.simps) (simp add: my_thread_join_def Let_def)
  qed (subst (1 2) join_threads.simps, simp)
qed

section \<open>A library that calls the interface\<close>

text \<open>Multiplication of C integers; overflow is undefined.\<close>

definition square :: "int \<Rightarrow> int option" where
  "square n = (if n * n < 2 ^ 31 then Some (n * n) else None)"

record call_req_t =
  cr_callback :: ptr
  cr_arg :: ptr

text \<open>
  The requests of the library are kept beside the heap of the interface; \<^const>\<open>None\<close> inside is a request whose
  fields have not been set.
\<close>

record lib_state =
  l_state :: osi
  reqs :: "uptr \<Rightarrow> call_req_t option option"

definition call_it :: "env \<Rightarrow> ptr \<Rightarrow> ptr \<Rightarrow> lib_state \<Rightarrow> ptr \<times> lib_state" where
  "call_it E cb arg l =
     (let s = l_state l; req = Suc (mallocs s)
      in if oom E (mallocs s) then (osi_make_error_pair ''call_it'' (uv_errno E ENOMEM), l\<lparr>l_state := s\<lparr>mallocs := req\<rparr>\<rparr>)
      else let l = l\<lparr>l_state := s\<lparr>mallocs := req\<rparr>, reqs := (reqs l)(req \<mapsto> None)\<rparr>;
               (rc, s) = uv_do E (Hnd (Uv_async_init req)) (l_state l);
               l = l\<lparr>l_state := s\<rparr>
      in if rc < 0 then (osi_make_error_pair ''uv_async_init'' rc, l)
      else let (rc, s) = uv_do E (Hnd (Uv_async_send req)) (l_state l);
               l = l\<lparr>l_state := s\<rparr>
      in if rc < 0 then (osi_make_error_pair ''uv_async_send'' rc, l)
      else (Strue, l\<lparr>l_state := Slock_object arg (Slock_object cb (l_state l)),
                     reqs := (reqs l)(req \<mapsto> Some \<lparr>cr_callback = cb, cr_arg = arg\<rparr>)\<rparr>))"

text \<open>\<open>erofs\<close> is the name libuv gives the error \<^verbatim>\<open>UV_EROFS\<close>.\<close>

definition call_req_cb :: "ptr \<Rightarrow> uptr \<Rightarrow> lib_state \<Rightarrow> lib_state option" where
  "call_req_cb erofs req l = do {
     r \<leftarrow> reqs l req;
     r \<leftarrow> r;
     s \<leftarrow> Sunlock_object (cr_callback r) (l_state l);
     s \<leftarrow> Sunlock_object (cr_arg r) s;
     s \<leftarrow> osi_add_callback1 (cr_callback r) erofs s;
     s \<leftarrow> osi_add_callback1 (cr_callback r) (cr_arg r) s;
     Some (l\<lparr>l_state := uv_void (Hnd (Uv_close req Close_free_cb)) s\<rparr>)
   }"

definition lib_close_cb :: "uptr \<Rightarrow> lib_state \<Rightarrow> lib_state option" where
  "lib_close_cb req l = (if reqs l req = None then None else Some (l\<lparr>reqs := (reqs l)(req := None)\<rparr>))"

text \<open>A call that is accepted is answered: both arguments are queued, the locks released and the request freed.\<close>

lemma call_it_answers:
  assumes "call_it E cb arg l = (Strue, l')" and "reqs l (Suc (mallocs (l_state l))) = None"
  shows "\<exists>l2. Option.bind (call_req_cb erofs (Suc (mallocs (l_state l))) (l'\<lparr>l_state := (l_state l')\<lparr>g_callbacks := Some q\<rparr>\<rparr>))
         (lib_close_cb (Suc (mallocs (l_state l)))) = Some l2
     \<and> reqs l2 = reqs l \<and> locked (l_state l2) = locked (l_state l)
     \<and> g_callbacks (l_state l2) = Some (Scons (Scons cb (Scons arg Snil)) (Scons (Scons cb (Scons erofs Snil)) q))"
  using assms
  by (auto simp: call_it_def call_req_cb_def lib_close_cb_def osi_ops osi_queue fun_upd_idem split: if_splits prod.splits)

text \<open>A call that is refused after the allocation leaves its block behind.\<close>

lemma call_it_leaks:
  assumes "call_it E cb arg l = (r, l')" and "r \<noteq> Strue" and "\<not> oom E (mallocs (l_state l))"
  shows "reqs l' (Suc (mallocs (l_state l))) = Some None \<and> locked (l_state l') = locked (l_state l)"
  using assms by (auto simp: call_it_def osi_ops split: if_splits prod.splits)

end
