(* ===== verification/Mbedtls.thy ===== *)
theory Mbedtls
  imports Digest
begin

text \<open>
  The example extension \<^verbatim>\<open>examples/mbedtls/mbedtls.c\<close>: message digests, keyed or not, and base 64, from the
  library Mbed TLS. The library is a parameter: a record of its functions over an abstract context.
  Every function of it returns 0 or an error code.
\<close>

section \<open>The library and the state\<close>

record 'c mbedtls =
  md_info_from_string :: "u8 list \<Rightarrow> nat option"
  md_init :: 'c
  md_setup :: "nat \<Rightarrow> bool \<Rightarrow> 'c \<Rightarrow> int \<times> 'c"
  md_starts :: "'c \<Rightarrow> int \<times> 'c"
  md_hmac_starts :: "u8 list \<Rightarrow> 'c \<Rightarrow> int \<times> 'c"
  md_update :: "u8 list \<Rightarrow> 'c \<Rightarrow> int \<times> 'c"
  md_hmac_update :: "u8 list \<Rightarrow> 'c \<Rightarrow> int \<times> 'c"
  md_get_size :: "'c \<Rightarrow> nat"
  md_finish :: "'c \<Rightarrow> int \<times> u8 list \<times> 'c"
  md_hmac_finish :: "'c \<Rightarrow> int \<times> u8 list \<times> 'c"
  md_hmac_reset :: "'c \<Rightarrow> int \<times> 'c"
  md_strerror :: "int \<Rightarrow> u8 list"
  b64_encode :: "nat \<Rightarrow> u8 list \<Rightarrow> int \<times> u8 list"
  b64_decode :: "nat \<Rightarrow> u8 list \<Rightarrow> int \<times> u8 list"
  version_string :: "u8 list"

record 'c digest_t =
  ctx :: 'c
  use_hmac :: bool

text \<open>The digests are kept beside the heap of the interface, at addresses of the same allocator.\<close>

record 'c mb_state =
  m_osi :: osi
  digests :: "uptr \<Rightarrow> 'c digest_t option"

definition make_mbedtls_error :: "env \<Rightarrow> 'c mbedtls \<Rightarrow> string \<Rightarrow> int \<Rightarrow> ptr" where
  "make_mbedtls_error E M who rc =
     Scons (Ssymbol who) (Scons (Sinteger rc) (Sstring_utf8 E (take 511 (md_strerror M rc))))"

section \<open>Digests\<close>

text \<open>The macro \<^verbatim>\<open>ON_ERR\<close>: a call whose error is reported under its name.\<close>

definition ON_ERR :: "env \<Rightarrow> 'c mbedtls \<Rightarrow> string \<Rightarrow> int \<times> 'a \<Rightarrow> ptr + 'a" where
  "ON_ERR E M target r = (if fst r \<noteq> 0 then Inl (make_mbedtls_error E M target (fst r)) else Inr (snd r))"

definition bytevector_data :: "ptr \<Rightarrow> osi \<Rightarrow> u8 list" where
  "bytevector_data bv s = (case bv of Sbytevector i \<Rightarrow> bytevectors s i | _ \<Rightarrow> [])"

definition open_digest :: "env \<Rightarrow> 'c mbedtls \<Rightarrow> u8 list \<Rightarrow> ptr \<Rightarrow> 'c mb_state \<Rightarrow> ptr \<times> 'c mb_state" where
  "open_digest E M name hmac_key s =
     (if hmac_key \<noteq> Sfalse \<and> \<not> Sbytevectorp hmac_key then (osi_make_error_pair ''open_digest'' (uv_errno E EINVAL), s)
      else case md_info_from_string M name of
        None \<Rightarrow> (osi_make_error_pair ''open_digest'' (uv_errno E EINVAL), s)
      | Some md_info \<Rightarrow>
          if oom E (mallocs (m_osi s))
          then (osi_make_error_pair ''open_digest'' (uv_errno E ENOMEM), s\<lparr>m_osi := (m_osi s)\<lparr>mallocs := Suc (mallocs (m_osi s))\<rparr>\<rparr>)
          else
            let digest = Suc (mallocs (m_osi s));
                s1 = s\<lparr>m_osi := (m_osi s)\<lparr>mallocs := digest\<rparr>\<rparr>;
                hmac = Sbytevectorp hmac_key
            in case ON_ERR E M ''mbedtls_md_setup'' (md_setup M md_info hmac (md_init M)) of
              Inl err \<Rightarrow> (err, s1)
            | Inr c \<Rightarrow>
                (case (if hmac then ON_ERR E M ''mbedtls_md_hmac_starts'' (md_hmac_starts M (bytevector_data hmac_key (m_osi s)) c)
                       else ON_ERR E M ''mbedtls_md_starts'' (md_starts M c)) of
                   Inl err \<Rightarrow> (err, s1)
                 | Inr c \<Rightarrow> (Sunsigned digest, s1\<lparr>digests := (digests s1)(digest \<mapsto> \<lparr>ctx = c, use_hmac = hmac\<rparr>)\<rparr>)))"

definition hash_data :: "env \<Rightarrow> 'c mbedtls \<Rightarrow> uptr \<Rightarrow> ptr \<Rightarrow> u64 \<Rightarrow> u32 \<Rightarrow> 'c mb_state \<Rightarrow> (ptr \<times> 'c mb_state) option" where
  "hash_data E M digest bv start_index sz s =
     (let last = start_index + ucast sz
      in if \<not> Sbytevectorp bv \<or> last < start_index \<or> of_nat (Sbytevector_length bv (m_osi s)) < last
         then Some (osi_make_error_pair ''hash_data'' (uv_errno E EINVAL), s)
      else if sz = 0 then Some (Sfalse, s)
      else do {
        d \<leftarrow> digests s digest;
        let data = drop (unat start_index) (bytevector_data bv (m_osi s));
        data \<leftarrow> (if unat sz \<le> length data then Some (take (unat sz) data) else None);
        let (rc, c) = (if use_hmac d then md_hmac_update M data (ctx d) else md_update M data (ctx d));
        let s = s\<lparr>digests := (digests s)(digest \<mapsto> d\<lparr>ctx := c\<rparr>)\<rparr>;
        Some (case ON_ERR E M (if use_hmac d then ''mbedtls_md_hmac_update'' else ''mbedtls_md_update'') (rc, ()) of
                Inl err \<Rightarrow> (err, s) | Inr _ \<Rightarrow> (Sfalse, s))
      })"

text \<open>\<open>i\<close> is the new bytevector; what the library stores has to fit into it.\<close>

definition get_digest :: "env \<Rightarrow> 'c mbedtls \<Rightarrow> uptr \<Rightarrow> nat \<Rightarrow> 'c mb_state \<Rightarrow> (ptr \<times> 'c mb_state) option" where
  "get_digest E M digest i s = do {
     d \<leftarrow> digests s digest;
     let n = md_get_size M (ctx d);
     let (rc, out, c) = (if use_hmac d then md_hmac_finish M (ctx d) else md_finish M (ctx d));
     out \<leftarrow> (if length out \<le> n then Some (out @ replicate (n - length out) 0) else None);
     let s = s\<lparr>m_osi := (m_osi s)\<lparr>bytevectors := (bytevectors (m_osi s))(i := out)\<rparr>, digests := (digests s)(digest \<mapsto> d\<lparr>ctx := c\<rparr>)\<rparr>;
     (case ON_ERR E M (if use_hmac d then ''mbedtls_md_hmac_finish'' else ''mbedtls_md_finish'') (rc, ()) of
        Inl err \<Rightarrow> Some (err, s)
      | Inr _ \<Rightarrow>
          let (rc, c) = (if use_hmac d then md_hmac_reset M c else md_starts M c);
              s = s\<lparr>digests := (digests s)(digest \<mapsto> d\<lparr>ctx := c\<rparr>)\<rparr>
          in Some (case ON_ERR E M (if use_hmac d then ''mbedtls_md_hmac_reset'' else ''mbedtls_md_starts'') (rc, ()) of
                     Inl err \<Rightarrow> (err, s) | Inr _ \<Rightarrow> (Sbytevector i, s)))
   }"

definition close_digest :: "uptr \<Rightarrow> 'c mb_state \<Rightarrow> 'c mb_state option" where
  "close_digest digest s = (if digests s digest = None then None else Some (s\<lparr>digests := (digests s)(digest := None)\<rparr>))"

section \<open>Base 64\<close>

text \<open>
  The common part of \<^verbatim>\<open>base64_encode\<close> and \<^verbatim>\<open>base64_decode\<close>. \<open>src_len\<close> is trusted: reading past the end of the
  source is undefined.
\<close>

definition base64 :: "env \<Rightarrow> 'c mbedtls \<Rightarrow> string \<Rightarrow> (nat \<Rightarrow> u8 list \<Rightarrow> int \<times> u8 list) \<Rightarrow> string \<Rightarrow> ptr \<Rightarrow> ptr \<Rightarrow> u64 \<Rightarrow> osi \<Rightarrow> (ptr \<times> osi) option" where
  "base64 E M func f target bv_dst bv_src src_len s =
     (case (bv_dst, bv_src) of
        (Sbytevector i, Sbytevector j) \<Rightarrow>
          if length (bytevectors s j) < unat src_len then None
          else do {
            let cap = length (bytevectors s i);
            let (rc, out) = f cap (take (unat src_len) (bytevectors s j));
            s \<leftarrow> (if length out \<le> cap then Some (s\<lparr>bytevectors := (bytevectors s)(i := out @ drop (length out) (bytevectors s i))\<rparr>) else None);
            Some (case ON_ERR E M target (rc, ()) of Inl err \<Rightarrow> (err, s) | Inr _ \<Rightarrow> (Sinteger (int (length out)), s))
          }
      | _ \<Rightarrow> Some (osi_make_error_pair func (uv_errno E EINVAL), s))"

definition base64_encode :: "env \<Rightarrow> 'c mbedtls \<Rightarrow> ptr \<Rightarrow> ptr \<Rightarrow> u64 \<Rightarrow> osi \<Rightarrow> (ptr \<times> osi) option" where
  "base64_encode E M = base64 E M ''base64_encode'' (b64_encode M) ''mbedtls_base64_encode''"

definition base64_decode :: "env \<Rightarrow> 'c mbedtls \<Rightarrow> ptr \<Rightarrow> ptr \<Rightarrow> u64 \<Rightarrow> osi \<Rightarrow> (ptr \<times> osi) option" where
  "base64_decode E M = base64 E M ''base64_decode'' (b64_decode M) ''mbedtls_base64_decode''"

text \<open>The version text has to fit into nine bytes with its final zero.\<close>

definition get_version :: "env \<Rightarrow> 'c mbedtls \<Rightarrow> ptr option" where
  "get_version E M = (if length (version_string M) < 9 then Some (Sstring_utf8 E (version_string M)) else None)"

section \<open>A digest through the extension\<close>

text \<open>
  The contract of a keyed or plain digest, as far as the code relies on it: the context represents the bytes fed so far,
  feeding and starting again succeed, and finishing gives the digest of what was fed.
\<close>

definition lawful :: "'c mbedtls \<Rightarrow> (bool \<Rightarrow> 'c \<Rightarrow> u8 list \<Rightarrow> bool) \<Rightarrow> (bool \<Rightarrow> u8 list \<Rightarrow> u8 list) \<Rightarrow> bool" where
  "lawful M repr digest_of \<longleftrightarrow>
     (\<forall>k c m. repr k c m \<longrightarrow>
        (\<forall>bs. \<exists>c'. (if k then md_hmac_update M bs c else md_update M bs c) = (0, c') \<and> repr k c' (m @ bs))
        \<and> (\<exists>c' c''. (if k then md_hmac_finish M c else md_finish M c) = (0, digest_of k m, c')
             \<and> (if k then md_hmac_reset M c' else md_starts M c') = (0, c'') \<and> repr k c'' [])
        \<and> md_get_size M c = length (digest_of k m))"

definition fed :: "(bool \<Rightarrow> 'c \<Rightarrow> u8 list \<Rightarrow> bool) \<Rightarrow> uptr \<Rightarrow> 'c mb_state \<Rightarrow> bool \<Rightarrow> u8 list \<Rightarrow> bool" where
  "fed repr a s k m \<longleftrightarrow> (\<exists>d. digests s a = Some d \<and> use_hmac d = k \<and> repr k (ctx d) m)"

lemma hash_data_feeds:
  assumes laws: "lawful M repr digest_of" and "fed repr a s k m" and "in_bounds (m_osi s) (bv, start, n)"
  shows "\<exists>s'. hash_data E M a bv start n s = Some (Sfalse, s') \<and> fed repr a s' k (m @ region_bytes (m_osi s) (bv, start, n)) \<and> m_osi s' = m_osi s"
proof -
  obtain i where bv: "bv = Sbytevector i" using assms(3) by (cases bv) (auto simp: in_bounds_def)
  have len: "unat start + unat n \<le> length (bytevectors (m_osi s) i)" "length (bytevectors (m_osi s) i) < 2 ^ 63"
    using assms(3) bv by (auto simp: in_bounds_def Sbytevector_length_def)
  obtain d where d: "digests s a = Some d" "use_hmac d = k" "repr k (ctx d) m" using assms(2) by (auto simp: fed_def)
  let ?bs = "take (unat n) (drop (unat start) (bytevectors (m_osi s) i))"
  obtain c' where c': "(if k then md_hmac_update M ?bs (ctx d) else md_update M ?bs (ctx d)) = (0, c')" "repr k c' (m @ ?bs)"
    using laws d(3) unfolding lawful_def by blast
  show ?thesis
  proof (cases "n = 0")
    case True
    then show ?thesis using assms(2) in_bounds_check [OF len] by (simp add: hash_data_def bv Sbytevector_length_def region_bytes_def)
  next
    case False
    then show ?thesis using d c' in_bounds_check [OF len] len(1)
      by (simp add: hash_data_def bv Sbytevector_length_def bytevector_data_def ON_ERR_def region_bytes_def fed_def)
  qed
qed

lemma get_digest_returns:
  assumes laws: "lawful M repr digest_of" and fed: "fed repr a s k m"
  shows "\<exists>s'. get_digest E M a i s = Some (Sbytevector i, s') \<and> bytevectors (m_osi s') i = digest_of k m \<and> fed repr a s' k []"
proof -
  obtain d where d: "digests s a = Some d" "use_hmac d = k" "repr k (ctx d) m" using fed by (auto simp: fed_def)
  obtain c' c'' where "(if k then md_hmac_finish M (ctx d) else md_finish M (ctx d)) = (0, digest_of k m, c')"
    "(if k then md_hmac_reset M c' else md_starts M c') = (0, c'')" "repr k c'' []" using laws d(3) unfolding lawful_def by blast
  moreover have "md_get_size M (ctx d) = length (digest_of k m)" using laws d(3) unfolding lawful_def by blast
  ultimately show ?thesis using d by (simp add: get_digest_def ON_ERR_def Let_def fed_def)
qed

end
