(* ===== verification/Sqlite_Varint.thy ===== *)
theory Sqlite_Varint
  imports Prelude
begin

text \<open>
  The variable-length integers of the SQLite file format (\<^verbatim>\<open>sqlite/sqlite3.c\<close>, part \<^verbatim>\<open>util.c\<close>): writing
  them, reading them with the unrolled 32-bit arithmetic of the source, and the format itself as a
  byte-by-byte reference. A buffer is the list of the bytes from the pointer to the end of the object it
  points into.
\<close>

section \<open>Writing\<close>

definition store :: "u8 list \<Rightarrow> nat \<Rightarrow> u8 \<Rightarrow> u8 list option" where
  "store p i b = (if i < length p then Some (p[i := b]) else None)"

text \<open>The loop \<^verbatim>\<open>for(i=7; i>=0; i--)\<close>; the argument is \<^verbatim>\<open>i+1\<close>.\<close>

fun put_down :: "nat \<Rightarrow> u64 \<Rightarrow> u8 list \<Rightarrow> u8 list option" where
  "put_down 0 v p = Some p"
| "put_down (Suc i) v p = store p i (ucast ((v AND 0x7f) OR 0x80)) \<bind> put_down i (drop_bit 7 v)"

lemma unat_drop_bit_7: "unat (drop_bit 7 (v :: u64)) = unat v div 128"
  by (simp only: unat_drop_bit_eq) (simp add: drop_bit_eq_div)

lemma drop_bit_decreases: "drop_bit 7 v \<noteq> 0 \<Longrightarrow> unat (drop_bit 7 (v :: u64)) < unat v"
  by (cases "v = 0") (simp_all add: unat_drop_bit_7 unat_gt_0 word_gt_0)

text \<open>The loop that fills \<^verbatim>\<open>buf\<close>, least significant group first.\<close>

function varint_groups :: "u64 \<Rightarrow> u8 list" where
  "varint_groups v = ucast ((v AND 0x7f) OR 0x80) # (if drop_bit 7 v \<noteq> 0 then varint_groups (drop_bit 7 v) else [])"
  by pat_completeness auto
termination by (relation "measure unat") (simp_all add: drop_bit_decreases)

declare varint_groups.simps [simp del]

text \<open>The loop \<^verbatim>\<open>for(i=0, j=n-1; j>=0; j--, i++)\<close>; the first argument is \<^verbatim>\<open>j+1\<close>.\<close>

fun copy_back :: "nat \<Rightarrow> nat \<Rightarrow> u8 list \<Rightarrow> u8 list \<Rightarrow> u8 list option" where
  "copy_back 0 i buf p = Some p"
| "copy_back (Suc j) i buf p = store p i (buf ! j) \<bind> copy_back j (Suc i) buf"

definition putVarint64 :: "u8 list \<Rightarrow> u64 \<Rightarrow> (nat \<times> u8 list) option" where
  "putVarint64 p v =
     (if v AND push_bit 32 0xff000000 \<noteq> 0 then do {
        p \<leftarrow> store p 8 (ucast v);
        p \<leftarrow> put_down 8 (drop_bit 8 v) p;
        Some (9, p) }
      else let buf = varint_groups v; n = length buf; buf = buf[0 := buf ! 0 AND 0x7f]
        in if n \<le> 9 then map_option (Pair n) (copy_back n 0 buf p) else None)"

definition sqlite3PutVarint :: "u8 list \<Rightarrow> u64 \<Rightarrow> (nat \<times> u8 list) option" where
  "sqlite3PutVarint p v =
     (if v \<le> 0x7f then map_option (Pair 1) (store p 0 (ucast (v AND 0x7f)))
      else if v \<le> 0x3fff then do {
        p \<leftarrow> store p 0 (ucast ((drop_bit 7 v AND 0x7f) OR 0x80));
        p \<leftarrow> store p 1 (ucast (v AND 0x7f));
        Some (2, p) }
      else putVarint64 p v)"

text \<open>The loop counts until nothing is left; \<open>i\<close> is its counter.\<close>

function varint_len :: "nat \<Rightarrow> u64 \<Rightarrow> nat" where
  "varint_len i v = (let v = drop_bit 7 v in if v \<noteq> 0 then varint_len (Suc i) v else i)"
  by pat_completeness auto
termination by (relation "measure (unat \<circ> snd)") (simp_all add: drop_bit_decreases)

declare varint_len.simps [simp del]

definition sqlite3VarintLen :: "u64 \<Rightarrow> nat" where
  "sqlite3VarintLen v = varint_len 1 v"

section \<open>Reading\<close>

definition fetch :: "u8 list \<Rightarrow> nat \<Rightarrow> u8 option" where
  "fetch p i = (if i < length p then Some (p ! i) else None)"

abbreviation SLOT_2_0 :: u32 where "SLOT_2_0 \<equiv> 0x001fc07f"
abbreviation SLOT_4_2_0 :: u32 where "SLOT_4_2_0 \<equiv> 0xf01fc07f"

definition sqlite3GetVarint :: "u8 list \<Rightarrow> (nat \<times> u64) option" where
  "sqlite3GetVarint p = do {
     p0 \<leftarrow> fetch p 0;
     if 0 \<le> sint p0 then Some (1, ucast p0) else do {
     p1 \<leftarrow> fetch p 1;
     if 0 \<le> sint p1 then Some (2, ucast (push_bit 7 (ucast (p0 AND 0x7f)) OR ucast p1 :: u32)) else do {
     let a = push_bit 14 (ucast p0 :: u32);
     let b = (ucast p1 :: u32);
     p2 \<leftarrow> fetch p 2;
     let a = a OR ucast p2;
     if a AND 0x80 = 0 then (let a = a AND SLOT_2_0; b = b AND 0x7f; b = push_bit 7 b; a = a OR b in Some (3, ucast a)) else do {
     let a = a AND SLOT_2_0;
     p3 \<leftarrow> fetch p 3;
     let b = push_bit 14 b;
     let b = b OR ucast p3;
     if b AND 0x80 = 0 then (let b = b AND SLOT_2_0; a = push_bit 7 a; a = a OR b in Some (4, ucast a)) else do {
     let b = b AND SLOT_2_0;
     let s = a;
     p4 \<leftarrow> fetch p 4;
     let a = push_bit 14 a;
     let a = a OR ucast p4;
     if a AND 0x80 = 0 then (let b = push_bit 7 b; a = a OR b; s = drop_bit 18 s in Some (5, push_bit 32 (ucast s) OR ucast a)) else do {
     let s = push_bit 7 s;
     let s = s OR b;
     p5 \<leftarrow> fetch p 5;
     let b = push_bit 14 b;
     let b = b OR ucast p5;
     if b AND 0x80 = 0 then (let a = a AND SLOT_2_0; a = push_bit 7 a; a = a OR b; s = drop_bit 18 s in Some (6, push_bit 32 (ucast s) OR ucast a)) else do {
     p6 \<leftarrow> fetch p 6;
     let a = push_bit 14 a;
     let a = a OR ucast p6;
     if a AND 0x80 = 0 then (let a = a AND SLOT_4_2_0; b = b AND SLOT_2_0; b = push_bit 7 b; a = a OR b; s = drop_bit 11 s in Some (7, push_bit 32 (ucast s) OR ucast a)) else do {
     let a = a AND SLOT_2_0;
     p7 \<leftarrow> fetch p 7;
     let b = push_bit 14 b;
     let b = b OR ucast p7;
     if b AND 0x80 = 0 then (let b = b AND SLOT_4_2_0; a = push_bit 7 a; a = a OR b; s = drop_bit 4 s in Some (8, push_bit 32 (ucast s) OR ucast a)) else do {
     p8 \<leftarrow> fetch p 8;
     let a = push_bit 15 a;
     let a = a OR ucast p8;
     let b = b AND SLOT_2_0;
     let b = push_bit 8 b;
     let a = a OR b;
     let s = push_bit 4 s;
     b \<leftarrow> map_option ucast (fetch p 4);
     let b = b AND 0x7f;
     let b = drop_bit 3 b;
     let s = s OR b;
     Some (9, push_bit 32 (ucast s) OR ucast a) }}}}}}}}}"

text \<open>The single-byte case has been handled by the macro \<^verbatim>\<open>getVarint32\<close>; the function asserts so.\<close>

definition sqlite3GetVarint32 :: "u8 list \<Rightarrow> (nat \<times> u32) option" where
  "sqlite3GetVarint32 p = do {
     p0 \<leftarrow> fetch p 0;
     if p0 AND 0x80 = 0 then None else do {
     p1 \<leftarrow> fetch p 1;
     if p1 AND 0x80 = 0 then Some (2, push_bit 7 (ucast (p0 AND 0x7f)) OR ucast p1) else do {
     p2 \<leftarrow> fetch p 2;
     if p2 AND 0x80 = 0 then Some (3, push_bit 14 (ucast (p0 AND 0x7f)) OR push_bit 7 (ucast (p1 AND 0x7f)) OR ucast p2) else do {
     (n, v64) \<leftarrow> sqlite3GetVarint p;
     if \<not> (n > 3 \<and> n \<le> 9) then None
     else if v64 AND 0xffffffff \<noteq> v64 then Some (n, 0xffffffff)
     else Some (n, ucast v64) }}}}"

definition getVarint32 :: "u8 list \<Rightarrow> (nat \<times> u32) option" where
  "getVarint32 p = do {
     p0 \<leftarrow> fetch p 0;
     if p0 < 0x80 then Some (1, ucast p0) else sqlite3GetVarint32 p }"

section \<open>The format\<close>

text \<open>
  Seven bits a byte, most significant first, the top bit of a byte tells that another follows; a ninth byte
  holds eight bits. \<open>k\<close> bytes have been read so far, with value \<open>acc\<close>.
\<close>

fun varint_ref :: "nat \<Rightarrow> u64 \<Rightarrow> u8 list \<Rightarrow> (nat \<times> u64) option" where
  "varint_ref k acc [] = None"
| "varint_ref k acc (b # bs) =
     (if k = 8 then Some (9, push_bit 8 acc OR ucast b)
      else if bit b 7 then varint_ref (Suc k) (push_bit 7 acc OR (ucast b AND 0x7f)) bs
      else Some (Suc k, push_bit 7 acc OR ucast b))"


section \<open>Reading follows the format\<close>

lemma sint_nonneg_iff: "0 \<le> sint (b :: u8) \<longleftrightarrow> \<not> bit b 7"
  using bit_last_iff [of b] by (simp add: not_less [symmetric])

lemma and_0x80_iff: "(x :: u32) AND 0x80 = 0 \<longleftrightarrow> \<not> bit x 7"
  using and_exp_eq_0_iff_not_bit [of x 7] by simp

lemma bit_u8_high [simp]: "8 \<le> n \<Longrightarrow> \<not> bit (b :: u8) n"
  using impossible_bit [of n b] by auto

lemma bit_u64_high [simp]: "64 \<le> n \<Longrightarrow> \<not> bit (b :: u64) n"
  using impossible_bit [of n b] by auto

text \<open>Equality of two words, position by position.\<close>

definition positions :: "nat list" where
  "positions =
    [0, 1, 2, 3, 4, 5, 6, 7, 8, 9, 10, 11, 12, 13, 14, 15, 16, 17, 18, 19, 20, 21, 22, 23, 24, 25, 26, 27, 28, 29,
     30, 31, 32, 33, 34, 35, 36, 37, 38, 39, 40, 41, 42, 43, 44, 45, 46, 47, 48, 49, 50, 51, 52, 53, 54, 55, 56,
     57, 58, 59, 60, 61, 62, 63]"

lemma u64_eq_iff: "x = y \<longleftrightarrow> list_all (\<lambda>n. bit (x :: u64) n = bit y n) positions"
proof -
  have pos: "positions = [0..<64]" by code_simp
  have "x = y" if "list_all (\<lambda>n. bit x n = bit y n) positions"
    by (rule bit_word_eqI) (use that in \<open>simp add: pos list_all_iff\<close>)
  then show ?thesis by (auto simp: list_all_iff)
qed

lemmas by_positions = u64_eq_iff positions_def bit_simps

lemma varint_ref_at:
  "varint_ref k acc (drop k p) = fetch p k \<bind> (\<lambda>b.
     if k = 8 then Some (9, push_bit 8 acc OR ucast b)
     else if \<not> bit b 7 then Some (Suc k, push_bit 7 acc OR ucast b)
     else varint_ref (Suc k) (push_bit 7 acc OR (ucast b AND 0x7f)) (drop (Suc k) p))"
  by (cases "k < length p") (simp_all add: fetch_def Cons_nth_drop_Suc [symmetric])

lemma varint_ref_next:
  "Suc k = k' \<Longrightarrow> k \<noteq> 8 \<Longrightarrow> varint_ref k acc (drop k p) = fetch p k \<bind> (\<lambda>b.
     if \<not> bit b 7 then Some (k', push_bit 7 acc OR ucast b)
     else varint_ref k' (push_bit 7 acc OR (ucast b AND 0x7f)) (drop k' p))"
  by (subst varint_ref_at) (auto cong: if_cong)

lemma varint_ref_last: "varint_ref 8 acc (drop 8 p) = fetch p 8 \<bind> (\<lambda>b. Some (9, push_bit 8 acc OR ucast b))"
  by (subst varint_ref_at) simp

lemma nine_steps:
  "Suc 0 = 1" "Suc 1 = 2" "Suc 2 = 3" "Suc 3 = 4" "Suc 4 = 5" "Suc 5 = 6" "Suc 6 = 7" "Suc 7 = 8"
  "(0 :: nat) \<noteq> 8" "(1 :: nat) \<noteq> 8" "(2 :: nat) \<noteq> 8" "(3 :: nat) \<noteq> 8" "(4 :: nat) \<noteq> 8" "(5 :: nat) \<noteq> 8" "(6 :: nat) \<noteq> 8" "(7 :: nat) \<noteq> 8"
  by simp_all

lemmas varint_ref_unfold = varint_ref_next [OF nine_steps(1,9)] varint_ref_next [OF nine_steps(2,10)] varint_ref_next [OF nine_steps(3,11)]
  varint_ref_next [OF nine_steps(4,12)] varint_ref_next [OF nine_steps(5,13)] varint_ref_next [OF nine_steps(6,14)]
  varint_ref_next [OF nine_steps(7,15)] varint_ref_next [OF nine_steps(8,16)] varint_ref_last

lemma sqlite3GetVarint_ref: "sqlite3GetVarint p = varint_ref 0 0 p"
proof -
  have "sqlite3GetVarint p = varint_ref 0 0 (drop 0 p)"
    unfolding sqlite3GetVarint_def Let_def varint_ref_unfold
    by (intro Option.bind_cong refl if_cong) (simp_all add: sint_nonneg_iff and_0x80_iff by_positions)
  then show ?thesis by simp
qed

section \<open>Writing follows the format\<close>

text \<open>The \<open>m\<close> groups of seven bits of \<open>v\<close>, most significant first, each with the top bit set.\<close>

fun groups :: "nat \<Rightarrow> u64 \<Rightarrow> u8 list" where
  "groups 0 v = []"
| "groups (Suc m) v = groups m (drop_bit 7 v) @ [ucast ((v AND 0x7f) OR 0x80)]"

lemma length_groups [simp]: "length (groups m v) = m"
  by (induction m arbitrary: v) auto

lemma put_down_groups: "n \<le> length p \<Longrightarrow> put_down n v p = Some (groups n v @ drop n p)"
proof (induction n arbitrary: v p)
  case (Suc n)
  then have "put_down (Suc n) v p = Some (groups n (drop_bit 7 v) @ drop n (p[n := ucast ((v AND 0x7f) OR 0x80)]))"
    by (simp add: store_def)
  moreover have "drop n (p[n := b]) = b # drop (Suc n) p" for b
    using Suc.prems by (simp add: drop_update_swap Cons_nth_drop_Suc [symmetric])
  ultimately show ?case by simp
qed simp

lemma put_down_short: "length p < n \<Longrightarrow> put_down n v p = None"
  by (cases n) (simp_all add: store_def)

lemma copy_back_all:
  "copy_back n i buf p = (if n = 0 \<or> i + n \<le> length p then Some (take i p @ rev (take n buf) @ drop (i + n) p) else None)" if "n \<le> length buf"
  using that
proof (induction n arbitrary: i p)
  case (Suc n)
  show ?case
  proof (cases "i + Suc n \<le> length p")
    case True
    then show ?thesis using Suc by (simp add: store_def take_Suc_conv_app_nth)
  next
    case False
    then show ?thesis using Suc.IH [of "Suc i" "p[i := buf ! n]"] Suc.prems by (cases "n = 0") (auto simp: store_def)
  qed
qed simp

lemma low_seven: "(v :: u64) AND 0x7f = take_bit 7 v"
  by (simp add: take_bit_eq_mask mask_eq_exp_minus_1)

lemma varint_ref_groups:
  "k + m \<le> 8 \<Longrightarrow> varint_ref k acc (groups m v @ rest) = varint_ref (k + m) (push_bit (7 * m) acc OR take_bit (7 * m) v) rest"
proof (induction m arbitrary: v rest)
  case (Suc m)
  let ?g = "ucast ((v AND 0x7f) OR 0x80) :: u8"
  have top: "bit ?g 7" and low: "(ucast ?g :: u64) AND 0x7f = v AND 0x7f" by (simp_all add: by_positions)
  have "push_bit 7 (push_bit (7 * m) acc OR take_bit (7 * m) (drop_bit 7 v)) OR (v AND 0x7f)
      = push_bit (7 * Suc m) acc OR take_bit (7 * Suc m) v"
    unfolding low_seven by (rule bit_word_eqI) (auto simp: bit_simps)
  then show ?case using Suc top low by simp
qed simp

lemma varint_groups_rev: "rev (varint_groups v) = groups (length (varint_groups v)) v"
  by (induction v rule: varint_groups.induct) (subst varint_groups.simps, subst (2) varint_groups.simps, simp)

lemma varint_groups_small:
  "unat v < 128 ^ m \<Longrightarrow> m > 0 \<Longrightarrow> length (varint_groups v) \<le> m"
proof (induction m arbitrary: v)
  case (Suc m)
  show ?case
  proof (cases "drop_bit 7 v = 0")
    case False
    then have "unat v div 128 > 0" using unat_drop_bit_7 [of v] by (metis gr0I unat_eq_zero)
    with Suc.prems have "m > 0" by (cases m) auto
    moreover have "unat (drop_bit 7 v) < 128 ^ m" using Suc.prems by (simp add: unat_drop_bit_7 less_mult_imp_div_less mult.commute)
    ultimately show ?thesis using Suc.IH by (subst varint_groups.simps) simp
  qed (subst varint_groups.simps, simp)
qed simp

lemma varint_groups_large: "unat v < 128 ^ length (varint_groups v)"
proof (induction v rule: varint_groups.induct)
  case (1 v)
  show ?case
  proof (cases "drop_bit 7 v = 0")
    case True
    then have "unat v div 128 = 0" using unat_drop_bit_7 [of v] by simp
    then have "unat v < 128" by (simp add: div_eq_0_iff)
    then show ?thesis using True by (subst varint_groups.simps) simp
  next
    case False
    then have "unat v div 128 < 128 ^ length (varint_groups (drop_bit 7 v))" using 1 unat_drop_bit_7 [of v] by simp
    then have "unat v < 128 * 128 ^ length (varint_groups (drop_bit 7 v))"
      by (simp add: div_less_iff_less_mult mult.commute)
    then show ?thesis using False by (subst varint_groups.simps) simp
  qed
qed

lemma varint_len_groups: "varint_len (Suc i) v = i + length (varint_groups v)"
proof (induction v arbitrary: i rule: varint_groups.induct)
  case (1 v)
  then show ?case by (subst varint_len.simps, subst varint_groups.simps) (simp add: Let_def)
qed

text \<open>The bytes of \<open>v\<close> in the format.\<close>

definition varint_bytes :: "u64 \<Rightarrow> u8 list" where
  "varint_bytes v =
     (if unat v < 2 ^ 56 then groups (length (varint_groups v) - 1) (drop_bit 7 v) @ [ucast (v AND 0x7f)]
      else groups 8 (drop_bit 8 v) @ [ucast v])"

lemma varint_groups_nonempty [simp]: "varint_groups v \<noteq> []"
  by (subst varint_groups.simps) simp

lemma length_varint_groups_pos: "0 < length (varint_groups v)"
  by simp

lemma large_iff: "v AND push_bit 32 0xff000000 = (0 :: u64) \<longleftrightarrow> unat v < 2 ^ 56"
proof -
  have "v AND push_bit 32 0xff000000 = 0 \<longleftrightarrow> drop_bit 56 v = 0" by (simp add: by_positions)
  moreover have "unat (drop_bit 56 v) = unat v div 2 ^ 56" by (simp only: unat_drop_bit_eq) (simp add: drop_bit_eq_div)
  ultimately show ?thesis by (metis div_eq_0_iff unat_eq_zero zero_neq_numeral power_not_zero unsigned_0)
qed

lemma low_byte: "(ucast ((v AND 0x7f) OR 0x80 :: u64) :: u8) AND 0x7f = ucast (v AND 0x7f)"
  by (rule bit_word_eqI) (auto simp: bit_simps numeral_eq_Suc less_Suc_eq)

lemma putVarint64_bytes:
  "putVarint64 p v = (let bs = varint_bytes v in if length bs \<le> length p then Some (length bs, bs @ drop (length bs) p) else None)"
proof (cases "unat v < 2 ^ 56")
  case True
  let ?b = "varint_groups v"
  obtain m where m: "length ?b = Suc m" using length_varint_groups_pos [of v] by (cases "length ?b") auto
  have "Suc m \<le> 8" using varint_groups_small [of v 8] True m by simp
  obtain g gs where b: "?b = g # gs" using m by (cases ?b) auto
  have "rev gs @ [g] = groups m (drop_bit 7 v) @ [ucast ((v AND 0x7f) OR 0x80)]"
    using varint_groups_rev [of v] by (simp add: b m del: groups.simps) (use m b in simp)
  then have "rev gs = groups m (drop_bit 7 v)" "g = ucast ((v AND 0x7f) OR 0x80)" by simp_all
  then have "rev (?b[0 := ?b ! 0 AND 0x7f]) = varint_bytes v" "length (varint_bytes v) = Suc m"
    using True m by (simp_all add: b varint_bytes_def low_byte)
  then show ?thesis using True m \<open>Suc m \<le> 8\<close> copy_back_all [of "Suc m" "?b[0 := ?b ! 0 AND 0x7f]" 0 p]
    by (simp add: putVarint64_def large_iff [simplified] Let_def)
next
  case False
  then have n: "length (varint_bytes v) = 9" by (simp add: varint_bytes_def)
  show ?thesis
  proof (cases "9 \<le> length p")
    case True
    have "drop 8 (p[8 := ucast v]) = ucast v # drop 9 p"
      using True by (simp add: drop_update_swap Cons_nth_drop_Suc [symmetric])
    then show ?thesis using True False n
      by (simp add: putVarint64_def large_iff [simplified] store_def put_down_groups varint_bytes_def Let_def)
  next
    case short: False
    then show ?thesis using False n by (simp add: putVarint64_def large_iff [simplified] store_def Let_def)
  qed
qed

lemma sqlite3PutVarint_bytes:
  "sqlite3PutVarint p v = (let bs = varint_bytes v in if length bs \<le> length p then Some (length bs, bs @ drop (length bs) p) else None)"
proof -
  have small: "drop_bit 7 v = 0 \<longleftrightarrow> v \<le> 0x7f" "drop_bit 7 (drop_bit 7 v) = 0 \<longleftrightarrow> v \<le> 0x3fff"
  proof -
    have "drop_bit 7 v = 0 \<longleftrightarrow> unat v div 128 = 0" "drop_bit 7 (drop_bit 7 v) = 0 \<longleftrightarrow> unat v div 128 div 128 = 0"
      using unat_drop_bit_7 unat_eq_zero by metis+
    then show "drop_bit 7 v = 0 \<longleftrightarrow> v \<le> 0x7f" "drop_bit 7 (drop_bit 7 v) = 0 \<longleftrightarrow> v \<le> 0x3fff"
      by (simp_all add: word_le_nat_alt div_eq_0_iff less_eq_Suc_le [symmetric] div_mult2_eq [symmetric]) linarith+
  qed
  consider (one) "v \<le> 0x7f" | (two) "\<not> v \<le> 0x7f" "v \<le> 0x3fff" | (more) "\<not> v \<le> 0x7f" "\<not> v \<le> 0x3fff" by blast
  then show ?thesis
  proof cases
    case one
    then have "unat v < 2 ^ 56" "varint_groups v = [ucast ((v AND 0x7f) OR 0x80)]"
      using small by (auto simp: word_le_nat_alt varint_groups.simps [of v])
    then show ?thesis using one by (cases p) (simp_all add: sqlite3PutVarint_def varint_bytes_def store_def)
  next
    case two
    then have "unat v < 2 ^ 56" "length (varint_groups v) = 2"
      using small by (auto simp: word_le_nat_alt varint_groups.simps [of v] varint_groups.simps [of "drop_bit 7 v"])
    then show ?thesis using two by (cases p; cases "tl p") (simp_all add: sqlite3PutVarint_def varint_bytes_def store_def)
  next
    case more
    then show ?thesis using putVarint64_bytes by (simp add: sqlite3PutVarint_def)
  qed
qed

lemma varint_bytes_decoded: "varint_ref 0 0 (varint_bytes v @ rest) = Some (length (varint_bytes v), v)"
proof (cases "unat v < 2 ^ 56")
  case True
  obtain m where m: "length (varint_groups v) = Suc m" using length_varint_groups_pos [of v] by (cases "length (varint_groups v)") auto
  have "m < 8" using varint_groups_small [of v 8] True m by simp
  have "unat v < 128 ^ Suc m" using varint_groups_large [of v] m by simp
  moreover have "(2 :: nat) ^ (7 * m) = 128 ^ m" by (simp only: power_mult) simp
  ultimately have "unat (drop_bit 7 v) < 2 ^ (7 * m)" by (simp add: unat_drop_bit_7 div_less_iff_less_mult mult.commute)
  then have "take_bit (7 * m) (drop_bit 7 v) = drop_bit 7 v"
    by (simp only: word_unat_eq_iff unsigned_take_bit_eq take_bit_nat_eq_self)
  moreover have "push_bit 7 (drop_bit 7 v) OR ucast (ucast (v AND 0x7f) :: u8) = v" "\<not> bit (ucast (v AND 0x7f) :: u8) 7"
    by (simp_all add: by_positions)
  ultimately show ?thesis using True m \<open>m < 8\<close> by (simp add: varint_bytes_def varint_ref_groups)
next
  case False
  have "push_bit 8 (take_bit 56 (drop_bit 8 v)) OR ucast (ucast v :: u8) = v" by (simp add: by_positions)
  then show ?thesis using False by (simp add: varint_bytes_def varint_ref_groups)
qed

lemma length_varint_bytes: "length (varint_bytes v) = min 9 (sqlite3VarintLen v)"
proof (cases "unat v < 2 ^ 56")
  case True
  then show ?thesis using varint_groups_small [of v 8] varint_len_groups [of 0 v]
    by (simp add: varint_bytes_def sqlite3VarintLen_def)
next
  case False
  have "\<not> length (varint_groups v) \<le> 8"
  proof
    assume "length (varint_groups v) \<le> 8"
    then have "(128 :: nat) ^ length (varint_groups v) \<le> 128 ^ 8" by (intro power_increasing) simp_all
    with varint_groups_large [of v] False show False by simp
  qed
  then show ?thesis using False varint_len_groups [of 0 v] by (simp add: varint_bytes_def sqlite3VarintLen_def)
qed

text \<open>C33: Integers survive the file format: \<^verbatim>\<open>sqlite3PutVarint\<close> needs as many bytes as \<^verbatim>\<open>sqlite3VarintLen\<close> says,
  but never more than nine; with a shorter buffer it would write past the end. Otherwise it writes these bytes and
  no others, and \<^verbatim>\<open>sqlite3GetVarint\<close> reads the same integer back and consumes the same number of bytes, whatever follows them.\<close>

theorem varint_roundtrip:
  "(let n = min 9 (sqlite3VarintLen v)
    in length p < n \<and> sqlite3PutVarint p v = None
       \<or> n \<le> length p \<and> (\<exists>p'. sqlite3PutVarint p v = Some (n, p') \<and> length p' = length p \<and> drop n p' = drop n p
            \<and> sqlite3GetVarint p' = Some (n, v)))"
  using varint_bytes_decoded [of v] length_varint_bytes [of v]
  by (cases "length (varint_bytes v) \<le> length p") (auto simp: sqlite3PutVarint_bytes sqlite3GetVarint_ref Let_def)

section \<open>Reading 32 bits\<close>

lemma u8_top: "(b :: u8) AND 0x80 = 0 \<longleftrightarrow> \<not> bit b 7" "(b :: u8) < 0x80 \<longleftrightarrow> \<not> bit b 7"
proof -
  show "b AND 0x80 = 0 \<longleftrightarrow> \<not> bit b 7" using and_exp_eq_0_iff_not_bit [of b 7] by simp
  have "bit b 7 \<longleftrightarrow> bit (unat b) 7" by (simp add: bit_unsigned_iff)
  then have "bit b 7 \<longleftrightarrow> odd (unat b div 128)" by (simp add: bit_iff_odd)
  moreover have "unat b div 128 < 2" using unsigned_less [of b, where ?'a = nat] by (simp add: div_less_iff_less_mult)
  ultimately show "b < 0x80 \<longleftrightarrow> \<not> bit b 7" by (auto simp: word_less_nat_alt less_2_cases_iff div_eq_0_iff)
qed

lemma fits_iff: "(v :: u64) AND 0xffffffff = v \<longleftrightarrow> unat v < 2 ^ 32"
proof -
  have "v AND 0xffffffff = take_bit 32 v" by (simp add: take_bit_eq_mask mask_eq_exp_minus_1)
  then show ?thesis by (simp only: word_unat_eq_iff unsigned_take_bit_eq take_bit_nat_eq_self_iff)
qed

definition clamp :: "u64 \<Rightarrow> u32" where
  "clamp v = (if unat v < 2 ^ 32 then ucast v else 0xffffffff)"

lemma u32_eq_iff: "x = y \<longleftrightarrow> (ucast x :: u64) = ucast (y :: u32)"
proof
  assume eq: "(ucast x :: u64) = ucast y"
  show "x = y"
  proof (rule bit_word_eqI)
    fix n
    assume "n < LENGTH(32)"
    then show "bit x n = bit y n" using arg_cong [OF eq, of "\<lambda>w. bit w n"] by (simp add: bit_simps)
  qed
qed simp

lemma short_fits:
  "unat (ucast (p0 :: u8) :: u64) < 2 ^ 32"
  "unat (push_bit 7 (ucast (p0 :: u8) AND 0x7f) OR ucast (p1 :: u8) :: u64) < 2 ^ 32"
  "unat (push_bit 7 (push_bit 7 (ucast p0 AND 0x7f) OR (ucast p1 AND 0x7f)) OR ucast (p2 :: u8) :: u64) < 2 ^ 32"
  by (simp_all only: fits_iff [symmetric]) (simp_all add: by_positions)

lemma varint_ref_count: "varint_ref k acc bs = Some (n, v) \<Longrightarrow> k \<le> 8 \<Longrightarrow> k < n \<and> n \<le> 9"
  by (induction k acc bs rule: varint_ref.induct) (auto split: if_splits)

lemma clamp_short:
  "\<not> bit p0 7 \<Longrightarrow> clamp (ucast (p0 :: u8)) = ucast p0"
  "\<not> bit p1 7 \<Longrightarrow> clamp (push_bit 7 (ucast p0 AND 0x7f) OR ucast (p1 :: u8)) = push_bit 7 (ucast (p0 AND 0x7f)) OR ucast p1"
  "\<not> bit p2 7 \<Longrightarrow> clamp (push_bit 7 (push_bit 7 (ucast p0 AND 0x7f) OR (ucast p1 AND 0x7f)) OR ucast (p2 :: u8))
     = push_bit 14 (ucast (p0 AND 0x7f)) OR push_bit 7 (ucast (p1 AND 0x7f)) OR ucast p2"
  using short_fits(1) [of p0] short_fits(2) [of p0 p1] short_fits(3) [of p0 p1 p2]
  by (simp_all only: clamp_def if_True) (simp_all add: u32_eq_iff by_positions)

lemma getVarint32_ref: "getVarint32 p = map_option (\<lambda>(n, v). (n, clamp v)) (varint_ref 0 0 p)"
proof -
  consider (empty) "p = []" | (one) p0 q where "p = p0 # q" "\<not> bit p0 7" | (cut1) p0 where "p = [p0]" "bit p0 7"
    | (two) p0 p1 q where "p = p0 # p1 # q" "bit p0 7" "\<not> bit p1 7" | (cut2) p0 p1 where "p = [p0, p1]" "bit p0 7" "bit p1 7"
    | (three) p0 p1 p2 q where "p = p0 # p1 # p2 # q" "bit p0 7" "bit p1 7" "\<not> bit p2 7"
    | (more) p0 p1 p2 q where "p = p0 # p1 # p2 # q" "bit p0 7" "bit p1 7" "bit p2 7"
    by (metis list.exhaust)
  then show ?thesis
  proof cases
    case more
    then obtain acc where ref: "varint_ref 0 0 p = varint_ref 3 acc q" by (simp add: numeral_3_eq_3)
    show ?thesis
    proof (cases "varint_ref 3 acc q")
      case None
      then show ?thesis using more ref by (simp add: getVarint32_def sqlite3GetVarint32_def sqlite3GetVarint_ref fetch_def u8_top)
    next
      case (Some r)
      obtain n v where r: "r = (n, v)" by (cases r)
      then have "3 < n" "n \<le> 9" using varint_ref_count [of 3 acc q n v] Some by simp_all
      then show ?thesis using more ref Some r
        by (simp add: getVarint32_def sqlite3GetVarint32_def sqlite3GetVarint_ref fetch_def u8_top clamp_def fits_iff)
    qed
  qed (simp_all add: getVarint32_def sqlite3GetVarint32_def fetch_def u8_top clamp_short [simplified])
qed

text \<open>C34: The reader of the file format is right for every sequence of bytes, well formed or not: its unrolled arithmetic on 32-bit
  halves computes what reading byte by byte does and it looks at no byte beyond those that belong to the integer. The
  32-bit version returns the same and the same length, with values that do not fit replaced by the largest.\<close>

theorem varint_readers_follow_format:
  "sqlite3GetVarint p = varint_ref 0 0 p \<and> getVarint32 p = map_option (\<lambda>(n, v). (n, clamp v)) (varint_ref 0 0 p)"
  using sqlite3GetVarint_ref getVarint32_ref by blast

text \<open>\<^verbatim>\<open>sqlite3VarintLen\<close> overstates the length of integers with the top bit set: nine bytes hold 64 bits, but nine groups of seven do not.\<close>

lemma varint_len_ten: "sqlite3VarintLen v = 10 \<longleftrightarrow> 2 ^ 63 \<le> unat v"
proof -
  have len: "sqlite3VarintLen v = length (varint_groups v)" using varint_len_groups [of 0 v] by (simp add: sqlite3VarintLen_def)
  have "length (varint_groups v) \<le> 10" using varint_groups_small [of v 10] unat_u64_less [of v] by simp
  moreover have "length (varint_groups v) \<le> 9" if "unat v < 2 ^ 63" using varint_groups_small [of v 9] that by simp
  moreover have "unat v < 2 ^ 63" if "length (varint_groups v) \<le> 9"
  proof -
    have "(128 :: nat) ^ length (varint_groups v) \<le> 128 ^ 9" using that by (intro power_increasing) simp_all
    then show ?thesis using varint_groups_large [of v] by simp
  qed
  ultimately show ?thesis unfolding len by fastforce
qed

end
