(* ===== verification/Sqlite_Rowset.thy ===== *)
theory Sqlite_Rowset
  imports Prelude "HOL-Library.Tree"
begin

text \<open>
  The row sets of SQLite (\<^verbatim>\<open>sqlite/sqlite3.c\<close>, part \<^verbatim>\<open>rowset.c\<close>): a set of rowids, kept as a list until it is read
  in order or tested, and as a forest of balanced trees for tests. An entry belongs to one list or one tree at a
  time, so that a list of entries linked by \<^verbatim>\<open>pRight\<close> is a list, a tree linked by \<^verbatim>\<open>pLeft\<close> and \<^verbatim>\<open>pRight\<close> a tree. Rowids
  are only compared, and are integers. An operation that may allocate has the answer of
  \<^verbatim>\<open>sqlite3DbMallocRawNN\<close> as an argument, \<^const>\<open>None\<close> when there is no memory. A failed assertion or a null
  pointer is \<^const>\<open>None\<close>.
\<close>

section \<open>The structure\<close>

abbreviation ROWSET_ENTRY_PER_CHUNK :: nat where "ROWSET_ENTRY_PER_CHUNK \<equiv> (1024 - 8) div 24"

abbreviation ROWSET_SORTED :: u16 where "ROWSET_SORTED \<equiv> 1"
abbreviation ROWSET_NEXT :: u16 where "ROWSET_NEXT \<equiv> 2"

text \<open>
  A chunk is its address; \<open>pFresh\<close> is a chunk and an index, \<open>pLast\<close> the value of the last entry, an element of
  \<open>pForest\<close> the tree of its entry, and \<open>mallocFailed\<close> the flag of the connection.
\<close>

record RowSet =
  pChunk :: "nat list"
  pEntry :: "int list"
  pLast :: "int option"
  pFresh :: "nat \<times> nat"
  pForest :: "int tree list"
  nFresh :: nat
  rsFlags :: u16
  iBatch :: int
  mallocFailed :: bool

text \<open>\<open>self\<close> is the address of the new object, \<open>N\<close> the usable size of its block. The object has 56 bytes, an entry 24.\<close>

definition rowset_new :: "nat \<Rightarrow> nat \<Rightarrow> RowSet" where
  "rowset_new self N =
     \<lparr>pChunk = [], pEntry = [], pLast = None, pFresh = (self, 0), pForest = [],
      nFresh = ((N - 56) div 24) mod 2 ^ 16, rsFlags = ROWSET_SORTED, iBatch = 0, mallocFailed = False\<rparr>"

text \<open>The argument is the block from the allocator, if there is memory.\<close>

definition sqlite3RowSetInit :: "(nat \<times> nat) option \<Rightarrow> RowSet option" where
  "sqlite3RowSetInit block = map_option (\<lambda>(self, N). rowset_new self N) block"

text \<open>The chunks that are freed, and the set.\<close>

definition sqlite3RowSetClear :: "RowSet \<Rightarrow> nat list \<times> RowSet" where
  "sqlite3RowSetClear p =
     (pChunk p, p\<lparr>pChunk := [], nFresh := 0, pEntry := [], pLast := None, pForest := [], rsFlags := ROWSET_SORTED\<rparr>)"

text \<open>All blocks that are freed.\<close>

definition sqlite3RowSetDelete :: "nat \<Rightarrow> RowSet \<Rightarrow> nat list" where
  "sqlite3RowSetDelete self p = fst (sqlite3RowSetClear p) @ [self]"

definition rowSetEntryAlloc :: "nat option \<Rightarrow> RowSet \<Rightarrow> (nat \<times> nat) option \<times> RowSet" where
  "rowSetEntryAlloc m p =
     (let r = (if nFresh p = 0 then
                 (case m of None \<Rightarrow> None
                  | Some a \<Rightarrow> Some (p\<lparr>pChunk := a # pChunk p, pFresh := (a, 0), nFresh := ROWSET_ENTRY_PER_CHUNK\<rparr>))
               else Some p)
      in case r of None \<Rightarrow> (None, p\<lparr>mallocFailed := True\<rparr>)
         | Some p \<Rightarrow> (Some (pFresh p), p\<lparr>nFresh := nFresh p - 1, pFresh := (fst (pFresh p), Suc (snd (pFresh p)))\<rparr>))"

definition sqlite3RowSetInsert :: "nat option \<Rightarrow> int \<Rightarrow> RowSet \<Rightarrow> RowSet option" where
  "sqlite3RowSetInsert m rowid p =
     (if rsFlags p AND ROWSET_NEXT \<noteq> 0 then None
      else case rowSetEntryAlloc m p of
        (None, p) \<Rightarrow> Some p
      | (Some _, p) \<Rightarrow> Some (case pLast p of
            Some l \<Rightarrow> p\<lparr>rsFlags := (if rowid \<le> l then rsFlags p AND NOT ROWSET_SORTED else rsFlags p),
                        pEntry := pEntry p @ [rowid], pLast := Some rowid\<rparr>
          | None \<Rightarrow> p\<lparr>pEntry := [rowid], pLast := Some rowid\<rparr>))"

section \<open>Sorting\<close>

fun rowSetEntryMerge :: "int list \<Rightarrow> int list \<Rightarrow> int list option" where
  "rowSetEntryMerge (a # as) (b # bs) =
     (if a \<le> b then
        let r = (if as = [] then Some (b # bs) else rowSetEntryMerge as (b # bs))
        in if a < b then map_option ((#) a) r else r
      else map_option ((#) b) (if bs = [] then Some (a # as) else rowSetEntryMerge (a # as) bs))"
| "rowSetEntryMerge _ _ = None"

text \<open>The inner loop: \<^verbatim>\<open>aBucket\<close> from the index \<^verbatim>\<open>i\<close> on; a null pointer is the empty list. Running off the array is undefined.\<close>

fun bucket_add :: "int list list \<Rightarrow> int list \<Rightarrow> int list list option" where
  "bucket_add [] p = None"
| "bucket_add (b # bs) p =
     (if b = [] then Some (p # bs)
      else rowSetEntryMerge b p \<bind> (\<lambda>p. map_option ((#) []) (bucket_add bs p)))"

fun sort_fill :: "int list \<Rightarrow> int list list \<Rightarrow> int list list option" where
  "sort_fill [] bs = Some bs"
| "sort_fill (x # xs) bs = bucket_add bs [x] \<bind> sort_fill xs"

fun sort_collect :: "int list \<Rightarrow> int list list \<Rightarrow> int list option" where
  "sort_collect p [] = Some p"
| "sort_collect p (b # bs) =
     (if b = [] then sort_collect p bs
      else if p \<noteq> [] then rowSetEntryMerge p b \<bind> (\<lambda>p. sort_collect p bs)
      else sort_collect b bs)"

definition rowSetEntrySort :: "int list \<Rightarrow> int list option" where
  "rowSetEntrySort pIn = do {
     aBucket \<leftarrow> sort_fill pIn (replicate 40 []);
     sort_collect (hd aBucket) (tl aBucket) }"

section \<open>Trees\<close>

fun rowSetTreeToList :: "int tree \<Rightarrow> int list option" where
  "rowSetTreeToList Leaf = None"
| "rowSetTreeToList (Node l v r) = do {
     first \<leftarrow> (if l \<noteq> Leaf then rowSetTreeToList l else Some []);
     rest \<leftarrow> (if r \<noteq> Leaf then rowSetTreeToList r else Some []);
     Some (first @ v # rest) }"

text \<open>The tree and the entries that are left; the second argument is \<^verbatim>\<open>iDepth - 1\<close>.\<close>

fun rowSetNDeepTree :: "int list \<Rightarrow> nat \<Rightarrow> int tree \<times> int list" where
  "rowSetNDeepTree [] d = (Leaf, [])"
| "rowSetNDeepTree (v # vs) (Suc d) =
     (case rowSetNDeepTree (v # vs) d of
        (pLeft, []) \<Rightarrow> (pLeft, [])
      | (pLeft, p # vs) \<Rightarrow> (case rowSetNDeepTree vs d of (pRight, vs) \<Rightarrow> (Node pLeft p pRight, vs)))"
| "rowSetNDeepTree (v # vs) 0 = (Node Leaf v Leaf, vs)"

lemma rowSetNDeepTree_inorder: "rowSetNDeepTree vs d = (t, rest) \<Longrightarrow> inorder t @ rest = vs"
  by (induction vs d arbitrary: t rest rule: rowSetNDeepTree.induct) (auto split: prod.splits list.splits)

lemma rowSetNDeepTree_length: "length (snd (rowSetNDeepTree vs d)) \<le> length vs"
  using rowSetNDeepTree_inorder [of vs d] by (cases "rowSetNDeepTree vs d") (auto dest: arg_cong [of _ _ length])

text \<open>The loop of \<^verbatim>\<open>rowSetListToTree\<close>; \<open>d\<close> is \<^verbatim>\<open>iDepth - 1\<close>.\<close>

function grow_tree :: "nat \<Rightarrow> int tree \<Rightarrow> int list \<Rightarrow> int tree" where
  "grow_tree d p [] = p"
| "grow_tree d p (v # vs) = (case rowSetNDeepTree vs d of (pRight, vs) \<Rightarrow> grow_tree (Suc d) (Node p v pRight) vs)"
  by pat_completeness auto
termination
proof (relation "measure (\<lambda>(d, p, vs). length vs)", simp_all)
  fix d v vs t rest
  assume "(t, rest) = rowSetNDeepTree vs d"
  then show "length rest < Suc (length vs)" using rowSetNDeepTree_length [of vs d] by (metis less_Suc_eq_le snd_conv)
qed

fun rowSetListToTree :: "int list \<Rightarrow> int tree option" where
  "rowSetListToTree [] = None"
| "rowSetListToTree (v # vs) = Some (grow_tree 0 (Node Leaf v Leaf) vs)"

section \<open>Reading and testing\<close>

text \<open>The rowid, if there is one.\<close>

definition sqlite3RowSetNext :: "RowSet \<Rightarrow> (int option \<times> RowSet) option" where
  "sqlite3RowSetNext p =
     (if pForest p \<noteq> [] then None
      else do {
        p \<leftarrow> (if rsFlags p AND ROWSET_NEXT = 0 then do {
                p \<leftarrow> (if rsFlags p AND ROWSET_SORTED = 0
                      then map_option (\<lambda>xs. p\<lparr>pEntry := xs\<rparr>) (rowSetEntrySort (pEntry p)) else Some p);
                Some (p\<lparr>rsFlags := rsFlags p OR (ROWSET_SORTED OR ROWSET_NEXT)\<rparr>) }
              else Some p);
        case pEntry p of
          v # vs \<Rightarrow> (let p = p\<lparr>pEntry := vs\<rparr> in Some (Some v, if pEntry p = [] then snd (sqlite3RowSetClear p) else p))
        | [] \<Rightarrow> Some (None, p) })"

text \<open>The loop that puts the entries into the forest; the second component is the list that found no place.\<close>

fun forest_place :: "int list \<Rightarrow> int tree list \<Rightarrow> (int tree list \<times> int list option) option" where
  "forest_place p [] = Some ([], Some p)"
| "forest_place p (t # ts) =
     (if t = Leaf then map_option (\<lambda>t. (t # ts, None)) (rowSetListToTree p)
      else do {
        pAux \<leftarrow> rowSetTreeToList t;
        p \<leftarrow> rowSetEntryMerge pAux p;
        (ts, rest) \<leftarrow> forest_place p ts;
        Some (Leaf # ts, rest) })"

fun tree_search :: "int tree \<Rightarrow> int \<Rightarrow> bool" where
  "tree_search Leaf x = False"
| "tree_search (Node l v r) x = (if v < x then tree_search r x else if v > x then tree_search l x else True)"

fun forest_search :: "int tree list \<Rightarrow> int \<Rightarrow> bool" where
  "forest_search [] x = False"
| "forest_search (t # ts) x = (if tree_search t x then True else forest_search ts x)"

definition rowset_file_batch :: "nat option \<Rightarrow> RowSet \<Rightarrow> RowSet option" where
  "rowset_file_batch m p = do {
     xs \<leftarrow> (if rsFlags p AND ROWSET_SORTED = 0 then rowSetEntrySort (pEntry p) else Some (pEntry p));
     (ts, rest) \<leftarrow> forest_place xs (pForest p);
     let p = p\<lparr>pForest := ts\<rparr>;
     p \<leftarrow> (case rest of
             None \<Rightarrow> Some p
           | Some xs \<Rightarrow> (case rowSetEntryAlloc m p of
                 (None, p) \<Rightarrow> Some p
               | (Some _, p) \<Rightarrow> map_option (\<lambda>t. p\<lparr>pForest := pForest p @ [t]\<rparr>) (rowSetListToTree xs)));
     Some (p\<lparr>pEntry := [], pLast := None, rsFlags := rsFlags p OR ROWSET_SORTED\<rparr>) }"

definition sqlite3RowSetTest :: "nat option \<Rightarrow> int \<Rightarrow> int \<Rightarrow> RowSet \<Rightarrow> (bool \<times> RowSet) option" where
  "sqlite3RowSetTest m batch iRowid p =
     (if rsFlags p AND ROWSET_NEXT \<noteq> 0 then None
      else do {
        p \<leftarrow> (if batch \<noteq> iBatch p then do {
                p \<leftarrow> (if pEntry p \<noteq> [] then rowset_file_batch m p else Some p);
                Some (p\<lparr>iBatch := batch\<rparr>) }
              else Some p);
        Some (forest_search (pForest p) iRowid, p) })"

section \<open>Lists and trees are right\<close>

abbreviation strict :: "int list \<Rightarrow> bool" where "strict \<equiv> sorted_wrt (<)"

lemma rowSetEntryMerge_spec:
  "strict as \<Longrightarrow> strict bs \<Longrightarrow> as \<noteq> [] \<Longrightarrow> bs \<noteq> [] \<Longrightarrow>
    \<exists>r. rowSetEntryMerge as bs = Some r \<and> strict r \<and> set r = set as \<union> set bs \<and> r \<noteq> []"
proof (induction as bs rule: rowSetEntryMerge.induct)
  case (1 a as b bs)
  consider (less) "a < b" | (same) "a = b" | (more) "b < a" by linarith
  then show ?case
  proof cases
    case less
    then show ?thesis using 1 by (cases "as = []") fastforce+
  next
    case same
    then show ?thesis using 1 by (cases "as = []") auto
  next
    case more
    then show ?thesis using 1 by (cases "bs = []") fastforce+
  qed
qed simp_all

text \<open>The buckets count the entries in binary.\<close>

fun counter :: "'a list list \<Rightarrow> nat" where
  "counter [] = 0"
| "counter (b # bs) = (if b = [] then 0 else 1) + 2 * counter bs"

lemma bucket_add_spec:
  "\<forall>b \<in> set bs. strict b \<Longrightarrow> strict p \<Longrightarrow> p \<noteq> [] \<Longrightarrow> Suc (counter bs) < 2 ^ length bs \<Longrightarrow>
    \<exists>bs'. bucket_add bs p = Some bs' \<and> length bs' = length bs \<and> counter bs' = Suc (counter bs)
      \<and> (\<forall>b \<in> set bs'. strict b) \<and> \<Union> (set ` set bs') = \<Union> (set ` set bs) \<union> set p"
proof (induction bs p rule: bucket_add.induct)
  case (2 b bs p)
  show ?case
  proof (cases "b = []")
    case False
    then obtain r where r: "rowSetEntryMerge b p = Some r" "strict r" "set r = set b \<union> set p" "r \<noteq> []"
      using rowSetEntryMerge_spec [of b p] 2 by auto
    moreover have "Suc (counter bs) < 2 ^ length bs" using 2(5) False by simp
    ultimately obtain bs' where "bucket_add bs r = Some bs'" "length bs' = length bs" "counter bs' = Suc (counter bs)"
      "\<forall>b \<in> set bs'. strict b" "\<Union> (set ` set bs') = \<Union> (set ` set bs) \<union> set r"
      using 2(1) [OF False, of r] 2(2) by auto
    then show ?thesis using False r by auto
  qed (use 2 in auto)
qed simp

lemma sort_fill_spec:
  "\<forall>b \<in> set bs. strict b \<Longrightarrow> counter bs + length xs < 2 ^ length bs \<Longrightarrow>
    \<exists>bs'. sort_fill xs bs = Some bs' \<and> length bs' = length bs
      \<and> (\<forall>b \<in> set bs'. strict b) \<and> \<Union> (set ` set bs') = \<Union> (set ` set bs) \<union> set xs"
proof (induction xs arbitrary: bs)
  case (Cons x xs)
  then obtain bs1 where "bucket_add bs [x] = Some bs1" "length bs1 = length bs" "counter bs1 = Suc (counter bs)"
    "\<forall>b \<in> set bs1. strict b" "\<Union> (set ` set bs1) = \<Union> (set ` set bs) \<union> {x}"
    using bucket_add_spec [of bs "[x]"] by auto
  then show ?case using Cons.IH [of bs1] Cons.prems by auto
qed simp

lemma sort_collect_spec:
  "strict p \<Longrightarrow> \<forall>b \<in> set bs. strict b \<Longrightarrow> \<exists>r. sort_collect p bs = Some r \<and> strict r \<and> set r = set p \<union> \<Union> (set ` set bs)"
proof (induction bs arbitrary: p)
  case (Cons b bs)
  show ?case
  proof (cases "b \<noteq> [] \<and> p \<noteq> []")
    case True
    then obtain r where "rowSetEntryMerge p b = Some r" "strict r" "set r = set p \<union> set b"
      using rowSetEntryMerge_spec [of p b] Cons.prems by auto
    then show ?thesis using True Cons.IH [of r] Cons.prems by auto
  qed (use Cons in auto)
qed simp

lemma strict_eq_sorted_list_of_set: "strict xs \<Longrightarrow> xs = sorted_list_of_set (set xs)"
  by (rule strict_sorted_equal) simp_all

lemma counter_replicate [simp]: "counter (replicate n []) = 0"
  by (induction n) auto

lemma rowSetEntrySort_spec:
  assumes "length xs < 2 ^ 40"
  shows "rowSetEntrySort xs = Some (sorted_list_of_set (set xs))"
proof -
  have "counter (replicate 40 [] :: int list list) + length xs < 2 ^ length (replicate 40 ([] :: int list))" using assms by simp
  then obtain bs where bs: "sort_fill xs (replicate 40 []) = Some bs" "length bs = 40" "\<forall>b \<in> set bs. strict b" "\<Union> (set ` set bs) = set xs"
    using sort_fill_spec [of "replicate 40 []" xs] by auto
  then obtain b bs' where b: "bs = b # bs'" by (cases bs) auto
  then obtain r where "sort_collect b bs' = Some r" "strict r" "set r = set xs"
    using sort_collect_spec [of b bs'] bs by auto
  then show ?thesis using bs(1) b strict_eq_sorted_list_of_set [of r] by (simp add: rowSetEntrySort_def)
qed

lemma rowSetTreeToList_inorder: "t \<noteq> Leaf \<Longrightarrow> rowSetTreeToList t = Some (inorder t)"
  by (induction t) auto

lemma tree_search_iff: "strict (inorder t) \<Longrightarrow> tree_search t x \<longleftrightarrow> x \<in> set_tree t"
  by (induction t) (auto simp: sorted_wrt_append)

lemma forest_search_iff: "\<forall>t \<in> set ts. strict (inorder t) \<Longrightarrow> forest_search ts x \<longleftrightarrow> x \<in> \<Union> (set_tree ` set ts)"
  by (induction ts) (auto simp: tree_search_iff)

text \<open>Trees are as low as their number of entries allows.\<close>

definition low :: "int tree \<Rightarrow> bool" where
  "low t \<longleftrightarrow> t = Leaf \<or> 2 ^ (height t - 1) \<le> size t"

lemma rowSetNDeepTree_height:
  "rowSetNDeepTree vs d = (t, rest) \<Longrightarrow> height t \<le> Suc d \<and> (rest \<noteq> [] \<longrightarrow> size1 t = 2 ^ Suc d)"
  by (induction vs d arbitrary: t rest rule: rowSetNDeepTree.induct) (fastforce split: prod.splits list.splits)+

lemma grow_tree_spec:
  "height p \<le> Suc d \<Longrightarrow> 2 ^ d \<le> size p \<Longrightarrow> (vs \<noteq> [] \<Longrightarrow> size1 p = 2 ^ Suc d) \<Longrightarrow>
    inorder (grow_tree d p vs) = inorder p @ vs \<and> low (grow_tree d p vs)"
proof (induction d p vs rule: grow_tree.induct)
  case (1 d p)
  have "(2 :: nat) ^ (height p - 1) \<le> 2 ^ d" using 1(1) by (intro power_increasing) simp_all
  then have "2 ^ (height p - 1) \<le> size p" using 1(2) by (rule le_trans)
  then show ?case by (simp add: low_def)
next
  case (2 d p v vs)
  obtain r rest where r: "rowSetNDeepTree vs d = (r, rest)" by (cases "rowSetNDeepTree vs d")
  have "inorder r @ rest = vs" "height r \<le> Suc d" "rest \<noteq> [] \<longrightarrow> size1 r = 2 ^ Suc d"
    using rowSetNDeepTree_inorder [OF r] rowSetNDeepTree_height [OF r] by simp_all
  moreover have "2 ^ Suc d \<le> size (Node p v r)" using 2(4) by (simp add: size1_size)
  ultimately show ?case using 2(1) [OF r [symmetric]] 2(2,4) r by auto
qed

lemma rowSetListToTree_spec:
  assumes "xs \<noteq> []"
  shows "\<exists>t. rowSetListToTree xs = Some t \<and> inorder t = xs \<and> low t"
  using assms grow_tree_spec [of "Node Leaf (hd xs) Leaf" 0 "tl xs"] by (cases xs) auto

section \<open>The invariant\<close>

lemma flag_bits [simp]:
  "((f :: u16) AND 1 = 0) = (\<not> bit f 0)" "(f AND 2 = 0) = (\<not> bit f (Suc 0))"
  using and_exp_eq_0_iff_not_bit [of f 0] and_exp_eq_0_iff_not_bit [of f 1] by simp_all

lemma flag_updates [simp]:
  "bit ((f :: u16) OR 1) 0" "bit (f OR 1) (Suc 0) = bit f (Suc 0)" "bit (f OR 3) 0" "bit (f OR 3) (Suc 0)"
  "\<not> bit (f AND - 2) 0" "bit (f AND - 2) (Suc 0) = bit f (Suc 0)" "bit (1 :: u16) 0" "\<not> bit (1 :: u16) (Suc 0)"
  by (simp_all add: bit_simps)

text \<open>
  The list is sorted when it is said to be; until reading has begun, \<open>pLast\<close> is its last entry; the trees
  of the forest are sorted and low.
\<close>

definition rowset_inv :: "RowSet \<Rightarrow> bool" where
  "rowset_inv p \<longleftrightarrow>
     (bit (rsFlags p) 0 \<longrightarrow> strict (pEntry p))
     \<and> (bit (rsFlags p) 1 \<longrightarrow> bit (rsFlags p) 0)
     \<and> (\<not> bit (rsFlags p) 1 \<longrightarrow> pLast p = (if pEntry p = [] then None else Some (last (pEntry p))))
     \<and> (\<forall>t \<in> set (pForest p). strict (inorder t) \<and> low t)"

text \<open>What can be tested, what waits for the next batch, and the batch.\<close>

definition visible :: "RowSet \<Rightarrow> int set" where
  "visible p = \<Union> (set_tree ` set (pForest p))"

lemma rowSetEntryAlloc_frame:
  "rowSetEntryAlloc m p = (e, p') \<Longrightarrow>
    pEntry p' = pEntry p \<and> pLast p' = pLast p \<and> pForest p' = pForest p \<and> rsFlags p' = rsFlags p \<and> iBatch p' = iBatch p
    \<and> (mallocFailed p' \<longleftrightarrow> mallocFailed p \<or> e = None)"
  by (auto simp: rowSetEntryAlloc_def Let_def split: if_splits option.splits)

lemma strict_snoc: "strict xs \<Longrightarrow> xs \<noteq> [] \<Longrightarrow> last xs < x \<Longrightarrow> strict (xs @ [x])"
  by (cases xs rule: rev_cases) (auto simp: sorted_wrt_append)

lemma insert_spec:
  assumes "rowset_inv p" and "\<not> bit (rsFlags p) 1"
  shows "\<exists>p'. sqlite3RowSetInsert m x p = Some p' \<and> rowset_inv p' \<and> \<not> bit (rsFlags p') 1 \<and> pForest p' = pForest p \<and> iBatch p' = iBatch p
     \<and> length (pEntry p') \<le> Suc (length (pEntry p)) \<and> (mallocFailed p \<longrightarrow> mallocFailed p')
     \<and> (m \<noteq> None \<and> \<not> mallocFailed p \<longrightarrow> \<not> mallocFailed p') \<and> (\<not> mallocFailed p' \<longrightarrow> set (pEntry p') = insert x (set (pEntry p)))"
proof -
  obtain e q where q: "rowSetEntryAlloc m p = (e, q)" by (cases "rowSetEntryAlloc m p")
  note fr = rowSetEntryAlloc_frame [OF q]
  then have rf: "rsFlags q = rsFlags p" by simp
  have "m \<noteq> None \<longrightarrow> e \<noteq> None" using q by (auto simp: rowSetEntryAlloc_def Let_def split: if_splits)
  show ?thesis
  proof (cases e)
    case None
    then show ?thesis using q fr assms \<open>m \<noteq> None \<longrightarrow> e \<noteq> None\<close> by (simp add: sqlite3RowSetInsert_def rowset_inv_def)
  next
    case (Some a)
    have last: "pLast q = (if pEntry p = [] then None else Some (last (pEntry p)))" using assms fr by (simp add: rowset_inv_def)
    show ?thesis
    proof (cases "pEntry p = []")
      case True
      then show ?thesis using Some q fr assms last by (simp add: sqlite3RowSetInsert_def rowset_inv_def)
    next
      case False
      then have "sqlite3RowSetInsert m x p = Some (q\<lparr>rsFlags := (if x \<le> last (pEntry p) then rsFlags p AND NOT ROWSET_SORTED else rsFlags p),
          pEntry := pEntry p @ [x], pLast := Some x\<rparr>)"
        using Some q last fr [THEN conjunct1] rf assms(2) by (simp add: sqlite3RowSetInsert_def)
      then show ?thesis using Some fr assms False strict_snoc [of "pEntry p" x] by (simp add: rowset_inv_def)
    qed
  qed
qed

lemma sorted_entries:
  assumes "rowset_inv p" and "length (pEntry p) < 2 ^ 40"
  shows "(if rsFlags p AND ROWSET_SORTED = 0 then rowSetEntrySort (pEntry p) else Some (pEntry p))
      = Some (sorted_list_of_set (set (pEntry p)))"
  using assms rowSetEntrySort_spec strict_eq_sorted_list_of_set [of "pEntry p"] by (simp add: rowset_inv_def)

lemma forest_place_spec:
  "strict p \<Longrightarrow> p \<noteq> [] \<Longrightarrow> \<forall>t \<in> set ts. strict (inorder t) \<and> low t \<Longrightarrow>
    \<exists>ts' rest. forest_place p ts = Some (ts', rest) \<and> (\<forall>t \<in> set ts'. strict (inorder t) \<and> low t)
      \<and> (case rest of None \<Rightarrow> \<Union> (set_tree ` set ts') = \<Union> (set_tree ` set ts) \<union> set p
         | Some q \<Rightarrow> strict q \<and> q \<noteq> [] \<and> \<Union> (set_tree ` set ts') = {} \<and> set q = \<Union> (set_tree ` set ts) \<union> set p)"
proof (induction ts arbitrary: p)
  case (Cons t ts)
  show ?case
  proof (cases "t = Leaf")
    case True
    obtain u where "rowSetListToTree p = Some u" "inorder u = p" "low u" using rowSetListToTree_spec [OF Cons.prems(2)] by blast
    moreover from this have "set_tree u = set p" using set_inorder [of u] by simp
    ultimately show ?thesis using True Cons.prems by auto
  next
    case False
    obtain q where q: "rowSetEntryMerge (inorder t) p = Some q" "strict q" "set q = set_tree t \<union> set p" "q \<noteq> []"
      using rowSetEntryMerge_spec [of "inorder t" p] Cons.prems False by (cases t) auto
    obtain ts' rest where "forest_place q ts = Some (ts', rest)" "\<forall>t \<in> set ts'. strict (inorder t) \<and> low t"
      "case rest of None \<Rightarrow> \<Union> (set_tree ` set ts') = \<Union> (set_tree ` set ts) \<union> set q
         | Some r \<Rightarrow> strict r \<and> r \<noteq> [] \<and> \<Union> (set_tree ` set ts') = {} \<and> set r = \<Union> (set_tree ` set ts) \<union> set q"
      using Cons.IH [of q] q Cons.prems by auto
    then show ?thesis using False q rowSetTreeToList_inorder [OF False]
      by (auto simp: low_def split: option.splits)
  qed
qed simp

lemma file_batch_spec:
  assumes inv: "rowset_inv p" and next0: "\<not> bit (rsFlags p) (Suc 0)" and len: "length (pEntry p) < 2 ^ 40" and some: "pEntry p \<noteq> []"
  shows "\<exists>p'. rowset_file_batch m p = Some p' \<and> rowset_inv p' \<and> \<not> bit (rsFlags p') (Suc 0) \<and> pEntry p' = []
     \<and> (mallocFailed p \<longrightarrow> mallocFailed p') \<and> (m \<noteq> None \<and> \<not> mallocFailed p \<longrightarrow> \<not> mallocFailed p')
     \<and> (\<not> mallocFailed p' \<longrightarrow> visible p' = visible p \<union> set (pEntry p))"
proof -
  let ?xs = "sorted_list_of_set (set (pEntry p))"
  have xs: "strict ?xs" "?xs \<noteq> []" "set ?xs = set (pEntry p)" using some by simp_all
  obtain ts rest where ts: "forest_place ?xs (pForest p) = Some (ts, rest)" "\<forall>t \<in> set ts. strict (inorder t) \<and> low t"
    "case rest of None \<Rightarrow> \<Union> (set_tree ` set ts) = \<Union> (set_tree ` set (pForest p)) \<union> set ?xs
       | Some q \<Rightarrow> strict q \<and> q \<noteq> [] \<and> \<Union> (set_tree ` set ts) = {} \<and> set q = \<Union> (set_tree ` set (pForest p)) \<union> set ?xs"
    using forest_place_spec [OF xs(1,2), of "pForest p"] inv by (auto simp: rowset_inv_def)
  show ?thesis
  proof (cases rest)
    case None
    then show ?thesis unfolding rowset_file_batch_def sorted_entries [OF inv len]
      using ts xs next0 by (simp add: rowset_inv_def visible_def)
  next
    case (Some q)
    obtain t where t: "rowSetListToTree q = Some t" "inorder t = q" "low t" using rowSetListToTree_spec [of q] ts(3) Some by auto
    then have "set_tree t = set q" using set_inorder [of t] by simp
    obtain e r where e: "rowSetEntryAlloc m (p\<lparr>pForest := ts\<rparr>) = (e, r)" by (cases "rowSetEntryAlloc m (p\<lparr>pForest := ts\<rparr>)")
    have "m \<noteq> None \<longrightarrow> e \<noteq> None" using e by (auto simp: rowSetEntryAlloc_def Let_def split: if_splits)
    then show ?thesis unfolding rowset_file_batch_def sorted_entries [OF inv len]
      using Some ts t xs e next0 rowSetEntryAlloc_frame [OF e] \<open>set_tree t = set q\<close>
      by (cases e) (auto simp: rowset_inv_def visible_def)
  qed
qed

lemma test_spec:
  assumes "rowset_inv p" and "\<not> bit (rsFlags p) (Suc 0)" and "length (pEntry p) < 2 ^ 40"
  shows "\<exists>r p'. sqlite3RowSetTest m b x p = Some (r, p') \<and> rowset_inv p' \<and> \<not> bit (rsFlags p') (Suc 0) \<and> iBatch p' = b
     \<and> length (pEntry p') \<le> length (pEntry p) \<and> (mallocFailed p \<longrightarrow> mallocFailed p') \<and> (m \<noteq> None \<and> \<not> mallocFailed p \<longrightarrow> \<not> mallocFailed p')
     \<and> (r \<longleftrightarrow> x \<in> visible p')
     \<and> (\<not> mallocFailed p' \<longrightarrow> (if b = iBatch p then visible p' = visible p \<and> pEntry p' = pEntry p
          else visible p' = visible p \<union> set (pEntry p) \<and> pEntry p' = []))"
proof (cases "b = iBatch p \<or> pEntry p = []")
  case True
  then show ?thesis using assms by (auto simp: sqlite3RowSetTest_def rowset_inv_def visible_def forest_search_iff)
next
  case False
  then obtain q where q: "rowset_file_batch m p = Some q" "rowset_inv q" "\<not> bit (rsFlags q) (Suc 0)" "pEntry q = []"
    "mallocFailed p \<longrightarrow> mallocFailed q" "m \<noteq> None \<and> \<not> mallocFailed p \<longrightarrow> \<not> mallocFailed q"
    "\<not> mallocFailed q \<longrightarrow> visible q = visible p \<union> set (pEntry p)"
    using file_batch_spec [OF assms, of m] by blast
  have "forest_search (pForest q) x \<longleftrightarrow> x \<in> visible q" using q(2) by (simp add: forest_search_iff rowset_inv_def visible_def)
  then show ?thesis using False q assms(2) by (simp add: sqlite3RowSetTest_def rowset_inv_def visible_def)
qed

section \<open>Sets that are tested batch by batch\<close>

datatype ('a, 'b) batch_op = Insert 'a | Test 'b 'a

text \<open>The answers to the tests: a test sees what was inserted before the last change of the batch number.\<close>

fun batch_spec :: "('a, 'b) batch_op list \<Rightarrow> 'a set \<Rightarrow> 'a set \<Rightarrow> 'b \<Rightarrow> bool list" where
  "batch_spec [] seen waiting b = []"
| "batch_spec (Insert x # ops) seen waiting b = batch_spec ops seen (insert x waiting) b"
| "batch_spec (Test c x # ops) seen waiting b =
     (if c = b then (x \<in> seen) # batch_spec ops seen waiting b
      else (x \<in> seen \<union> waiting) # batch_spec ops (seen \<union> waiting) {} c)"

fun batch_run :: "('m \<Rightarrow> 'a \<Rightarrow> 's \<Rightarrow> 's option) \<Rightarrow> ('m \<Rightarrow> 'b \<Rightarrow> 'a \<Rightarrow> 's \<Rightarrow> (bool \<times> 's) option)
    \<Rightarrow> ('m \<times> ('a, 'b) batch_op) list \<Rightarrow> 's \<Rightarrow> (bool list \<times> 's) option" where
  "batch_run ins tst [] s = Some ([], s)"
| "batch_run ins tst ((m, Insert x) # ops) s = ins m x s \<bind> batch_run ins tst ops"
| "batch_run ins tst ((m, Test c x) # ops) s = do {
     (r, s) \<leftarrow> tst m c x s;
     (rs, s) \<leftarrow> batch_run ins tst ops s;
     Some (r # rs, s) }"

text \<open>
  The contract: \<open>inv k s\<close> tells that \<open>s\<close> is well formed and has room for \<open>k\<close> more elements, \<open>ok m\<close> that memory is
  available. A state that failed stays so.
\<close>

locale batched_set =
  fixes ins :: "'m \<Rightarrow> 'a \<Rightarrow> 's \<Rightarrow> 's option" and tst :: "'m \<Rightarrow> 'b \<Rightarrow> 'a \<Rightarrow> 's \<Rightarrow> (bool \<times> 's) option"
    and inv :: "nat \<Rightarrow> 's \<Rightarrow> bool" and seen waiting :: "'s \<Rightarrow> 'a set" and batch :: "'s \<Rightarrow> 'b"
    and failed :: "'s \<Rightarrow> bool" and ok :: "'m \<Rightarrow> bool"
  assumes ins: "inv (Suc k) s \<Longrightarrow> \<exists>s'. ins m x s = Some s' \<and> inv k s' \<and> (failed s \<longrightarrow> failed s') \<and> (ok m \<and> \<not> failed s \<longrightarrow> \<not> failed s')
      \<and> (\<not> failed s' \<longrightarrow> seen s' = seen s \<and> waiting s' = insert x (waiting s) \<and> batch s' = batch s)"
    and tst: "inv (Suc k) s \<Longrightarrow> \<exists>r s'. tst m c x s = Some (r, s') \<and> inv k s' \<and> (failed s \<longrightarrow> failed s') \<and> (ok m \<and> \<not> failed s \<longrightarrow> \<not> failed s')
      \<and> (\<not> failed s' \<longrightarrow> (r \<longleftrightarrow> x \<in> seen s') \<and> batch s' = c
           \<and> (if c = batch s then seen s' = seen s \<and> waiting s' = waiting s else seen s' = seen s \<union> waiting s \<and> waiting s' = {}))"
begin

lemma run_spec:
  "inv (length ops + k) s \<Longrightarrow> \<exists>rs s'. batch_run ins tst ops s = Some (rs, s') \<and> inv k s' \<and> (failed s \<longrightarrow> failed s')
     \<and> (list_all (ok \<circ> fst) ops \<and> \<not> failed s \<longrightarrow> \<not> failed s')
     \<and> (\<not> failed s' \<longrightarrow> rs = batch_spec (List.map snd ops) (seen s) (waiting s) (batch s))"
proof (induction ops arbitrary: s)
  case (Cons mo ops)
  obtain m opn where mo: "mo = (m, opn)" by (cases mo)
  have room: "inv (Suc (length ops + k)) s" using Cons.prems by simp
  show ?case
  proof (cases opn)
    case (Insert x)
    obtain s1 where s1: "ins m x s = Some s1" "inv (length ops + k) s1" "failed s \<longrightarrow> failed s1" "ok m \<and> \<not> failed s \<longrightarrow> \<not> failed s1"
      "\<not> failed s1 \<longrightarrow> seen s1 = seen s \<and> waiting s1 = insert x (waiting s) \<and> batch s1 = batch s" using ins [OF room, of m x] by blast
    from Cons.IH [OF s1(2)] show ?thesis using s1 mo Insert by auto
  next
    case (Test c x)
    obtain r s1 where s1: "tst m c x s = Some (r, s1)" "inv (length ops + k) s1" "failed s \<longrightarrow> failed s1" "ok m \<and> \<not> failed s \<longrightarrow> \<not> failed s1"
      "\<not> failed s1 \<longrightarrow> (r \<longleftrightarrow> x \<in> seen s1) \<and> batch s1 = c
           \<and> (if c = batch s then seen s1 = seen s \<and> waiting s1 = waiting s else seen s1 = seen s \<union> waiting s \<and> waiting s1 = {})"
      using tst [OF room, of m c x] by blast
    from Cons.IH [OF s1(2)] show ?thesis using s1 mo Test by (auto split: if_splits)
  qed
qed simp

end

definition rowset_room :: "nat \<Rightarrow> RowSet \<Rightarrow> bool" where
  "rowset_room k p \<longleftrightarrow> rowset_inv p \<and> \<not> bit (rsFlags p) (Suc 0) \<and> length (pEntry p) + k < 2 ^ 40"

interpretation rowset: batched_set sqlite3RowSetInsert sqlite3RowSetTest rowset_room visible "set \<circ> pEntry" iBatch mallocFailed "\<lambda>m. m \<noteq> None"
proof (unfold_locales, goal_cases)
  case (1 k s m x)
  then have "rowset_inv s" "\<not> bit (rsFlags s) (Suc 0)" by (simp_all add: rowset_room_def)
  then obtain s' where "sqlite3RowSetInsert m x s = Some s'" "rowset_inv s'" "\<not> bit (rsFlags s') (Suc 0)" "pForest s' = pForest s" "iBatch s' = iBatch s"
    "length (pEntry s') \<le> Suc (length (pEntry s))" "mallocFailed s \<longrightarrow> mallocFailed s'" "m \<noteq> None \<and> \<not> mallocFailed s \<longrightarrow> \<not> mallocFailed s'"
    "\<not> mallocFailed s' \<longrightarrow> set (pEntry s') = insert x (set (pEntry s))"
    using insert_spec [of s m x] by auto
  then show ?case using 1 by (intro exI [of _ s']) (simp add: rowset_room_def visible_def)
next
  case (2 k s m c x)
  then have "rowset_inv s" "\<not> bit (rsFlags s) (Suc 0)" "length (pEntry s) < 2 ^ 40" by (simp_all add: rowset_room_def)
  from test_spec [OF this, of m c x] obtain r s' where "sqlite3RowSetTest m c x s = Some (r, s')" "rowset_inv s'" "\<not> bit (rsFlags s') (Suc 0)" "iBatch s' = c"
    "length (pEntry s') \<le> length (pEntry s)" "mallocFailed s \<longrightarrow> mallocFailed s'" "m \<noteq> None \<and> \<not> mallocFailed s \<longrightarrow> \<not> mallocFailed s'"
    "r \<longleftrightarrow> x \<in> visible s'" "\<not> mallocFailed s' \<longrightarrow> (if c = iBatch s then visible s' = visible s \<and> pEntry s' = pEntry s
       else visible s' = visible s \<union> set (pEntry s) \<and> pEntry s' = [])" by auto
  then show ?case using 2 by (intro exI [of _ r] exI [of _ s']) (simp add: rowset_room_def)
qed

lemma rowset_room_init: "k < 2 ^ 40 \<Longrightarrow> rowset_room k (rowset_new self N)"
  by (simp add: rowset_room_def rowset_inv_def rowset_new_def)

text \<open>C35: A row set answers as the documentation says: for every sequence of insertions and tests (fewer than \<open>2 ^ 40\<close>), a test finds
  exactly the rowids inserted before the last change of the batch number, unless the connection ran out of memory and
  was told so, which needs a failed allocation. The trees that are searched are as low as their number of entries allows.\<close>

theorem rowset_answers_by_batch:
  assumes "length ops < 2 ^ 40"
  shows "\<exists>rs p'. (sqlite3RowSetInit (Some (self, N)) \<bind> batch_run sqlite3RowSetInsert sqlite3RowSetTest ops) = Some (rs, p')
     \<and> (mallocFailed p' \<and> \<not> list_all (\<lambda>(m, _). m \<noteq> None) ops \<or> rs = batch_spec (List.map snd ops) {} {} 0)
     \<and> list_all (\<lambda>t. t = Leaf \<or> 2 ^ (height t - 1) \<le> size t) (pForest p')"
proof -
  let ?p = "rowset_new self N"
  have "rowset_room (length ops + 0) ?p" using rowset_room_init [OF assms] by simp
  from rowset.run_spec [OF this] obtain rs p' where "batch_run sqlite3RowSetInsert sqlite3RowSetTest ops ?p = Some (rs, p')" "rowset_room 0 p'"
    "list_all ((\<lambda>m. m \<noteq> None) \<circ> fst) ops \<and> \<not> mallocFailed ?p \<longrightarrow> \<not> mallocFailed p'"
    "\<not> mallocFailed p' \<longrightarrow> rs = batch_spec (List.map snd ops) (visible ?p) ((set \<circ> pEntry) ?p) (iBatch ?p)"
    by blast
  moreover have "\<not> mallocFailed ?p" "visible ?p = {}" "pEntry ?p = []" "iBatch ?p = 0" by (simp_all add: rowset_new_def visible_def)
  ultimately show ?thesis
    by (fastforce simp: sqlite3RowSetInit_def rowset_room_def rowset_inv_def low_def list_all_iff)
qed

theorem rowset_answers_by_batch_witness:
  "\<exists>p'. (sqlite3RowSetInit (Some (0, 56)) \<bind> batch_run sqlite3RowSetInsert sqlite3RowSetTest
      [(Some 1, Insert 5), (Some 2, Insert 3), (Some 3, Test 1 3), (Some 4, Insert 9), (Some 5, Test 1 9), (Some 6, Test 2 9)])
      = Some ([True, False, True], p')"
  using rowset_answers_by_batch [of "[(Some 1, Insert 5), (Some 2, Insert 3), (Some 3, Test 1 3), (Some 4, Insert 9), (Some 5, Test 1 9), (Some 6, Test 2 9)]" 0 56]
  by (auto simp del: batch_run.simps)

section \<open>Reading in order\<close>

fun rowset_insert_all :: "(nat option \<times> int) list \<Rightarrow> RowSet \<Rightarrow> RowSet option" where
  "rowset_insert_all [] p = Some p"
| "rowset_insert_all ((m, x) # xs) p = sqlite3RowSetInsert m x p \<bind> rowset_insert_all xs"

fun rowset_drain :: "nat \<Rightarrow> RowSet \<Rightarrow> (int option list \<times> RowSet) option" where
  "rowset_drain 0 p = Some ([], p)"
| "rowset_drain (Suc n) p = do {
     (r, p) \<leftarrow> sqlite3RowSetNext p;
     (rs, p) \<leftarrow> rowset_drain n p;
     Some (r # rs, p) }"

lemma insert_all_spec:
  "rowset_room (length xs) p \<Longrightarrow> \<exists>p'. rowset_insert_all xs p = Some p' \<and> rowset_room 0 p' \<and> pForest p' = pForest p
     \<and> (mallocFailed p \<longrightarrow> mallocFailed p') \<and> (\<not> mallocFailed p' \<longrightarrow> set (pEntry p') = set (pEntry p) \<union> snd ` set xs)"
proof (induction xs arbitrary: p)
  case (Cons mx xs)
  obtain m x where mx: "mx = (m, x)" by (cases mx)
  obtain q where q: "sqlite3RowSetInsert m x p = Some q" "rowset_room (length xs) q" "pForest q = pForest p"
     "mallocFailed p \<longrightarrow> mallocFailed q" "\<not> mallocFailed q \<longrightarrow> set (pEntry q) = insert x (set (pEntry p))"
    using insert_spec [of p m x] Cons.prems by (auto simp: rowset_room_def)
  from Cons.IH [OF q(2)] obtain p' where "rowset_insert_all xs q = Some p'" "rowset_room 0 p'" "pForest p' = pForest q"
    "mallocFailed q \<longrightarrow> mallocFailed p'" "\<not> mallocFailed p' \<longrightarrow> set (pEntry p') = set (pEntry q) \<union> snd ` set xs" by blast
  then show ?case using q mx by (intro exI [of _ p']) auto
qed simp

text \<open>Once reading has begun; a set that is empty then holds no memory.\<close>

lemma drain_begun:
  "pForest p = [] \<Longrightarrow> bit (rsFlags p) (Suc 0) \<Longrightarrow> pEntry p = vs \<Longrightarrow> vs = [] \<longrightarrow> pChunk p = [] \<Longrightarrow>
    \<exists>p'. rowset_drain (Suc (length vs)) p = Some (List.map Some vs @ [None], p') \<and> pChunk p' = []"
proof (induction vs arbitrary: p)
  case Nil
  then show ?case by (simp add: sqlite3RowSetNext_def)
next
  case (Cons v vs)
  then show ?case
  proof (cases "vs = []")
    case True
    then show ?thesis using Cons.prems by (simp add: sqlite3RowSetNext_def sqlite3RowSetClear_def)
  next
    case False
    have "sqlite3RowSetNext p = Some (Some v, p\<lparr>pEntry := vs\<rparr>)" using Cons.prems False by (simp add: sqlite3RowSetNext_def)
    moreover obtain p' where "rowset_drain (Suc (length vs)) (p\<lparr>pEntry := vs\<rparr>) = Some (List.map Some vs @ [None], p')" "pChunk p' = []"
      using Cons.IH [of "p\<lparr>pEntry := vs\<rparr>"] Cons.prems False by auto
    ultimately show ?thesis by (simp add: rowset_drain.simps(2) [of "Suc (length vs)"] del: rowset_drain.simps)
  qed
qed

lemma next_begins:
  assumes "rowset_room 0 p" and "pForest p = []"
  shows "sqlite3RowSetNext p = sqlite3RowSetNext (p\<lparr>pEntry := sorted_list_of_set (set (pEntry p)), rsFlags := rsFlags p OR 3\<rparr>)"
proof -
  have p: "rowset_inv p" "\<not> bit (rsFlags p) (Suc 0)" "length (pEntry p) < 2 ^ 40" using assms(1) by (simp_all add: rowset_room_def)
  have "(if rsFlags p AND ROWSET_SORTED = 0 then map_option (\<lambda>xs. p\<lparr>pEntry := xs\<rparr>) (rowSetEntrySort (pEntry p)) else Some p)
      = map_option (\<lambda>xs. p\<lparr>pEntry := xs\<rparr>) (if rsFlags p AND ROWSET_SORTED = 0 then rowSetEntrySort (pEntry p) else Some (pEntry p))"
    by simp
  also have "\<dots> = Some (p\<lparr>pEntry := sorted_list_of_set (set (pEntry p))\<rparr>)" unfolding sorted_entries [OF p(1,3)] by simp
  finally show ?thesis using p(2) assms(2) by (simp add: sqlite3RowSetNext_def)
qed

text \<open>C36: Reading a row set gives its elements in order: after any insertions, fewer than \<open>2 ^ 40\<close>, reading returns every rowid inserted, once,
  from the smallest to the largest, and then that there are no more; by then all memory has been returned. The exception is a
  connection that ran out of memory and was told so.\<close>

theorem rowset_reads_sorted:
  assumes "length xs < 2 ^ 40"
  shows "\<exists>p. (sqlite3RowSetInit (Some (self, N)) \<bind> rowset_insert_all xs) = Some p
     \<and> (mallocFailed p \<or> (\<exists>p'. rowset_drain (Suc (card (snd ` set xs))) p
          = Some (List.map Some (sorted_list_of_set (snd ` set xs)) @ [None], p') \<and> pChunk p' = []))"
proof -
  let ?i = "rowset_new self N" and ?vs = "sorted_list_of_set (snd ` set xs)"
  have i: "pForest ?i = []" "pEntry ?i = []" "pChunk ?i = []" by (simp_all add: rowset_new_def)
  obtain p where p: "rowset_insert_all xs ?i = Some p" "rowset_room 0 p" "pForest p = []" "\<not> mallocFailed p \<longrightarrow> set (pEntry p) = snd ` set xs"
    using insert_all_spec [OF rowset_room_init [OF assms], of self N] i by auto
  have "\<exists>p'. rowset_drain (Suc (length ?vs)) p = Some (List.map Some ?vs @ [None], p') \<and> pChunk p' = []" if "\<not> mallocFailed p"
  proof -
    let ?q = "p\<lparr>pEntry := ?vs, rsFlags := rsFlags p OR 3\<rparr>"
    have "rowset_drain (Suc n) p = rowset_drain (Suc n) ?q" for n using next_begins [OF p(2,3)] p(4) that by simp
    moreover have "?vs = [] \<longrightarrow> pChunk ?q = []" using p(1) i by (cases xs) auto
    ultimately show ?thesis using drain_begun [of ?q ?vs] p(3) by simp
  qed
  then show ?thesis using p(1) by (auto simp: sqlite3RowSetInit_def)
qed

theorem rowset_reads_sorted_witness:
  "\<exists>p p'. (sqlite3RowSetInit (Some (0, 128)) \<bind> rowset_insert_all [(None, 7), (None, 2), (None, 7)]) = Some p
     \<and> rowset_drain 3 p = Some ([Some 2, Some 7, None], p')"
proof -
  let ?xs = "[(None, 7), (None, 2), (None, 7)] :: (nat option \<times> int) list"
  have xs: "snd ` set ?xs = {2, 7}" "sorted_list_of_set {2, 7 :: int} = [2, 7]" "Suc (card {2, 7 :: int}) = 3" by auto
  have "length ?xs < 2 ^ 40" by simp
  from rowset_reads_sorted [OF this, of 0 128, unfolded xs] obtain p where p: "(sqlite3RowSetInit (Some (0, 128)) \<bind> rowset_insert_all ?xs) = Some p"
    "mallocFailed p \<or> (\<exists>p'. rowset_drain 3 p = Some (List.map Some [2, 7] @ [None], p') \<and> pChunk p' = [])" by blast
  then have "\<not> mallocFailed p" by (auto simp: sqlite3RowSetInit_def rowset_new_def sqlite3RowSetInsert_def rowSetEntryAlloc_def)
  then show ?thesis using p by auto
qed

end
