(* ===== verification/Sqlite_Bitvec.thy ===== *)
theory Sqlite_Bitvec
  imports Prelude
begin

text \<open>
  The bit vectors of SQLite (\<^verbatim>\<open>sqlite/sqlite3.c\<close>, part \<^verbatim>\<open>bitvec.c\<close>): a set of numbers from 1 to \<^verbatim>\<open>iSize\<close>, as a bitmap when it is
  small, as a hash table with linear probing while it has few elements, and as 62 smaller bit vectors
  otherwise. Values of type \<^verbatim>\<open>u32\<close> are natural numbers below \<open>2 ^ 32\<close>. The answers of the allocator are a list that is consumed. An access out of
  bounds, a failed assertion and a loop that does not end are \<^const>\<open>None\<close>.
\<close>

section \<open>The structure\<close>

definition BITVEC_USIZE :: nat where "BITVEC_USIZE = ((512 - 3 * 4) div 8) * 8"
definition BITVEC_NELEM :: nat where "BITVEC_NELEM = BITVEC_USIZE div 1"
definition BITVEC_NBIT :: nat where "BITVEC_NBIT = BITVEC_NELEM * 8"
definition BITVEC_NINT :: nat where "BITVEC_NINT = BITVEC_USIZE div 4"
definition BITVEC_MXHASH :: nat where "BITVEC_MXHASH = BITVEC_NINT div 2"
definition BITVEC_NPTR :: nat where "BITVEC_NPTR = BITVEC_USIZE div 8"

lemmas bitvec_constants = BITVEC_USIZE_def BITVEC_NELEM_def BITVEC_NBIT_def BITVEC_NINT_def BITVEC_MXHASH_def BITVEC_NPTR_def

definition BITVEC_HASH :: "nat \<Rightarrow> nat" where
  "BITVEC_HASH x = x mod BITVEC_NINT"

text \<open>
  The member of the union in use is the constructor: the bitmap when \<^verbatim>\<open>iSize\<close> is at most \<^verbatim>\<open>BITVEC_NBIT\<close>, the hash table (with \<^verbatim>\<open>nSet\<close>) when
  \<^verbatim>\<open>iDivisor\<close> is 0, and the array of sub-bitmaps (with \<^verbatim>\<open>iDivisor\<close>, null pointers as \<^const>\<open>None\<close>) otherwise.
\<close>

datatype Bitvec = aBitmap (iSize: nat) "u8 list" | aHash (iSize: nat) nat "nat list" | apSub (iSize: nat) nat "Bitvec option list"

definition bitvec_new :: "nat \<Rightarrow> Bitvec" where
  "bitvec_new n = (if n \<le> BITVEC_NBIT then aBitmap n (replicate BITVEC_NELEM 0) else aHash n 0 (replicate BITVEC_NINT 0))"

fun alloc :: "bool list \<Rightarrow> bool \<times> bool list" where
  "alloc [] = (True, [])"
| "alloc (b # mem) = (b, mem)"

definition sqlite3BitvecCreate :: "bool list \<Rightarrow> nat \<Rightarrow> Bitvec option \<times> bool list" where
  "sqlite3BitvecCreate mem n = (case alloc mem of (b, mem) \<Rightarrow> (if b then Some (bitvec_new n) else None, mem))"

section \<open>Testing\<close>

text \<open>
  Probing from slot \<open>h\<close> for the value \<open>i\<close>: whether it is found, and the slot at which the search ends. When
  every slot has been visited, the loop repeats for ever.
\<close>

fun probe :: "nat \<Rightarrow> nat list \<Rightarrow> nat \<Rightarrow> nat \<Rightarrow> (bool \<times> nat) option" where
  "probe 0 tbl h i = None"
| "probe (Suc n) tbl h i =
     (if tbl ! h = 0 then Some (False, h)
      else if tbl ! h = i then Some (True, h)
      else probe n tbl (Suc h mod BITVEC_NINT) i)"

lemma size_sub: "subs ! k = Some q \<Longrightarrow> k < length subs \<Longrightarrow> size q < size (apSub n d subs)"
  using size_list_estimation' [of "Some q" subs "size q" "size_option size"] nth_mem [of k subs] by simp

text \<open>The loop over \<^verbatim>\<open>apSub\<close> and what follows it; \<open>i\<close> counts from 0.\<close>

function (sequential) bitvec_test :: "Bitvec \<Rightarrow> nat \<Rightarrow> bool option" where
  "bitvec_test (aBitmap n bm) i = (if i div 8 < length bm then Some (bm ! (i div 8) AND push_bit (i AND 7) 1 \<noteq> 0) else None)"
| "bitvec_test (aHash n k tbl) i = map_option fst (probe BITVEC_NINT tbl (BITVEC_HASH i) (Suc i))"
| "bitvec_test (apSub n d subs) i =
     (if i div d < length subs
      then (case subs ! (i div d) of None \<Rightarrow> Some False | Some q \<Rightarrow> bitvec_test q (i mod d))
      else None)"
  by pat_completeness auto
termination by (relation "measure (size \<circ> fst)") (use size_sub in auto)

definition sqlite3BitvecTestNotNull :: "Bitvec \<Rightarrow> nat \<Rightarrow> bool option" where
  "sqlite3BitvecTestNotNull p i =
     (let i = (if i = 0 then 2 ^ 32 - 1 else i - 1)
      in if i \<ge> iSize p then Some False else bitvec_test p i)"

definition sqlite3BitvecTest :: "Bitvec option \<Rightarrow> nat \<Rightarrow> bool option" where
  "sqlite3BitvecTest p i = (case p of None \<Rightarrow> Some False | Some p \<Rightarrow> sqlite3BitvecTestNotNull p i)"

section \<open>Setting\<close>

abbreviation (input) SQLITE_OK :: nat where "SQLITE_OK \<equiv> 0"
abbreviation (input) SQLITE_NOMEM :: nat where "SQLITE_NOMEM \<equiv> 7"

text \<open>
  After \<^verbatim>\<open>i--\<close>: a turn of the loop over \<^verbatim>\<open>apSub\<close>, or what follows the loop. The first argument is what
  continues in a sub-bitmap and in the recursive calls.
\<close>

fun bitvec_set_step :: "(bool list \<Rightarrow> Bitvec \<Rightarrow> nat \<Rightarrow> (nat \<times> Bitvec \<times> bool list) option)
    \<Rightarrow> bool list \<Rightarrow> Bitvec \<Rightarrow> nat \<Rightarrow> (nat \<times> Bitvec \<times> bool list) option" where
  "bitvec_set_step setb mem (apSub n d subs) i =
     (let bin = i div d; i = i mod d
      in if bin < length subs then
           (case (case subs ! bin of Some q \<Rightarrow> (Some q, mem) | None \<Rightarrow> sqlite3BitvecCreate mem d) of
              (None, mem) \<Rightarrow> Some (SQLITE_NOMEM, apSub n d subs, mem)
            | (Some q, mem) \<Rightarrow> do {
                (rc, q, mem) \<leftarrow> setb mem q i;
                Some (rc, apSub n d (subs[bin := Some q]), mem) })
         else None)"
| "bitvec_set_step setb mem (aBitmap n bm) i =
     (if i div 8 < length bm
      then Some (SQLITE_OK, aBitmap n (bm[i div 8 := bm ! (i div 8) OR push_bit (i AND 7) 1]), mem)
      else None)"
| "bitvec_set_step setb mem (aHash n k tbl) i =
     (let h = BITVEC_HASH i; i = Suc i
      in if tbl ! h = 0 \<and> k < BITVEC_NINT - 1 then Some (SQLITE_OK, aHash n (Suc k) (tbl[h := i]), mem)
         else do {
           (found, h) \<leftarrow> (if tbl ! h = 0 then Some (False, h) else probe BITVEC_NINT tbl h i);
           if found then Some (SQLITE_OK, aHash n k tbl, mem)
           else if k \<ge> BITVEC_MXHASH then
             (case alloc mem of
                (False, mem) \<Rightarrow> Some (SQLITE_NOMEM, aHash n k tbl, mem)
              | (True, mem) \<Rightarrow> do {
                  let p = apSub n ((n + BITVEC_NPTR - 1) div BITVEC_NPTR) (replicate BITVEC_NPTR None);
                  r \<leftarrow> setb mem p (i - 1);
                  foldl (\<lambda>r v. if v = 0 then r else do {
                      (rc, p, mem) \<leftarrow> r;
                      (rc', p, mem) \<leftarrow> (if v \<le> n then setb mem p (v - 1) else None);
                      Some (rc OR rc', p, mem) }) (Some r) tbl })
           else Some (SQLITE_OK, aHash n (Suc k) (tbl[h := i]), mem) })"

primrec bitvec_set :: "nat \<Rightarrow> bool list \<Rightarrow> Bitvec \<Rightarrow> nat \<Rightarrow> (nat \<times> Bitvec \<times> bool list) option" where
  "bitvec_set 0 = (\<lambda>mem p i. None)"
| "bitvec_set (Suc depth) = bitvec_set_step (bitvec_set depth)"

text \<open>The depth 16 is more than enough for 32-bit sizes.\<close>

definition sqlite3BitvecSet :: "bool list \<Rightarrow> Bitvec option \<Rightarrow> nat \<Rightarrow> (nat \<times> Bitvec option \<times> bool list) option" where
  "sqlite3BitvecSet mem p i =
     (case p of None \<Rightarrow> Some (SQLITE_OK, None, mem)
      | Some p \<Rightarrow> if 0 < i \<and> i \<le> iSize p
          then map_option (\<lambda>(rc, p, mem). (rc, Some p, mem)) (bitvec_set 16 mem p (i - 1)) else None)"

section \<open>Clearing\<close>

fun free_slot :: "nat \<Rightarrow> nat list \<Rightarrow> nat \<Rightarrow> nat option" where
  "free_slot 0 tbl h = None"
| "free_slot (Suc n) tbl h = (if tbl ! h = 0 then Some h else free_slot n tbl (if Suc h \<ge> BITVEC_NINT then 0 else Suc h))"

text \<open>The loop over \<^verbatim>\<open>aiValues\<close>; \<open>k\<close> is \<^verbatim>\<open>nSet\<close>.\<close>

fun rebuild :: "nat \<Rightarrow> nat list \<Rightarrow> nat \<Rightarrow> nat list \<Rightarrow> (nat \<times> nat list) option" where
  "rebuild i [] k tbl = Some (k, tbl)"
| "rebuild i (v # vs) k tbl =
     (if v \<noteq> 0 \<and> v \<noteq> i + 1 then do {
        h \<leftarrow> free_slot BITVEC_NINT tbl (BITVEC_HASH (v - 1));
        rebuild i vs (Suc k) (tbl[h := v]) }
      else rebuild i vs k tbl)"

function (sequential) bitvec_clear :: "Bitvec \<Rightarrow> nat \<Rightarrow> Bitvec option" where
  "bitvec_clear (aBitmap n bm) i =
     (if i div 8 < length bm then Some (aBitmap n (bm[i div 8 := bm ! (i div 8) AND NOT (push_bit (i AND 7) 1)])) else None)"
| "bitvec_clear (aHash n k tbl) i = map_option (\<lambda>(k, tbl). aHash n k tbl) (rebuild i tbl 0 (replicate BITVEC_NINT 0))"
| "bitvec_clear (apSub n d subs) i =
     (if i div d < length subs
      then (case subs ! (i div d) of
              None \<Rightarrow> Some (apSub n d subs)
            | Some q \<Rightarrow> map_option (\<lambda>q. apSub n d (subs[i div d := Some q])) (bitvec_clear q (i mod d)))
      else None)"
  by pat_completeness auto
termination by (relation "measure (size \<circ> fst)") (use size_sub in auto)

definition sqlite3BitvecClear :: "Bitvec option \<Rightarrow> nat \<Rightarrow> Bitvec option option" where
  "sqlite3BitvecClear p i =
     (case p of None \<Rightarrow> Some None
      | Some p \<Rightarrow> if 0 < i then map_option Some (bitvec_clear p (i - 1)) else None)"

section \<open>Size and destruction\<close>

definition sqlite3BitvecSize :: "Bitvec \<Rightarrow> nat" where
  "sqlite3BitvecSize p = iSize p"

text \<open>
  The structures that \<^verbatim>\<open>sqlite3_free\<close> is called on, in order; a structure is named by the indices into \<^verbatim>\<open>apSub\<close> that
  lead to it from the root.
\<close>

function (sequential) bitvec_destroy :: "nat list \<Rightarrow> Bitvec \<Rightarrow> nat list list" where
  "bitvec_destroy path (apSub n d subs) =
     concat (map (\<lambda>i. case subs ! i of None \<Rightarrow> [] | Some q \<Rightarrow> bitvec_destroy (path @ [i]) q) [0 ..< length subs]) @ [path]"
| "bitvec_destroy path p = [path]"
  by pat_completeness auto
termination by (relation "measure (size \<circ> snd)") (use size_sub in auto)

definition sqlite3BitvecDestroy :: "Bitvec option \<Rightarrow> nat list list" where
  "sqlite3BitvecDestroy p = (case p of None \<Rightarrow> [] | Some p \<Rightarrow> bitvec_destroy [] p)"

text \<open>Destroying a vector frees each of its structures exactly once.\<close>

fun node_at :: "Bitvec \<Rightarrow> nat list \<Rightarrow> bool" where
  "node_at p [] = True"
| "node_at (apSub n d subs) (i # path) = (i < length subs \<and> (case subs ! i of None \<Rightarrow> False | Some q \<Rightarrow> node_at q path))"
| "node_at p (i # path) = False"

lemma node_at_leaf [simp]: "node_at (aBitmap n bm) path \<longleftrightarrow> path = []" "node_at (aHash n k tbl) path \<longleftrightarrow> path = []"
  by (cases path; simp)+

lemma bitvec_destroy_once: "distinct (bitvec_destroy path p) \<and> set (bitvec_destroy path p) = (@) path ` {is. node_at p is}"
proof (induction path p rule: bitvec_destroy.induct)
  case (1 path n d subs)
  let ?f = "\<lambda>i. case subs ! i of None \<Rightarrow> [] | Some q \<Rightarrow> bitvec_destroy (path @ [i]) q"
  have part: "distinct (?f i) \<and> set (?f i) = (\<lambda>is. path @ i # is) ` {is. node_at (apSub n d subs) (i # is)}" if "i < length subs" for i
    using 1 [of i] that by (cases "subs ! i") auto
  have apart: "set (?f i) \<inter> set (?f j) = {}" if "i < length subs" "j < length subs" "i \<noteq> j" for i j
    using part [OF that(1)] part [OF that(2)] that(3) by auto
  have "distinct (concat (map ?f xs))" if "distinct xs" "set xs \<subseteq> {..<length subs}" for xs
    using that
  proof (induction xs)
    case (Cons i xs)
    then have "set (?f i) \<inter> set (?f j) = {}" if "j \<in> set xs" for j using apart [of i j] that by auto
    then show ?case using Cons part [of i] by auto
  qed simp
  from this [of "[0 ..< length subs]"] have dist: "distinct (concat (map ?f [0 ..< length subs]))" by (simp add: lessThan_atLeast0)
  have "set (concat (map ?f [0 ..< length subs])) = (\<Union>i < length subs. set (?f i))" by (simp add: lessThan_atLeast0)
  also have "\<dots> = (\<Union>i < length subs. (\<lambda>is. path @ i # is) ` {is. node_at (apSub n d subs) (i # is)})" using part by (intro SUP_cong) auto
  also have "\<dots> = (@) path ` {is. is \<noteq> [] \<and> node_at (apSub n d subs) is}"
  proof (rule set_eqI, rule iffI)
    fix x assume "x \<in> (@) path ` {is. is \<noteq> [] \<and> node_at (apSub n d subs) is}"
    then obtain i js where "x = path @ i # js" "node_at (apSub n d subs) (i # js)" by (auto simp: neq_Nil_conv)
    then show "x \<in> (\<Union>i < length subs. (\<lambda>is. path @ i # is) ` {is. node_at (apSub n d subs) (i # is)})" by auto
  qed auto
  finally have all: "set (concat (map ?f [0 ..< length subs])) = (@) path ` {is. is \<noteq> [] \<and> node_at (apSub n d subs) is}" .
  then have "path \<notin> set (concat (map ?f [0 ..< length subs]))" by auto
  moreover have "insert path ((@) path ` {is. is \<noteq> [] \<and> node_at (apSub n d subs) is}) = (@) path ` {is. node_at (apSub n d subs) is}"
    by force
  ultimately show ?case
    unfolding bitvec_destroy.simps(1) distinct_append set_append all using dist by (simp only: list.set distinct.simps Un_insert_right sup_bot_right) blast
qed simp_all

section \<open>The hash table\<close>

lemma nint_pos [simp]: "0 < BITVEC_NINT"
  by (simp add: bitvec_constants)

lemma hash_less [simp]: "BITVEC_HASH i < BITVEC_NINT"
  by (simp add: BITVEC_HASH_def)

text \<open>The slot \<open>k\<close> places after \<open>h\<close>, around the end of the table.\<close>

definition slot :: "nat \<Rightarrow> nat \<Rightarrow> nat" where
  "slot h k = (h + k) mod BITVEC_NINT"

lemma slot_simps [simp]: "h < BITVEC_NINT \<Longrightarrow> slot h 0 = h" "slot h k < BITVEC_NINT" "slot (Suc h mod BITVEC_NINT) k = slot h (Suc k)"
  by (simp_all add: slot_def mod_add_left_eq)

lemma slot_reaches: "h < BITVEC_NINT \<Longrightarrow> s < BITVEC_NINT \<Longrightarrow> \<exists>k < BITVEC_NINT. slot h k = s"
proof (cases "h \<le> s")
  case True
  assume "h < BITVEC_NINT" "s < BITVEC_NINT"
  then show ?thesis using True by (intro exI [of _ "s - h"]) (simp add: slot_def)
next
  case False
  assume "h < BITVEC_NINT" "s < BITVEC_NINT"
  then show ?thesis using False by (intro exI [of _ "s + BITVEC_NINT - h"]) (simp add: slot_def)
qed

lemma probe_walk:
  "h < BITVEC_NINT \<Longrightarrow> \<forall>j < k. tbl ! slot h j \<noteq> 0 \<and> tbl ! slot h j \<noteq> x \<Longrightarrow> k < n \<Longrightarrow> tbl ! slot h k = 0 \<or> tbl ! slot h k = x \<Longrightarrow>
    probe n tbl h x = Some (tbl ! slot h k \<noteq> 0, slot h k)"
proof (induction k arbitrary: h n)
  case 0
  then show ?case by (cases n) auto
next
  case (Suc k)
  obtain m where n: "n = Suc m" using Suc.prems(3) by (cases n) auto
  have first: "tbl ! h \<noteq> 0" "tbl ! h \<noteq> x" using Suc.prems(1,2) by force+
  have "\<forall>j < k. tbl ! slot h (Suc j) \<noteq> 0 \<and> tbl ! slot h (Suc j) \<noteq> x" using Suc.prems(2) by simp
  then have "probe m tbl (Suc h mod BITVEC_NINT) x = Some (tbl ! slot h (Suc k) \<noteq> 0, slot h (Suc k))"
    using Suc.IH [of "Suc h mod BITVEC_NINT" m] Suc.prems(3,4) n by simp
  then show ?case using n first by simp
qed

text \<open>A table is searchable when every value can be reached from its own slot without crossing a free one.\<close>

definition reaches :: "nat list \<Rightarrow> nat \<Rightarrow> nat \<Rightarrow> bool" where
  "reaches tbl h s \<longleftrightarrow> (\<exists>k < BITVEC_NINT. slot h k = s \<and> (\<forall>j < k. tbl ! slot h j \<noteq> 0))"

definition occupied :: "nat list \<Rightarrow> nat set" where
  "occupied tbl = {s. s < BITVEC_NINT \<and> tbl ! s \<noteq> 0}"

definition table_ok :: "nat \<Rightarrow> nat \<Rightarrow> nat list \<Rightarrow> bool" where
  "table_ok n k tbl \<longleftrightarrow>
     length tbl = BITVEC_NINT \<and> (\<forall>v \<in> set tbl. v \<le> n) \<and> k = card (occupied tbl) \<and> k < BITVEC_NINT
     \<and> (\<forall>s \<in> occupied tbl. reaches tbl (BITVEC_HASH (tbl ! s - 1)) s)"

lemma finite_occupied [simp]: "finite (occupied tbl)"
  by (simp add: occupied_def)

lemma free_exists: "table_ok n k tbl \<Longrightarrow> \<exists>s < BITVEC_NINT. tbl ! s = 0"
proof (rule ccontr)
  assume ok: "table_ok n k tbl" and "\<not> (\<exists>s < BITVEC_NINT. tbl ! s = 0)"
  then have "occupied tbl = {..<BITVEC_NINT}" by (auto simp: occupied_def)
  then show False using ok by (auto simp: table_ok_def)
qed

text \<open>What a search returns.\<close>

lemma probe_spec:
  assumes ok: "table_ok n k tbl" and x: "x \<noteq> 0"
  obtains s where "probe BITVEC_NINT tbl (BITVEC_HASH (x - 1)) x = Some (x \<in> set tbl, s)" "s < BITVEC_NINT"
    "x \<notin> set tbl \<Longrightarrow> tbl ! s = 0" "reaches tbl (BITVEC_HASH (x - 1)) s"
proof -
  let ?h = "BITVEC_HASH (x - 1)"
  let ?stop = "\<lambda>k. k < BITVEC_NINT \<and> (tbl ! slot ?h k = 0 \<or> tbl ! slot ?h k = x)"
  have "\<exists>k. ?stop k" using free_exists [OF ok] slot_reaches [of ?h] by (metis hash_less)
  then obtain j where j: "?stop j" and least: "\<forall>i < j. \<not> ?stop i" using exists_least_iff [of ?stop] by blast
  have before: "tbl ! slot ?h i \<noteq> 0 \<and> tbl ! slot ?h i \<noteq> x" if "i < j" for i using least j that by (meson order.strict_trans)
  have len: "length tbl = BITVEC_NINT" using ok by (simp add: table_ok_def)
  have pr: "probe BITVEC_NINT tbl ?h x = Some (tbl ! slot ?h j \<noteq> 0, slot ?h j)"
    using probe_walk [of ?h j tbl x BITVEC_NINT] before j by simp
  have "tbl ! slot ?h j \<in> set tbl" using len by simp
  then have "x \<in> set tbl" if "tbl ! slot ?h j \<noteq> 0" using j that by auto
  moreover have "tbl ! slot ?h j \<noteq> 0" if mem: "x \<in> set tbl"
  proof -
    obtain s where s: "s < BITVEC_NINT" "tbl ! s = x" using mem len by (auto simp: in_set_conv_nth)
    then have "reaches tbl ?h s" using ok x by (auto simp: table_ok_def occupied_def)
    then obtain i where i: "i < BITVEC_NINT" "slot ?h i = s" "\<forall>l < i. tbl ! slot ?h l \<noteq> 0" by (auto simp: reaches_def)
    have "j \<le> i" using before [of i] i(2) s(2) by (meson not_le_imp_less)
    then show ?thesis using i s x by (cases "j = i") auto
  qed
  ultimately have "(tbl ! slot ?h j \<noteq> 0) = (x \<in> set tbl)" by blast
  then show ?thesis using that [of "slot ?h j"] pr j before by (auto simp: reaches_def)
qed

lemma table_insert:
  assumes ok: "table_ok n k tbl" and free: "tbl ! s = 0" "s < BITVEC_NINT" and v: "v \<noteq> 0" "v \<le> n" and room: "Suc k < BITVEC_NINT"
    and r: "reaches tbl (BITVEC_HASH (v - 1)) s"
  shows "table_ok n (Suc k) (tbl[s := v])" "set (tbl[s := v]) - {0} = insert v (set tbl - {0})"
proof -
  have len: "length tbl = BITVEC_NINT" using ok by (simp add: table_ok_def)
  have keep: "(tbl[s := v]) ! u = tbl ! u" if "tbl ! u \<noteq> 0" for u using that free by (cases "u = s") auto
  have grow: "reaches (tbl[s := v]) h u" if "reaches tbl h u" for h u
    using that keep by (auto simp: reaches_def)
  have occ: "occupied (tbl[s := v]) = insert s (occupied tbl)" using free v(1) len by (auto simp: occupied_def nth_list_update)
  have "s \<notin> occupied tbl" using free by (simp add: occupied_def)
  then have "card (occupied (tbl[s := v])) = Suc k" using ok occ by (simp add: table_ok_def)
  moreover have "reaches (tbl[s := v]) (BITVEC_HASH ((tbl[s := v]) ! u - 1)) u" if "u \<in> occupied (tbl[s := v])" for u
  proof (cases "u = s")
    case True
    then show ?thesis using grow [OF r] free len by simp
  next
    case False
    then show ?thesis using that occ ok grow keep by (auto simp: table_ok_def)
  qed
  moreover have "\<forall>u \<in> set (tbl[s := v]). u \<le> n" using ok v(2) set_update_subset_insert [of tbl s v] by (auto simp: table_ok_def)
  ultimately show "table_ok n (Suc k) (tbl[s := v])" using room len by (simp add: table_ok_def)
  have "x \<in> set (tbl[s := v])" if "x \<in> set tbl" "x \<noteq> 0" for x
    using that free len by (metis in_set_conv_nth length_list_update nth_list_update_neq)
  then show "set (tbl[s := v]) - {0} = insert v (set tbl - {0})"
    using set_update_subset_insert [of tbl s v] set_update_memI [of s tbl v] free len v by auto
qed

lemma table_empty: "table_ok n 0 (replicate BITVEC_NINT 0)"
  by (auto simp: table_ok_def occupied_def)

lemma free_slot_probe: "x \<noteq> 0 \<Longrightarrow> x \<notin> set tbl \<Longrightarrow> length tbl = BITVEC_NINT \<Longrightarrow> h < BITVEC_NINT \<Longrightarrow>
    probe n tbl h x = map_option (Pair False) (free_slot n tbl h)"
proof (induction n arbitrary: h)
  case (Suc n)
  have "tbl ! h \<noteq> x" using Suc.prems nth_mem [of h tbl] by auto
  moreover have "(if Suc h \<ge> BITVEC_NINT then 0 else Suc h) = Suc h mod BITVEC_NINT" using Suc.prems(4) by (auto simp: mod_if)
  ultimately show ?case using Suc.IH [OF Suc.prems(1,2,3), of "Suc h mod BITVEC_NINT"] by simp
qed simp

lemma free_slot_spec:
  assumes ok: "table_ok n k tbl" and h: "h < BITVEC_NINT"
  obtains s where "free_slot BITVEC_NINT tbl h = Some s" "s < BITVEC_NINT" "tbl ! s = 0" "reaches tbl h s"
proof -
  let ?stop = "\<lambda>k. k < BITVEC_NINT \<and> tbl ! slot h k = 0"
  have x: "Suc n \<notin> set tbl" "length tbl = BITVEC_NINT" using ok by (auto simp: table_ok_def)
  have "\<exists>k. ?stop k" using free_exists [OF ok] slot_reaches [OF h] by metis
  then obtain j where j: "?stop j" and least: "\<forall>i < j. \<not> ?stop i" using exists_least_iff [of ?stop] by blast
  have before: "tbl ! slot h i \<noteq> 0" if "i < j" for i using least j that by (meson order.strict_trans)
  have "tbl ! slot h i \<noteq> Suc n" for i using x nth_mem [of "slot h i" tbl] slot_simps(2) by metis
  then have "probe BITVEC_NINT tbl h (Suc n) = Some (False, slot h j)"
    using probe_walk [of h j tbl "Suc n" BITVEC_NINT] before j h by simp
  then have "free_slot BITVEC_NINT tbl h = Some (slot h j)"
    using free_slot_probe [of "Suc n" tbl h BITVEC_NINT] x h by simp
  then show ?thesis using that [of "slot h j"] j before by (auto simp: reaches_def)
qed

lemma rebuild_spec:
  "table_ok n k tbl \<Longrightarrow> \<forall>v \<in> set vs. v \<le> n \<Longrightarrow> k + length (filter (\<lambda>v. v \<noteq> 0) vs) < BITVEC_NINT \<Longrightarrow>
    \<exists>k' tbl'. rebuild i vs k tbl = Some (k', tbl') \<and> table_ok n k' tbl' \<and> set tbl' - {0} = (set tbl - {0}) \<union> (set vs - {0, Suc i})"
proof (induction vs arbitrary: k tbl)
  case (Cons v vs)
  show ?case
  proof (cases "v \<noteq> 0 \<and> v \<noteq> Suc i")
    case True
    obtain s where s: "free_slot BITVEC_NINT tbl (BITVEC_HASH (v - 1)) = Some s" "s < BITVEC_NINT" "tbl ! s = 0" "reaches tbl (BITVEC_HASH (v - 1)) s"
      using free_slot_spec [OF Cons.prems(1) hash_less] by blast
    have "Suc k < BITVEC_NINT" using Cons.prems(3) True by simp
    then have t: "table_ok n (Suc k) (tbl[s := v])" "set (tbl[s := v]) - {0} = insert v (set tbl - {0})"
      using table_insert [OF Cons.prems(1) s(3,2) _ _ _ s(4)] True Cons.prems(2) by auto
    then show ?thesis using Cons.IH [OF t(1)] Cons.prems(2,3) True s(1) by auto
  next
    case False
    then show ?thesis using Cons.IH [OF Cons.prems(1)] Cons.prems(2,3) by (auto split: if_splits)
  qed
qed simp

section \<open>Well-formed bit vectors\<close>

inductive bitvec_ok :: "Bitvec \<Rightarrow> bool" where
  bitmap: "n \<le> BITVEC_NBIT \<Longrightarrow> length bm = BITVEC_NELEM \<Longrightarrow> bitvec_ok (aBitmap n bm)"
| hash: "BITVEC_NBIT < n \<Longrightarrow> table_ok n k tbl \<Longrightarrow> bitvec_ok (aHash n k tbl)"
| sub: "BITVEC_NBIT < n \<Longrightarrow> d = (n + BITVEC_NPTR - 1) div BITVEC_NPTR \<Longrightarrow> length subs = BITVEC_NPTR \<Longrightarrow>
    (\<forall>q. Some q \<in> set subs \<longrightarrow> iSize q = d \<and> bitvec_ok q) \<Longrightarrow> bitvec_ok (apSub n d subs)"

inductive_simps bitvec_ok_simps [simp]: "bitvec_ok (aBitmap n bm)" "bitvec_ok (aHash n k tbl)" "bitvec_ok (apSub n d subs)"

abbreviation member :: "Bitvec \<Rightarrow> nat \<Rightarrow> bool" where
  "member p i \<equiv> bitvec_test p i = Some True"

lemma and_seven: "(i :: nat) AND 7 = i mod 8"
  using take_bit_eq_mask [of 3 i] by (simp add: take_bit_eq_mod mask_eq_exp_minus_1)

lemma bitmap_update:
  "k < 8 \<Longrightarrow> m < 8 \<Longrightarrow> bit ((w :: u8) OR 2 ^ k) m \<longleftrightarrow> bit w m \<or> m = k"
  "k < 8 \<Longrightarrow> m < 8 \<Longrightarrow> bit (w AND NOT (2 ^ k)) m \<longleftrightarrow> bit w m \<and> m \<noteq> k"
  by (auto simp: bit_simps)

lemma same_bit: "i div 8 = j div 8 \<Longrightarrow> (i mod 8 = j mod 8) = (i = (j :: nat))"
  by (metis div_mult_mod_eq)

lemma bin_less: "i < n \<Longrightarrow> i div ((n + BITVEC_NPTR - 1) div BITVEC_NPTR) < BITVEC_NPTR" "i < n \<Longrightarrow> 0 < (n + BITVEC_NPTR - 1) div BITVEC_NPTR"
proof -
  assume i: "i < n"
  let ?d = "(n + BITVEC_NPTR - 1) div BITVEC_NPTR"
  have "n \<le> BITVEC_NPTR * ?d" by (simp add: bitvec_constants)
  then have "i < BITVEC_NPTR * ?d" using i by simp
  then show "i div ?d < BITVEC_NPTR" "0 < ?d" using less_mult_imp_div_less [of i BITVEC_NPTR ?d] by (auto intro: gr0I)
qed

lemma hash_test: "table_ok n k tbl \<Longrightarrow> bitvec_test (aHash n k tbl) i = Some (Suc i \<in> set tbl)"
  by (rule probe_spec [of n k tbl "Suc i"]) simp_all

lemma bitmap_test: "length bm = BITVEC_NELEM \<Longrightarrow> i < BITVEC_NBIT \<Longrightarrow> bitvec_test (aBitmap n bm) i = Some (bit (bm ! (i div 8)) (i mod 8))"
  by (simp add: and_exp_eq_0_iff_not_bit and_seven bitvec_constants div_less_iff_less_mult)

lemma test_defined: "bitvec_ok p \<Longrightarrow> i < iSize p \<Longrightarrow> bitvec_test p i \<noteq> None"
proof (induction arbitrary: i rule: bitvec_ok.induct)
  case (bitmap n bm)
  then show ?case using bitmap_test [of bm i n] by simp
next
  case (hash n k tbl)
  then show ?case using hash_test [of n k tbl i] by (simp del: bitvec_test.simps)
next
  case (sub n d subs)
  then have "i div d < length subs" "0 < d" using bin_less [of i n] by simp_all
  moreover have "bitvec_test q (i mod d) \<noteq> None" if "subs ! (i div d) = Some q" for q
    using sub(4) that nth_mem [of "i div d" subs] calculation by force
  ultimately show ?case by (auto split: option.splits)
qed

lemma new_ok: "bitvec_ok (bitvec_new n)" "iSize (bitvec_new n) = n" "i < n \<Longrightarrow> bitvec_test (bitvec_new n) i = Some False"
proof -
  show "bitvec_ok (bitvec_new n)" "iSize (bitvec_new n) = n" using table_empty by (simp_all add: bitvec_new_def)
  assume i: "i < n"
  show "bitvec_test (bitvec_new n) i = Some False"
  proof (cases "n \<le> BITVEC_NBIT")
    case True
    have "i div 8 < BITVEC_NELEM" using True i by (simp add: bitvec_constants div_less_iff_less_mult)
    then show ?thesis using True i bitmap_test [of "replicate BITVEC_NELEM 0" i n] by (simp add: bitvec_new_def del: bitvec_test.simps)
  next
    case False
    then show ?thesis using hash_test [OF table_empty, of n i] by (simp add: bitvec_new_def del: bitvec_test.simps)
  qed
qed

text \<open>The depth needed for a bit vector of a given size.\<close>

function need :: "nat \<Rightarrow> nat" where
  "need n = (if n \<le> BITVEC_NBIT then 1 else 2 + need ((n + BITVEC_NPTR - 1) div BITVEC_NPTR))"
  by pat_completeness auto
termination by (relation "measure id") (auto simp: bitvec_constants)

declare need.simps [simp del]

fun depth :: "Bitvec \<Rightarrow> nat" where
  "depth (aBitmap n bm) = 1"
| "depth (aHash n k tbl) = need n"
| "depth (apSub n d subs) = 1 + need d"

lemma need_large: "BITVEC_NBIT < n \<Longrightarrow> need n = 2 + need ((n + BITVEC_NPTR - 1) div BITVEC_NPTR)"
  by (subst need.simps) simp

lemma need_pos: "1 \<le> need n"
  by (subst need.simps) simp

lemma depth_le_need: "bitvec_ok p \<Longrightarrow> depth p \<le> need (iSize p)"
  by (cases p) (simp_all add: need_pos [simplified] need_large)

lemma need_bound: "n \<le> BITVEC_NBIT * BITVEC_NPTR ^ k \<Longrightarrow> need n \<le> 1 + 2 * k"
proof (induction k arbitrary: n)
  case 0
  then show ?case by (subst need.simps) simp
next
  case (Suc k)
  let ?m = "BITVEC_NBIT * BITVEC_NPTR ^ k"
  have "n \<le> ?m * BITVEC_NPTR" "0 < BITVEC_NPTR" using Suc.prems by (simp_all add: mult.assoc mult.commute bitvec_constants)
  then have "n + BITVEC_NPTR - 1 < Suc ?m * BITVEC_NPTR" by simp
  then have "(n + BITVEC_NPTR - 1) div BITVEC_NPTR < Suc ?m" by (rule less_mult_imp_div_less)
  then have "(n + BITVEC_NPTR - 1) div BITVEC_NPTR \<le> ?m" by simp
  from Suc.IH [OF this] show ?case by (subst need.simps) simp
qed

lemma need_u32: "n < 2 ^ 32 \<Longrightarrow> need n \<le> 16"
  using need_bound [of n 4] by (simp add: bitvec_constants)

section \<open>Setting a bit\<close>

text \<open>What setting bit \<open>i\<close> of \<open>p\<close> may return: a well-formed bit vector, on success the bits of \<open>p\<close> and \<open>i\<close>, and success
  when there is memory.\<close>

definition set_post :: "bool list \<Rightarrow> Bitvec \<Rightarrow> nat \<Rightarrow> (nat \<times> Bitvec \<times> bool list) option \<Rightarrow> bool" where
  "set_post mem p i r \<longleftrightarrow> (\<exists>rc p' mem'. r = Some (rc, p', mem') \<and> bitvec_ok p' \<and> iSize p' = iSize p \<and> depth p' \<le> depth p
     \<and> (rc = 0 \<longrightarrow> (\<forall>j < iSize p. member p' j \<longleftrightarrow> j = i \<or> member p j)) \<and> (list_all (\<lambda>b. b) mem \<longrightarrow> rc = 0 \<and> list_all (\<lambda>b. b) mem'))"

lemma set_postI:
  "bitvec_ok p' \<Longrightarrow> iSize p' = iSize p \<Longrightarrow> depth p' \<le> depth p \<Longrightarrow>
   (\<And>j. rc = 0 \<Longrightarrow> j < iSize p \<Longrightarrow> member p' j \<longleftrightarrow> j = i \<or> member p j) \<Longrightarrow>
   (list_all (\<lambda>b. b) mem \<Longrightarrow> rc = 0 \<and> list_all (\<lambda>b. b) mem') \<Longrightarrow> set_post mem p i (Some (rc, p', mem'))"
  by (simp add: set_post_def)

lemma set_bitmap:
  assumes "bitvec_ok (aBitmap n bm)" and "i < n"
  shows "set_post mem (aBitmap n bm) i (bitvec_set_step setb mem (aBitmap n bm) i)"
proof -
  have bm: "length bm = BITVEC_NELEM" "n \<le> BITVEC_NBIT" using assms(1) by simp_all
  then have i: "i div 8 < length bm" using assms(2) by (simp add: bitvec_constants div_less_iff_less_mult)
  let ?bm = "bm[i div 8 := bm ! (i div 8) OR 2 ^ (i mod 8)]"
  have "member (aBitmap n ?bm) j \<longleftrightarrow> j = i \<or> member (aBitmap n bm) j" if "j < n" for j
  proof -
    have "bitvec_test (aBitmap n ?bm) j = Some (bit (?bm ! (j div 8)) (j mod 8))" "bitvec_test (aBitmap n bm) j = Some (bit (bm ! (j div 8)) (j mod 8))"
      using bitmap_test [of ?bm j n] bitmap_test [of bm j n] bm that by simp_all
    then show ?thesis using i same_bit [of j i] by (cases "j div 8 = i div 8") (auto simp: bitmap_update simp del: bitvec_test.simps)
  qed
  moreover have "bitvec_set_step setb mem (aBitmap n bm) i = Some (SQLITE_OK, aBitmap n ?bm, mem)" using i by (simp add: and_seven)
  ultimately show ?thesis using bm by (auto intro: set_postI simp del: bitvec_test.simps bitvec_set_step.simps)
qed

lemma sub_member:
  assumes "length subs = BITVEC_NPTR" and "i < n" and "d = (n + BITVEC_NPTR - 1) div BITVEC_NPTR"
  shows "member (apSub n d subs) i \<longleftrightarrow> (\<exists>q. subs ! (i div d) = Some q \<and> member q (i mod d))"
  using bin_less [OF assms(2)] assms by (auto split: option.splits)

lemma div_mod_same: "(j div d = i div d \<and> j mod d = i mod d) = (j = (i :: nat))"
  by (metis div_mult_mod_eq)

lemma set_sub:
  assumes ok: "bitvec_ok (apSub n d subs)" and i: "i < n" and depth: "need d \<le> m"
    and setb: "\<And>mem q j. bitvec_ok q \<Longrightarrow> j < iSize q \<Longrightarrow> depth q \<le> m \<Longrightarrow> set_post mem q j (setb mem q j)"
  shows "set_post mem (apSub n d subs) i (bitvec_set_step setb mem (apSub n d subs) i)"
proof -
  have subs: "length subs = BITVEC_NPTR" "BITVEC_NBIT < n" "d = (n + BITVEC_NPTR - 1) div BITVEC_NPTR"
    "\<And>q. Some q \<in> set subs \<Longrightarrow> iSize q = d \<and> bitvec_ok q" using ok by simp_all
  let ?bin = "i div d"
  have bin: "?bin < length subs" "0 < d" using bin_less [OF i] subs by simp_all
  obtain q0 mem1 where q0: "(case subs ! ?bin of Some q \<Rightarrow> (Some q, mem) | None \<Rightarrow> sqlite3BitvecCreate mem d) = (q0, mem1)" by fastforce
  have mem1: "list_all (\<lambda>b. b) mem \<longrightarrow> q0 \<noteq> None \<and> list_all (\<lambda>b. b) mem1"
  proof (cases "subs ! ?bin")
    case None
    then show ?thesis using q0 by (cases mem) (auto simp: sqlite3BitvecCreate_def split: if_splits)
  next
    case (Some r)
    from q0 [unfolded Some] have "q0 = Some r" "mem1 = mem" by simp_all
    then show ?thesis by simp
  qed
  show ?thesis
  proof (cases q0)
    case None
    then have "bitvec_set_step setb mem (apSub n d subs) i = Some (SQLITE_NOMEM, apSub n d subs, mem1)" using q0 bin by (simp add: Let_def)
    then show ?thesis using set_postI [OF ok, of "apSub n d subs" SQLITE_NOMEM i mem mem1] mem1 None by (simp del: bitvec_set_step.simps)
  next
    case (Some q)
    have q: "bitvec_ok q" "iSize q = d" "\<And>j. j < d \<Longrightarrow> member q j \<longleftrightarrow> (\<exists>r. subs ! ?bin = Some r \<and> member r j)"
    proof -
      consider (old) "subs ! ?bin = Some q" | (fresh) "subs ! ?bin = None" "q = bitvec_new d"
        using q0 Some by (auto simp: sqlite3BitvecCreate_def split: option.splits if_splits prod.splits)
      then have "bitvec_ok q \<and> iSize q = d \<and> (\<forall>j < d. member q j \<longleftrightarrow> (\<exists>r. subs ! ?bin = Some r \<and> member r j))"
      proof cases
        case old
        then show ?thesis using subs(4) [of q] nth_mem [OF bin(1)] by simp
      next
        case fresh
        then show ?thesis using new_ok(1,2) [of d] new_ok(3) by simp
      qed
      then show "bitvec_ok q" "iSize q = d" "\<And>j. j < d \<Longrightarrow> member q j \<longleftrightarrow> (\<exists>r. subs ! ?bin = Some r \<and> member r j)" by blast+
    qed
    have "set_post mem1 q (i mod d) (setb mem1 q (i mod d))" using setb [of q "i mod d" mem1] depth_le_need [OF q(1)] q depth bin by simp
    then obtain rc q' mem2 where q': "setb mem1 q (i mod d) = Some (rc, q', mem2)" "bitvec_ok q'" "iSize q' = d"
      "rc = 0 \<longrightarrow> (\<forall>j < d. member q' j \<longleftrightarrow> j = i mod d \<or> member q j)"
      "list_all (\<lambda>b. b) mem1 \<longrightarrow> rc = 0 \<and> list_all (\<lambda>b. b) mem2" using q(2) by (auto simp: set_post_def)
    let ?p' = "apSub n d (subs[?bin := Some q'])"
    have "bitvec_ok ?p'" using subs q'(2,3) set_update_subset_insert [of subs ?bin "Some q'"] by auto
    moreover have "member ?p' j \<longleftrightarrow> j = i \<or> member (apSub n d subs) j" if "j < n" "rc = 0" for j
      using that q'(4) q(3) bin subs(1,3) sub_member [of "subs[?bin := Some q']" j n d] sub_member [of subs j n d] div_mod_same [of j d i]
      by (cases "j div d = ?bin") auto
    moreover have "bitvec_set_step setb mem (apSub n d subs) i = Some (rc, ?p', mem2)" using q0 Some q'(1) bin by (simp add: Let_def)
    ultimately show ?thesis using set_postI [of ?p' "apSub n d subs" rc i mem mem2] q'(5) mem1 by simp
  qed
qed

lemma refill_spec:
  assumes setb: "\<And>mem q j. bitvec_ok q \<Longrightarrow> j < iSize q \<Longrightarrow> depth q \<le> m \<Longrightarrow> set_post mem q j (setb mem q j)"
  shows "bitvec_ok p \<Longrightarrow> iSize p = n \<Longrightarrow> depth p \<le> m \<Longrightarrow> \<forall>v \<in> set vs. v \<le> n \<Longrightarrow>
    \<exists>rc' p' mem'. foldl (\<lambda>r v. if v = 0 then r else do {
                      (rc, p, mem) \<leftarrow> r;
                      (rc', p, mem) \<leftarrow> (if v \<le> n then setb mem p (v - 1) else None);
                      Some (rc OR rc', p, mem) }) (Some (rc, p, mem)) vs = Some (rc', p', mem')
      \<and> bitvec_ok p' \<and> iSize p' = n \<and> depth p' \<le> m
      \<and> (rc' = 0 \<longrightarrow> rc = 0 \<and> (\<forall>j < n. member p' j \<longleftrightarrow> member p j \<or> Suc j \<in> set vs)) \<and> (list_all (\<lambda>b. b) mem \<and> rc = 0 \<longrightarrow> rc' = 0 \<and> list_all (\<lambda>b. b) mem')"
proof (induction vs arbitrary: rc p mem)
  case (Cons v vs)
  show ?case
  proof (cases "v = 0")
    case True
    then show ?thesis using Cons.IH [OF Cons.prems(1,2,3), of rc mem] Cons.prems(4) by simp
  next
    case False
    then have v: "v - 1 < iSize p" "v \<le> n" using Cons.prems(2,4) by auto
    obtain rc1 p1 mem1 where p1: "setb mem p (v - 1) = Some (rc1, p1, mem1)" "bitvec_ok p1" "iSize p1 = n" "depth p1 \<le> m"
      "rc1 = 0 \<longrightarrow> (\<forall>j < n. member p1 j \<longleftrightarrow> j = v - 1 \<or> member p j)" "list_all (\<lambda>b. b) mem \<longrightarrow> rc1 = 0 \<and> list_all (\<lambda>b. b) mem1"
      using setb [OF Cons.prems(1) v(1) Cons.prems(3), of mem] Cons.prems(2,3) by (auto simp: set_post_def)
    have "j = v - 1 \<longleftrightarrow> Suc j = v" for j using False by auto
    then show ?thesis using Cons.IH [OF p1(2,3,4), of "rc OR rc1" mem1] p1(1,5,6) False v(2) Cons.prems(4) by (auto simp: or_eq_0_iff)
  qed
qed simp

lemma set_hash:
  assumes ok: "bitvec_ok (aHash n k tbl)" and i: "i < n" and depth: "need n \<le> Suc m"
    and setb: "\<And>mem q j. bitvec_ok q \<Longrightarrow> j < iSize q \<Longrightarrow> depth q \<le> m \<Longrightarrow> set_post mem q j (setb mem q j)"
  shows "set_post mem (aHash n k tbl) i (bitvec_set_step setb mem (aHash n k tbl) i)"
proof -
  let ?p = "aHash n k tbl" and ?h = "BITVEC_HASH i" and ?d = "(n + BITVEC_NPTR - 1) div BITVEC_NPTR"
  have tbl: "table_ok n k tbl" "BITVEC_NBIT < n" "\<forall>v \<in> set tbl. v \<le> n" using ok by (simp_all add: table_ok_def)
  obtain s where s: "probe BITVEC_NINT tbl ?h (Suc i) = Some (Suc i \<in> set tbl, s)" "s < BITVEC_NINT"
    "Suc i \<notin> set tbl \<Longrightarrow> tbl ! s = 0" "reaches tbl ?h s" using probe_spec [OF tbl(1), of "Suc i"] by auto
  obtain N where "BITVEC_NINT = Suc N" using nint_pos gr0_implies_Suc by blast
  then have first: "tbl ! ?h = 0 \<Longrightarrow> Suc i \<notin> set tbl \<and> s = ?h" using s(1) probe.simps(2) [of N tbl ?h "Suc i"] by auto
  have search: "(if tbl ! ?h = 0 then Some (False, ?h) else probe BITVEC_NINT tbl ?h (Suc i)) = Some (Suc i \<in> set tbl, s)"
    using first s(1) by simp
  have insert: "set_post mem ?p i (Some (SQLITE_OK, aHash n (Suc k) (tbl[s := Suc i]), mem))" if "Suc i \<notin> set tbl" "Suc k < BITVEC_NINT"
  proof -
    have t: "table_ok n (Suc k) (tbl[s := Suc i])" "set (tbl[s := Suc i]) - {0} = insert (Suc i) (set tbl - {0})"
      using table_insert [OF tbl(1) s(3) s(2) _ _ that(2), of "Suc i"] that s(4) i by auto
    then have "Suc j \<in> set (tbl[s := Suc i]) \<longleftrightarrow> j = i \<or> Suc j \<in> set tbl" for j by auto
    then show ?thesis using hash_test [OF t(1)] hash_test [OF tbl(1)] t(1) tbl(2) by (intro set_postI) (auto simp del: bitvec_test.simps)
  qed
  have rehash: "set_post mem1 ?p i (do {
                  let p = apSub n ?d (replicate BITVEC_NPTR None);
                  r \<leftarrow> setb mem1 p i;
                  foldl (\<lambda>r v. if v = 0 then r else do {
                      (rc, p, mem) \<leftarrow> r;
                      (rc', p, mem) \<leftarrow> (if v \<le> n then setb mem p (v - 1) else None);
                      Some (rc OR rc', p, mem) }) (Some r) tbl })" for mem1
  proof -
    let ?e = "apSub n ?d (replicate BITVEC_NPTR None)" and ?m = "Suc (need ?d)"
    have e: "bitvec_ok ?e" "depth ?e \<le> ?m" using tbl(2) by simp_all
    have m: "?m \<le> m" "?m \<le> depth ?p" using depth need_large [OF tbl(2)] by simp_all
    then have setb': "set_post mem q j (setb mem q j)" if "bitvec_ok q" "j < iSize q" "depth q \<le> ?m" for mem q j
      using setb [OF that(1,2)] that(3) by simp
    have "\<not> member ?e j" if "j < n" for j using sub_member [of "replicate BITVEC_NPTR None" j n ?d] that bin_less [OF that] by simp
    then obtain rc p1 mem2 where p1: "setb mem1 ?e i = Some (rc, p1, mem2)" "bitvec_ok p1" "iSize p1 = n" "depth p1 \<le> ?m"
      "rc = 0 \<longrightarrow> (\<forall>j < n. member p1 j \<longleftrightarrow> j = i)" "list_all (\<lambda>b. b) mem1 \<longrightarrow> rc = 0 \<and> list_all (\<lambda>b. b) mem2" using setb' [OF e(1) _ e(2), of i mem1] i by (auto simp: set_post_def simp del: bitvec_test.simps)
    from refill_spec [where setb = setb and rc = rc and mem = mem2, OF setb' p1(2,3,4) tbl(3)] m(2) show ?thesis using p1(1,5,6) hash_test [OF tbl(1)]
      by (auto simp: set_post_def simp del: bitvec_test.simps)
  qed
  show ?thesis
  proof (cases "Suc i \<in> set tbl")
    case True
    then have "bitvec_set_step setb mem ?p i = Some (SQLITE_OK, ?p, mem)" using first search by (auto simp: Let_def)
    then show ?thesis using ok True hash_test [OF tbl(1)] by (auto intro!: set_postI simp del: bitvec_test.simps bitvec_set_step.simps)
  next
    case new: False
    consider (direct) "tbl ! ?h = 0" "k < BITVEC_NINT - 1" | (low) "\<not> (tbl ! ?h = 0 \<and> k < BITVEC_NINT - 1)" "\<not> k \<ge> BITVEC_MXHASH"
      | (full) "\<not> (tbl ! ?h = 0 \<and> k < BITVEC_NINT - 1)" "k \<ge> BITVEC_MXHASH" by metis
    then show ?thesis
    proof cases
      case direct
      then show ?thesis using insert new first by (simp add: Let_def)
    next
      case low
      then have "Suc k < BITVEC_NINT" by (simp add: bitvec_constants)
      then show ?thesis using insert [OF new] low search new by (auto simp: Let_def)
    next
      case full
      obtain b mem1 where a: "alloc mem = (b, mem1)" by (cases "alloc mem")
      then have mem1: "list_all (\<lambda>b. b) mem \<longrightarrow> b \<and> list_all (\<lambda>b. b) mem1" by (cases mem) auto
      show ?thesis
      proof (cases b)
        case True
        have "set_post mem1 ?p i (bitvec_set_step setb mem ?p i)"
          unfolding bitvec_set_step.simps Let_def if_not_P [OF full(1)] search using rehash [of mem1] full(2) new a True by (simp add: Let_def)
        then show ?thesis using mem1 by (auto simp: set_post_def simp del: bitvec_test.simps bitvec_set_step.simps)
      next
        case False
        then have "bitvec_set_step setb mem ?p i = Some (SQLITE_NOMEM, ?p, mem1)" using full search new a by (auto simp: Let_def)
        then show ?thesis using set_postI [OF ok, of ?p SQLITE_NOMEM i mem mem1] mem1 False by (simp del: bitvec_set_step.simps)
      qed
    qed
  qed
qed

lemma bitvec_set_spec: "bitvec_ok p \<Longrightarrow> i < iSize p \<Longrightarrow> depth p \<le> m \<Longrightarrow> set_post mem p i (bitvec_set m mem p i)"
proof (induction m arbitrary: mem p i)
  case 0
  then show ?case using need_pos [of "iSize p"] by (cases p) simp_all
next
  case (Suc m)
  note setb = Suc.IH
  show ?case
  proof (cases p)
    case (aBitmap n bm)
    then show ?thesis using set_bitmap [of n bm i] Suc.prems by (simp del: bitvec_set_step.simps)
  next
    case (aHash n k tbl)
    then show ?thesis using set_hash [of n k tbl i m "bitvec_set m"] setb Suc.prems by (simp del: bitvec_set_step.simps)
  next
    case (apSub n d subs)
    then show ?thesis using set_sub [of n d subs i m "bitvec_set m"] setb Suc.prems by (simp del: bitvec_set_step.simps)
  qed
qed

section \<open>Clearing a bit\<close>

lemma bitvec_clear_spec:
  "bitvec_ok p \<Longrightarrow> i < iSize p \<Longrightarrow> \<exists>p'. bitvec_clear p i = Some p' \<and> bitvec_ok p' \<and> iSize p' = iSize p
     \<and> (\<forall>j < iSize p. member p' j \<longleftrightarrow> j \<noteq> i \<and> member p j)"
proof (induction arbitrary: i rule: bitvec_ok.induct)
  case (bitmap n bm)
  then have i: "i div 8 < length bm" by (simp add: bitvec_constants div_less_iff_less_mult)
  let ?bm = "bm[i div 8 := bm ! (i div 8) AND NOT (2 ^ (i mod 8))]"
  have "member (aBitmap n ?bm) j \<longleftrightarrow> j \<noteq> i \<and> member (aBitmap n bm) j" if "j < n" for j
  proof -
    have "bitvec_test (aBitmap n ?bm) j = Some (bit (?bm ! (j div 8)) (j mod 8))" "bitvec_test (aBitmap n bm) j = Some (bit (bm ! (j div 8)) (j mod 8))"
      using bitmap_test [of ?bm j n] bitmap_test [of bm j n] bitmap that by simp_all
    then show ?thesis using i same_bit [of j i] by (cases "j div 8 = i div 8") (auto simp: bitmap_update simp del: bitvec_test.simps)
  qed
  then show ?case using i bitmap by (simp add: and_seven del: bitvec_test.simps)
next
  case (hash n k tbl)
  have tbl: "\<forall>v \<in> set tbl. v \<le> n" "length tbl = BITVEC_NINT" "k = card (occupied tbl)" "k < BITVEC_NINT" using hash by (simp_all add: table_ok_def)
  have "length (filter (\<lambda>v. v \<noteq> 0) tbl) = k" using tbl by (simp add: length_filter_conv_card occupied_def)
  then obtain k' tbl' where r: "rebuild i tbl 0 (replicate BITVEC_NINT 0) = Some (k', tbl')" "table_ok n k' tbl'" "set tbl' - {0} = set tbl - {0, Suc i}"
    using rebuild_spec [OF table_empty tbl(1), of i] tbl(4) by auto
  then have "Suc j \<in> set tbl' \<longleftrightarrow> j \<noteq> i \<and> Suc j \<in> set tbl" for j by blast
  then show ?case using r hash hash_test [OF r(2)] hash_test [OF hash(2)] by (simp del: bitvec_test.simps)
next
  case (sub n d subs)
  have bin: "i div d < length subs" "0 < d" using bin_less [of i n] sub by simp_all
  show ?case
  proof (cases "subs ! (i div d)")
    case None
    then have "\<not> member (apSub n d subs) i" by simp
    moreover have "bitvec_ok (apSub n d subs)" using sub by simp
    moreover have "bitvec_clear (apSub n d subs) i = Some (apSub n d subs)" using None bin by simp
    ultimately show ?thesis by (intro exI [of _ "apSub n d subs"]) (auto simp del: bitvec_test.simps bitvec_ok_simps)
  next
    case (Some q)
    then have q: "Some q \<in> set subs" using nth_mem [OF bin(1)] by simp
    then have "iSize q = d" and IH: "j < iSize q \<Longrightarrow> \<exists>p'. bitvec_clear q j = Some p' \<and> bitvec_ok p' \<and> iSize p' = iSize q
       \<and> (\<forall>l < iSize q. member p' l \<longleftrightarrow> l \<noteq> j \<and> member q l)" for j using sub(4) by blast+
    then have "i mod d < iSize q" using bin(2) by simp
    from IH [OF this] obtain q' where q': "bitvec_clear q (i mod d) = Some q'" "bitvec_ok q'" "iSize q' = d"
      "\<forall>j < d. member q' j \<longleftrightarrow> j \<noteq> i mod d \<and> member q j" using \<open>iSize q = d\<close> by auto
    let ?p' = "apSub n d (subs[i div d := Some q'])"
    have "bitvec_ok ?p'" using sub q'(2,3) set_update_subset_insert [of subs "i div d" "Some q'"] by auto
    moreover have "member ?p' j \<longleftrightarrow> j \<noteq> i \<and> member (apSub n d subs) j" if "j < n" for j
      using that q'(4) Some bin sub(2,3) sub_member [of "subs[i div d := Some q']" j n d] sub_member [of subs j n d] div_mod_same [of j d i]
      by (cases "j div d = i div d") auto
    moreover have "bitvec_clear (apSub n d subs) i = Some ?p'" using Some bin q'(1) by simp
    ultimately show ?thesis by (intro exI [of _ ?p']) (auto simp del: bitvec_test.simps bitvec_ok_simps)
  qed
qed

section \<open>Sets of numbers\<close>

datatype bit_op = Set_bit nat | Clear_bit nat | Test_bit nat

text \<open>The answers of a finite set of numbers.\<close>

fun bit_spec :: "bit_op list \<Rightarrow> nat set \<Rightarrow> bool list" where
  "bit_spec [] S = []"
| "bit_spec (Set_bit i # ops) S = bit_spec ops (insert i S)"
| "bit_spec (Clear_bit i # ops) S = bit_spec ops (S - {i})"
| "bit_spec (Test_bit i # ops) S = (i \<in> S) # bit_spec ops S"

text \<open>A session with a bit vector, which ends at the first error.\<close>

fun bit_run :: "('m \<Rightarrow> 's \<Rightarrow> nat \<Rightarrow> (nat \<times> 's \<times> 'm) option) \<Rightarrow> ('s \<Rightarrow> nat \<Rightarrow> 's option) \<Rightarrow> ('s \<Rightarrow> nat \<Rightarrow> bool option)
    \<Rightarrow> bit_op list \<Rightarrow> 'm \<Rightarrow> 's \<Rightarrow> (nat \<times> bool list) option" where
  "bit_run st cl te [] m s = Some (0, [])"
| "bit_run st cl te (Set_bit i # ops) m s = do {
     (rc, s, m) \<leftarrow> st m s i;
     if rc \<noteq> 0 then Some (rc, []) else bit_run st cl te ops m s }"
| "bit_run st cl te (Clear_bit i # ops) m s = cl s i \<bind> bit_run st cl te ops m"
| "bit_run st cl te (Test_bit i # ops) m s = do {
     b \<leftarrow> te s i;
     (rc, bs) \<leftarrow> bit_run st cl te ops m s;
     Some (rc, b # bs) }"

text \<open>Setting and clearing stay within the size, as the code assumes; testing need not.\<close>

fun op_range :: "nat \<Rightarrow> bit_op \<Rightarrow> bool" where
  "op_range n (Set_bit i) \<longleftrightarrow> 0 < i \<and> i \<le> n"
| "op_range n (Clear_bit i) \<longleftrightarrow> 0 < i \<and> i \<le> n"
| "op_range n (Test_bit i) \<longleftrightarrow> i < 2 ^ 32"

text \<open>The contract: \<open>cap s\<close> is the greatest number, \<open>ok m\<close> tells that memory is available.\<close>

locale bit_set =
  fixes st :: "'m \<Rightarrow> 's \<Rightarrow> nat \<Rightarrow> (nat \<times> 's \<times> 'm) option" and cl :: "'s \<Rightarrow> nat \<Rightarrow> 's option" and te :: "'s \<Rightarrow> nat \<Rightarrow> bool option"
    and inv :: "'s \<Rightarrow> bool" and cap :: "'s \<Rightarrow> nat" and elems :: "'s \<Rightarrow> nat set" and ok :: "'m \<Rightarrow> bool"
  assumes st: "inv s \<Longrightarrow> 0 < i \<Longrightarrow> i \<le> cap s \<Longrightarrow> \<exists>rc s' m'. st m s i = Some (rc, s', m') \<and> inv s' \<and> cap s' = cap s
      \<and> (rc = 0 \<longrightarrow> elems s' = insert i (elems s)) \<and> (ok m \<longrightarrow> rc = 0 \<and> ok m')"
    and cl: "inv s \<Longrightarrow> 0 < i \<Longrightarrow> i \<le> cap s \<Longrightarrow> \<exists>s'. cl s i = Some s' \<and> inv s' \<and> cap s' = cap s \<and> elems s' = elems s - {i}"
    and te: "inv s \<Longrightarrow> i < 2 ^ 32 \<Longrightarrow> te s i = Some (i \<in> elems s)"
begin

lemma run_spec:
  "inv s \<Longrightarrow> list_all (op_range (cap s)) ops \<Longrightarrow> \<exists>rc bs. bit_run st cl te ops m s = Some (rc, bs)
     \<and> bs = take (length bs) (bit_spec ops (elems s)) \<and> (rc = 0 \<longrightarrow> bs = bit_spec ops (elems s)) \<and> (ok m \<longrightarrow> rc = 0)"
proof (induction ops arbitrary: s m)
  case (Cons opn ops)
  show ?case
  proof (cases opn)
    case (Set_bit i)
    then obtain rc s' m' where s': "st m s i = Some (rc, s', m')" "inv s'" "cap s' = cap s" "rc = 0 \<longrightarrow> elems s' = insert i (elems s)"
      "ok m \<longrightarrow> rc = 0 \<and> ok m'" using st [of s i m] Cons.prems by auto
    show ?thesis
    proof (cases "rc = 0")
      case True
      then show ?thesis using Cons.IH [of s' m'] Cons.prems s' Set_bit by fastforce
    qed (use s' Set_bit in auto)
  next
    case (Clear_bit i)
    then obtain s' where "cl s i = Some s'" "inv s'" "cap s' = cap s" "elems s' = elems s - {i}" using cl [of s i] Cons.prems by auto
    then show ?thesis using Cons.IH [of s' m] Cons.prems Clear_bit by fastforce
  next
    case (Test_bit i)
    then have "te s i = Some (i \<in> elems s)" using te [of s i] Cons.prems by simp
    then show ?thesis using Cons.IH [of s m] Cons.prems Test_bit by fastforce
  qed
qed simp

end

definition bitvec_elems :: "Bitvec option \<Rightarrow> nat set" where
  "bitvec_elems p = (case p of None \<Rightarrow> {} | Some p \<Rightarrow> {i. 0 < i \<and> i \<le> iSize p \<and> member p (i - 1)})"

definition bitvec_inv :: "Bitvec option \<Rightarrow> bool" where
  "bitvec_inv p \<longleftrightarrow> (\<exists>q. p = Some q \<and> bitvec_ok q \<and> iSize q < 2 ^ 32)"

definition bitvec_cap :: "Bitvec option \<Rightarrow> nat" where
  "bitvec_cap p = (case p of None \<Rightarrow> 0 | Some p \<Rightarrow> iSize p)"

interpretation bitvec: bit_set sqlite3BitvecSet sqlite3BitvecClear sqlite3BitvecTest bitvec_inv bitvec_cap bitvec_elems "list_all (\<lambda>b. b)"
proof (unfold_locales, goal_cases)
  case (1 s i m)
  then obtain q where q: "s = Some q" "bitvec_ok q" "iSize q < 2 ^ 32" by (auto simp: bitvec_inv_def)
  then have i: "0 < i" "i \<le> iSize q" "i - 1 < iSize q" using 1 by (simp_all add: bitvec_cap_def)
  have "depth q \<le> 16" using depth_le_need [OF q(2)] need_u32 [OF q(3)] by simp
  from bitvec_set_spec [OF q(2) i(3) this, of m] obtain rc q' m' where q': "bitvec_set 16 m q (i - 1) = Some (rc, q', m')" "bitvec_ok q'" "iSize q' = iSize q"
    "rc = 0 \<longrightarrow> (\<forall>j < iSize q. member q' j \<longleftrightarrow> j = i - 1 \<or> member q j)" "list_all (\<lambda>b. b) m \<longrightarrow> rc = 0 \<and> list_all (\<lambda>b. b) m'"
    by (auto simp: set_post_def)
  have "bitvec_elems (Some q') = insert i (bitvec_elems (Some q))" if "rc = 0"
    using q'(3,4) that i by (auto simp: bitvec_elems_def)
  then show ?case using q q' i by (auto simp: sqlite3BitvecSet_def bitvec_inv_def bitvec_cap_def)
next
  case (2 s i)
  then obtain q where q: "s = Some q" "bitvec_ok q" "iSize q < 2 ^ 32" by (auto simp: bitvec_inv_def)
  then have i: "0 < i" "i \<le> iSize q" "i - 1 < iSize q" using 2 by (simp_all add: bitvec_cap_def)
  from bitvec_clear_spec [OF q(2) i(3)] obtain q' where q': "bitvec_clear q (i - 1) = Some q'" "bitvec_ok q'" "iSize q' = iSize q"
    "\<forall>j < iSize q. member q' j \<longleftrightarrow> j \<noteq> i - 1 \<and> member q j" by auto
  then have "bitvec_elems (Some q') = bitvec_elems (Some q) - {i}" using i by (auto simp: bitvec_elems_def)
  then show ?case using q q' i by (simp add: sqlite3BitvecClear_def bitvec_inv_def bitvec_cap_def)
next
  case (3 s i)
  then obtain q where q: "s = Some q" "bitvec_ok q" "iSize q < 2 ^ 32" by (auto simp: bitvec_inv_def)
  show ?case
  proof (cases "0 < i \<and> i \<le> iSize q")
    case True
    then have "i - 1 < iSize q" by auto
    from test_defined [OF q(2) this] obtain b where "bitvec_test q (i - 1) = Some b" by auto
    then show ?thesis using q True by (auto simp: sqlite3BitvecTest_def sqlite3BitvecTestNotNull_def bitvec_elems_def Let_def)
  next
    case False
    then show ?thesis using q 3 by (auto simp: sqlite3BitvecTest_def sqlite3BitvecTestNotNull_def bitvec_elems_def Let_def)
  qed
qed

text \<open>C37: A bit vector is a set: for every size up to \<open>2 ^ 32 - 1\<close> and every sequence of setting and clearing numbers in range and testing any
  number, the answers are those of a set of numbers, whichever of the three representations the vector passes through. The only thing that can go wrong is memory:
  setting then returns an error, and all answers up to that point are right.\<close>

theorem bitvec_implements_set:
  assumes "n < 2 ^ 32" and "list_all (op_range n) ops"
  shows "\<exists>rc bs. bit_run sqlite3BitvecSet sqlite3BitvecClear sqlite3BitvecTest ops mem (fst (sqlite3BitvecCreate [] n)) = Some (rc, bs)
     \<and> bs = take (length bs) (bit_spec ops {}) \<and> (rc = 0 \<and> bs = bit_spec ops {} \<or> rc \<noteq> 0 \<and> \<not> list_all (\<lambda>b. b) mem)"
proof -
  let ?p = "fst (sqlite3BitvecCreate [] n)"
  have p: "?p = Some (bitvec_new n)" by (simp add: sqlite3BitvecCreate_def)
  then have "bitvec_inv ?p" "bitvec_cap ?p = n" using new_ok(1,2) [of n] assms(1) by (simp_all add: bitvec_inv_def bitvec_cap_def)
  moreover have "\<not> member (bitvec_new n) (i - 1)" if "0 < i" "i \<le> n" for i using new_ok(3) [of "i - 1" n] that by simp
  then have "bitvec_elems ?p = {}" using p new_ok(2) [of n] by (auto simp: bitvec_elems_def)
  ultimately show ?thesis using bitvec.run_spec [of ?p ops mem] assms(2) by fastforce
qed

theorem bitvec_implements_set_witness:
  "\<exists>rc. bit_run sqlite3BitvecSet sqlite3BitvecClear sqlite3BitvecTest [Set_bit 70000, Set_bit 124, Clear_bit 124, Test_bit 70000, Test_bit 124, Test_bit 0] []
      (fst (sqlite3BitvecCreate [] 100000)) = Some (rc, [True, False, False])"
  using bitvec_implements_set [of 100000 "[Set_bit 70000, Set_bit 124, Clear_bit 124, Test_bit 70000, Test_bit 124, Test_bit 0]" "[]"]
  by (auto simp del: bit_run.simps)

end
