(* ===== verification/Sqlite_Arith.thy ===== *)
theory Sqlite_Arith
  imports Prelude "HOL-Library.Signed_Division"
begin

text \<open>
  The overflow checks of SQLite's integer arithmetic (\<^verbatim>\<open>sqlite/sqlite3.c\<close>, part \<^verbatim>\<open>util.c\<close>), in the version for compilers without
  built-in functions for them. Signed overflow is undefined in C: every operation on \<^verbatim>\<open>i64\<close> is checked, and \<^const>\<open>None\<close> if the
  result has no 64-bit representation or the divisor is 0. Division truncates towards 0 (\<^const>\<open>signed_divide\<close>).
\<close>

section \<open>Operations of the C language\<close>

abbreviation SMALLEST_INT64 :: int where "SMALLEST_INT64 \<equiv> - (2 ^ 63)"
abbreviation LARGEST_INT64 :: int where "LARGEST_INT64 \<equiv> 2 ^ 63 - 1"

definition is_i64 :: "int \<Rightarrow> bool" where
  "is_i64 x \<longleftrightarrow> SMALLEST_INT64 \<le> x \<and> x \<le> LARGEST_INT64"

definition i64 :: "int \<Rightarrow> int option" where
  "i64 x = (if is_i64 x then Some x else None)"

definition i64_div :: "int \<Rightarrow> int \<Rightarrow> int option" where
  "i64_div x y = (if y = 0 then None else i64 (x sdiv y))"

section \<open>The functions\<close>

text \<open>The result code and the new value of \<^verbatim>\<open>*pA\<close>.\<close>

definition sqlite3AddInt64 :: "int \<Rightarrow> int \<Rightarrow> (int \<times> int) option" where
  "sqlite3AddInt64 iA iB = do {
     overflow \<leftarrow> (if iB \<ge> 0 then
         (if iA > 0 then do { x \<leftarrow> i64 (LARGEST_INT64 - iA); Some (x < iB) } else Some False)
       else
         (if iA < 0 then do { x \<leftarrow> i64 (iA + LARGEST_INT64); x \<leftarrow> i64 (- x); y \<leftarrow> i64 (iB + 1); Some (x > y) } else Some False));
     if overflow then Some (1, iA) else do { x \<leftarrow> i64 (iA + iB); Some (0, x) } }"

definition sqlite3SubInt64 :: "int \<Rightarrow> int \<Rightarrow> (int \<times> int) option" where
  "sqlite3SubInt64 iA iB =
     (if iB = SMALLEST_INT64 then
        (if iA \<ge> 0 then Some (1, iA) else do { x \<leftarrow> i64 (iA - iB); Some (0, x) })
      else i64 (- iB) \<bind> sqlite3AddInt64 iA)"

definition sqlite3MulInt64 :: "int \<Rightarrow> int \<Rightarrow> (int \<times> int) option" where
  "sqlite3MulInt64 iA iB = do {
     overflow \<leftarrow>
       (if iB > 0 then do {
          x \<leftarrow> i64_div LARGEST_INT64 iB;
          if iA > x then Some True else do {
          y \<leftarrow> i64_div SMALLEST_INT64 iB;
          Some (iA < y) } }
        else if iB < 0 then
          (if iA > 0 then do { x \<leftarrow> i64_div SMALLEST_INT64 iA; Some (iB < x) }
           else if iA < 0 then
             (if iB = SMALLEST_INT64 then Some True
              else if iA = SMALLEST_INT64 then Some True
              else do { a \<leftarrow> i64 (- iA); b \<leftarrow> i64 (- iB); x \<leftarrow> i64_div LARGEST_INT64 b; Some (a > x) })
           else Some False)
        else Some False);
     if overflow then Some (1, iA) else do { x \<leftarrow> i64 (iA * iB); Some (0, x) } }"

definition sqlite3AbsInt32 :: "int \<Rightarrow> int" where
  "sqlite3AbsInt32 x = (if x \<ge> 0 then x else if x = - 0x80000000 then 0x7fffffff else - x)"

section \<open>They detect exactly the overflows\<close>

definition checked :: "int \<Rightarrow> int \<Rightarrow> (int \<times> int) option" where
  "checked old new = Some (if is_i64 new then (0, new) else (1, old))"

lemma add_exact: "is_i64 a \<Longrightarrow> is_i64 b \<Longrightarrow> sqlite3AddInt64 a b = checked a (a + b)"
  by (auto simp: sqlite3AddInt64_def checked_def i64_def is_i64_def)

lemma sub_exact: "is_i64 a \<Longrightarrow> is_i64 b \<Longrightarrow> sqlite3SubInt64 a b = checked a (a - b)"
  using add_exact [of a "- b"] by (auto simp: sqlite3SubInt64_def checked_def i64_def is_i64_def)

lemma positive_div: "0 < b \<Longrightarrow> 0 \<le> x \<Longrightarrow> x sdiv b = x div (b :: int)" "0 < b \<Longrightarrow> 0 \<le> x \<Longrightarrow> (- x) sdiv b = - (x div b)"
  by (simp_all add: signed_divide_int_def sgn_if)

lemma le_div_iff: "0 < b \<Longrightarrow> (a \<le> x div b) = (a * b \<le> (x :: int))"
proof
  assume b: "0 < b" and "a \<le> x div b"
  then have "a * b \<le> x div b * b" by (simp add: mult_right_mono)
  also have "\<dots> \<le> x" using b by (metis div_mult_mod_eq le_add_same_cancel1 pos_mod_sign)
  finally show "a * b \<le> x" .
next
  assume b: "0 < b" and "a * b \<le> x"
  then show "a \<le> x div b" using zdiv_mono1 [of "a * b" x b] by simp
qed

lemma div_bounds: "0 < b \<Longrightarrow> 0 \<le> x \<Longrightarrow> 0 \<le> x div b \<and> x div b \<le> (x :: int)"
  by (metis div_by_1 int_one_le_iff_zero_less pos_imp_zdiv_nonneg_iff zdiv_mono2 zero_less_one)

lemma i64_div_positive:
  "0 < b \<Longrightarrow> i64_div LARGEST_INT64 b = Some (LARGEST_INT64 div b)"
  "0 < b \<Longrightarrow> i64_div SMALLEST_INT64 b = Some (- (2 ^ 63 div b))"
proof -
  assume b: "0 < b"
  show "i64_div LARGEST_INT64 b = Some (LARGEST_INT64 div b)"
    using b positive_div(1) [OF b, of LARGEST_INT64] div_bounds [OF b, of LARGEST_INT64] by (simp add: i64_div_def i64_def is_i64_def)
  show "i64_div SMALLEST_INT64 b = Some (- (2 ^ 63 div b))"
    using b positive_div(2) [OF b, of "2 ^ 63"] div_bounds [OF b, of "2 ^ 63"] by (simp add: i64_div_def i64_def is_i64_def)
qed

lemma quotient_limits:
  "0 < b \<Longrightarrow> (LARGEST_INT64 div b < a) = (LARGEST_INT64 < a * b)"
  "0 < b \<Longrightarrow> (a < - (2 ^ 63 div b)) = (a * b < SMALLEST_INT64)"
proof -
  assume b: "0 < b"
  show "(LARGEST_INT64 div b < a) = (LARGEST_INT64 < a * b)" using le_div_iff [OF b, of a LARGEST_INT64] by linarith
  have "(- a \<le> 2 ^ 63 div b) = (- a * b \<le> 2 ^ 63)" by (rule le_div_iff [OF b])
  then show "(a < - (2 ^ 63 div b)) = (a * b < SMALLEST_INT64)" by (simp only: mult_minus_left) linarith
qed

lemma mul_exact:
  assumes a: "is_i64 a" and b: "is_i64 b"
  shows "sqlite3MulInt64 a b = checked a (a * b)"
proof -
  consider (zero) "b = 0 \<or> b < 0 \<and> a = 0" | (pos) "b > 0" | (mixed) "b < 0" "a > 0"
    | (least) "b < 0" "a < 0" "a = SMALLEST_INT64 \<or> b = SMALLEST_INT64" | (neg) "b < 0" "a < 0" "a \<noteq> SMALLEST_INT64" "b \<noteq> SMALLEST_INT64" by linarith
  then show ?thesis
  proof cases
    case pos
    then show ?thesis using i64_div_positive [OF pos] quotient_limits [OF pos, of a]
      by (auto simp: sqlite3MulInt64_def checked_def i64_def is_i64_def simp del: power_numeral)
  next
    case mixed
    have "a * b \<le> 0" using mixed by (simp add: mult_nonneg_nonpos)
    then show ?thesis using mixed i64_div_positive [OF mixed(2)] quotient_limits(2) [OF mixed(2), of b]
      by (auto simp: sqlite3MulInt64_def checked_def i64_def is_i64_def mult.commute simp del: power_numeral)
  next
    case least
    have "2 ^ 63 \<le> a * b"
      using least mult_mono [of "2 ^ 63" "- a" 1 "- b"] mult_mono [of "2 ^ 63" "- b" 1 "- a"] by auto
    then show ?thesis using least by (auto simp: sqlite3MulInt64_def checked_def i64_def is_i64_def)
  next
    case neg
    have "0 < a * b" using neg by (simp add: mult_neg_neg)
    then show ?thesis using neg a b i64_div_positive(1) [of "- b"] quotient_limits(1) [of "- b" "- a"]
      by (auto simp: sqlite3MulInt64_def checked_def i64_def is_i64_def simp del: power_numeral)
  qed (auto simp: sqlite3MulInt64_def checked_def i64_def is_i64_def)
qed



lemma abs_int32: "- 0x80000000 \<le> x \<Longrightarrow> x \<le> 0x7fffffff \<Longrightarrow> sqlite3AbsInt32 x = min \<bar>x\<bar> 0x7fffffff"
  by (auto simp: sqlite3AbsInt32_def)

end
