(* ===== verification/Sqlite_Hash.thy ===== *)
theory Sqlite_Hash
  imports Prelude
begin

text \<open>
  The hash tables of SQLite (\<^verbatim>\<open>sqlite/sqlite3.c\<close>, part \<^verbatim>\<open>hash.c\<close>): all elements are on one doubly-linked list, a
  bucket is a pointer into the list and the number of elements that belong to it. The list is modelled as a list of
  elements, each with its address; \<^verbatim>\<open>next\<close> and \<^verbatim>\<open>prev\<close> are its neighbours. Keys are C strings without their terminating 0. The
  allocator is a parameter. The counters are natural numbers: they would wrap only in a table of \<open>2 ^ 31\<close> or more elements. A failed assertion, a pointer to no element of the list and a division by 0 are \<^const>\<open>None\<close>.
\<close>

section \<open>Comparing and hashing keys\<close>

definition sqlite3UpperToLower :: "u8 list" where
  "sqlite3UpperToLower = List.map of_nat ([0..<65] @ [97..<123] @ [91..<256])"

definition lower :: "u8 \<Rightarrow> u8" where
  "lower c = sqlite3UpperToLower ! unat c"

text \<open>The byte a pointer into a C string refers to.\<close>

definition deref :: "u8 list \<Rightarrow> u8" where
  "deref z = (case z of [] \<Rightarrow> 0 | c # _ \<Rightarrow> c)"

function sqlite3StrICmp :: "u8 list \<Rightarrow> u8 list \<Rightarrow> int" where
  "sqlite3StrICmp a b =
     (let c = deref a; x = deref b
      in if c = x then (if c = 0 then 0 else sqlite3StrICmp (tl a) (tl b))
         else let d = uint (lower c) - uint (lower x) in if d \<noteq> 0 then d else sqlite3StrICmp (tl a) (tl b))"
  by pat_completeness auto
termination by (relation "measure (\<lambda>(a, b). length a + length b)") (auto simp: deref_def split: list.splits)

declare sqlite3StrICmp.simps [simp del]

fun str_hash_loop :: "u8 list \<Rightarrow> u32 \<Rightarrow> u32" where
  "str_hash_loop [] h = h"
| "str_hash_loop (c # z) h = str_hash_loop z ((h + ucast (lower c)) * 0x9e3779b1)"

definition strHash :: "u8 list \<Rightarrow> u32" where
  "strHash z = str_hash_loop z 0"

section \<open>The table\<close>

record 'd HashElem =
  addr :: nat
  pKey :: "u8 list"
  data :: 'd

text \<open>A bucket is its \<^verbatim>\<open>count\<close> and \<^verbatim>\<open>chain\<close>, the latter an address.\<close>

record 'd Hash =
  htsize :: nat
  count :: nat
  first :: "'d HashElem list"
  ht :: "(nat \<times> nat) list option"

definition sqlite3HashInit :: "'d Hash" where
  "sqlite3HashInit = \<lparr>htsize = 0, count = 0, first = [], ht = None\<rparr>"

definition sqlite3HashClear :: "'d Hash \<Rightarrow> 'd Hash" where
  "sqlite3HashClear H = H\<lparr>first := [], ht := None, htsize := 0, count := 0\<rparr>"

text \<open>Linking an element into the list in front of the element at address \<open>a\<close>.\<close>

fun link_before :: "nat \<Rightarrow> 'd HashElem \<Rightarrow> 'd HashElem list \<Rightarrow> 'd HashElem list option" where
  "link_before a e [] = None"
| "link_before a e (x # xs) = (if addr x = a then Some (e # x # xs) else map_option ((#) x) (link_before a e xs))"

text \<open>The bucket is given by its index in the table, or not at all.\<close>

definition insertElement :: "'d Hash \<Rightarrow> nat option \<Rightarrow> 'd HashElem \<Rightarrow> 'd Hash option" where
  "insertElement H pEntry e = do {
     (pHead, H) \<leftarrow> (case (pEntry, ht H) of
         (Some h, Some t) \<Rightarrow>
           if h < length t
           then Some (if fst (t ! h) \<noteq> 0 then Some (snd (t ! h)) else None, H\<lparr>ht := Some (t[h := (Suc (fst (t ! h)), addr e)])\<rparr>)
           else None
       | (Some h, None) \<Rightarrow> None
       | (None, _) \<Rightarrow> Some (None, H));
     xs \<leftarrow> (case pHead of Some a \<Rightarrow> link_before a e (first H) | None \<Rightarrow> Some (e # first H));
     Some (H\<lparr>first := xs\<rparr>) }"

definition bucket :: "nat \<Rightarrow> u8 list \<Rightarrow> nat" where
  "bucket m key = unat (strHash key) mod m"

fun rehash_loop :: "'d HashElem list \<Rightarrow> 'd Hash \<Rightarrow> 'd Hash option" where
  "rehash_loop [] H = Some H"
| "rehash_loop (e # es) H = (if htsize H = 0 then None else insertElement H (Some (bucket (htsize H) (pKey e))) e \<bind> rehash_loop es)"

text \<open>
  \<open>mal\<close> gives, for a number of buckets, the number that fit into the block \<^verbatim>\<open>sqlite3Malloc\<close> returns, if any. A bucket takes 16 bytes, and
  \<^verbatim>\<open>SQLITE_MALLOC_SOFT_LIMIT\<close> is 1024. The result tells whether the table was resized.
\<close>

definition rehash :: "(nat \<Rightarrow> nat option) \<Rightarrow> 'd Hash \<Rightarrow> nat \<Rightarrow> (bool \<times> 'd Hash) option" where
  "rehash mal H new_size =
     (let new_size = (if new_size * 16 > 1024 then 1024 div 16 else new_size)
      in if new_size = htsize H then Some (False, H)
         else case mal new_size of
           None \<Rightarrow> Some (False, H)
         | Some m \<Rightarrow> map_option (Pair True) (rehash_loop (first H) (H\<lparr>ht := Some (replicate m (0, 0)), htsize := m, first := []\<rparr>)))"

text \<open>The search for a key among at most \<open>n\<close> elements.\<close>

fun find_loop :: "nat \<Rightarrow> 'd HashElem list \<Rightarrow> u8 list \<Rightarrow> 'd HashElem option option" where
  "find_loop 0 es key = Some None"
| "find_loop (Suc n) [] key = None"
| "find_loop (Suc n) (e # es) key = (if sqlite3StrICmp (pKey e) key = 0 then Some (Some e) else find_loop n es key)"

text \<open>The element found, \<^const>\<open>None\<close> for the static null element, and the bucket.\<close>

definition findElementWithHash :: "'d Hash \<Rightarrow> u8 list \<Rightarrow> ('d HashElem option \<times> nat) option" where
  "findElementWithHash H key =
     (case ht H of
        Some t \<Rightarrow>
          if htsize H = 0 then None
          else let h = bucket (htsize H) key
            in if h < length t
               then map_option (\<lambda>e. (e, h)) (find_loop (fst (t ! h)) (dropWhile (\<lambda>e. addr e \<noteq> snd (t ! h)) (first H)) key)
               else None
      | None \<Rightarrow> map_option (\<lambda>e. (e, 0)) (find_loop (count H) (first H) key))"

text \<open>The address of the element after the one at \<open>a\<close>, 0 at the end of the list.\<close>

definition next_addr :: "nat \<Rightarrow> 'd HashElem list \<Rightarrow> nat" where
  "next_addr a es = (case tl (dropWhile (\<lambda>e. addr e \<noteq> a) es) of [] \<Rightarrow> 0 | e # _ \<Rightarrow> addr e)"

definition removeElementGivenHash :: "'d Hash \<Rightarrow> 'd HashElem \<Rightarrow> nat \<Rightarrow> 'd Hash option" where
  "removeElementGivenHash H elem h = do {
     H \<leftarrow> (case ht H of
         None \<Rightarrow> Some H
       | Some t \<Rightarrow>
           if h < length t \<and> fst (t ! h) > 0
           then Some (H\<lparr>ht := Some (t[h := (fst (t ! h) - 1, if snd (t ! h) = addr elem then next_addr (addr elem) (first H) else snd (t ! h))])\<rparr>)
           else None);
     let H = H\<lparr>first := filter (\<lambda>e. addr e \<noteq> addr elem) (first H), count := count H - 1\<rparr>;
     if count H = 0 then (if first H = [] then Some (sqlite3HashClear H) else None) else Some H }"

definition sqlite3HashFind :: "'d Hash \<Rightarrow> u8 list \<Rightarrow> 'd option option" where
  "sqlite3HashFind H key = map_option (\<lambda>(e, h). map_option data e) (findElementWithHash H key)"

text \<open>Storing new data and the new key in the element \<open>e\<close>.\<close>

definition renew :: "'d HashElem \<Rightarrow> u8 list \<Rightarrow> 'd \<Rightarrow> 'd HashElem \<Rightarrow> 'd HashElem" where
  "renew e key x f = (if addr f = addr e then f\<lparr>data := x, pKey := key\<rparr> else f)"

text \<open>
  \<open>d\<close> is \<^const>\<open>None\<close> for a null pointer; \<open>mem\<close> is the address \<^verbatim>\<open>sqlite3Malloc\<close> returns for a new element, if any. The result is the
  pointer returned and the table.
\<close>

definition sqlite3HashInsert :: "(nat \<Rightarrow> nat option) \<Rightarrow> nat option \<Rightarrow> 'd Hash \<Rightarrow> u8 list \<Rightarrow> 'd option \<Rightarrow> ('d option \<times> 'd Hash) option" where
  "sqlite3HashInsert mal mem H key d = do {
     (elem, h) \<leftarrow> findElementWithHash H key;
     case elem of
       Some e \<Rightarrow>
         (case d of
            None \<Rightarrow> map_option (Pair (Some (data e))) (removeElementGivenHash H e h)
          | Some x \<Rightarrow> Some (Some (data e), H\<lparr>first := List.map (renew e key x) (first H)\<rparr>))
     | None \<Rightarrow>
         (case (d, mem) of
            (None, _) \<Rightarrow> Some (None, H)
          | (Some x, None) \<Rightarrow> Some (Some x, H)
          | (Some x, Some a) \<Rightarrow> do {
              let new_elem = \<lparr>addr = a, pKey = key, data = x\<rparr>;
              let H = H\<lparr>count := Suc (count H)\<rparr>;
              (resized, H) \<leftarrow> (if count H \<ge> 10 \<and> count H > 2 * htsize H then rehash mal H (count H * 2) else Some (False, H));
              h \<leftarrow> (if resized then if htsize H = 0 then None else Some (bucket (htsize H) key) else Some h);
              H \<leftarrow> insertElement H (if ht H \<noteq> None then Some h else None) new_elem;
              Some (None, H) }) }"

section \<open>Keys up to case\<close>

abbreviation fold_case :: "u8 list \<Rightarrow> u8 list" where "fold_case \<equiv> List.map lower"

lemma lower_ascii: "lower c = (if 65 \<le> unat c \<and> unat c \<le> 90 then c + 32 else c)"
proof -
  let ?i = "unat c"
  have c: "of_nat ?i = c" "?i < 256" using unsigned_less [of c, where ?'a = nat] by simp_all
  consider "?i < 65" | "65 \<le> ?i" "?i < 91" | "91 \<le> ?i" by linarith
  then show ?thesis
  proof cases
    case 2
    then have "?i - 65 < 26" by linarith
    then have "lower c = of_nat (?i + 32)" using 2 by (simp add: lower_def sqlite3UpperToLower_def nth_append del: upt_rec_numeral upt_Suc)
    then show ?thesis using 2 c(1) by simp
  qed (use c in \<open>auto simp: lower_def sqlite3UpperToLower_def nth_append simp del: upt_rec_numeral upt_Suc\<close>)
qed

lemma lower_zero: "lower c = 0 \<longleftrightarrow> c = 0"
proof -
  have "c + 32 \<noteq> 0" if "unat c \<le> 90"
    using that unat_add_lem [of c 32] by auto
  then show ?thesis by (auto simp: lower_ascii)
qed

lemma StrICmp_end: "x \<noteq> 0 \<Longrightarrow> sqlite3StrICmp [] (x # b) \<noteq> 0" "x \<noteq> 0 \<Longrightarrow> sqlite3StrICmp (x # b) [] \<noteq> 0" "sqlite3StrICmp [] [] = 0"
proof -
  have "lower 0 = 0" using lower_zero [of 0] by simp
  then show "x \<noteq> 0 \<Longrightarrow> sqlite3StrICmp [] (x # b) \<noteq> 0" "x \<noteq> 0 \<Longrightarrow> sqlite3StrICmp (x # b) [] \<noteq> 0"
    using lower_zero [of x] by (simp_all add: sqlite3StrICmp.simps [of "[]" "x # b"] sqlite3StrICmp.simps [of "x # b" "[]"] deref_def Let_def uint_0_iff)
  show "sqlite3StrICmp [] [] = 0" by (simp add: sqlite3StrICmp.simps [of "[]" "[]"] deref_def)
qed

lemma StrICmp_Cons:
  "c \<noteq> 0 \<Longrightarrow> sqlite3StrICmp (c # a) (x # b) = 0 \<longleftrightarrow> lower c = lower x \<and> sqlite3StrICmp a b = 0"
proof -
  assume "c \<noteq> 0"
  moreover have "uint (lower c) - uint (lower x) = 0 \<longleftrightarrow> lower c = lower x" by (simp add: word_uint_eq_iff)
  ultimately show ?thesis by (subst sqlite3StrICmp.simps) (auto simp: deref_def Let_def)
qed

lemma StrICmp_zero: "0 \<notin> set a \<Longrightarrow> 0 \<notin> set b \<Longrightarrow> sqlite3StrICmp a b = 0 \<longleftrightarrow> fold_case a = fold_case b"
proof (induction a arbitrary: b)
  case Nil
  then show ?case using StrICmp_end by (cases b) auto
next
  case (Cons c a)
  note IH = Cons.IH and prems = Cons.prems
  show ?case
  proof (cases b)
    case Nil
    then show ?thesis using prems StrICmp_end by auto
  next
    case (Cons x b')
    then show ?thesis using IH [of b'] prems StrICmp_Cons [of c a x b'] by auto
  qed
qed

lemma str_hash_fold_case: "fold_case a = fold_case b \<Longrightarrow> str_hash_loop a h = str_hash_loop b h"
proof (induction a arbitrary: b h)
  case (Cons c a)
  then obtain x b' where "b = x # b'" "lower c = lower x" "fold_case a = fold_case b'" by (cases b) auto
  then show ?case using Cons.IH [of b'] by simp
qed simp

lemma bucket_fold_case: "fold_case a = fold_case b \<Longrightarrow> bucket m a = bucket m b"
  using str_hash_fold_case [of a b 0] by (simp add: bucket_def strHash_def)

section \<open>Lists with contiguous groups\<close>

text \<open>Equal elements are next to each other.\<close>

fun contig :: "'a list \<Rightarrow> bool" where
  "contig [] \<longleftrightarrow> True"
| "contig (x # xs) \<longleftrightarrow> (x \<in> set xs \<longrightarrow> hd xs = x) \<and> contig xs"

lemma contig_delete: "contig (as @ x # bs) \<Longrightarrow> contig (as @ bs)"
proof (induction as)
  case (Cons a as)
  note IH = Cons.IH and prems = Cons.prems
  show ?case
  proof (cases as)
    case Nil
    then have "a \<in> set (x # bs) \<longrightarrow> x = a" "x \<in> set bs \<longrightarrow> hd bs = x" "contig bs" using prems unfolding Nil append.simps contig.simps list.sel by blast+
    then show ?thesis unfolding Nil append.simps contig.simps list.sel list.set by blast
  next
    case (Cons c cs)
    then show ?thesis using IH prems unfolding Cons append.simps contig.simps list.sel set_append list.set by blast
  qed
qed simp

lemma contig_double: "contig (as @ x # bs) \<Longrightarrow> contig (as @ x # x # bs)"
proof (induction as)
  case (Cons a as)
  note IH = Cons.IH and prems = Cons.prems
  show ?case
  proof (cases as)
    case Nil
    then have "a \<in> set (x # bs) \<longrightarrow> x = a" "x \<in> set bs \<longrightarrow> hd bs = x" "contig bs" using prems unfolding Nil append.simps contig.simps list.sel by blast+
    then show ?thesis unfolding Nil append.simps contig.simps list.sel list.set by blast
  next
    case (Cons c cs)
    then show ?thesis using IH prems unfolding Cons append.simps contig.simps list.sel set_append list.set by blast
  qed
qed simp

lemma contig_group_prefix: "contig (List.map f (x # xs)) \<Longrightarrow> f x = h \<Longrightarrow> filter (\<lambda>e. f e = h) (x # xs) = takeWhile (\<lambda>e. f e = h) (x # xs)"
proof (induction xs arbitrary: x)
  case (Cons y xs)
  show ?case
  proof (cases "f y = h")
    case True
    then show ?thesis using Cons.IH [of y] Cons.prems by simp
  next
    case False
    then have "h \<notin> f ` set (y # xs)" using Cons.prems by auto
    then have "\<forall>e \<in> set (y # xs). f e \<noteq> h" by blast
    then have "filter (\<lambda>e. f e = h) (y # xs) = []" by (rule filter_False)
    then show ?thesis using False Cons.prems(2) by simp
  qed
qed simp

lemma contig_dropWhile: "contig (List.map f xs) \<Longrightarrow> contig (List.map f (dropWhile P xs))"
  by (induction xs) auto

text \<open>A group is found at the start of the rest of the list from its first element on.\<close>

lemma contig_group:
  assumes "contig (List.map f xs)"
  shows "take (length (filter (\<lambda>e. f e = h) xs)) (dropWhile (\<lambda>e. f e \<noteq> h) xs) = filter (\<lambda>e. f e = h) xs"
proof (cases "dropWhile (\<lambda>e. f e \<noteq> h) xs")
  case Nil
  then have "filter (\<lambda>e. f e = h) xs = []" by (auto simp: filter_empty_conv)
  then show ?thesis by simp
next
  case (Cons y ys)
  have "f y = h" using hd_dropWhile [of "\<lambda>e. f e \<noteq> h" xs] Cons by simp
  have eq: "filter (\<lambda>e. f e = h) xs = filter (\<lambda>e. f e = h) (y # ys)"
  proof -
    have "filter (\<lambda>e. f e = h) xs = filter (\<lambda>e. f e = h) (takeWhile (\<lambda>e. f e \<noteq> h) xs @ dropWhile (\<lambda>e. f e \<noteq> h) xs)" by simp
    also have "\<dots> = filter (\<lambda>e. f e = h) (y # ys)" unfolding filter_append Cons by (auto simp: filter_empty_conv dest: set_takeWhileD)
    finally show ?thesis .
  qed
  have "filter (\<lambda>e. f e = h) (y # ys) = takeWhile (\<lambda>e. f e = h) (y # ys)"
    using contig_group_prefix [of f y ys h] contig_dropWhile [OF assms, of "\<lambda>e. f e \<noteq> h"] Cons \<open>f y = h\<close> by simp
  then show ?thesis unfolding eq Cons by (metis takeWhile_eq_take)
qed

section \<open>The invariant\<close>

abbreviation group :: "nat \<Rightarrow> 'd HashElem \<Rightarrow> nat" where "group m e \<equiv> bucket m (pKey e)"

abbreviation chain_of :: "nat \<Rightarrow> nat \<Rightarrow> 'd HashElem list \<Rightarrow> 'd HashElem list" where
  "chain_of m h es \<equiv> filter (\<lambda>e. group m e = h) es"

text \<open>A table of \<open>m\<close> buckets fits a list when its groups are contiguous and a bucket has the size of its group and points to its first element.\<close>

definition table_fits :: "nat \<Rightarrow> (nat \<times> nat) list \<Rightarrow> 'd HashElem list \<Rightarrow> bool" where
  "table_fits m t es \<longleftrightarrow> 0 < m \<and> length t = m \<and> contig (List.map (group m) es)
     \<and> (\<forall>h < m. fst (t ! h) = length (chain_of m h es) \<and> (chain_of m h es \<noteq> [] \<longrightarrow> snd (t ! h) = addr (hd (chain_of m h es))))"

definition elems_ok :: "'d HashElem list \<Rightarrow> bool" where
  "elems_ok es \<longleftrightarrow> distinct (List.map addr es) \<and> distinct (List.map (fold_case \<circ> pKey) es) \<and> (\<forall>e \<in> set es. 0 \<notin> set (pKey e))"

definition hash_inv :: "'d Hash \<Rightarrow> bool" where
  "hash_inv H \<longleftrightarrow> elems_ok (first H) \<and> count H = length (first H)
     \<and> (case ht H of None \<Rightarrow> htsize H = 0 | Some t \<Rightarrow> table_fits (htsize H) t (first H))"

text \<open>The map a table stands for, from keys up to case to data.\<close>

definition pairs :: "'d HashElem list \<Rightarrow> (u8 list \<times> 'd) list" where
  "pairs es = List.map (\<lambda>e. (fold_case (pKey e), data e)) es"

definition hash_map :: "'d Hash \<Rightarrow> u8 list \<Rightarrow> 'd option" where
  "hash_map H = map_of (pairs (first H))"

lemma find_pairs: "map_option data (find (\<lambda>e. fold_case (pKey e) = k) es) = map_of (pairs es) k"
  by (induction es) (auto simp: pairs_def)

lemma bucket_less: "0 < m \<Longrightarrow> bucket m key < m"
  by (simp add: bucket_def)

lemma find_loop_spec: "n \<le> length es \<Longrightarrow> find_loop n es key = Some (find (\<lambda>e. sqlite3StrICmp (pKey e) key = 0) (take n es))"
  by (induction n es key rule: find_loop.induct) auto

lemma find_cong_pred: "(\<And>e. e \<in> set es \<Longrightarrow> P e = Q e) \<Longrightarrow> find P es = find Q es"
  by (induction es) auto

lemma find_filter: "(\<And>e. e \<in> set es \<Longrightarrow> P e \<Longrightarrow> Q e) \<Longrightarrow> find P (filter Q es) = find P es"
  by (induction es) auto

lemma take_full:
  assumes "take (length c) xs = c"
  shows "length c \<le> length xs"
proof -
  have "length (take (length c) xs) \<le> length xs" by simp
  then show ?thesis by (simp only: assms)
qed

text \<open>With distinct addresses, the list from the first element of a group on.\<close>

lemma drop_to_group:
  assumes "distinct (List.map addr es)" and "filter Q es \<noteq> []"
  shows "dropWhile (\<lambda>e. addr e \<noteq> addr (hd (filter Q es))) es = dropWhile (\<lambda>e. \<not> Q e) es"
  using assms
proof (induction es)
  case (Cons e es)
  show ?case
  proof (cases "Q e")
    case False
    then have "hd (filter Q es) \<in> set es" using Cons.prems(2) hd_in_set [of "filter Q es"] by auto
    then have "addr e \<noteq> addr (hd (filter Q es))" using Cons.prems(1) by auto
    then show ?thesis using Cons False by simp
  qed simp
qed simp

lemma find_spec:
  assumes inv: "hash_inv H" and key: "0 \<notin> set key"
  shows "\<exists>h. findElementWithHash H key = Some (find (\<lambda>e. fold_case (pKey e) = fold_case key) (first H), h)
    \<and> (ht H \<noteq> None \<longrightarrow> h = bucket (htsize H) key)"
proof -
  have icmp: "(sqlite3StrICmp (pKey e) key = 0) = (fold_case (pKey e) = fold_case key)" if "e \<in> set (first H)" for e
    using inv key that StrICmp_zero by (auto simp: hash_inv_def elems_ok_def)
  show ?thesis
  proof (cases "ht H")
    case None
    then show ?thesis using inv find_loop_spec [of "count H" "first H" key] find_cong_pred [OF icmp]
      by (simp add: findElementWithHash_def hash_inv_def)
  next
    case (Some t)
    let ?m = "htsize H" and ?h = "bucket (htsize H) key" and ?es = "first H"
    let ?c = "chain_of ?m ?h ?es"
    have fit: "table_fits ?m t ?es" and dist: "distinct (List.map addr ?es)" using inv Some by (simp_all add: hash_inv_def elems_ok_def)
    then have h: "?h < ?m" "0 < ?m" "length t = ?m" and t: "fst (t ! ?h) = length ?c" "?c \<noteq> [] \<longrightarrow> snd (t ! ?h) = addr (hd ?c)"
      using bucket_less by (auto simp: table_fits_def)
    have "find_loop (fst (t ! ?h)) (dropWhile (\<lambda>e. addr e \<noteq> snd (t ! ?h)) ?es) key = Some (find (\<lambda>e. sqlite3StrICmp (pKey e) key = 0) ?c)"
    proof (cases "?c = []")
      case True
      then show ?thesis using t(1) by simp
    next
      case False
      have tk: "take (length ?c) (dropWhile (\<lambda>e. group ?m e \<noteq> ?h) ?es) = ?c"
        using contig_group [of "group ?m" ?es ?h] fit by (simp add: table_fits_def)
      then have "length ?c \<le> length (dropWhile (\<lambda>e. group ?m e \<noteq> ?h) ?es)" by (rule take_full)
      from find_loop_spec [OF this, of key] show ?thesis using t False drop_to_group [OF dist False] tk by simp
    qed
    moreover have "find (\<lambda>e. sqlite3StrICmp (pKey e) key = 0) ?c = find (\<lambda>e. fold_case (pKey e) = fold_case key) ?es"
    proof -
      have "find (\<lambda>e. sqlite3StrICmp (pKey e) key = 0) ?c = find (\<lambda>e. fold_case (pKey e) = fold_case key) ?c"
        using icmp by (intro find_cong_pred) simp
      also have "\<dots> = find (\<lambda>e. fold_case (pKey e) = fold_case key) ?es" by (rule find_filter) (rule bucket_fold_case)
      finally show ?thesis .
    qed
    ultimately show ?thesis using Some h by (simp add: findElementWithHash_def Let_def)
  qed
qed

section \<open>Inserting and removing elements\<close>

lemma link_before_group:
  assumes "distinct (List.map addr es)" and "filter Q es \<noteq> []"
  shows "link_before (addr (hd (filter Q es))) e es = Some (takeWhile (\<lambda>e. \<not> Q e) es @ e # dropWhile (\<lambda>e. \<not> Q e) es)"
  using assms
proof (induction es)
  case (Cons x es)
  show ?case
  proof (cases "Q x")
    case False
    then have "hd (filter Q es) \<in> set es" using Cons.prems(2) hd_in_set [of "filter Q es"] by auto
    then have "addr x \<noteq> addr (hd (filter Q es))" using Cons.prems(1) by auto
    then show ?thesis using Cons False by simp
  qed simp
qed simp

text \<open>Where an element is put: in front of its group, or of the list.\<close>

definition put_elem :: "nat \<Rightarrow> 'd HashElem \<Rightarrow> 'd HashElem list \<Rightarrow> 'd HashElem list" where
  "put_elem m e es =
     (if chain_of m (group m e) es = [] then e # es
      else takeWhile (\<lambda>x. group m x \<noteq> group m e) es @ e # dropWhile (\<lambda>x. group m x \<noteq> group m e) es)"

lemma set_put_elem: "mset (put_elem m e es) = add_mset e (mset es)"
proof -
  have "mset (takeWhile P es) + mset (dropWhile P es) = mset es" for P :: "'a HashElem \<Rightarrow> bool"
    by (metis mset_append takeWhile_dropWhile_id)
  then show ?thesis by (simp add: put_elem_def)
qed

lemma chain_put_elem:
  "chain_of m h (put_elem m e es) = (if group m e = h then e # chain_of m h es else chain_of m h es)"
proof (cases "chain_of m (group m e) es = []")
  case False
  let ?P = "\<lambda>x. group m x \<noteq> group m e"
  have front: "chain_of m (group m e) (takeWhile ?P es) = []" by (auto simp: filter_empty_conv dest: set_takeWhileD)
  have "chain_of m h es = chain_of m h (takeWhile ?P es) @ chain_of m h (dropWhile ?P es)"
    unfolding filter_append [symmetric] takeWhile_dropWhile_id ..
  then show ?thesis using False front by (auto simp: put_elem_def)
qed (auto simp: put_elem_def)

lemma contig_put_elem:
  assumes "contig (List.map (group m) es)"
  shows "contig (List.map (group m) (put_elem m e es))"
proof (cases "chain_of m (group m e) es = []")
  case True
  then have "group m e \<notin> group m ` set es" by (auto simp: filter_empty_conv)
  then show ?thesis using True assms by (simp add: put_elem_def)
next
  case False
  let ?P = "\<lambda>x. group m x \<noteq> group m e"
  obtain y ys where y: "dropWhile ?P es = y # ys" using False by (cases "dropWhile ?P es") (auto simp: filter_empty_conv)
  have "group m y = group m e" using hd_dropWhile [of ?P es] y by simp
  moreover have "List.map (group m) (takeWhile ?P es @ y # ys) = List.map (group m) es" using y takeWhile_dropWhile_id [of ?P es] by (simp only:)
  ultimately have "List.map (group m) es = List.map (group m) (takeWhile ?P es) @ group m e # List.map (group m) ys"
    by (simp only: map_append list.map)
  then have "contig (List.map (group m) (takeWhile ?P es) @ group m e # List.map (group m) ys)" using assms by (simp only:)
  from contig_double [OF this] show ?thesis using False y \<open>group m y = group m e\<close> by (simp add: put_elem_def)
qed

lemma insertElement_table:
  assumes fit: "table_fits (htsize H) t (first H)" and t: "ht H = Some t" and dist: "distinct (List.map addr (first H))"
  shows "\<exists>t'. insertElement H (Some (group (htsize H) e)) e = Some (H\<lparr>ht := Some t', first := put_elem (htsize H) e (first H)\<rparr>)
     \<and> table_fits (htsize H) t' (put_elem (htsize H) e (first H))"
proof -
  let ?m = "htsize H" and ?h = "group (htsize H) e" and ?es = "first H"
  let ?c = "chain_of ?m ?h ?es" and ?t = "t[group (htsize H) e := (Suc (fst (t ! group (htsize H) e)), addr e)]"
  have h: "?h < length t" "length t = ?m" "0 < ?m" and c: "fst (t ! ?h) = length ?c" "?c \<noteq> [] \<longrightarrow> snd (t ! ?h) = addr (hd ?c)"
    using fit bucket_less [of ?m "pKey e"] by (auto simp: table_fits_def)
  have "insertElement H (Some ?h) e = Some (H\<lparr>ht := Some ?t, first := put_elem ?m e ?es\<rparr>)"
  proof (cases "?c = []")
    case True
    then show ?thesis using t h c by (simp add: insertElement_def put_elem_def)
  next
    case False
    then show ?thesis using t h c link_before_group [OF dist False, of e] by (simp add: insertElement_def put_elem_def)
  qed
  moreover have "table_fits ?m ?t (put_elem ?m e ?es)"
    using fit h c contig_put_elem [of ?m ?es e] by (auto simp: table_fits_def chain_put_elem nth_list_update)
  ultimately show ?thesis by blast
qed

lemma rehash_loop_spec:
  "ht H = Some t \<Longrightarrow> table_fits (htsize H) t (first H) \<Longrightarrow> distinct (List.map addr (es @ first H)) \<Longrightarrow>
    \<exists>t' es'. rehash_loop es H = Some (H\<lparr>ht := Some t', first := es'\<rparr>) \<and> table_fits (htsize H) t' es' \<and> mset es' = mset (es @ first H)"
proof (induction es arbitrary: H t)
  case Nil
  then show ?case by (intro exI [of _ t] exI [of _ "first H"]) simp
next
  case (Cons e es)
  let ?es = "put_elem (htsize H) e (first H)"
  obtain t1 where t1: "insertElement H (Some (group (htsize H) e)) e = Some (H\<lparr>ht := Some t1, first := ?es\<rparr>)" "table_fits (htsize H) t1 ?es"
    using insertElement_table [OF Cons.prems(2,1), of e] Cons.prems(3) by auto
  let ?H = "H\<lparr>ht := Some t1, first := ?es\<rparr>"
  have "mset (List.map addr (es @ ?es)) = mset (List.map addr ((e # es) @ first H))" by (simp add: set_put_elem)
  from mset_eq_imp_distinct_iff [OF this] Cons.prems(3) have "distinct (List.map addr (es @ ?es))" by (simp only:)
  then have "distinct (List.map addr (es @ first ?H))" by simp
  then obtain t' es' where "rehash_loop es ?H = Some (?H\<lparr>ht := Some t', first := es'\<rparr>)" "table_fits (htsize H) t' es'" "mset es' = mset (es @ ?es)"
    using Cons.IH [of ?H t1] t1(2) by auto
  moreover have "0 < htsize H" using Cons.prems(2) by (simp add: table_fits_def)
  ultimately show ?case using t1(1) by (intro exI [of _ t'] exI [of _ es']) (simp add: set_put_elem)
qed

lemma rehash_spec:
  assumes inv: "elems_ok (first H)" "case ht H of None \<Rightarrow> htsize H = 0 | Some t \<Rightarrow> table_fits (htsize H) t (first H)"
    and mal: "\<And>n m. mal n = Some m \<Longrightarrow> 0 < m"
  shows "\<exists>r H'. rehash mal H n = Some (r, H') \<and> (case ht H' of None \<Rightarrow> htsize H' = 0 | Some t \<Rightarrow> table_fits (htsize H') t (first H'))
     \<and> mset (first H') = mset (first H) \<and> count H' = count H \<and> (\<not> r \<longrightarrow> H' = H) \<and> (r \<longrightarrow> ht H' \<noteq> None \<and> 0 < htsize H')"
proof -
  let ?n = "if n * 16 > 1024 then 1024 div 16 else n"
  consider (same) "?n = htsize H \<or> mal ?n = None" | (new) m where "?n \<noteq> htsize H" "mal ?n = Some m" by (cases "mal ?n") auto
  then show ?thesis
  proof cases
    case same
    then have "rehash mal H n = Some (False, H)" by (auto simp: rehash_def Let_def)
    then show ?thesis using inv by auto
  next
    case new
    let ?H = "H\<lparr>ht := Some (replicate m (0, 0)), htsize := m, first := []\<rparr>"
    have m: "0 < m" using mal new by blast
    then have "table_fits (htsize ?H) (replicate m (0, 0)) (first ?H)" by (simp add: table_fits_def)
    moreover have "distinct (List.map addr (first H @ first ?H))" using inv(1) by (simp add: elems_ok_def)
    ultimately obtain t' es' where r: "rehash_loop (first H) ?H = Some (?H\<lparr>ht := Some t', first := es'\<rparr>)" "table_fits m t' es'" "mset es' = mset (first H)"
      using rehash_loop_spec [of ?H "replicate m (0, 0)" "first H"] by auto
    then have "rehash mal H n = Some (True, H\<lparr>ht := Some t', htsize := m, first := es'\<rparr>)"
      using new by (simp add: rehash_def Let_def)
    then show ?thesis using r m by auto
  qed
qed

lemma contig_append: "contig (as @ bs) \<Longrightarrow> contig bs"
  by (induction as) auto

text \<open>Removing an element that is in the list.\<close>

lemma remove_spec:
  assumes inv: "hash_inv H" and e: "e \<in> set (first H)" and h: "ht H \<noteq> None \<longrightarrow> h = group (htsize H) e"
  shows "\<exists>H'. removeElementGivenHash H e h = Some H' \<and> hash_inv H' \<and> first H' = filter (\<lambda>x. addr x \<noteq> addr e) (first H)"
proof -
  obtain us vs where es: "first H = us @ e # vs" using e by (auto simp: in_set_conv_decomp)
  have ok: "elems_ok (first H)" and cnt: "count H = length (first H)" using inv by (simp_all add: hash_inv_def)
  then have "addr e \<notin> addr ` set us" "addr e \<notin> addr ` set vs" by (simp_all add: elems_ok_def es)
  then have addr_ne: "\<forall>x \<in> set us. addr x \<noteq> addr e" "\<forall>x \<in> set vs. addr x \<noteq> addr e" by (metis image_eqI)+
  then have rest: "filter (\<lambda>x. addr x \<noteq> addr e) (first H) = us @ vs" by (simp add: es)
  have ok': "elems_ok (us @ vs)" using ok by (auto simp: elems_ok_def es)
  have "dropWhile (\<lambda>x. addr x \<noteq> addr e) (us @ e # vs) = e # vs" using addr_ne by (simp add: dropWhile_append2)
  then have nxt: "next_addr (addr e) (first H) = (case vs of [] \<Rightarrow> 0 | x # _ \<Rightarrow> addr x)" by (simp add: next_addr_def es)
  have clear: "hash_inv (sqlite3HashClear G)" "first (sqlite3HashClear G) = []" for G :: "'a Hash"
    by (simp_all add: sqlite3HashClear_def hash_inv_def elems_ok_def)
  show ?thesis
  proof (cases "ht H")
    case None
    then have "htsize H = 0" using inv by (simp add: hash_inv_def)
    then show ?thesis using None cnt rest ok' clear es
      by (cases "us @ vs = []") (auto simp: removeElementGivenHash_def hash_inv_def Let_def)
  next
    case (Some t)
    let ?m = "htsize H"
    have h: "h = group ?m e" and fit: "table_fits ?m t (first H)" using h Some inv by (simp_all add: hash_inv_def)
    then have m: "0 < ?m" "length t = ?m" "h < ?m" using bucket_less [of ?m "pKey e"] by (simp_all add: table_fits_def)
    let ?cu = "chain_of ?m h us" and ?cv = "chain_of ?m h vs"
    have c: "fst (t ! h) = Suc (length ?cu + length ?cv)" "snd (t ! h) = addr (hd (?cu @ [e]))"
      using fit m(3) h by (auto simp: table_fits_def es hd_append)
    let ?t = "t[h := (fst (t ! h) - 1, if snd (t ! h) = addr e then next_addr (addr e) (first H) else snd (t ! h))]"
    have "contig (List.map (group ?m) (e # vs))" using fit contig_append [of "List.map (group ?m) us" "List.map (group ?m) (e # vs)"] by (simp add: table_fits_def es)
    then have nx: "?cv \<noteq> [] \<Longrightarrow> next_addr (addr e) (first H) = addr (hd ?cv)"
      unfolding nxt using h by (cases vs) (auto simp: filter_empty_conv image_iff, metis+)
    have hd_ne: "?cu \<noteq> [] \<Longrightarrow> addr (hd ?cu) \<noteq> addr e" using addr_ne(1) hd_in_set [of ?cu] by auto
    have "fst (?t ! h') = length (chain_of ?m h' (us @ vs)) \<and> (chain_of ?m h' (us @ vs) \<noteq> [] \<longrightarrow> snd (?t ! h') = addr (hd (chain_of ?m h' (us @ vs))))" if "h' < ?m" for h'
    proof (cases "h' = h")
      case True
      then show ?thesis using c m nx hd_ne by (cases "?cu = []") auto
    next
      case False
      then show ?thesis using fit that h by (auto simp: table_fits_def es)
    qed
    moreover have "contig (List.map (group ?m) (us @ vs))"
      using fit contig_delete [of "List.map (group ?m) us" "group ?m e" "List.map (group ?m) vs"] by (simp add: table_fits_def es)
    ultimately have "table_fits ?m ?t (us @ vs)" using m by (simp add: table_fits_def)
    then show ?thesis using Some m c cnt rest ok' clear es
      by (cases "us @ vs = []") (auto simp: removeElementGivenHash_def hash_inv_def Let_def)
  qed
qed

section \<open>The table is a map\<close>

lemma keys_distinct: "elems_ok es \<Longrightarrow> distinct (List.map fst (pairs es))"
  by (simp add: elems_ok_def pairs_def comp_def)

lemma option_eqI: "(\<And>v. a = Some v \<longleftrightarrow> b = Some v) \<Longrightarrow> a = b"
  by (metis option.exhaust)

lemma elem_split:
  assumes ok: "elems_ok es" and e: "e \<in> set es"
  obtains us vs where "es = us @ e # vs" "\<forall>x \<in> set us \<union> set vs. addr x \<noteq> addr e"
    "map_of (pairs us) (fold_case (pKey e)) = None" "map_of (pairs vs) (fold_case (pKey e)) = None"
proof -
  obtain us vs where es: "es = us @ e # vs" using e by (auto simp: in_set_conv_decomp)
  have "addr e \<notin> addr ` (set us \<union> set vs)" "fold_case (pKey e) \<notin> fst ` set (pairs us)" "fold_case (pKey e) \<notin> fst ` set (pairs vs)"
    using ok by (auto simp: elems_ok_def es pairs_def)
  then have "\<forall>x \<in> set us \<union> set vs. addr x \<noteq> addr e"
    "map_of (pairs us) (fold_case (pKey e)) = None" "map_of (pairs vs) (fold_case (pKey e)) = None"
    by (metis image_eqI, simp_all only: map_of_eq_None_iff not_False_eq_True)
  then show ?thesis using that es by blast
qed

lemma pairs_simps [simp]: "pairs [] = []" "pairs (e # es) = (fold_case (pKey e), data e) # pairs es" "pairs (us @ vs) = pairs us @ pairs vs"
  by (simp_all add: pairs_def)

lemma map_remove:
  assumes "elems_ok es" and "e \<in> set es"
  shows "map_of (pairs (filter (\<lambda>x. addr x \<noteq> addr e) es)) = (map_of (pairs es))(fold_case (pKey e) := None)"
proof -
  obtain us vs where s: "es = us @ e # vs" "\<forall>x \<in> set us \<union> set vs. addr x \<noteq> addr e"
    "map_of (pairs us) (fold_case (pKey e)) = None" "map_of (pairs vs) (fold_case (pKey e)) = None" using elem_split [OF assms] by blast
  then have "filter (\<lambda>x. addr x \<noteq> addr e) es = us @ vs" by simp
  then show ?thesis using s(3,4) by (auto simp: s(1) map_add_def fun_eq_iff split: option.splits)
qed

lemma map_renew:
  assumes "elems_ok es" and "e \<in> set es" and "fold_case key = fold_case (pKey e)"
  shows "map_of (pairs (List.map (renew e key x) es)) = (map_of (pairs es))(fold_case key \<mapsto> x)"
proof -
  obtain us vs where s: "es = us @ e # vs" "\<forall>x \<in> set us \<union> set vs. addr x \<noteq> addr e"
    "map_of (pairs us) (fold_case (pKey e)) = None" "map_of (pairs vs) (fold_case (pKey e)) = None" using elem_split [OF assms(1,2)] by blast
  then have "List.map (renew e key x) us = us" "List.map (renew e key x) vs = vs" by (auto simp: renew_def intro: map_idI)
  then show ?thesis using s(3,4) assms(3) by (auto simp: s(1) renew_def map_add_def fun_eq_iff split: option.splits)
qed

text \<open>Replacing the data and the key of an element.\<close>

lemma renew_inv:
  assumes inv: "hash_inv H" and e: "e \<in> set (first H)" and key: "fold_case key = fold_case (pKey e)" "0 \<notin> set key"
  shows "hash_inv (H\<lparr>first := List.map (renew e key x) (first H)\<rparr>)"
proof -
  let ?es = "first H" and ?upd = "renew e key x"
  have ok: "elems_ok ?es" using inv by (simp add: hash_inv_def)
  have same: "f = e" if "f \<in> set ?es" "addr f = addr e" for f
    using ok that e by (metis elems_ok_def distinct_map inj_onD)
  have fold: "fold_case (pKey (?upd f)) = fold_case (pKey f)" "addr (?upd f) = addr f" "0 \<notin> set (pKey (?upd f))" if "f \<in> set ?es" for f
    using same [OF that] key ok that by (auto simp: renew_def elems_ok_def)
  then have grp: "group m (?upd f) = group m f" if "f \<in> set ?es" for f m using bucket_fold_case that by blast
  have maps: "List.map (fold_case \<circ> pKey) (List.map ?upd ?es) = List.map (fold_case \<circ> pKey) ?es" "List.map addr (List.map ?upd ?es) = List.map addr ?es"
    "List.map (group m) (List.map ?upd ?es) = List.map (group m) ?es" for m using fold grp by simp_all
  have chain: "chain_of m h (List.map ?upd ?es) = List.map ?upd (chain_of m h ?es)" for m h
    using grp by (simp add: filter_map comp_def cong: filter_cong)
  have "addr (hd (List.map ?upd (chain_of m h ?es))) = addr (hd (chain_of m h ?es))" if "chain_of m h ?es \<noteq> []" for m h
    using that fold(2) hd_in_set [OF that] by (simp add: hd_map)
  then have "table_fits m t (List.map ?upd ?es)" if "table_fits m t ?es" for m t
    using that unfolding table_fits_def maps chain by simp
  moreover have "elems_ok (List.map ?upd ?es)" using ok fold(3) unfolding elems_ok_def maps by auto
  ultimately show ?thesis using inv by (auto simp: hash_inv_def split: option.splits)
qed

lemma elems_ok_mset:
  assumes eq: "mset es = mset es'"
  shows "elems_ok es = elems_ok es'"
proof -
  have "distinct (List.map addr es) = distinct (List.map addr es')" by (rule mset_eq_imp_distinct_iff) (simp add: eq)
  moreover have "distinct (List.map (fold_case \<circ> pKey) es) = distinct (List.map (fold_case \<circ> pKey) es')"
    by (rule mset_eq_imp_distinct_iff) (simp add: eq)
  ultimately show ?thesis using mset_eq_setD [OF eq] by (simp add: elems_ok_def)
qed

lemma map_of_mset:
  assumes "mset es = mset es'" and "elems_ok es"
  shows "map_of (pairs es) = map_of (pairs es')"
proof -
  have "set (pairs es) = set (pairs es')" using mset_eq_setD [OF assms(1)] by (simp add: pairs_def)
  moreover have "distinct (List.map fst (pairs es))" "distinct (List.map fst (pairs es'))"
    using assms keys_distinct elems_ok_mset by blast+
  ultimately show ?thesis using map_of_inject_set by blast
qed

lemma insertElement_spec:
  assumes ok: "elems_ok (e # first H)" and fit: "case ht H of None \<Rightarrow> htsize H = 0 | Some t \<Rightarrow> table_fits (htsize H) t (first H)"
    and cnt: "count H = Suc (length (first H))" and h: "ht H \<noteq> None \<Longrightarrow> h = group (htsize H) e"
  shows "\<exists>H'. insertElement H (if ht H \<noteq> None then Some h else None) e = Some H' \<and> hash_inv H' \<and> mset (first H') = mset (e # first H)"
proof (cases "ht H")
  case None
  then show ?thesis using assms by (simp add: insertElement_def hash_inv_def)
next
  case (Some t)
  then have "table_fits (htsize H) t (first H)" "distinct (List.map addr (first H))" using fit ok by (simp_all add: elems_ok_def)
  from insertElement_table [OF this(1) Some this(2), of e] obtain t' where
    t': "insertElement H (Some (group (htsize H) e)) e = Some (H\<lparr>ht := Some t', first := put_elem (htsize H) e (first H)\<rparr>)"
    "table_fits (htsize H) t' (put_elem (htsize H) e (first H))" by blast
  have p: "mset (put_elem (htsize H) e (first H)) = mset (e # first H)" by (simp add: set_put_elem)
  then have "elems_ok (put_elem (htsize H) e (first H))" "length (put_elem (htsize H) e (first H)) = Suc (length (first H))"
    using ok elems_ok_mset mset_eq_length by (blast, fastforce)
  then show ?thesis using Some h t' p cnt by (simp add: hash_inv_def)
qed

definition fresh :: "nat option \<Rightarrow> 'd Hash \<Rightarrow> bool" where
  "fresh mem H \<longleftrightarrow> (\<forall>a. mem = Some a \<longrightarrow> a \<notin> addr ` set (first H))"

definition positive :: "(nat \<Rightarrow> nat option) \<Rightarrow> bool" where
  "positive mal \<longleftrightarrow> (\<forall>n m. mal n = Some m \<longrightarrow> 0 < m)"

lemma insert_new:
  assumes inv: "hash_inv H" and key: "0 \<notin> set key" and new: "hash_map H (fold_case key) = None"
    and a: "a \<notin> addr ` set (first H)" and mal: "positive mal"
  shows "\<exists>H'. sqlite3HashInsert mal (Some a) H key (Some x) = Some (None, H') \<and> hash_inv H'
     \<and> hash_map H' = (hash_map H)(fold_case key \<mapsto> x) \<and> addr ` set (first H') = insert a (addr ` set (first H))"
proof -
  let ?e = "\<lparr>addr = a, pKey = key, data = x\<rparr>" and ?H = "H\<lparr>count := Suc (count H)\<rparr>"
  have ok: "elems_ok (first H)" and cnt: "count H = length (first H)" and
    fit: "case ht H of None \<Rightarrow> htsize H = 0 | Some t \<Rightarrow> table_fits (htsize H) t (first H)" using inv by (simp_all add: hash_inv_def)
  obtain h where h: "findElementWithHash H key = Some (find (\<lambda>e. fold_case (pKey e) = fold_case key) (first H), h)" "ht H \<noteq> None \<longrightarrow> h = bucket (htsize H) key"
    using find_spec [OF inv key] by blast
  have "find (\<lambda>e. fold_case (pKey e) = fold_case key) (first H) = None"
    using new find_pairs [of "fold_case key" "first H"] by (simp add: hash_map_def)
  then have found: "findElementWithHash H key = Some (None, h)" using h by simp
  have "fold_case key \<notin> fst ` set (pairs (first H))" using new by (simp add: hash_map_def map_of_eq_None_iff)
  then have ok': "elems_ok (?e # first H)" using ok a key by (auto simp: elems_ok_def pairs_def image_image)
  have pre: "elems_ok (first ?H)" "case ht ?H of None \<Rightarrow> htsize ?H = 0 | Some t \<Rightarrow> table_fits (htsize ?H) t (first ?H)" using ok fit by (simp_all split: option.splits)
  have pos: "mal n = Some m \<Longrightarrow> 0 < m" for n m using mal by (simp add: positive_def)
  let ?grow = "count ?H \<ge> 10 \<and> count ?H > 2 * htsize ?H"
  have "\<exists>r G. (if ?grow then rehash mal ?H (count ?H * 2) else Some (False, ?H)) = Some (r, G)
      \<and> (case ht G of None \<Rightarrow> htsize G = 0 | Some t \<Rightarrow> table_fits (htsize G) t (first G)) \<and> mset (first G) = mset (first ?H) \<and> count G = count ?H
      \<and> (\<not> r \<longrightarrow> G = ?H) \<and> (r \<longrightarrow> ht G \<noteq> None \<and> 0 < htsize G)"
  proof (cases ?grow)
    case True
    then show ?thesis using rehash_spec [where mal = mal and n = "count ?H * 2", OF pre pos] by (simp only: if_True simp_thms)
  next
    case False
    then show ?thesis using pre(2) by (intro exI [of _ False] exI [of _ ?H]) (simp only: if_False simp_thms)
  qed
  then obtain r G where G: "(if ?grow then rehash mal ?H (count ?H * 2) else Some (False, ?H)) = Some (r, G)"
    "case ht G of None \<Rightarrow> htsize G = 0 | Some t \<Rightarrow> table_fits (htsize G) t (first G)" "mset (first G) = mset (first H)" "count G = Suc (count H)"
    "\<not> r \<longrightarrow> G = ?H" "r \<longrightarrow> ht G \<noteq> None \<and> 0 < htsize G" by auto
  let ?h = "if r then bucket (htsize G) key else h"
  have "elems_ok (?e # first G)" using ok' elems_ok_mset [of "?e # first G" "?e # first H"] G(3) by simp
  moreover have "count G = Suc (length (first G))" using G(3,4) cnt mset_eq_length [OF G(3)] by simp
  moreover have "ht G \<noteq> None \<Longrightarrow> ?h = group (htsize G) ?e" using G(5) h(2) by auto
  ultimately obtain H' where H': "insertElement G (if ht G \<noteq> None then Some ?h else None) ?e = Some H'" "hash_inv H'" "mset (first H') = mset (?e # first G)"
    using insertElement_spec [of ?e G ?h] G(2) by blast
  have eq: "mset (first H') = mset (?e # first H)" using H'(3) G(3) by simp
  then have "hash_map H' = map_of (pairs (?e # first H))" using map_of_mset [OF eq] H'(2) by (simp add: hash_map_def hash_inv_def)
  moreover have "addr ` set (first H') = insert a (addr ` set (first H))" using mset_eq_setD [OF eq] by simp
  moreover have "sqlite3HashInsert mal (Some a) H key (Some x) = Some (None, H')"
    using found G(1,6) H'(1) by (auto simp: sqlite3HashInsert_def Let_def split: if_splits)
  ultimately show ?thesis using H'(2) by (simp add: hash_map_def)
qed

text \<open>All cases of an insertion.\<close>

lemma insert_cases:
  assumes inv: "hash_inv H" and key: "0 \<notin> set key" and mem: "fresh mem H" and mal: "positive mal"
  shows "\<exists>old H'. sqlite3HashInsert mal mem H key d = Some (old, H') \<and> hash_inv H' \<and> addr ` set (first H') \<subseteq> addr ` set (first H) \<union> set_option mem
     \<and> (if hash_map H (fold_case key) = None \<and> d \<noteq> None \<and> mem = None then old = d \<and> H' = H
        else old = hash_map H (fold_case key) \<and> hash_map H' = (hash_map H)(fold_case key := d))"
proof -
  obtain h where h: "findElementWithHash H key = Some (find (\<lambda>e. fold_case (pKey e) = fold_case key) (first H), h)" "ht H \<noteq> None \<longrightarrow> h = bucket (htsize H) key"
    using find_spec [OF inv key] by blast
  have look: "map_option data (find (\<lambda>e. fold_case (pKey e) = fold_case key) (first H)) = hash_map H (fold_case key)"
    using find_pairs by (simp add: hash_map_def)
  have ok: "elems_ok (first H)" using inv by (simp add: hash_inv_def)
  show ?thesis
  proof (cases "find (\<lambda>e. fold_case (pKey e) = fold_case key) (first H)")
    case None
    then have new: "hash_map H (fold_case key) = None" using look by simp
    show ?thesis
    proof (cases "d = None \<or> mem = None")
      case True
      have "sqlite3HashInsert mal mem H key d = Some (d, H)" using h(1) None True by (cases d) (auto simp: sqlite3HashInsert_def)
      then show ?thesis using inv new True by (auto simp: fun_upd_idem)
    next
      case False
      then obtain x a where xa: "d = Some x" "mem = Some a" by (cases d; cases mem) auto
      then show ?thesis using insert_new [OF inv key new _ mal, of a x] mem new by (auto simp: fresh_def)
    qed
  next
    case (Some e)
    then have e: "e \<in> set (first H)" "fold_case (pKey e) = fold_case key" by (auto simp: find_Some_iff in_set_conv_nth)
    have old: "hash_map H (fold_case key) = Some (data e)" using look Some by simp
    have "ht H \<noteq> None \<longrightarrow> h = group (htsize H) e" using h(2) bucket_fold_case [OF e(2)] by simp
    show ?thesis
    proof (cases d)
      case None
      obtain H' where H': "removeElementGivenHash H e h = Some H'" "hash_inv H'" "first H' = filter (\<lambda>x. addr x \<noteq> addr e) (first H)"
        using remove_spec [OF inv e(1) \<open>ht H \<noteq> None \<longrightarrow> h = group (htsize H) e\<close>] by blast
      then have "hash_map H' = (hash_map H)(fold_case key := None)" using map_remove [OF ok e(1)] e(2) by (simp add: hash_map_def)
      moreover have "sqlite3HashInsert mal mem H key d = Some (Some (data e), H')" using h(1) Some None H'(1) by (simp add: sqlite3HashInsert_def)
      ultimately show ?thesis using old None H'(2,3) by auto
    next
      case new: (Some x)
      let ?H = "H\<lparr>first := List.map (renew e key x) (first H)\<rparr>"
      have "hash_inv ?H" using renew_inv [OF inv e(1) e(2) [symmetric] key] .
      moreover have "hash_map ?H = (hash_map H)(fold_case key \<mapsto> x)" using map_renew [OF ok e(1) e(2) [symmetric]] by (simp add: hash_map_def)
      moreover have "addr (renew e key x f) = addr f" for f by (simp add: renew_def)
      then have "addr ` set (first ?H) = addr ` set (first H)" by (simp add: image_image)
      moreover have "sqlite3HashInsert mal mem H key d = Some (Some (data e), ?H)" using h(1) Some new by (simp add: sqlite3HashInsert_def)
      ultimately show ?thesis using old new by auto
    qed
  qed
qed

lemma find_cases: "hash_inv H \<Longrightarrow> 0 \<notin> set key \<Longrightarrow> sqlite3HashFind H key = Some (hash_map H (fold_case key))"
  using find_spec [of H key] find_pairs [of "fold_case key" "first H"] by (auto simp: sqlite3HashFind_def hash_map_def)

section \<open>Sessions\<close>

text \<open>An operation with whether there is memory for a new element.\<close>

datatype 'd table_op = Put "u8 list" 'd | Del "u8 list" | Get "u8 list"

fun op_key :: "'d table_op \<Rightarrow> u8 list" where
  "op_key (Put k d) = k"
| "op_key (Del k) = k"
| "op_key (Get k) = k"

text \<open>The pointers a map from keys up to case would return; without memory, storing under a new key returns the data.\<close>

fun table_spec :: "(bool \<times> 'd table_op) list \<Rightarrow> (u8 list \<Rightarrow> 'd option) \<Rightarrow> 'd option list" where
  "table_spec [] M = []"
| "table_spec ((mem, Put k d) # ops) M =
     (if M (fold_case k) = None \<and> \<not> mem then Some d # table_spec ops M else M (fold_case k) # table_spec ops (M(fold_case k \<mapsto> d)))"
| "table_spec ((mem, Del k) # ops) M = M (fold_case k) # table_spec ops (M(fold_case k := None))"
| "table_spec ((mem, Get k) # ops) M = M (fold_case k) # table_spec ops M"

text \<open>A session; the \<open>n\<close>-th allocation has an address of its own.\<close>

fun table_run :: "(nat option \<Rightarrow> 's \<Rightarrow> u8 list \<Rightarrow> 'd option \<Rightarrow> ('d option \<times> 's) option) \<Rightarrow> ('s \<Rightarrow> u8 list \<Rightarrow> 'd option option)
    \<Rightarrow> nat \<Rightarrow> (bool \<times> 'd table_op) list \<Rightarrow> 's \<Rightarrow> 'd option list option" where
  "table_run ins fnd n [] s = Some []"
| "table_run ins fnd n ((mem, Put k d) # ops) s = do {
     (r, s) \<leftarrow> ins (if mem then Some n else None) s k (Some d);
     map_option ((#) r) (table_run ins fnd (Suc n) ops s) }"
| "table_run ins fnd n ((mem, Del k) # ops) s = do {
     (r, s) \<leftarrow> ins None s k None;
     map_option ((#) r) (table_run ins fnd (Suc n) ops s) }"
| "table_run ins fnd n ((mem, Get k) # ops) s = do {
     r \<leftarrow> fnd s k;
     map_option ((#) r) (table_run ins fnd (Suc n) ops s) }"

text \<open>The contract of a table: \<open>inv n s\<close> tells that \<open>s\<close> is well formed and uses addresses below \<open>n\<close> only.\<close>

locale string_table =
  fixes ins :: "nat option \<Rightarrow> 's \<Rightarrow> u8 list \<Rightarrow> 'd option \<Rightarrow> ('d option \<times> 's) option" and fnd :: "'s \<Rightarrow> u8 list \<Rightarrow> 'd option option"
    and inv :: "nat \<Rightarrow> 's \<Rightarrow> bool" and contents :: "'s \<Rightarrow> u8 list \<Rightarrow> 'd option"
  assumes ins: "inv n s \<Longrightarrow> 0 \<notin> set k \<Longrightarrow> mem = None \<or> mem = Some n \<Longrightarrow> \<exists>r s'. ins mem s k d = Some (r, s') \<and> inv (Suc n) s'
      \<and> (if contents s (fold_case k) = None \<and> d \<noteq> None \<and> mem = None then r = d \<and> contents s' = contents s
         else r = contents s (fold_case k) \<and> contents s' = (contents s)(fold_case k := d))"
    and fnd: "inv n s \<Longrightarrow> 0 \<notin> set k \<Longrightarrow> fnd s k = Some (contents s (fold_case k))"
    and older: "inv n s \<Longrightarrow> inv (Suc n) s"
begin

lemma run_spec: "inv n s \<Longrightarrow> \<forall>(mem, opn) \<in> set ops. 0 \<notin> set (op_key opn) \<Longrightarrow> table_run ins fnd n ops s = Some (table_spec ops (contents s))"
proof (induction ops arbitrary: n s)
  case (Cons mo ops)
  obtain mem opn where mo: "mo = (mem, opn)" by (cases mo)
  then have k: "0 \<notin> set (op_key opn)" using Cons.prems(2) by auto
  show ?case
  proof (cases opn)
    case (Put key d)
    have room: "(if mem then Some n else None) = None \<or> (if mem then Some n else None) = Some n" by simp
    have "0 \<notin> set key" using k Put by simp
    from ins [OF Cons.prems(1) this room, of "Some d"]
    obtain r s' where "ins (if mem then Some n else None) s key (Some d) = Some (r, s')" "inv (Suc n) s'"
      "if contents s (fold_case key) = None \<and> Some d \<noteq> None \<and> (if mem then Some n else None) = None then r = Some d \<and> contents s' = contents s
       else r = contents s (fold_case key) \<and> contents s' = (contents s)(fold_case key := Some d)"
      by blast
    then show ?thesis using Cons.IH [of "Suc n" s'] Cons.prems(2) mo Put by (auto split: if_splits)
  next
    case (Del key)
    obtain r s' where "ins None s key None = Some (r, s')" "inv (Suc n) s'" "r = contents s (fold_case key)" "contents s' = (contents s)(fold_case key := None)"
      using ins [OF Cons.prems(1), of key None None] k Del by auto
    then show ?thesis using Cons.IH [of "Suc n" s'] Cons.prems(2) mo Del by (auto simp: fun_upd_def)
  next
    case (Get key)
    then show ?thesis using fnd [OF Cons.prems(1), of key] k older [OF Cons.prems(1)] Cons.IH [of "Suc n" s] Cons.prems(2) mo by auto
  qed
qed simp

end

definition hash_room :: "(nat \<Rightarrow> nat option) \<Rightarrow> nat \<Rightarrow> 'd Hash \<Rightarrow> bool" where
  "hash_room mal n H \<longleftrightarrow> positive mal \<and> hash_inv H \<and> addr ` set (first H) \<subseteq> {..<n}"

interpretation hash: string_table "sqlite3HashInsert mal" sqlite3HashFind "hash_room mal" hash_map for mal
proof (unfold_locales, goal_cases)
  case (1 n s k mem d)
  then have "hash_inv s" "positive mal" "addr ` set (first s) \<subseteq> {..<n}" by (simp_all add: hash_room_def)
  moreover from this 1(3) have "fresh mem s" by (auto simp: fresh_def)
  ultimately obtain r s' where s': "sqlite3HashInsert mal mem s k d = Some (r, s')" "hash_inv s'" "addr ` set (first s') \<subseteq> addr ` set (first s) \<union> set_option mem"
    "if hash_map s (fold_case k) = None \<and> d \<noteq> None \<and> mem = None then r = d \<and> s' = s
     else r = hash_map s (fold_case k) \<and> hash_map s' = (hash_map s)(fold_case k := d)" using insert_cases [of s k mem mal d] 1(2) by blast
  have mem: "set_option mem \<subseteq> {..<Suc n}" using 1(3) by auto
  have old: "addr ` set (first s) \<subseteq> {..<Suc n}"
    by (rule subset_trans [of _ "{..<n}"]) (use 1(1) in \<open>auto simp: hash_room_def\<close>)
  have "addr ` set (first s') \<subseteq> {..<Suc n}" by (rule subset_trans [OF s'(3)]) (rule Un_least [OF old mem])
  then show ?case using s' 1(1) by (intro exI [of _ r] exI [of _ s']) (auto simp: hash_room_def split: if_splits)
next
  case (2 n s k)
  then show ?case by (simp add: hash_room_def find_cases)
next
  case (3 n s)
  then show ?case by (auto simp: hash_room_def)
qed

lemma hash_init: "positive mal \<Longrightarrow> hash_room mal 1 sqlite3HashInit" "hash_map sqlite3HashInit = (\<lambda>_. None)"
  by (simp_all add: hash_room_def hash_inv_def sqlite3HashInit_def elems_ok_def hash_map_def)



end
