(* ===== verification/Port_Frames.thy ===== *)
theory Port_Frames
  imports Event_Loop Sqlite_Lifecycle
begin

text \<open>
  What the operations on files, streams, processes and signals (\<^verbatim>\<open>osi.c\<close>) leave alone: the structures of
  the databases (\<^verbatim>\<open>sqlite.c\<close>), which live in the same heap. The frame is a relation between states that
  composes, so that each operation is treated on its own.
\<close>

section \<open>Frames\<close>

text \<open>The structures that own blocks: a database, a request to open one, and bindings.\<close>

fun owner :: "cobj \<Rightarrow> bool" where
  "owner (Database _) = True"
| "owner (Open_req _) = True"
| "owner (Bindings _) = True"
| "owner _ = False"

text \<open>The structures of \<^verbatim>\<open>sqlite.c\<close>.\<close>

definition dbobj :: "cobj \<Rightarrow> bool" where
  "dbobj x \<longleftrightarrow> owner x \<or> plain x \<or> (\<exists>st. x = Statement st)"

lemma dbobj_simps [simp]:
  "dbobj (Database d)" "dbobj (Open_req r)" "dbobj (Statement st)" "dbobj (C_string t)" "dbobj (Bindings bs)" "dbobj (Bulk k)" "dbobj (Pointers ps)"
  "\<not> dbobj Raw" "\<not> dbobj (Fs_port p)" "\<not> dbobj (Stream_port q)" "\<not> dbobj (Rw_fs_req u v)" "\<not> dbobj (Close_fs_req i u)" "\<not> dbobj (Uv_fs c u)"
  "\<not> dbobj (Tcp_connect t')" "\<not> dbobj (Uv_async o' b)" "\<not> dbobj (Uv_tcp o')" "\<not> dbobj (Uv_fs_event o')" "\<not> dbobj (Uv_process o' b)"
  "\<not> dbobj Uv_signal" "\<not> dbobj (C_argv ps)" "\<not> dbobj (Sha1_ctxt ctx)"
  by (simp_all add: dbobj_def)

text \<open>
  The addresses in \<open>K\<close> are untouched, SQLite's objects are the same, and every owner outside \<open>A\<close> was there before. Counters only grow.
\<close>

definition spares :: "uptr set \<Rightarrow> uptr set \<Rightarrow> osi \<Rightarrow> osi \<Rightarrow> bool" where
  "spares K A s s' \<longleftrightarrow>
     mallocs s \<le> mallocs s' \<and> length (calls s) \<le> length (calls s')
     \<and> (\<forall>b \<in> K. heap s' b = heap s b \<and> closing s' b = closing s b)
     \<and> (\<forall>b x. b \<notin> A \<and> heap s' b = Some x \<and> owner x \<longrightarrow> heap s b = Some x)"

lemma spares_refl [simp]: "spares K A s s"
  by (simp add: spares_def)

lemma sparesI:
  assumes "mallocs s \<le> mallocs s'" and "length (calls s) \<le> length (calls s')"
    and "\<And>b. b \<in> K \<Longrightarrow> heap s' b = heap s b" and "\<And>b. b \<in> K \<Longrightarrow> closing s' b = closing s b"
    and "\<And>b x. b \<notin> A \<Longrightarrow> heap s' b = Some x \<Longrightarrow> owner x \<Longrightarrow> heap s b = Some x"
  shows "spares K A s s'"
proof -
  have "\<forall>b x. b \<notin> A \<and> heap s' b = Some x \<and> owner x \<longrightarrow> heap s b = Some x" using assms(5) by blast
  moreover have "\<forall>b \<in> K. heap s' b = heap s b \<and> closing s' b = closing s b" using assms(3,4) by blast
  ultimately show ?thesis using assms(1,2) unfolding spares_def by blast
qed

lemma sparesD:
  assumes "spares K A s s'"
  shows "mallocs s \<le> mallocs s'" "length (calls s) \<le> length (calls s')" "b \<in> K \<Longrightarrow> heap s' b = heap s b" "b \<in> K \<Longrightarrow> closing s' b = closing s b"
    "b \<notin> A \<Longrightarrow> heap s' b = Some x \<Longrightarrow> owner x \<Longrightarrow> heap s b = Some x"
  using assms unfolding spares_def by blast+

lemma spares_trans:
  assumes 1: "spares K A s s1" and 2: "spares K A s1 s2"
  shows "spares K A s s2"
proof (rule sparesI)
  show "heap s2 b = heap s b" "closing s2 b = closing s b" if "b \<in> K" for b
    using sparesD(3,4) [OF 1 that] sparesD(3,4) [OF 2 that] by simp_all
  show "heap s b = Some x" if "b \<notin> A" "heap s2 b = Some x" "owner x" for b x
    using sparesD(5) [OF 1 that(1) _ that(3)] sparesD(5) [OF 2 that] by blast
qed (use sparesD(1,2) [OF 1] sparesD(1,2) [OF 2] in simp_all)

lemma spares_mono: "spares K A s s' \<Longrightarrow> L \<subseteq> K \<Longrightarrow> A \<subseteq> B \<Longrightarrow> spares L B s s'"
  unfolding spares_def by blast

text \<open>Where the addresses of \<open>K\<close> are: below the next address to be allocated.\<close>

abbreviation below :: "uptr set \<Rightarrow> osi \<Rightarrow> bool" where
  "below K s \<equiv> K \<subseteq> {..mallocs s}"

lemma below_fresh: "below K s \<Longrightarrow> mallocs s < a \<Longrightarrow> a \<notin> K"
  by auto

lemma spares_below: "spares K A s s' \<Longrightarrow> below L s \<Longrightarrow> below L s'"
  unfolding spares_def by auto

text \<open>The operations of the interface that have no effect on databases.\<close>

definition undisturbed :: "uptr set \<Rightarrow> osi \<Rightarrow> osi \<Rightarrow> bool" where
  "undisturbed K s s' \<longleftrightarrow> spares K {} s s' \<and> sqlite_objs s' = sqlite_objs s"

lemma undisturbed_refl [simp]: "undisturbed K s s"
  by (simp add: undisturbed_def)

lemma undisturbed_trans: "undisturbed K s s1 \<Longrightarrow> undisturbed K s1 s2 \<Longrightarrow> undisturbed K s s2"
  unfolding undisturbed_def by (auto intro: spares_trans)

lemma undisturbed_below: "undisturbed K s s' \<Longrightarrow> below L s \<Longrightarrow> below L s'"
  unfolding undisturbed_def using spares_below by blast

named_theorems frame \<open>what the primitive operations leave alone\<close>

lemma malloc_frame [frame]:
  assumes "malloc_container E s = (a, s')" and "below K s"
  shows "undisturbed K s s'" "a \<notin> K \<or> a = 0" "below K s'" "a \<noteq> 0 \<Longrightarrow> heap s' a = Some Raw \<and> a = Suc (mallocs s)"
  using assms by (auto simp: malloc_container_def undisturbed_def spares_def split: if_splits)

lemma store_frame [frame]: "store a x s = Some s' \<Longrightarrow> a \<notin> K \<Longrightarrow> \<not> owner x \<Longrightarrow> undisturbed K s s'"
  by (auto simp: store_def undisturbed_def spares_def split: if_splits)

lemma free_frame [frame]: "c_free a s = Some s' \<Longrightarrow> a \<notin> K \<Longrightarrow> undisturbed K s s'"
  by (auto simp: c_free_def undisturbed_def spares_def split: if_splits)

lemma close_frame [frame]: "uv_close a cb s = Some s' \<Longrightarrow> a \<notin> K \<Longrightarrow> undisturbed K s s'"
  by (auto simp: uv_close_def undisturbed_def spares_def split: if_splits)

lemma uv_do_frame [frame]: "uv_do E c s = (rc, s') \<Longrightarrow> undisturbed K s s'"
  by (auto simp: uv_do_def undisturbed_def spares_def)

lemma uv_void_frame [frame]: "undisturbed K s (uv_void c s)"
  by (simp add: uv_void_def undisturbed_def spares_def)

lemma lock_frame [frame]: "undisturbed K s (Slock_object x s)"
  by (simp add: Slock_object_def undisturbed_def spares_def)

lemma unlock_frame [frame]: "Sunlock_object x s = Some s' \<Longrightarrow> undisturbed K s s'"
  by (auto simp: Sunlock_object_def undisturbed_def spares_def split: if_splits)

lemma queue_frame [frame]: "osi_add_callback_list cb args s = Some s' \<Longrightarrow> undisturbed K s s'"
  by (auto simp: osi_add_callback_list_def undisturbed_def spares_def split: option.splits)

section \<open>Files\<close>

lemma undisturbedI:
  assumes "mallocs s \<le> mallocs s'" and "length (calls s) \<le> length (calls s')" and "sqlite_objs s' = sqlite_objs s"
    and "\<And>b. b \<in> K \<Longrightarrow> heap s' b = heap s b" and "\<And>b. b \<in> K \<Longrightarrow> closing s' b = closing s b"
    and "\<And>b x. heap s' b = Some x \<Longrightarrow> owner x \<Longrightarrow> heap s b = Some x"
  shows "undisturbed K s s'"
  unfolding undisturbed_def by (intro conjI sparesI) (rule assms; assumption)+

lemma submit_fs_frame:
  assumes "submit_fs E who uv_who call cb callback s = Some (r, s')" and "below K s"
  shows "undisturbed K s s'"
  using assms by (intro undisturbedI) (auto simp: submit_fs_def osi_ops split: if_splits)

lemma fs_port_frame:
  assumes "below K s"
  shows "read_fs_port E port b i n off cb s = Some (r, s') \<Longrightarrow> undisturbed K s s'"
    and "write_fs_port E port b i n off cb s = Some (r, s') \<Longrightarrow> undisturbed K s s'"
    and "close_fs_port E port cb s = Some (r, s') \<Longrightarrow> undisturbed K s s'"
    and "close_fd_port E port cb s = Some (r, s') \<Longrightarrow> port \<notin> K \<Longrightarrow> undisturbed K s s'"
    and "osi_open_fd E fd close s = Some (r, s') \<Longrightarrow> undisturbed K s s'"
  using assms
  by (auto intro!: undisturbedI simp: read_fs_port_def write_fs_port_def close_fs_port_def close_fd_port_def osi_open_fd_def osi_ops split: if_splits bind_splits)

section \<open>Streams, listeners and watchers\<close>

lemma stream_port_frame:
  assumes "port \<notin> K"
  shows "read_stream_port E port b i n off cb s = Some (r, s') \<Longrightarrow> undisturbed K s s'"
    and "write_stream_port E port b i n off cb s = Some (r, s') \<Longrightarrow> undisturbed K s s'"
    and "close_stream_port E port cb s = Some (r, s') \<Longrightarrow> undisturbed K s s'"
    and "osi_tcp_write2 E port bv1 bv2 i n cb s = Some (r, s') \<Longrightarrow> undisturbed K s s'"
  using assms
  by (auto intro!: undisturbedI simp: read_stream_port_def write_stream_port_def close_stream_port_def osi_tcp_write2_def Let_def osi_ops
      split: if_splits bind_splits)

lemma connect_tcp_frame:
  assumes "osi_connect_tcp E node service callback s = Some (r, s')" and "below K s"
  shows "undisturbed K s s'"
  using assms by (intro undisturbedI) (auto simp: osi_connect_tcp_def osi_ops split: if_splits)

lemma listen_tcp_frame:
  assumes "osi_listen_tcp E address port callback s = Some (r, s')" and "below K s"
  shows "undisturbed K s s'"
  using assms by (intro undisturbedI) (auto simp: osi_listen_tcp_def osi_ops split: if_splits)

lemma handle_frame:
  assumes "below K s"
  shows "osi_watch_path E path callback s = Some (r, s') \<Longrightarrow> undisturbed K s s'"
    and "osi_start_signal E signum s = Some (r, s') \<Longrightarrow> undisturbed K s s'"
    and "osi_stop_signal E h s = Some (r, s') \<Longrightarrow> h \<notin> K \<Longrightarrow> undisturbed K s s'"
    and "osi_close_tcp_listener h s = Some s' \<Longrightarrow> h \<notin> K \<Longrightarrow> undisturbed K s s'"
    and "osi_close_path_watcher h s = Some s' \<Longrightarrow> h \<notin> K \<Longrightarrow> undisturbed K s s'"
    and "osi_kill E pid signum s = (r, s') \<Longrightarrow> undisturbed K s s'"
  using assms
  by (auto intro!: undisturbedI simp: osi_watch_path_def osi_start_signal_def osi_stop_signal_def osi_close_tcp_listener_def
      osi_close_path_watcher_def osi_kill_def osi_ops split: if_splits)

section \<open>Processes\<close>

lemma argv_fill_frame:
  "argv_fill E args s = Some (as, s') \<Longrightarrow> below K s \<Longrightarrow> undisturbed K s s' \<and> set as \<inter> K = {}"
proof (induction E args s arbitrary: as s' rule: argv_fill.induct)
  case (1 E str d s)
  obtain a s1 where m: "malloc_container E s = (a, s1)" by fastforce
  note M = malloc_frame [OF m 1(3)]
  obtain r l where u: "osi_string_to_utf8 (a \<noteq> 0) str = Some (r, l)" using 1(2) m by (auto split: bind_splits)
  show ?case
  proof (cases r)
    case None
    then show ?thesis using 1(2) m u M(1) by auto
  next
    case (Some t)
    then obtain s2 as' where s2: "store a (C_string t) s1 = Some s2" "argv_fill E d s2 = Some (as', s')" "as = a # as'"
      using 1(2) m u by (auto split: bind_splits)
    have "a \<noteq> 0" using u Some by (cases "a = 0") (auto simp: osi_string_to_utf8_def Let_def)
    then have a: "a \<notin> K" using M(2) by simp
    have f: "undisturbed K s s2" using undisturbed_trans [OF M(1) store_frame [OF s2(1) a]] by simp
    from 1(1) [OF m [symmetric] HOL.refl u HOL.refl Some s2(1,2)] undisturbed_below [OF f 1(3)]
    show ?thesis using undisturbed_trans [OF f] a s2(3) by auto
  qed
qed (auto split: prod.splits)

lemma free_args_frame: "free_args as s = Some s' \<Longrightarrow> set as \<inter> K = {} \<Longrightarrow> undisturbed K s s'"
proof (induction as arbitrary: s)
  case (Cons a as)
  then obtain s1 where "c_free a s = Some s1" "free_args as s1 = Some s'" by (auto split: bind_splits)
  then show ?case using undisturbed_trans [OF free_frame] Cons by auto
qed simp

lemma close_streams_frame: "close_streams ps s = Some s' \<Longrightarrow> set ps \<inter> K = {} \<Longrightarrow> undisturbed K s s'"
proof (induction ps arbitrary: s)
  case (Cons p ps)
  then obtain s1 where "uv_close p Close_stream_cb s = Some s1" "close_streams ps s1 = Some s'" by (auto split: bind_splits)
  then show ?case using undisturbed_trans [OF close_frame] Cons by auto
qed simp

lemma free_argv_frame: "free_argv a s = Some s' \<Longrightarrow> heap s a = Some (C_argv as) \<Longrightarrow> a \<notin> K \<Longrightarrow> set as \<inter> K = {} \<Longrightarrow> undisturbed K s s'"
  by (auto simp: free_argv_def split: bind_splits intro: undisturbed_trans free_args_frame free_frame)

lemma alloc_pipe_frame:
  assumes "alloc_pipe E s = Some (r, s')" and "below K s"
  shows "undisturbed K s s'" "r = Init_failed p rc \<Longrightarrow> p \<notin> K" "r = Pipe_ready p \<Longrightarrow> p \<notin> K"
  using assms by (auto intro!: undisturbedI simp: alloc_pipe_def osi_ops split: if_splits)

lemma undisturbed_mono: "undisturbed K s s' \<Longrightarrow> L \<subseteq> K \<Longrightarrow> undisturbed L s s'"
  unfolding undisturbed_def by (auto intro: spares_mono)

text \<open>The argument vector exists from its allocation to its release; in between its block is not touched either.\<close>

lemma argv_ready:
  assumes "malloc_container E s = (argv, s1)" and "argv \<noteq> 0" and "argv_fill E args s1 = Some (as, s2)" and "store argv (C_argv as) s2 = Some s3"
    and K: "below K s"
  shows "undisturbed K s s3" and "below (insert argv K) s3" and "argv \<notin> K" and "mallocs s < argv"
    and "heap s3 argv = Some (C_argv as)" and "set as \<inter> K = {}"
proof -
  note M = malloc_frame [OF assms(1) K]
  show a: "argv \<notin> K" and "mallocs s < argv" using M(2,4) assms(2) by auto
  have F: "undisturbed K s1 s2" and "set as \<inter> K = {}" using argv_fill_frame [OF assms(3) M(3)] by auto
  then show "set as \<inter> K = {}" by simp
  have f3: "undisturbed K s2 s3" by (rule store_frame [OF assms(4) a]) simp
  show s3: "undisturbed K s s3" using undisturbed_trans [OF undisturbed_trans [OF M(1) F] f3] .
  have "argv \<le> mallocs s1" using assms(1,2) by (auto simp: malloc_container_def split: if_splits)
  moreover have "mallocs s1 \<le> mallocs s3" using sparesD(1) F f3 unfolding undisturbed_def by (meson le_trans)
  ultimately show "below (insert argv K) s3" using undisturbed_below [OF s3 K] by simp
  show "heap s3 argv = Some (C_argv as)" using assms(4) by (auto simp: store_def split: if_splits)
qed

lemma argv_released:
  assumes "undisturbed (insert argv K) s3 s4" and "free_argv argv s4 = Some s5"
    and "argv \<notin> K" and "heap s3 argv = Some (C_argv as)" and "set as \<inter> K = {}"
  shows "undisturbed K s3 s5"
proof -
  have "heap s4 argv = Some (C_argv as)" using assms(1,4) sparesD(3) unfolding undisturbed_def by fastforce
  from undisturbed_trans [OF undisturbed_mono [OF assms(1)] free_argv_frame [OF assms(2) this assms(3,5)]] show ?thesis by blast
qed

text \<open>The part both kinds of child share: the handle is allocated and filled, libuv is called, the vector released.\<close>

lemma child_frame:
  assumes p: "malloc_container E s = (p, s1)" "p \<noteq> 0" and s2: "undisturbed (insert argv K) s1 s2" and s3: "store p (Uv_process cb b) s2 = Some s3"
    and s4: "uv_do E c s3 = (rc, s4)" and s5: "free_argv argv s4 = Some s5" and b: "below (insert argv K) s"
    and argv: "argv \<notin> K" "heap s argv = Some (C_argv as)" "set as \<inter> K = {}"
  shows "undisturbed K s s5" and "p \<notin> K"
proof -
  note N = malloc_frame [OF p(1) b]
  show "p \<notin> K" using N(2) p(2) by auto
  have "p \<notin> insert argv K" using N(2) p(2) by auto
  from store_frame [OF s3 this] have "undisturbed (insert argv K) s s4"
    using undisturbed_trans [OF undisturbed_trans [OF undisturbed_trans [OF N(1) s2]] uv_do_frame [OF s4]] by simp
  from argv_released [OF this s5 argv] show "undisturbed K s s5" .
qed

lemma spawn_child_frame:
  assumes run: "spawn_child E path args cb pid i out err s = Some (r, s')" and K: "below K s"
    and P: "set [i, out, err] \<inter> K = {}" "\<forall>p \<in> set [i, out, err]. p \<le> mallocs s"
  shows "undisturbed K s s'"
proof -
  obtain argv s1 where m: "malloc_container E s = (argv, s1)" by fastforce
  note run' = run [unfolded spawn_child_def m Let_def prod.case]
  note cls = close_streams_frame [of "[i, out, err]"]
  show ?thesis
  proof (cases "argv = 0")
    case True
    then have "close_streams [i, out, err] s1 = Some s'" using run' by (auto simp del: close_streams.simps split: bind_splits)
    then show ?thesis using undisturbed_trans [OF malloc_frame(1) [OF m K] cls] P(1) by blast
  next
    case False
    then obtain as s2 s3 where f: "argv_fill E args s1 = Some (as, s2)" "store argv (C_argv as) s2 = Some s3"
      using run' by (auto simp del: close_streams.simps split: bind_splits)
    note S = argv_ready [OF m False f K]
    have Q: "set [i, out, err] \<inter> insert argv K = {}" using P S(4) by auto
    obtain p s4 where p: "malloc_container E s3 = (p, s4)" by fastforce
    show ?thesis
    proof (cases "p = 0")
      case True
      then obtain s5 where s5: "close_streams [i, out, err] s4 = Some s5" "free_argv argv s5 = Some s'"
        using run' False f p by (auto simp del: close_streams.simps split: bind_splits)
      from argv_released [OF undisturbed_trans [OF malloc_frame(1) [OF p S(2)] cls [OF s5(1) Q]] s5(2) S(3,5,6)]
      show ?thesis by (rule undisturbed_trans [OF S(1)])
    next
      case pn: False
      obtain s6 where s6: "store p (Uv_process (Some cb) False) (Slock_object cb s4) = Some s6"
        using run' False f p pn by (auto simp del: close_streams.simps split: bind_splits)
      obtain rc s7 where s7: "uv_do E (Hnd (Uv_spawn p path (path # argv_text as s6) False [i, out, err])) s6 = (rc, s7)" by fastforce
      obtain s8 where s8: "free_argv argv s7 = Some s8"
        using run' False f p pn s6 s7 by (auto simp del: close_streams.simps split: bind_splits)
      note C = child_frame [OF p pn lock_frame s6 s7 s8 S(2,3,5,6)]
      have u: "undisturbed K s s8" by (rule undisturbed_trans [OF S(1) C(1)])
      show ?thesis
      proof (cases "rc < 0")
        case True
        then obtain s9 where "close_streams [i, out, err] s8 = Some s9" "uv_close p Close_handle_data_cb s9 = Some s'"
          using run' False f p pn s6 s7 s8 by (auto simp del: close_streams.simps split: bind_splits)
        then show ?thesis using undisturbed_trans [OF undisturbed_trans [OF u cls] close_frame] P(1) C(2) by blast
      next
        case rc: False
        then have "store p (Uv_process (Some cb) True) s8 = Some s'"
          using run' False f p pn s6 s7 s8 by (auto simp del: close_streams.simps split: bind_splits)
        then show ?thesis using undisturbed_trans [OF u store_frame] C(2) by simp
      qed
    qed
  qed
qed

lemma spawn_detached_frame:
  assumes run: "osi_spawn_detached E path args pid s = Some (r, s')" and K: "below K s"
  shows "undisturbed K s s'"
proof -
  obtain argv s1 where m: "malloc_container E s = (argv, s1)" by fastforce
  note run' = run [unfolded osi_spawn_detached_def m Let_def prod.case]
  show ?thesis
  proof (cases "string_list_length args < 0 \<or> argv = 0")
    case True
    then show ?thesis using run' malloc_frame(1) [OF m K] by (auto split: if_splits)
  next
    case False
    then obtain as s2 s3 where f: "argv_fill E args s1 = Some (as, s2)" "store argv (C_argv as) s2 = Some s3"
      using run' by (auto split: bind_splits)
    have an: "argv \<noteq> 0" using False by simp
    note S = argv_ready [OF m an f K]
    obtain p s4 where p: "malloc_container E s3 = (p, s4)" by fastforce
    show ?thesis
    proof (cases "p = 0")
      case True
      then have "free_argv argv s4 = Some s'" using run' False f p by (auto split: bind_splits)
      from undisturbed_trans [OF S(1) argv_released [OF malloc_frame(1) [OF p S(2)] this S(3,5,6)]] show ?thesis .
    next
      case pn: False
      obtain s6 where s6: "store p (Uv_process None False) s4 = Some s6" using run' False f p pn by (auto split: bind_splits)
      obtain rc s7 where s7: "uv_do E (Hnd (Uv_spawn p path (path # argv_text as s6) True [])) s6 = (rc, s7)" by fastforce
      obtain s8 where s8: "free_argv argv s7 = Some s8" using run' False f p pn s6 s7 by (auto split: bind_splits)
      note C = child_frame [OF p pn undisturbed_refl s6 s7 s8 S(2,3,5,6)]
      have u: "undisturbed K s s8" by (rule undisturbed_trans [OF S(1) C(1)])
      have "uv_close p Close_handle_data_cb s8 = Some s' \<or> store p (Uv_process None True) s8 = Some s'"
        using run' False f p pn s6 s7 s8 by (auto split: if_splits bind_splits)
      then show ?thesis using undisturbed_trans [OF u close_frame] undisturbed_trans [OF u store_frame] C(2) by auto
    qed
  qed
qed

lemma pipe_bound: "alloc_pipe E s = Some (Pipe_ready p, s') \<Longrightarrow> p \<le> mallocs s'"
  by (auto simp: alloc_pipe_def osi_ops split: if_splits)

lemma undisturbed_mallocs: "undisturbed K s s' \<Longrightarrow> p \<le> mallocs s \<Longrightarrow> p \<le> mallocs s'"
  unfolding undisturbed_def using sparesD(1) by fastforce

lemma spawn_frame:
  assumes run: "osi_spawn E path args cb pid s = Some (r, s')" and K: "below K s"
  shows "undisturbed K s s'"
proof (cases "string_list_length args < 0")
  case True
  then show ?thesis using run by (simp add: osi_spawn_def Let_def)
next
  case args: False
  note run' = run [unfolded osi_spawn_def Let_def]
  obtain r1 s1 where p1: "alloc_pipe E s = Some (r1, s1)" using run' args by (auto split: bind_splits)
  note A1 = alloc_pipe_frame [OF p1 K] and b1 = undisturbed_below [OF alloc_pipe_frame(1) [OF p1 K] K]
  show ?thesis
  proof (cases r1)
    case (Pipe_ready i)
    obtain r2 s2 where p2: "alloc_pipe E s1 = Some (r2, s2)" using run' args p1 Pipe_ready by (auto split: bind_splits)
    note A2 = alloc_pipe_frame [OF p2 b1] and b2 = undisturbed_below [OF alloc_pipe_frame(1) [OF p2 b1] b1]
    have u2: "undisturbed K s s2" by (rule undisturbed_trans [OF A1(1) A2(1)])
    have i: "i \<notin> K" by (rule A1(3) [OF Pipe_ready])
    show ?thesis
    proof (cases r2)
      case No_memory
      then show ?thesis using run' args p1 Pipe_ready p2 i by (auto split: bind_splits intro: undisturbed_trans [OF u2 close_frame])
    next
      case (Init_failed out rc)
      then obtain s3 where "close_streams [i] s2 = Some s3" "c_free out s3 = Some s'" using run' args p1 Pipe_ready p2 by (auto split: bind_splits)
      moreover have "set [i] \<inter> K = {}" using i by simp
      ultimately show ?thesis using undisturbed_trans [OF undisturbed_trans [OF u2 close_streams_frame] free_frame] A2(2) [OF Init_failed] by blast
    next
      case (Pipe_ready out)
      note r1 = \<open>r1 = Pipe_ready i\<close>
      obtain r3 s3 where p3: "alloc_pipe E s2 = Some (r3, s3)" using run' args p1 r1 p2 Pipe_ready by (auto split: bind_splits)
      note A3 = alloc_pipe_frame [OF p3 b2] and b3 = undisturbed_below [OF alloc_pipe_frame(1) [OF p3 b2] b2]
      have u3: "undisturbed K s s3" by (rule undisturbed_trans [OF u2 A3(1)])
      have io: "set [i, out] \<inter> K = {}" using i A2(3) [OF Pipe_ready] by simp
      note cls = undisturbed_trans [OF u3 close_streams_frame [of "[i, out]"]]
      show ?thesis
      proof (cases r3)
        case No_memory
        then have "close_streams [i, out] s3 = Some s'" using run' args p1 r1 p2 Pipe_ready p3 by (auto simp del: close_streams.simps split: bind_splits)
        then show ?thesis using cls io by blast
      next
        case (Init_failed err rc)
        then obtain s4 where "close_streams [i, out] s3 = Some s4" "c_free err s4 = Some s'"
          using run' args p1 r1 p2 Pipe_ready p3 by (auto simp del: close_streams.simps split: bind_splits)
        then show ?thesis using undisturbed_trans [OF cls free_frame] io A3(2) [OF Init_failed] by blast
      next
        case r3: (Pipe_ready err)
        have "spawn_child E path args cb pid i out err s3 = Some (r, s')" using run' args p1 r1 p2 Pipe_ready p3 r3 by simp
        moreover have "\<forall>p \<in> set [i, out, err]. p \<le> mallocs s3"
          using pipe_bound p1 r1 p2 Pipe_ready p3 r3 undisturbed_mallocs [OF A2(1)] undisturbed_mallocs [OF A3(1)] by auto
        moreover have "set [i, out, err] \<inter> K = {}" using io A3(3) [OF r3] by auto
        ultimately show ?thesis using undisturbed_trans [OF u3 spawn_child_frame] b3 by blast
      qed
    qed
  qed (use run' args p1 A1 in \<open>auto split: bind_splits intro: undisturbed_trans [OF A1(1) free_frame]\<close>)
qed

section \<open>All operations\<close>

text \<open>The addresses of database structures.\<close>

definition db_addrs :: "osi \<Rightarrow> uptr set" where
  "db_addrs s = {b. \<exists>x. heap s b = Some x \<and> dbobj x}"

lemma db_addrs_below: "osi_inv X s \<Longrightarrow> below (db_addrs s) s"
  using osi_inv_addr [of X s] by (fastforce simp: db_addrs_def)

lemma not_db_addr: "heap s b = Some x \<Longrightarrow> \<not> dbobj x \<Longrightarrow> b \<notin> db_addrs s"
  by (auto simp: db_addrs_def)

lemma port_op_frame:
  assumes inv: "osi_inv X s" and ok: "op_ok (Port_op port p) s" and run: "run_port_op E port p s = Some (r, s')"
  shows "undisturbed (db_addrs s) s s'"
proof -
  note K = db_addrs_below [OF inv]
  have v: "port \<notin> db_addrs s" if "port_vtable port s = Some v" for v
    using that by (auto simp: port_vtable_def db_addrs_def split: option.splits cobj.splits)
  note vts = fd_vtable_def file_vtable_def pipe_vtable_def tcp_vtable_def
  have rd: "undisturbed (db_addrs s) s s'" if "port_vtable port s = Some v" "vt_read (deref_vtable v) E port b i n off cb s = Some (r, s')" for v b i n off cb
    using that(2) fs_port_frame [OF K] stream_port_frame [OF v [OF that(1)]] by (cases v) (auto simp: vts)
  have wr: "undisturbed (db_addrs s) s s'" if "port_vtable port s = Some v" "vt_write (deref_vtable v) E port b i n off cb s = Some (r, s')" for v b i n off cb
    using that(2) fs_port_frame [OF K] stream_port_frame [OF v [OF that(1)]] by (cases v) (auto simp: vts)
  have cl: "undisturbed (db_addrs s) s s'" if "port_vtable port s = Some v" "vt_close (deref_vtable v) E port cb s = Some (r, s')" for v cb
    using that(2) fs_port_frame [OF K] stream_port_frame [OF v [OF that(1)]] v [OF that(1)] by (cases v) (auto simp: vts)
  show ?thesis
  proof (cases p)
    case (Port_request q)
    then show ?thesis using run
      by (cases q) (auto simp: osi_ports_def osi_read_port_def osi_write_port_def Let_def split: if_splits bind_splits intro: rd wr)
  next
    case (Port_close cb)
    then show ?thesis using run by (auto simp: osi_close_port_def split: bind_splits intro: cl)
  next
    case (Port_write2 bv1 bv2 i n cb)
    then obtain q where "heap s port = Some (Stream_port q)" using ok by (auto elim!: owned_streamE)
    then show ?thesis using stream_port_frame(4) [OF not_db_addr] run Port_write2 by auto
  qed
qed

lemma handle_op_frame:
  assumes inv: "osi_inv X s" and ok: "op_ok (Handle_op h) s" and run: "run_handle_op E h s = Some (r, s')"
  shows "undisturbed (db_addrs s) s s'"
  using ok run connect_tcp_frame [OF _ db_addrs_below [OF inv]] listen_tcp_frame [OF _ db_addrs_below [OF inv]]
    handle_frame [OF db_addrs_below [OF inv]] spawn_frame [OF _ db_addrs_below [OF inv]] spawn_detached_frame [OF _ db_addrs_below [OF inv]]
    fs_port_frame(5) [OF db_addrs_below [OF inv]] not_db_addr [of s]
  by (cases h) auto

lemma path_op_frame:
  assumes inv: "osi_inv X s" and run: "run_path_op E p cb s = Some (r, s')"
  shows "undisturbed (db_addrs s) s s'"
  using run submit_fs_frame [OF _ db_addrs_below [OF inv]]
  by (cases p) (auto simp: osi_open_file_def osi_chmod_def osi_make_directory_def osi_remove_directory_def osi_rename_def osi_unlink_def
      osi_get_real_path_def osi_list_directory_def osi_get_stat_def osi_get_file_size_def split: option.splits cobj.splits if_splits)

lemma run_op_frame:
  assumes "osi_inv X s" and "op_ok op s" and "run_op E op s = Some (r, s')"
  shows "undisturbed (db_addrs s) s s'"
  using assms path_op_frame port_op_frame handle_op_frame by (cases op) auto

section \<open>All events\<close>

lemma fs_cb_frame:
  assumes inv: "osi_inv X s" and run: "run_fs_cb E req out s = Some s'"
  shows "undisturbed (db_addrs s) s s'"
proof -
  have req: "req \<notin> db_addrs s" using run by (auto simp: run_fs_cb_def db_addrs_def split: option.splits cobj.splits)
  note K = db_addrs_below [OF inv]
  consider (close) port cb where "heap s req = Some (Close_fs_req port cb)" | (other) "\<forall>port cb. heap s req \<noteq> Some (Close_fs_req port cb)" by blast
  then show ?thesis
  proof cases
    case close
    then have "links_to (heap s) port False req" by (simp add: links_to_def)
    then have "port \<notin> db_addrs s" using heap_ok_port [OF osi_inv_heap [OF inv]] by (fastforce simp: db_addrs_def dbobj_def elim: port_kind.elims)
    then show ?thesis using run close req
      by (auto intro!: undisturbedI simp: run_fs_cb_def close_fs_cb_def osi_ops osi_queue split: if_splits option.splits)
  next
    case other
    then show ?thesis using run req K
      by (auto intro!: undisturbedI simp: run_fs_cb_def open_fs_cb_def get_file_size_cb_def get_real_path_cb_def return_fs_result_cb_def stat_cb_def
          list_directory_cb_def rw_fs_cb_def finish_fs_def osi_ops osi_queue split: if_splits option.splits cobj.splits fs_cb.splits)
  qed
qed

lemma connect_retry_frame:
  "connect_retry E p t ais status s = Some s' \<Longrightarrow> p \<notin> K \<Longrightarrow> conn_stream_port t \<notin> K \<Longrightarrow> undisturbed K s s'"
proof (induction E p t ais status s rule: connect_retry.induct)
  case (1 E p t status s)
  then show ?case by (auto intro!: undisturbedI simp: osi_ops osi_queue split: if_splits option.splits)
next
  case (2 E p t ai ai_next status s)
  obtain s1 where s1: "store p (Tcp_connect (t\<lparr>conn_ai := ai_next\<rparr>)) s = Some s1" using 2(2) by (auto split: bind_splits)
  obtain rc s2 where s2: "uv_do E (Net (Uv_tcp_connect p (conn_stream_port t) ai)) s1 = (rc, s2)" by fastforce
  have u: "undisturbed K s s2" using undisturbed_trans [OF store_frame [OF s1 2(3)] uv_do_frame [OF s2]] by simp
  show ?case
  proof (cases "rc < 0")
    case True
    then have "connect_retry E p (t\<lparr>conn_ai := ai_next\<rparr>) ai_next rc s2 = Some s'" using 2(2) s1 s2 by simp
    from 2(1) [OF s1 s2 [symmetric] HOL.refl True this 2(3)] 2(4) show ?thesis using undisturbed_trans [OF u] by simp
  next
    case False
    then show ?thesis using 2(2) s1 s2 u by simp
  qed
qed

lemma conn_not_db:
  assumes inv: "osi_inv X s" and p: "heap s p = Some (Tcp_connect t)"
  shows "p \<notin> db_addrs s" "conn_stream_port t \<notin> db_addrs s"
proof -
  show "p \<notin> db_addrs s" using not_db_addr [OF p] by simp
  have "links_to (heap s) (conn_stream_port t) True p" using p by (simp add: links_to_def)
  then show "conn_stream_port t \<notin> db_addrs s"
    using heap_ok_port [OF osi_inv_heap [OF inv]] by (fastforce simp: db_addrs_def dbobj_def elim: port_kind.elims)
qed

lemma connect_tcp_cb_frame: "connect_tcp_cb E p status s = Some s' \<Longrightarrow> heap s p = Some (Tcp_connect t) \<Longrightarrow> p \<notin> K \<Longrightarrow> conn_stream_port t \<notin> K \<Longrightarrow> undisturbed K s s'"
  using connect_retry_frame [of E p t "conn_ai t" status s s' K]
  by (cases "status < 0") (auto intro!: undisturbedI simp: connect_tcp_cb_def osi_ops osi_queue split: if_splits option.splits)

lemma addrinfo_cb_frame:
  assumes run: "connect_tcp_addrinfo_cb E p status res s = Some s'" and p: "heap s p = Some (Tcp_connect t)"
    and K: "p \<notin> K" "conn_stream_port t \<notin> K"
  shows "undisturbed K s s'"
proof (cases "status < 0")
  case True
  then show ?thesis using run p K by (auto intro!: undisturbedI simp: connect_tcp_addrinfo_cb_def osi_ops osi_queue split: if_splits option.splits)
next
  case False
  then obtain ai ais where res: "res = ai # ais" using run p by (cases res) (auto simp: connect_tcp_addrinfo_cb_def)
  let ?t = "t\<lparr>conn_ai := ais\<rparr>"
  obtain s1 where s1: "store p (Tcp_connect ?t) s = Some s1" using run p False res by (auto simp: connect_tcp_addrinfo_cb_def split: bind_splits)
  obtain rc s2 where s2: "uv_do E (Net (Uv_tcp_connect p (conn_stream_port t) ai)) s1 = (rc, s2)" by fastforce
  have u: "undisturbed K s s2" using undisturbed_trans [OF store_frame [OF s1 K(1)] uv_do_frame [OF s2]] by simp
  have "heap s2 p = Some (Tcp_connect ?t)" using s1 s2 by (auto simp: osi_ops split: if_splits)
  then show ?thesis using run p False res s1 s2 u undisturbed_trans [OF u connect_tcp_cb_frame [OF _ _ K(1)]] K(2)
    by (auto simp: connect_tcp_addrinfo_cb_def split: if_splits)
qed

lemma stream_cb_frame:
  assumes "port \<notin> K"
  shows "read_stream_cb port nread s = Some s' \<Longrightarrow> undisturbed K s s'"
    and "write_stream_cb port status s = Some s' \<Longrightarrow> undisturbed K s s'"
    and "close_stream_cb E port s = Some s' \<Longrightarrow> undisturbed K s s'"
  using assms
  by (auto intro!: undisturbedI simp: read_stream_cb_def write_stream_cb_def close_stream_cb_def Let_def osi_ops osi_queue
      split: if_splits option.splits bind_splits)

lemma handle_cb_frame:
  assumes "h \<notin> K"
  shows "close_fd_cb h s = Some s' \<Longrightarrow> undisturbed K s s'"
    and "process_exit_cb h pid status sig s = Some s' \<Longrightarrow> undisturbed K s s'"
    and "close_handle_data_cb h s = Some s' \<Longrightarrow> undisturbed K s s'"
    and "close_async_cb h s = Some s' \<Longrightarrow> undisturbed K s s'"
    and "close_signal_cb h s = Some s' \<Longrightarrow> undisturbed K s s'"
    and "c_free h (s\<lparr>closing := (closing s)(h := None)\<rparr>) = Some s' \<Longrightarrow> undisturbed K s s'"
  using assms
  by (auto intro!: undisturbedI simp: close_fd_cb_def process_exit_cb_def close_handle_data_cb_def close_async_cb_def close_signal_cb_def osi_ops osi_queue
      split: if_splits option.splits cobj.splits)

lemma standing_cb_frame:
  assumes "below K s"
  shows "listen_tcp_cb E h status s = Some s' \<Longrightarrow> undisturbed K s s'"
    and "watch_path_cb E h f e status s = Some s' \<Longrightarrow> undisturbed K s s'"
    and "fire_signal deliver signum s = Some s' \<Longrightarrow> undisturbed K s s'"
  using assms
  by (auto intro!: undisturbedI simp: listen_tcp_cb_def watch_path_cb_def fire_signal_def osi_ops osi_queue split: if_splits option.splits cobj.splits)

text \<open>The end of closing a handle frees it, and only it, also if it belongs to a database.\<close>

fun closed_by_event :: "event \<Rightarrow> uptr set" where
  "closed_by_event (Handle_closed h) = {h}"
| "closed_by_event _ = {}"

lemma run_event_frame:
  assumes inv: "osi_inv X s" and ok: "event_ok ev s" and run: "run_event E ev s = Some s'"
  shows "undisturbed (db_addrs s - closed_by_event ev) s s'"
proof (cases ev)
  case (Fs_done req out)
  then show ?thesis using run fs_cb_frame [OF inv] by simp
next
  case (Fd_closed a)
  then show ?thesis using run ok handle_cb_frame(1) not_db_addr [of s a] by (fastforce simp: event_ok_def)
next
  case (Stream_read port n)
  then show ?thesis using run ok stream_cb_frame(1) not_db_addr [of s port] by (fastforce simp: event_ok_def)
next
  case (Stream_written port n)
  then show ?thesis using run ok stream_cb_frame(2) not_db_addr [of s port] by (fastforce simp: event_ok_def)
next
  case (Resolved p status res)
  then show ?thesis using run ok addrinfo_cb_frame conn_not_db [OF inv, of p] by (fastforce simp: event_ok_def)
next
  case (Connected p status)
  then show ?thesis using run ok connect_tcp_cb_frame conn_not_db [OF inv, of p] by (fastforce simp: event_ok_def)
next
  case (Exited p pid status sig)
  then show ?thesis using run ok handle_cb_frame(2) not_db_addr [of s p] by (fastforce simp: event_ok_def)
next
  case (Handle_closed h)
  then have h: "h \<notin> db_addrs s - closed_by_event ev" by simp
  then show ?thesis using run Handle_closed handle_cb_frame(3-) [OF h] stream_cb_frame(3) [OF h] by (auto split: option.splits close_cb.splits)
qed (use run standing_cb_frame [OF db_addrs_below [OF inv]] in auto)

end
