(* ===== verification/Sqlite_Frames.thy ===== *)
theory Sqlite_Frames
  imports Port_Frames
begin

text \<open>
  What the operations on a database (\<^verbatim>\<open>sqlite.c\<close>) leave alone: everything but the database, its statements and the
  blocks of the request it is busy with. Together with the frames of the other operations this is what
  several databases and the ports need to share a heap.
\<close>

section \<open>Blocks and their owners\<close>

definition bulk_parts :: "cobj option \<Rightarrow> uptr set" where
  "bulk_parts x = (case x of Some (Bulk k) \<Rightarrow> {bulk_statements k, bulk_mbindings k} | _ \<Rightarrow> {})"

fun blocks :: "(uptr \<Rightarrow> cobj option) \<Rightarrow> cobj \<Rightarrow> uptr set" where
  "blocks h (Database d) =
     (case d_arg d of
        Db_sql p \<Rightarrow> {p}
      | Db_bulk b \<Rightarrow> insert b (bulk_parts (h b))
      | _ \<Rightarrow> {})"
| "blocks h (Open_req r) = {or_filename r} - {0}"
| "blocks h (Bindings bs) = set (concat (map owned bs))"
| "blocks h _ = {}"

lemma bulk_parts_simps [simp]: "bulk_parts (Some (Bulk k)) = {bulk_statements k, bulk_mbindings k}" "bulk_parts None = {}" "bulk_parts (Some (Database d)) = {}"
  by (simp_all add: bulk_parts_def)

lemma bulk_parts_none: "\<forall>k. x \<noteq> Some (Bulk k) \<Longrightarrow> bulk_parts x = {}"
  by (auto simp: bulk_parts_def split: option.splits cobj.splits)

lemma blocks_mono:
  assumes "\<And>b k. h' b = Some (Bulk k) \<Longrightarrow> bulk_parts (h b) = bulk_parts (h' b)" and "d_arg d' = d_arg d"
  shows "blocks h' (Database d') \<subseteq> blocks h (Database d)"
proof -
  have "bulk_parts (h' b) \<subseteq> bulk_parts (h b)" for b using assms(1) [of b] bulk_parts_none [of "h' b"] by fastforce
  then show ?thesis using assms(2) by (auto split: db_union.splits)
qed

definition region :: "osi \<Rightarrow> uptr \<Rightarrow> database_t \<Rightarrow> uptr list \<Rightarrow> uptr set" where
  "region s a d xs = insert a (set xs \<union> blocks (heap s) (Database d))"

text \<open>A step of the database at \<open>a\<close> stays in its region; the blocks it owns afterwards are its own or new.\<close>

definition db_local :: "uptr \<Rightarrow> database_t \<Rightarrow> uptr list \<Rightarrow> osi \<Rightarrow> osi \<Rightarrow> bool" where
  "db_local a d xs s s' \<longleftrightarrow>
     spares ({..mallocs s} - region s a d xs) {a} s s'
     \<and> (\<forall>d'. heap s' a = Some (Database d') \<longrightarrow> blocks (heap s') (Database d') \<subseteq> blocks (heap s) (Database d) \<union> {mallocs s<..})"

lemma db_localI:
  assumes "mallocs s \<le> mallocs s'" and "length (calls s) \<le> length (calls s')"
    and "\<And>b. b \<le> mallocs s \<Longrightarrow> b \<notin> region s a d xs \<Longrightarrow> heap s' b = heap s b \<and> closing s' b = closing s b"
    and "\<And>b x. b \<noteq> a \<Longrightarrow> heap s' b = Some x \<Longrightarrow> owner x \<Longrightarrow> heap s b = Some x"
    and "\<And>d'. heap s' a = Some (Database d') \<Longrightarrow> blocks (heap s') (Database d') \<subseteq> blocks (heap s) (Database d) \<union> {mallocs s<..}"
  shows "db_local a d xs s s'"
proof -
  have "spares ({..mallocs s} - region s a d xs) {a} s s'"
    by (rule sparesI) (use assms(1-4) in auto)
  moreover have "\<forall>d'. heap s' a = Some (Database d') \<longrightarrow> blocks (heap s') (Database d') \<subseteq> blocks (heap s) (Database d) \<union> {mallocs s<..}"
    using assms(5) by blast
  ultimately show ?thesis unfolding db_local_def by blast
qed

lemma db_local_refl: "heap s a = Some (Database d) \<Longrightarrow> db_local a d xs s s"
  by (simp add: db_local_def del: blocks.simps)

section \<open>Requests\<close>

lemma idle_no_blocks: "db_inv X B a d xs s \<Longrightarrow> \<not> d_busy d \<Longrightarrow> d_arg d = Db_null"
  using protocol_idle [OF db_invD(6)] by blast

lemma close_database_local:
  assumes inv: "db_inv X B a d xs s" and run: "osi_close_database E a cb s = Some (r, s')"
  shows "db_local a d xs s s'"
proof (cases "d_busy d")
  case True
  then show ?thesis using run db_invD(3) [OF inv] by (auto simp: osi_close_database_def load_db_def db_local_refl)
next
  case False
  then show ?thesis using run db_invD(3) [OF inv] idle_no_blocks [OF inv False]
    by (intro db_localI) (auto simp: osi_close_database_def load_db_def submit_work_def osi_ops region_def split: if_splits)
qed

lemma prepare_statement_local:
  assumes inv: "db_inv X B a d xs s" and run: "osi_prepare_statement E a sql cb s = Some (r, s')"
  shows "db_local a d xs s s'"
proof (cases "d_busy d \<or> (\<forall>str. sql \<noteq> Sstring str)")
  case True
  then show ?thesis using run db_invD(3) [OF inv] by (cases sql) (auto simp: osi_prepare_statement_def load_db_def db_local_refl split: if_splits)
next
  case False
  then have idle: "\<not> d_busy d" by simp
  show ?thesis using False run db_invD(3) [OF inv] idle_no_blocks [OF inv idle] osi_inv_null [OF db_invD(1) [OF inv]]
    by (intro db_localI) (auto simp: osi_prepare_statement_def load_db_def submit_work_def osi_ops region_def
        split: if_splits option.splits bind_splits)
qed

lemma idle_blocks_local:
  assumes "db_inv X B a d xs s" and "\<not> d_busy d" and "submit_work cb w arg len callback a d s1 = Some (r, s')"
    and "undisturbed {..mallocs s} s s1" and "blocks (heap s') (Database (d\<lparr>d_arg := arg\<rparr>)) \<subseteq> {mallocs s<..}"
  shows "db_local a d xs s s'"
proof (rule db_localI)
  note U = sparesD [OF conjunct1 [OF assms(4) [unfolded undisturbed_def]]]
  show "mallocs s \<le> mallocs s'" "length (calls s) \<le> length (calls s')"
    using U(1,2) assms(3) by (auto simp: submit_work_def osi_ops split: if_splits)
  show "heap s' b = heap s b \<and> closing s' b = closing s b" if "b \<le> mallocs s" "b \<notin> region s a d xs" for b
    using U(3,4) [of b] that assms(3) by (auto simp: submit_work_def osi_ops region_def split: if_splits)
  show "heap s b = Some x" if "b \<noteq> a" "heap s' b = Some x" "owner x" for b x
    using U(5) [of b x] that assms(3) by (auto simp: submit_work_def osi_ops split: if_splits)
  show "blocks (heap s') (Database d') \<subseteq> blocks (heap s) (Database d) \<union> {mallocs s<..}" if "heap s' a = Some (Database d')" for d'
  proof -
    have "d_arg d' = arg" using that assms(3) by (auto simp: submit_work_def osi_ops split: if_splits)
    then show ?thesis using assms(5) by auto
  qed
qed

lemma step_statement_local:
  assumes inv: "db_inv X B a d xs s" and x: "x \<in> set xs" and run: "osi_step_statement E x cb s = Some (r, s')"
  shows "db_local a d xs s s'"
proof -
  obtain st where st: "st_database st = a"
    "idle_statement E ''osi_step_statement'' x s =
       Some (if d_busy d then Inl (osi_make_error_pair ''osi_step_statement'' (uv_errno E EBUSY)) else Inr (st, d))"
    using idle_statement_eq [OF inv x] by metis
  show ?thesis
  proof (cases "d_busy d")
    case True
    then show ?thesis using run st db_local_refl [OF db_invD(3) [OF inv]] by (auto simp: osi_step_statement_def)
  next
    case False
    then have "submit_work Step_cb Step_worker (Db_stmt (st_stmt st)) (d_sql_len d) cb a d s = Some (r, s')"
      using run st by (simp add: osi_step_statement_def)
    from idle_blocks_local [OF inv False this undisturbed_refl] show ?thesis by simp
  qed
qed

lemma fill_bulk_local:
  assumes inv: "db_inv X B a d xs s" and idle: "\<not> d_busy d" and run: "fill_bulk E ss ms cb a d s = Some (r, s')"
  shows "db_local a d xs s s'"
  using run db_invD(3) [OF inv] idle_no_blocks [OF inv idle] osi_inv_null [OF db_invD(1) [OF inv]]
    osi_inv_above [OF db_invD(1) [OF inv], of a]
  by (intro db_localI) (auto simp: fill_bulk_def submit_work_def osi_ops region_def split: if_splits bind_splits)

lemma bulk_execute_local:
  assumes inv: "db_inv X B a d xs s" and x: "set ps \<subseteq> set xs" "ps \<noteq> []"
    and run: "osi_bulk_execute E (Svector (map (Sinteger \<circ> int) ps)) (Svector ms) cb s = Some (r, s')"
  shows "db_local a d xs s s'"
proof -
  have "hd ps \<in> set xs" using x by auto
  then obtain st where st: "st_database st = a"
    "idle_statement E ''osi_bulk_execute'' (hd ps) s =
       Some (if d_busy d then Inl (osi_make_error_pair ''osi_bulk_execute'' (uv_errno E EBUSY)) else Inr (st, d))"
    using idle_statement_eq [OF inv] by metis
  have "vector_pointers [hd (map (Sinteger \<circ> int) ps)] = Some [hd ps]" using x(2) by (simp add: hd_map)
  then show ?thesis using run st fill_bulk_local [OF inv, of E "map (Sinteger \<circ> int) ps" ms cb r s'] db_local_refl [OF db_invD(3) [OF inv]]
    by (auto simp: osi_bulk_execute_def split: if_splits)
qed

lemma ask_local:
  assumes inv: "db_inv X B a d xs s" and ok: "ask_ok a q s" and run: "ask E a q s = Some (r, s')"
  shows "db_local a d xs s s'"
proof (cases q)
  case (Ask_close cb)
  then show ?thesis using close_database_local [OF inv] run by simp
next
  case (Ask_prepare sql cb)
  then show ?thesis using prepare_statement_local [OF inv] run by simp
next
  case (Ask_step x cb)
  then show ?thesis using step_statement_local [OF inv on_list_registered [OF inv]] ok run by simp
next
  case (Ask_bulk ps qs cb)
  then have "set ps \<subseteq> set xs" "ps \<noteq> []" using on_list_registered [OF inv] ok by auto
  then show ?thesis using bulk_execute_local [OF inv] run Ask_bulk by simp
qed

section \<open>Immediate operations and finalizing\<close>

lemma now_local:
  assumes inv: "db_inv X B a d xs s" and ok: "now_ok a c s" and run: "now E try64 msg c s = Some (r, s')"
  shows "db_local a d xs s s'" and "sqlite_objs s' = sqlite_objs s" and "db_inv X B a d xs s'"
proof -
  have I: "heap s' = heap s" "mallocs s \<le> mallocs s'" "length (calls s) \<le> length (calls s')" "closing s' = closing s"
    using now_immediate [OF inv ok, of E try64 msg] run by (auto simp: immediate_def)
  show "sqlite_objs s' = sqlite_objs s" "db_inv X B a d xs s'" using now_immediate [OF inv ok, of E try64 msg] run by (auto simp: immediate_def)
  show "db_local a d xs s s'" using I db_invD(3) [OF inv] by (intro db_localI) (auto split: db_union.splits)
qed

lemma finalize_local:
  assumes inv: "db_inv X B a d xs s" and x: "x \<in> set xs" and run: "osi_finalize_statement E x s = Some (r, s')"
  shows "db_local a d xs s s'"
proof -
  note D = db_invD [OF inv]
  obtain st where st: "heap s x = Some (Statement st)" "st_database st = a" "x \<noteq> 0" using registry_stmt [OF D(5) x] by blast
  have fin: "finalize_attached E x s = Some (r, s')"
    using run st db_inv_nonnull [OF inv] by (simp add: osi_finalize_statement_def load_stmt_def)
  show ?thesis
  proof (cases "d_busy d")
    case True
    then show ?thesis using fin st D(3) by (auto simp: finalize_attached_def load_stmt_def load_db_def db_local_refl)
  next
    case idle: False
    obtain us vs where xs: "xs = us @ x # vs" using x by (meson split_list)
    have dist: "distinct (us @ x # vs)" using D(5) xs by (simp add: registry_def)
    let ?n = "handles (heap s) [x]"
    let ?s1 = "s\<lparr>calls := calls s @ map (Sql \<circ> Sqlite3_finalize) ?n, sqlite_objs := sqlite_objs s - set ?n\<rparr>"
    have f: "sqlite3_finalize (st_stmt st) s = Some ?s1"
      using D(5) xs by (intro sqlite3_finalize_handle [OF st(1)]) (auto simp: registry_def)
    obtain r' where "seg (heap ?s1) a 0 (d_statement d) (us @ x # vs) r' 0" using D(5) xs by (auto simp: registry_def)
    then obtain h q r'' where u: "unlink_statement x ?s1 = Some (?s1\<lparr>heap := h\<rparr>)" "h a = Some (Database (d\<lparr>d_statement := q\<rparr>))"
      "\<forall>y. y \<notin> set (us @ vs) \<and> y \<noteq> a \<longrightarrow> h y = heap s y" "seg h a 0 q (us @ vs) r'' 0" "h x = heap s x"
      using unlink_statement_spec [of ?s1 a d us x vs r'] D(3) dist by auto
    have s': "s' = ?s1\<lparr>heap := h(x := None)\<rparr>"
      using fin idle st f u D(3) by (simp add: finalize_attached_def load_stmt_def load_db_def c_free_def)
    have hs: "\<exists>sy. h y = Some (Statement sy)" if "y \<in> set (us @ vs)" for y using seg_stmt [OF u(4) that] by blast
    show ?thesis
    proof (rule db_localI)
      show "heap s' b = heap s b \<and> closing s' b = closing s b" if "b \<le> mallocs s" "b \<notin> region s a d xs" for b
        using that u(3) by (auto simp: s' region_def xs)
      show "heap s b = Some y" if "b \<noteq> a" "heap s' b = Some y" "owner y" for b y
      proof (cases "b \<in> set (us @ vs)")
        case True
        then show ?thesis using that hs [OF True] by (auto simp: s' split: if_splits)
      next
        case False
        then show ?thesis using that u(3) by (auto simp: s' split: if_splits)
      qed
      show "blocks (heap s') (Database d') \<subseteq> blocks (heap s) (Database d) \<union> {mallocs s<..}" if "heap s' a = Some (Database d')" for d'
        using that u(2) idle_no_blocks [OF inv idle] by (auto simp: s' split: if_splits)
    qed (simp_all add: s')
  qed
qed

section \<open>The thread\<close>

lemma db_local_store:
  assumes "db_local a d xs s s1" and "heap s1 a = Some (Database d1)" and "d_arg d2 = d_arg d1"
  shows "db_local a d xs s (s1\<lparr>heap := (heap s1)(a \<mapsto> Database d2)\<rparr>)"
proof (rule db_localI)
  let ?s = "s1\<lparr>heap := (heap s1)(a \<mapsto> Database d2)\<rparr>"
  note L = sparesD [OF conjunct1 [OF assms(1) [unfolded db_local_def]]]
  show "mallocs s \<le> mallocs ?s" "length (calls s) \<le> length (calls ?s)" using L(1,2) by simp_all
  show "heap ?s b = heap s b \<and> closing ?s b = closing s b" if "b \<le> mallocs s" "b \<notin> region s a d xs" for b
    using L(3,4) [of b] that by (auto simp: region_def)
  show "heap s b = Some x" if "b \<noteq> a" "heap ?s b = Some x" "owner x" for b x
    using L(5) [of b x] that by auto
  show "blocks (heap ?s) (Database d') \<subseteq> blocks (heap s) (Database d) \<union> {mallocs s<..}" if "heap ?s a = Some (Database d')" for d'
  proof -
    have "d' = d2" using that by simp
    then have "blocks (heap ?s) (Database d') = blocks (heap s1) (Database d1)"
      using assms(2,3) by (auto split: db_union.splits if_splits)
    then show ?thesis using assms(1,2) unfolding db_local_def by blast
  qed
qed

lemma close_worker_local:
  assumes inv: "db_inv X B a d xs s" and run: "close_worker E a s = Some s'"
  shows "db_local a d xs s s'"
proof -
  note D = db_invD [OF inv]
  obtain r where "seg (heap s) a 0 (d_statement d) xs r 0" "distinct xs" "distinct (handles (heap s) xs)"
    "set (handles (heap s) xs) \<subseteq> sqlite_objs s" using D(5) by (auto simp: registry_def)
  note loop = close_loop_spec [OF D(3) this]
  have axs: "a \<notin> set xs" by (rule db_inv_not_stmt [OF inv])
  obtain rc where s': "heap s' = (detached xs a d (heap s))(a \<mapsto> Database (d\<lparr>d_statement := 0, d_sqlite_rc := rc\<rparr>))"
    "mallocs s' = mallocs s" "closing s' = closing s" "length (calls s) \<le> length (calls s')"
    using run loop axs by (auto simp: close_worker_def load_db_def store_def sqlite3_close_def db_do_def uv_do_def detached_def
        split: bind_splits if_splits)
  show ?thesis
  proof (rule db_localI)
    show "blocks (heap s') (Database d') \<subseteq> blocks (heap s) (Database d) \<union> {mallocs s<..}" if "heap s' a = Some (Database d')" for d'
    proof -
      have d': "d_arg d' = d_arg d" using that s'(1) by auto
      have "bulk_parts (heap s b) = bulk_parts (heap s' b)" if "heap s' b = Some (Bulk k)" for b k
        using that by (auto simp: s'(1) detached_def split: if_splits)
      then show ?thesis using blocks_mono [of "heap s'" "heap s" d' d] d' by blast
    qed
  qed (use s' in \<open>auto simp: detached_def region_def split: if_splits\<close>)
qed

lemma first_statement: "registry B a d xs s \<Longrightarrow> d_statement d = 0 \<or> d_statement d \<in> set xs"
  by (cases xs) (auto simp: registry_def)

lemma prepare_worker_local:
  assumes inv: "db_inv X B a d xs s" and run: "prepare_worker E g a s = Some s'"
  shows "db_local a d xs s s'"
proof -
  note D = db_invD [OF inv]
  have f: "d_statement d = 0 \<or> d_statement d \<in> set xs" by (rule first_statement [OF D(5)])
  have new: "heap s (Suc (mallocs s)) = None" by (rule osi_inv_fresh [OF D(1)])
  have bulk: "bulk_parts (heap s b) = bulk_parts (heap s' b)" if "heap s' b = Some (Bulk k)" for b k
    using that run D(3) by (auto simp: prepare_worker_def load_db_def load_stmt_def db_do_def sqlite3_finalize_def osi_ops Let_def
        split: if_splits option.splits bind_splits cobj.splits db_union.splits)
  have arg: "d_arg d' = d_arg d" if "heap s' a = Some (Database d')" for d'
    using that run D(3) by (auto simp: prepare_worker_def load_db_def load_stmt_def db_do_def sqlite3_finalize_def osi_ops Let_def
        split: if_splits option.splits bind_splits cobj.splits db_union.splits)
  show ?thesis
  proof (rule db_localI)
    show "blocks (heap s') (Database d') \<subseteq> blocks (heap s) (Database d) \<union> {mallocs s<..}" if "heap s' a = Some (Database d')" for d'
      using blocks_mono [of "heap s'" "heap s" d' d] bulk arg [OF that] by blast
  qed (use run D(3) f new in \<open>auto simp: prepare_worker_def load_db_def load_stmt_def db_do_def sqlite3_finalize_def osi_ops Let_def region_def
      split: if_splits option.splits bind_splits cobj.splits db_union.splits\<close>)
qed

lemma stmt_do_result: "stmt_do E f n s = Some (rc, s') \<Longrightarrow> calls_only s s'"
  by (auto simp: stmt_do_def uv_do_def calls_onlyI split: if_splits)

lemma bind_loop_result: "bind_loop E n j bs r s = Some (r', s') \<Longrightarrow> calls_only s s'"
proof (induction bs arbitrary: j r s)
  case (Cons b bs)
  obtain v where v: "binding_value b s = Some v" using Cons.prems by (auto split: bind_splits)
  show ?case
  proof (cases v)
    case None
    then show ?thesis using Cons.IH Cons.prems v by simp
  next
    case (Some w)
    then obtain who x rc s1 where "stmt_do E (\<lambda>h. Sqlite3_bind h (int j + 1) x) n s = Some (rc, s1)" "bind_loop E n (Suc j) bs (rc, Some who) s1 = Some (r', s')"
      using Cons.prems v by (cases w) (auto split: bind_splits)
    then show ?thesis using Cons.IH stmt_do_result calls_only_trans by blast
  qed
qed (simp add: calls_only_refl)

lemma bind_bindings_result: "bind_bindings E n q s = Some (r, s') \<Longrightarrow> calls_only s s'"
  by (auto simp: bind_bindings_def calls_only_refl split: if_splits bind_splits dest: bind_loop_result)

lemma step_worker_local:
  assumes inv: "db_inv X B a d xs s" and run: "step_worker E a s = Some s'"
  shows "db_local a d xs s s'"
proof -
  note D = db_invD [OF inv]
  obtain rc s1 where s1: "calls_only s s1" and s': "s' = s1\<lparr>heap := (heap s1)(a \<mapsto> Database (d\<lparr>d_sqlite_rc := rc\<rparr>))\<rparr>"
    using run D(3) by (auto simp: step_worker_def load_db_def store_def split: bind_splits if_splits db_union.splits dest!: stmt_do_result)
  have "db_local a d xs s s1" using s1 D(3) by (intro db_localI) (auto simp: calls_only_def split: db_union.splits)
  then show ?thesis unfolding s' by (rule db_local_store [where ?d1.0 = d]) (use s1 D(3) in \<open>auto simp: calls_only_def\<close>)
qed

text \<open>A bulk request writes into its own block and into nothing else.\<close>

definition bulk_only :: "uptr \<Rightarrow> bulk_t \<Rightarrow> osi \<Rightarrow> osi \<Rightarrow> bool" where
  "bulk_only b k s s' \<longleftrightarrow>
     (\<forall>c. c \<noteq> b \<longrightarrow> heap s' c = heap s c) \<and> (\<exists>k'. heap s' b = Some (Bulk k') \<and> bulk_parts (heap s' b) = bulk_parts (Some (Bulk k)))
     \<and> mallocs s' = mallocs s \<and> closing s' = closing s \<and> length (calls s) \<le> length (calls s')"

lemma bulk_only_trans: "bulk_only b k s s1 \<Longrightarrow> bulk_only b k s1 s2 \<Longrightarrow> bulk_only b k s s2"
  unfolding bulk_only_def by simp

lemma bulk_step_only:
  assumes "bulk_step E x q b k s = Some (rc, go, s')"
  shows "bulk_only b k s s'"
proof -
  obtain s2 who s3 where "calls_only s s2" "store b (Bulk (k\<lparr>bulk_who := who\<rparr>)) s2 = Some s3" "calls_only s3 s'"
    using assms by (auto simp: bulk_step_def calls_only_refl split: bind_splits if_splits dest!: stmt_do_result bind_bindings_result)
      (blast intro: calls_only_trans calls_only_refl)+
  then show ?thesis by (auto simp: bulk_only_def calls_only_def store_def split: if_splits)
qed

lemma bulk_loop_only:
  "bulk_loop E work b k s = Some (rc, s') \<Longrightarrow> heap s b = Some (Bulk k') \<Longrightarrow> bulk_parts (heap s b) = bulk_parts (Some (Bulk k)) \<Longrightarrow> bulk_only b k s s'"
proof (induction work arbitrary: s k')
  case Nil
  then show ?case by (simp add: bulk_only_def)
next
  case (Cons w work)
  obtain x q where w: "w = (x, q)" by (cases w)
  obtain rc1 go s1 where 1: "bulk_step E x q b k s = Some (rc1, go, s1)" using Cons.prems(1) w by (auto split: bind_splits)
  note b = bulk_step_only [OF 1]
  then obtain k1 where "heap s1 b = Some (Bulk k1)" "bulk_parts (heap s1 b) = bulk_parts (Some (Bulk k))" by (auto simp: bulk_only_def)
  then show ?case using Cons.IH [of s1 k1] Cons.prems(1) w 1 b bulk_only_trans [OF b] by (auto split: if_splits)
qed

lemma bulk_worker_local:
  assumes inv: "db_inv X B a d xs s" and run: "bulk_worker E a s = Some s'"
  shows "db_local a d xs s s'"
proof -
  note D = db_invD [OF inv]
  obtain b k work rc s1 where b: "d_arg d = Db_bulk b" "heap s b = Some (Bulk k)" "bulk_loop E work b k s = Some (rc, s1)"
    and s': "s' = s1\<lparr>heap := (heap s1)(a \<mapsto> Database (d\<lparr>d_sqlite_rc := rc\<rparr>))\<rparr>"
    using run D(3) by (auto simp: bulk_worker_def load_db_def load_bulk_def store_def split: bind_splits if_splits db_union.splits option.splits cobj.splits)
  have ab: "a \<noteq> b" using b(2) D(3) by auto
  have s1: "bulk_only b k s s1" using bulk_loop_only [OF b(3,2)] b(2) by simp
  have "db_local a d xs s s1"
  proof (rule db_localI)
    show "heap s c = Some x" if "c \<noteq> a" "heap s1 c = Some x" "owner x" for c x
      using that s1 by (cases "c = b") (auto simp: bulk_only_def)
    show "blocks (heap s1) (Database d') \<subseteq> blocks (heap s) (Database d) \<union> {mallocs s<..}" if "heap s1 a = Some (Database d')" for d'
      using that s1 D(3) ab b by (auto simp: bulk_only_def)
  qed (use s1 b in \<open>auto simp: bulk_only_def region_def\<close>)
  moreover have "heap s1 a = Some (Database d)" using s1 D(3) ab by (simp add: bulk_only_def)
  ultimately show ?thesis unfolding s' by (rule db_local_store) simp
qed

lemma database_worker_local:
  assumes inv: "db_inv X B a d xs s" and run: "database_worker E out a s = Some s'"
  shows "db_local a d xs s s'"
proof -
  note D = db_invD [OF inv] and refl = db_local_refl [OF db_invD(3) [OF inv]]
  show ?thesis
  proof (cases "d_thread d")
    case (Running w)
    then obtain s1 d1 where s1: "do_work E out w a s = Some s1" "heap s1 a = Some (Database d1)"
      and s': "s' = s1\<lparr>heap := (heap s1)(a \<mapsto> Database (d1\<lparr>d_work := None, d_async_sent := True,
           d_thread := (if w = Close_worker \<and> d_sqlite_rc d1 = SQLITE_OK then Gone else Waiting)\<rparr>))\<rparr>"
      using run D(3) by (auto simp: database_worker_def load_db_def store_def split: bind_splits if_splits option.splits cobj.splits)
    have "db_local a d xs s s1"
      using s1(1) close_worker_local [OF inv] prepare_worker_local [OF inv] step_worker_local [OF inv] bulk_worker_local [OF inv] by (cases w) auto
    then show ?thesis unfolding s' by (rule db_local_store [OF _ s1(2)]) simp
  qed (use run D(3) in \<open>auto simp: database_worker_def load_db_def store_def intro!: db_local_store [OF refl D(3)]\<close>)
qed

section \<open>Completions\<close>

lemma row_loop_heap: "row_loop E i vs s = (xs, s') \<Longrightarrow> \<exists>bv. s' = s\<lparr>bytevectors := bv\<rparr>"
proof (induction vs arbitrary: i s xs)
  case Nil
  then show ?case by (intro exI [of _ "bytevectors s"]) simp
next
  case (Cons v vs)
  obtain x s1 where c: "column_value E i v s = (x, s1)" by fastforce
  then have "\<exists>bv. s1 = s\<lparr>bytevectors := bv\<rparr>" by (cases v) (auto intro: exI [of _ "bytevectors s"])
  moreover obtain ys where "row_loop E (Suc i) vs s1 = (ys, s')" using Cons.prems c by (auto split: prod.splits)
  ultimately show ?case using Cons.IH by fastforce
qed

lemma async_cb_local:
  assumes inv: "db_inv X B a d xs s" and sent: "d_async_sent d" and run: "async_cb E out a s = Some s'"
  shows "db_local a d xs s s'"
proof -
  note D = db_invD [OF inv]
  obtain w where w: "d_async_data d = Some (cb_of w)" "arg_ok w d xs s" by (rule protocol_done [OF D(6) sent])
  note defs = async_cb_def finish_work_def load_db_def make_sqlite_error_def Let_def osi_ops osi_queue region_def
  show ?thesis
  proof (cases w)
    case Close_worker
    then have "d_arg d = Db_null" using w(2) by (simp add: arg_ok_def)
    then show ?thesis using run D(2,3) w(1) Close_worker
      by (intro db_localI) (auto simp: close_cb_def defs split: if_splits option.splits bind_splits)
  next
    case Prepare_worker
    then obtain p t where "d_arg d = Db_sql p" "heap s p = Some (C_string t)" using w(2) by (auto simp: arg_ok_def)
    then show ?thesis using run D(3) w(1) Prepare_worker
      by (intro db_localI) (auto simp: prepare_cb_def defs split: if_splits option.splits bind_splits)
  next
    case Step_worker
    then obtain n where "d_arg d = Db_stmt n" using w(2) by (auto simp: arg_ok_def)
    then show ?thesis using run D(3) w(1) Step_worker
      by (intro db_localI) (auto simp: step_cb_def defs split: if_splits option.splits bind_splits prod.splits dest!: row_loop_heap)
  next
    case Bulk_worker
    then obtain b k ps qs where b: "d_arg d = Db_bulk b" "heap s b = Some (Bulk k)" "heap s (bulk_statements k) = Some (Pointers ps)"
      "heap s (bulk_mbindings k) = Some (Pointers qs)" "bulk_statements k \<noteq> bulk_mbindings k" using w(2) by (auto simp: arg_ok_def bulk_ok_def)
    have ne: "b \<noteq> a" "bulk_statements k \<noteq> a" "bulk_mbindings k \<noteq> a" "bulk_statements k \<noteq> b" "bulk_mbindings k \<noteq> b"
      "b \<noteq> 0" "bulk_statements k \<noteq> 0" "bulk_mbindings k \<noteq> 0" using b D(3) osi_inv_null [OF D(1)] by (auto intro: ccontr)
    let ?d = "d\<lparr>d_async_sent := False, d_busy := False, d_callback := Svoid, d_arg := Db_null\<rparr>"
    let ?s0 = "s\<lparr>heap := (heap s)(a \<mapsto> Database (d\<lparr>d_async_sent := False\<rparr>))\<rparr>"
    have "bulk_cb E (errmsg out) a ?s0 = Some s'"
      using run D(3) w(1) Bulk_worker by (simp add: async_cb_def load_db_def store_def)
    moreover have "load_bulk b s2 = Some k" if "finish_work Db_null a (d\<lparr>d_async_sent := False\<rparr>) ?s0 = Some s2" for s2
      using that b(2) ne(1) by (auto simp: finish_work_def load_bulk_def osi_ops split: if_splits)
    ultimately obtain s2 s3 s4 s5 v where f: "finish_work Db_null a (d\<lparr>d_async_sent := False\<rparr>) ?s0 = Some s2"
      "c_free (bulk_mbindings k) s2 = Some s3" "c_free (bulk_statements k) s3 = Some s4" "c_free b s4 = Some s5"
      "osi_add_callback1 (d_callback d) v s5 = Some s'"
      using b(1) by (auto simp: bulk_cb_def load_db_def Let_def split: bind_splits if_splits)
    have s2: "s2 = s\<lparr>heap := (heap s)(a \<mapsto> Database ?d), locked := locked s2\<rparr>"
      using f(1) by (auto simp: finish_work_def osi_ops split: if_splits)
    have u: "undisturbed K s2 s'" if "b \<notin> K" "bulk_statements k \<notin> K" "bulk_mbindings k \<notin> K" for K
      using that undisturbed_trans [OF undisturbed_trans [OF undisturbed_trans [OF free_frame [OF f(2)] free_frame [OF f(3)]] free_frame [OF f(4)]] queue_frame]
        f(5) by (simp add: osi_add_callback1_def)
    have "heap s' a = heap s2 a" using u [of "{a}"] ne sparesD(3) unfolding undisturbed_def by fastforce
    then have a: "heap s' a = Some (Database ?d)" by (subst (asm) s2) simp
    have "spares ({..mallocs s} - region s a d xs) {a} s s2" by (subst s2, rule sparesI) (auto simp: region_def split: if_splits)
    moreover have "undisturbed ({..mallocs s} - region s a d xs) s2 s'" using b(1,2) by (intro u) (auto simp: region_def)
    ultimately have "spares ({..mallocs s} - region s a d xs) {a} s s'"
      using spares_trans [OF _ spares_mono [OF _ subset_refl]] unfolding undisturbed_def by blast
    then show ?thesis unfolding db_local_def using a by auto
  qed
qed

end
