(* ===== verification/Parties.thy ===== *)
theory Parties
  imports Sqlite_Frames
begin

text \<open>
  The databases, open requests and bindings that live in the heap of the interface at the same time. The
  invariant of one database (\<^verbatim>\<open>Sqlite_Worker\<close>) is lifted to all of them: every block and every SQLite object
  belongs to exactly one party. The main lemma says what a step has to respect for the
  parties that take no part in it to keep their invariant.
\<close>

section \<open>What a party owns\<close>

text \<open>The blocks of the structure at an address, the bindings its pending work refers to, and its SQLite objects.\<close>

definition blocks_at :: "osi \<Rightarrow> uptr \<Rightarrow> uptr set" where
  "blocks_at s p = (case heap s p of None \<Rightarrow> {} | Some x \<Rightarrow> blocks (heap s) x)"

definition refs :: "(uptr \<Rightarrow> cobj option) \<Rightarrow> cobj \<Rightarrow> uptr set" where
  "refs h x =
     (case x of
        Database d \<Rightarrow>
          (case d_arg d of
             Db_bulk b \<Rightarrow>
               (case h b of
                  Some (Bulk k) \<Rightarrow> (case h (bulk_mbindings k) of Some (Pointers qs) \<Rightarrow> set qs | _ \<Rightarrow> {})
                | _ \<Rightarrow> {})
           | _ \<Rightarrow> {})
      | _ \<Rightarrow> {})"

definition conn :: "(uptr \<Rightarrow> cobj option) \<Rightarrow> database_t \<Rightarrow> uptr list \<Rightarrow> nat set" where
  "conn h d xs = (if d_thread d = Gone then {} else {d_db d}) \<union> set (handles h xs)"

definition objs :: "osi \<Rightarrow> uptr list \<Rightarrow> uptr \<Rightarrow> nat set" where
  "objs s xs p =
     (case heap s p of
        Some (Database d) \<Rightarrow> if closing s p = None then conn (heap s) d xs else {}
      | Some (Open_req r) \<Rightarrow> {or_db r} - {0}
      | _ \<Rightarrow> {})"

definition foot :: "osi \<Rightarrow> uptr list \<Rightarrow> uptr \<Rightarrow> uptr set" where
  "foot s xs p = insert p (set xs \<union> blocks_at s p)"

text \<open>
  The invariant of one party: an open database satisfies the invariant of the protocol, and a closing one owns nothing any more;
  the file name of an open request is still there; bindings have their texts to themselves.
\<close>

fun party_ok :: "osi \<Rightarrow> uptr \<Rightarrow> uptr list \<Rightarrow> cobj \<Rightarrow> bool" where
  "party_ok s p xs (Database d) \<longleftrightarrow>
     (if closing s p = None
      then db_inv {#} (sqlite_objs s - conn (heap s) d xs) p d xs s \<and> d_db d \<le> length (calls s)
      else d_arg d = Db_null \<and> xs = [])"
| "party_ok s p xs (Open_req r) \<longleftrightarrow>
     xs = [] \<and> (or_filename r \<noteq> 0 \<longrightarrow> (\<exists>t. heap s (or_filename r) = Some (C_string t))) \<and> (or_db r \<noteq> 0 \<longrightarrow> or_db r \<in> sqlite_objs s)"
| "party_ok s p xs (Bindings bs) \<longleftrightarrow>
     xs = [] \<and> distinct (concat (map owned bs)) \<and> (\<forall>b \<in> set bs. binding_value b s \<noteq> None)"
| "party_ok s p xs _ \<longleftrightarrow> True"

text \<open>The invariant of all of them. \<open>T\<close> gives the statements of each database.\<close>

definition sys_inv :: "(uptr \<Rightarrow> uptr list) \<Rightarrow> osi \<Rightarrow> bool" where
  "sys_inv T s \<longleftrightarrow>
     osi_inv {#} s
     \<and> (\<forall>p x. heap s p = Some x \<and> owner x \<longrightarrow> party_ok s p (T p) x)
     \<and> (\<forall>p q. p \<noteq> q \<longrightarrow> blocks_at s p \<inter> blocks_at s q = {} \<and> objs s (T p) p \<inter> objs s (T q) q = {})
     \<and> sqlite_objs s = (\<Union>p. objs s (T p) p) \<and> 0 \<notin> sqlite_objs s \<and> (\<forall>n \<in> sqlite_objs s. n \<le> length (calls s))"

lemma sys_invD:
  assumes "sys_inv T s"
  shows "osi_inv {#} s" "heap s p = Some x \<Longrightarrow> owner x \<Longrightarrow> party_ok s p (T p) x"
    "p \<noteq> q \<Longrightarrow> blocks_at s p \<inter> blocks_at s q = {}" "p \<noteq> q \<Longrightarrow> objs s (T p) p \<inter> objs s (T q) q = {}"
    "sqlite_objs s = (\<Union>p. objs s (T p) p)" "0 \<notin> sqlite_objs s" "\<forall>n \<in> sqlite_objs s. n \<le> length (calls s)"
proof -
  note S = assms [unfolded sys_inv_def]
  note R = S [THEN conjunct2, THEN conjunct2, THEN conjunct2]
  show "osi_inv {#} s" using S by (rule conjunct1)
  show "heap s p = Some x \<Longrightarrow> owner x \<Longrightarrow> party_ok s p (T p) x" using S [THEN conjunct2, THEN conjunct1] by blast
  show "p \<noteq> q \<Longrightarrow> blocks_at s p \<inter> blocks_at s q = {}" "p \<noteq> q \<Longrightarrow> objs s (T p) p \<inter> objs s (T q) q = {}"
    using S [THEN conjunct2, THEN conjunct2, THEN conjunct1] by blast+
  show "sqlite_objs s = (\<Union>p. objs s (T p) p)" using R by (rule conjunct1)
  show "0 \<notin> sqlite_objs s" "\<forall>n \<in> sqlite_objs s. n \<le> length (calls s)" using R [THEN conjunct2] by (rule conjunct1, rule conjunct2)
qed

lemma not_owner_simps [simp]: "\<not> owner x \<Longrightarrow> blocks h x = {}"
  "heap s p = None \<Longrightarrow> blocks_at s p = {}" "heap s p = None \<Longrightarrow> objs s xs p = {}"
  by (cases x; simp add: blocks_at_def objs_def)+

lemma blocks_at_some: "heap s p = Some x \<Longrightarrow> blocks_at s p = blocks (heap s) x"
  by (simp add: blocks_at_def)

lemma owns_something: "b \<in> blocks_at s p \<or> n \<in> objs s xs p \<Longrightarrow> \<exists>x. heap s p = Some x \<and> owner x"
  by (auto simp: blocks_at_def objs_def split: option.splits cobj.splits)

text \<open>The SQLite objects of a database are exactly what its invariant says.\<close>

lemma db_inv_conn:
  assumes "db_inv X B a d xs s"
  shows "sqlite_objs s = B \<union> conn (heap s) d xs" "B \<inter> conn (heap s) d xs = {}"
  using db_invD(4,5) [OF assms] by (auto simp: registry_def others_def conn_def split: if_splits)

lemma db_inv_rest: "db_inv X B a d xs s \<Longrightarrow> sqlite_objs s - conn (heap s) d xs = B"
  using db_inv_conn [of X B a d xs s] by auto

section \<open>Blocks are leaves\<close>

text \<open>What a party owns is there, and is text or an array.\<close>

fun leaf :: "cobj \<Rightarrow> bool" where
  "leaf (C_string _) = True"
| "leaf (Bulk _) = True"
| "leaf (Pointers _) = True"
| "leaf _ = False"

lemma leaf_simps: "leaf x \<Longrightarrow> \<not> owner x" "leaf x \<Longrightarrow> plain x" "leaf x \<Longrightarrow> x \<noteq> Statement st"
  by (cases x; simp)+

lemma binding_value_block: "binding_value b s \<noteq> None \<Longrightarrow> p \<in> set (owned b) \<Longrightarrow> \<exists>t. heap s p = Some (C_string t)"
  by (cases b) (auto simp: c_bytes_def split: option.splits cobj.splits)

lemma db_blocks_leaf:
  assumes inv: "db_inv X B a d xs s" and b: "b \<in> blocks (heap s) (Database d)"
  shows "\<exists>x. heap s b = Some x \<and> leaf x"
proof -
  have "d_busy d" using b idle_no_blocks [OF inv] by (cases "d_busy d") simp_all
  then obtain w where "arg_ok w d xs s" using db_invD(6) [OF inv] by (auto simp: protocol_def)
  then show ?thesis using b by (cases w) (auto simp: arg_ok_def bulk_ok_def)
qed

lemma party_blocks_leaf:
  assumes "party_ok s p xs x" and "heap s p = Some x" and "b \<in> blocks_at s p"
  shows "\<exists>y. heap s b = Some y \<and> leaf y"
proof (cases x)
  case (Database d)
  then show ?thesis using assms db_blocks_leaf [of "{#}" _ p d xs s b] by (auto simp: blocks_at_some split: if_splits simp del: blocks.simps(1)) simp
next
  case (Open_req r)
  then show ?thesis using assms by (auto simp: blocks_at_some)
next
  case (Bindings bs)
  then show ?thesis using assms binding_value_block by (fastforce simp: blocks_at_some)
qed (use assms in \<open>auto simp: blocks_at_some\<close>)

lemma sys_block_leaf: "sys_inv T s \<Longrightarrow> b \<in> blocks_at s p \<Longrightarrow> \<exists>y. heap s b = Some y \<and> leaf y"
  using owns_something [of b s p] sys_invD(2) party_blocks_leaf by blast

lemma party_statement:
  assumes "party_ok s p xs x" and "owner x" and "y \<in> set xs"
  shows "\<exists>st. heap s y = Some (Statement st) \<and> st_database st = p \<and> p \<noteq> 0"
proof -
  obtain d where x: "x = Database d" "closing s p = None" using assms by (cases x) (auto split: if_splits)
  then show ?thesis using assms registry_stmt [OF db_invD(5)] db_inv_nonnull by fastforce
qed

lemma foot_db_addr:
  assumes inv: "sys_inv T s" and p: "heap s p = Some x" "owner x"
  shows "foot s (T p) p \<subseteq> db_addrs s"
proof -
  have "\<exists>y. heap s b = Some y \<and> dbobj y" if "b \<in> blocks_at s p" for b
    using sys_block_leaf [OF inv that] leaf_simps(2) by (fastforce simp: dbobj_def)
  moreover have "\<exists>y. heap s b = Some y \<and> dbobj y" if "b \<in> set (T p)" for b
    using party_statement [OF sys_invD(2) [OF inv p] p(2) that] by auto
  ultimately show ?thesis using p by (auto simp: foot_def db_addrs_def dbobj_def)
qed

text \<open>No address is in the footprints of two parties.\<close>

lemma foot_disjoint:
  assumes inv: "sys_inv T s" and p: "heap s p = Some x" "owner x" and q: "heap s q = Some y" "owner y" and ne: "p \<noteq> q"
  shows "foot s (T p) p \<inter> foot s (T q) q = {}"
proof -
  have leaves: "\<exists>z. heap s b = Some z \<and> leaf z" if "b \<in> blocks_at s p \<union> blocks_at s q" for b using sys_block_leaf [OF inv] that by blast
  have stmts: "\<exists>st. heap s b = Some (Statement st) \<and> st_database st = p" if "b \<in> set (T p)" for b
    using party_statement [OF sys_invD(2) [OF inv p] p(2) that] by blast
  have stmtsq: "\<exists>st. heap s b = Some (Statement st) \<and> st_database st = q" if "b \<in> set (T q)" for b
    using party_statement [OF sys_invD(2) [OF inv q] q(2) that] by blast
  have "b \<notin> foot s (T q) q" if "b \<in> foot s (T p) p" for b
    using that leaves [of b] stmts [of b] stmtsq [of b] p q ne sys_invD(3) [OF inv ne] leaf_simps
    unfolding foot_def by (auto; fastforce)
  then show ?thesis by blast
qed

section \<open>Bystanders\<close>

text \<open>The argument of pending work depends on the blocks of the database, its statements, and the bindings it refers to.\<close>

lemma binding_value_local:
  assumes "\<And>p. p \<in> set (owned b) \<Longrightarrow> heap s' p = heap s p"
  shows "binding_value b s' = binding_value b s"
  using assms by (cases b) (simp_all add: c_bytes_def)

lemma arg_ok_local:
  assumes ok: "arg_ok w d xs s" and own: "\<And>b. b \<in> blocks (heap s) (Database d) \<Longrightarrow> heap s' b = heap s b"
    and bound: "\<And>q bs b. q \<in> refs (heap s) (Database d) \<Longrightarrow> heap s q = Some (Bindings bs) \<Longrightarrow> b \<in> insert q (blocks_at s q) \<Longrightarrow> heap s' b = heap s b"
    and xs: "\<And>x. x \<in> set xs \<Longrightarrow> heap s' x = heap s x"
  shows "arg_ok w d xs s'"
proof (cases w)
  case Bulk_worker
  then obtain b k ps qs where b: "d_arg d = Db_bulk b" "heap s b = Some (Bulk k)" "heap s (bulk_statements k) = Some (Pointers ps)"
    "heap s (bulk_mbindings k) = Some (Pointers qs)" "bulk_statements k \<noteq> bulk_mbindings k"
    "length ps = bulk_count k" "length qs = bulk_count k" "set ps \<subseteq> set xs"
    and qs: "\<And>q. q \<in> set qs \<Longrightarrow> q = 0 \<or> (\<exists>bs. heap s q = Some (Bindings bs) \<and> (\<forall>x \<in> set bs. binding_value x s \<noteq> None))"
    using ok unfolding arg_ok_def bulk_ok_def by auto
  have "q = 0 \<or> (\<exists>bs. heap s' q = Some (Bindings bs) \<and> (\<forall>x \<in> set bs. binding_value x s' \<noteq> None))" if q: "q \<in> set qs" for q
  proof (cases "q = 0")
    case False
    then obtain bs where bs: "heap s q = Some (Bindings bs)" "\<forall>x \<in> set bs. binding_value x s \<noteq> None" using qs [OF q] by blast
    have "q \<in> refs (heap s) (Database d)" using b q by (simp add: refs_def)
    note same = bound [OF this bs(1)]
    have "binding_value x s' = binding_value x s" if "x \<in> set bs" for x
      using that bs(1) by (intro binding_value_local same) (auto simp: blocks_at_some)
    then show ?thesis using bs same [of q] by auto
  qed simp
  moreover have "heap s' b = heap s b" "heap s' (bulk_statements k) = heap s (bulk_statements k)" "heap s' (bulk_mbindings k) = heap s (bulk_mbindings k)"
    using b by (simp_all add: own)
  ultimately show ?thesis using b Bulk_worker unfolding arg_ok_def bulk_ok_def by auto
next
  case Step_worker
  have "handles (heap s') xs = handles (heap s) xs" using xs by (intro handles_cong) (simp add: handle_def)
  then show ?thesis using ok Step_worker by (simp add: arg_ok_def)
qed (use ok own in \<open>auto simp: arg_ok_def\<close>)

lemma db_inv_local:
  assumes inv: "db_inv {#} (sqlite_objs s - conn (heap s) d xs) a d xs s" and osi: "osi_inv {#} s'"
    and a: "heap s' a = heap s a" "closing s' a = closing s a"
    and own: "\<And>b. b \<in> blocks (heap s) (Database d) \<Longrightarrow> heap s' b = heap s b"
    and bound: "\<And>q bs b. q \<in> refs (heap s) (Database d) \<Longrightarrow> heap s q = Some (Bindings bs) \<Longrightarrow> b \<in> insert q (blocks_at s q) \<Longrightarrow> heap s' b = heap s b"
    and xs: "\<And>x. x \<in> set xs \<Longrightarrow> heap s' x = heap s x"
    and objs: "conn (heap s) d xs \<subseteq> sqlite_objs s'" "\<forall>n \<in> sqlite_objs s'. n \<le> length (calls s')"
    and new: "d_db d \<notin> sqlite_objs s' - conn (heap s) d xs"
  shows "db_inv {#} (sqlite_objs s' - conn (heap s') d xs) a d xs s'"
proof -
  note D = db_invD [OF inv]
  have h: "handles (heap s') xs = handles (heap s) xs" using xs by (intro handles_cong) (simp add: handle_def)
  then have c: "conn (heap s') d xs = conn (heap s) d xs" by (simp add: conn_def)
  have "arg_ok w d xs s'" if "arg_ok w d xs s" for w by (rule arg_ok_local [OF that own bound xs])
  then have "protocol d xs s'" using D(6) unfolding protocol_def by (auto split: if_splits)
  moreover have "registry (others (sqlite_objs s' - conn (heap s) d xs) d) a d xs s'"
  proof -
    have "seg (heap s') a p q xs r t \<longleftrightarrow> seg (heap s) a p q xs r t" for p q r t by (rule seg_cong) (rule xs)
    moreover have "others (sqlite_objs s' - conn (heap s) d xs) d \<union> set (handles (heap s) xs) = sqlite_objs s'"
      using objs(1) by (auto simp: others_def conn_def split: if_splits)
    moreover have "others (sqlite_objs s' - conn (heap s) d xs) d \<inter> set (handles (heap s) xs) = {}"
      using D(5) by (auto simp: registry_def others_def conn_def split: if_splits)
    ultimately show ?thesis using D(5) objs(2) unfolding registry_def h by blast
  qed
  ultimately show ?thesis using D(2-4) osi a new unfolding c db_inv_def by auto
qed

section \<open>The step lemma\<close>

text \<open>
  \<open>bystanders\<close>: a step leaves the footprint of every party outside \<open>A\<close> alone, and no party outside \<open>A\<close> relies on bindings
  in \<open>A\<close>. \<open>left\<close> are the SQLite objects of those parties.
\<close>

definition bystanders :: "(uptr \<Rightarrow> uptr list) \<Rightarrow> uptr set \<Rightarrow> uptr set \<Rightarrow> osi \<Rightarrow> bool" where
  "bystanders T K A s \<longleftrightarrow>
     (\<forall>p x. heap s p = Some x \<and> owner x \<and> p \<notin> A \<longrightarrow> foot s (T p) p \<subseteq> K \<and> refs (heap s) x \<inter> A = {})"

lemma bystandersD:
  assumes "bystanders T K A s" and "heap s p = Some x" and "owner x" and "p \<notin> A"
  shows "foot s (T p) p \<subseteq> K" "refs (heap s) x \<inter> A = {}"
  using assms unfolding bystanders_def by blast+

definition left :: "(uptr \<Rightarrow> uptr list) \<Rightarrow> uptr set \<Rightarrow> osi \<Rightarrow> nat set" where
  "left T A s = sqlite_objs s - (\<Union>p \<in> A. objs s (T p) p)"

lemma left_eq:
  assumes "sys_inv T s"
  shows "left T A s = (\<Union>p \<in> - A. objs s (T p) p)"
proof (rule set_eqI)
  fix n
  have "n \<notin> objs s (T p) p" if "n \<in> objs s (T q) q" "q \<notin> A" "p \<in> A" for p q
    using sys_invD(4) [OF assms, of p q] that by auto
  then show "n \<in> left T A s \<longleftrightarrow> n \<in> (\<Union>p \<in> - A. objs s (T p) p)"
    unfolding left_def sys_invD(5) [OF assms] by blast
qed

text \<open>A party that stands aside keeps its structure, its blocks and its SQLite objects.\<close>

definition aside :: "(uptr \<Rightarrow> uptr list) \<Rightarrow> uptr set \<Rightarrow> uptr set \<Rightarrow> osi \<Rightarrow> osi \<Rightarrow> bool" where
  "aside T K A s s' \<longleftrightarrow> sys_inv T s \<and> spares K A s s' \<and> bystanders T K A s"

lemma aside_same:
  assumes as: "aside T K A s s'" and p: "heap s p = Some x" "owner x" "p \<notin> A"
  shows "b \<in> foot s (T p) p \<Longrightarrow> heap s' b = heap s b" "b \<in> foot s (T p) p \<Longrightarrow> closing s' b = closing s b"
  using as sparesD(3,4) bystandersD(1) [OF _ p] unfolding aside_def by blast+

lemma aside_owner:
  assumes "aside T K A s s'" and "p \<notin> A" and "owner x"
  shows "heap s' p = Some x \<longleftrightarrow> heap s p = Some x"
proof
  show "heap s' p = Some x \<Longrightarrow> heap s p = Some x" using assms sparesD(5) unfolding aside_def by blast
  show "heap s' p = Some x" if "heap s p = Some x"
    using aside_same(1) [OF assms(1) that assms(3,2), of p] that by (simp add: foot_def)
qed

lemma aside_blocks:
  assumes as: "aside T K A s s'" and p: "p \<notin> A"
  shows "blocks_at s' p = blocks_at s p"
proof (cases "\<exists>x. heap s p = Some x \<and> owner x")
  case True
  then obtain x where x: "heap s p = Some x" "owner x" by blast
  note same = aside_same(1) [OF as x p]
  have "heap s' b = heap s b" if "b \<in> blocks (heap s) x" for b using same that x by (simp add: foot_def blocks_at_some)
  then have "blocks (heap s') x = blocks (heap s) x" by (cases x) (auto split: db_union.splits)
  then show ?thesis using x same [of p] by (simp add: blocks_at_def foot_def)
next
  case False
  then have "\<nexists>x. heap s' p = Some x \<and> owner x" using aside_owner [OF as p] by blast
  then show ?thesis using False owns_something [of _ s p] owns_something [of _ s' p] by blast
qed

lemma aside_objs:
  assumes as: "aside T K A s s'" and p: "p \<notin> A"
  shows "objs s' (T p) p = objs s (T p) p"
proof (cases "\<exists>x. heap s p = Some x \<and> owner x")
  case True
  then obtain x where x: "heap s p = Some x" "owner x" by blast
  note same = aside_same [OF as x p]
  have "handles (heap s') (T p) = handles (heap s) (T p)" using same(1) by (intro handles_cong) (simp add: handle_def foot_def)
  moreover have "heap s' p = heap s p" "closing s' p = closing s p" using same [of p] by (simp_all add: foot_def)
  ultimately show ?thesis unfolding objs_def conn_def by (simp only:)
next
  case False
  then have "\<nexists>x. heap s' p = Some x \<and> owner x" using aside_owner [OF as p] by blast
  then show ?thesis using False owns_something [of _ s p] owns_something [of _ s' p] by blast
qed

lemma aside_party:
  assumes as: "aside T K A s s'" and osi: "osi_inv {#} s'" and p: "heap s p = Some x" "owner x" "p \<notin> A"
    and left: "left T A s \<subseteq> sqlite_objs s'" and new: "sqlite_objs s' - left T A s \<subseteq> (\<Union>q \<in> A. objs s (T q) q) \<union> {length (calls s)<..}"
    and bound: "\<forall>n \<in> sqlite_objs s'. n \<le> length (calls s')"
  shows "party_ok s' p (T p) x"
proof -
  have inv: "sys_inv T s" and sp: "spares K A s s'" and bys: "bystanders T K A s" using as by (simp_all add: aside_def)
  note ok = sys_invD(2) [OF inv p(1,2)] and same = aside_same [OF as p]
  have mine: "objs s (T p) p \<subseteq> sqlite_objs s'" using left p(3) unfolding left_eq [OF inv] by blast
  have blk: "heap s' b = heap s b" if "b \<in> blocks (heap s) x" for b using same(1) that p(1) by (simp add: foot_def blocks_at_some)
  have stm: "heap s' y = heap s y" if "y \<in> set (T p)" for y using same(1) that by (simp add: foot_def)
  have me: "heap s' p = heap s p" "closing s' p = closing s p" using same by (simp_all add: foot_def)
  show ?thesis
  proof (cases x)
    case (Database d)
    show ?thesis
    proof (cases "closing s p = None")
      case False
      then show ?thesis using ok unfolding Database party_ok.simps(1) me(2) by (simp only: if_False)
    next
      case True
      have dbi: "db_inv {#} (sqlite_objs s - conn (heap s) d (T p)) p d (T p) s" and num: "d_db d \<le> length (calls s)"
        using ok Database True by simp_all
      have conn: "objs s (T p) p = conn (heap s) d (T p)" using p(1) Database True by (simp add: objs_def)
      have "heap s' b = heap s b" if q: "q \<in> refs (heap s) (Database d)" "heap s q = Some (Bindings bs)" "b \<in> insert q (blocks_at s q)" for q bs b
        using aside_same(1) [OF as q(2), of b] q bystandersD(2) [OF bys p] Database by (auto simp: foot_def)
      moreover have "d_db d \<notin> sqlite_objs s' - conn (heap s) d (T p)"
      proof
        assume n: "d_db d \<in> sqlite_objs s' - conn (heap s) d (T p)"
        have "d_db d \<notin> sqlite_objs s" using n db_invD(4) [OF dbi] by blast
        then have "d_db d \<notin> left T A s" "d_db d \<notin> (\<Union>q \<in> A. objs s (T q) q)" using sys_invD(5) [OF inv] by (auto simp: left_def)
        then show False using n new num by auto
      qed
      ultimately have "db_inv {#} (sqlite_objs s' - conn (heap s') d (T p)) p d (T p) s'"
        using mine conn blk stm Database by (intro db_inv_local [OF dbi osi me _ _ _ _ bound]) auto
      then show ?thesis using Database True me num sparesD(2) [OF sp] by simp
    qed
  next
    case (Open_req r)
    have "or_db r \<noteq> 0 \<Longrightarrow> or_db r \<in> sqlite_objs s'" using mine p(1) Open_req by (auto simp: objs_def)
    then show ?thesis using ok blk Open_req by auto
  next
    case (Bindings bs)
    have "binding_value b s' = binding_value b s" if "b \<in> set bs" for b
      using that blk Bindings by (intro binding_value_local) auto
    then show ?thesis using ok Bindings by simp
  qed simp_all
qed

text \<open>
  The step lemma: what is left to show is that the party that acts, if there is one afterwards, satisfies its
  invariant, has taken no block and no SQLite object of another party, and has not lost one.
\<close>

lemma sys_inv_step:
  assumes as: "aside T K A s s'" and osi: "osi_inv {#} s'" and T': "\<And>p. p \<notin> A \<Longrightarrow> T' p = T p"
    and objs: "sqlite_objs s' = left T A s \<union> (\<Union>p \<in> A. objs s' (T' p) p)"
    and new: "(\<Union>p \<in> A. objs s' (T' p) p) \<subseteq> (\<Union>q \<in> A. objs s (T q) q) \<union> {length (calls s)<..}"
    and bound: "0 \<notin> sqlite_objs s'" "\<forall>n \<in> sqlite_objs s'. n \<le> length (calls s')"
    and one: "\<And>p q x y. p \<in> A \<Longrightarrow> q \<in> A \<Longrightarrow> heap s' p = Some x \<Longrightarrow> owner x \<Longrightarrow> heap s' q = Some y \<Longrightarrow> owner y \<Longrightarrow> p = q"
    and party: "\<And>p x. p \<in> A \<Longrightarrow> heap s' p = Some x \<Longrightarrow> owner x \<Longrightarrow> party_ok s' p (T' p) x"
    and blks: "\<And>p. p \<in> A \<Longrightarrow> blocks_at s' p \<subseteq> (\<Union>q \<in> A. blocks_at s q) \<union> {mallocs s<..}"
  shows "sys_inv T' s'"
proof -
  have inv: "sys_inv T s" using as by (simp add: aside_def)
  have B: "blocks_at s' p = blocks_at s p" "objs s' (T' p) p = objs s (T p) p" if "p \<notin> A" for p
    using aside_blocks [OF as that] aside_objs [OF as that] T' [OF that] by simp_all
  have low: "b \<le> mallocs s" if "b \<in> blocks_at s p" for b p
    using sys_block_leaf [OF inv that] osi_inv_addr [OF sys_invD(1) [OF inv], of b] by auto
  have num: "n \<le> length (calls s)" if "n \<in> objs s (T p) p" for n p
    using that sys_invD(5,7) [OF inv] by blast
  have mix: "blocks_at s' p \<inter> blocks_at s q = {} \<and> objs s' (T' p) p \<inter> objs s (T q) q = {}" if "p \<in> A" "q \<notin> A" for p q
  proof
    have "r \<noteq> q" if "r \<in> A" for r using that \<open>q \<notin> A\<close> by blast
    then have d: "blocks_at s r \<inter> blocks_at s q = {}" "objs s (T r) r \<inter> objs s (T q) q = {}" if "r \<in> A" for r
      using sys_invD(3,4) [OF inv, of r q] that by simp_all
    show "blocks_at s' p \<inter> blocks_at s q = {}" using blks [OF that(1)] d(1) low [of _ q] by fastforce
    show "objs s' (T' p) p \<inter> objs s (T q) q = {}"
    proof (rule ccontr)
      assume "objs s' (T' p) p \<inter> objs s (T q) q \<noteq> {}"
      then obtain n where n: "n \<in> objs s' (T' p) p" "n \<in> objs s (T q) q" by blast
      then have "n \<in> (\<Union>r \<in> A. objs s (T r) r) \<union> {length (calls s)<..}" using new that(1) by blast
      then show False using n(2) d(2) num [OF n(2)] by (auto simp: disjoint_iff)
    qed
  qed
  have apart: "blocks_at s' p \<inter> blocks_at s' q = {} \<and> objs s' (T' p) p \<inter> objs s' (T' q) q = {}" if "p \<noteq> q" for p q
  proof (cases "p \<in> A"; cases "q \<in> A")
    assume pq: "p \<in> A" "q \<in> A"
    show ?thesis
    proof (rule ccontr)
      assume "\<not> ?thesis"
      then have "(\<exists>x. heap s' p = Some x \<and> owner x) \<and> (\<exists>y. heap s' q = Some y \<and> owner y)"
        using owns_something [of _ s' p] owns_something [of _ s' q] by (meson disjoint_iff)
      then show False using one [OF pq] that by blast
    qed
  next
    assume "p \<in> A" "q \<notin> A"
    then show ?thesis using mix B by simp
  next
    assume "p \<notin> A" "q \<in> A"
    then show ?thesis using mix [of q p] B by (simp add: inf_commute)
  next
    assume "p \<notin> A" "q \<notin> A"
    then show ?thesis using B sys_invD(3,4) [OF inv that] by simp
  qed
  have parties: "party_ok s' p (T' p) x" if p: "heap s' p = Some x" "owner x" for p x
  proof (cases "p \<in> A")
    case False
    then have "heap s p = Some x" using aside_owner [OF as False p(2)] p(1) by simp
    moreover have "sqlite_objs s' - left T A s \<subseteq> (\<Union>q \<in> A. objs s (T q) q) \<union> {length (calls s)<..}"
      using new unfolding objs by (simp add: Un_Diff le_supI2 Diff_subset [THEN subset_trans])
    moreover have "left T A s \<subseteq> sqlite_objs s'" unfolding objs by simp
    ultimately show ?thesis using aside_party [OF as osi _ p(2) False _ _ bound(2)] T' [OF False] by simp
  qed (rule party [OF _ p])
  have "(\<Union>p. objs s' (T' p) p) = (\<Union>p \<in> - A. objs s' (T' p) p) \<union> (\<Union>p \<in> A. objs s' (T' p) p)" by blast
  also have "(\<Union>p \<in> - A. objs s' (T' p) p) = (\<Union>p \<in> - A. objs s (T p) p)" by (rule SUP_cong) (auto simp: B(2))
  finally have "sqlite_objs s' = (\<Union>p. objs s' (T' p) p)" unfolding left_eq [OF inv, symmetric] using objs by simp
  then show ?thesis using osi parties apart bound unfolding sys_inv_def by blast
qed

section \<open>Isolation\<close>

text \<open>
  A step of the system in which at most the databases of \<open>A\<close> take part: the invariant holds afterwards, and every other database has
  stood aside.
\<close>

definition evolves :: "uptr set \<Rightarrow> (uptr \<Rightarrow> uptr list) \<Rightarrow> osi \<Rightarrow> osi \<Rightarrow> bool" where
  "evolves A T s s' \<longleftrightarrow>
     (\<exists>K P T'. aside T K P s s' \<and> sys_inv T' s' \<and> (\<forall>p. p \<notin> P \<longrightarrow> T' p = T p)
        \<and> (\<forall>p \<in> P. p \<in> A \<or> (\<forall>d. heap s p \<noteq> Some (Database d))))"

lemma evolvesI:
  assumes "aside T K P s s'" and "sys_inv T' s'" and "\<And>p. p \<notin> P \<Longrightarrow> T' p = T p"
    and "\<And>p d. p \<in> P \<Longrightarrow> p \<notin> A \<Longrightarrow> heap s p \<noteq> Some (Database d)"
  shows "evolves A T s s'"
  using assms unfolding evolves_def by blast

lemma evolves_mono: "evolves A T s s' \<Longrightarrow> A \<subseteq> B \<Longrightarrow> evolves B T s s'"
  unfolding evolves_def by (meson subsetD)

lemma evolves_inv: "evolves A T s s' \<Longrightarrow> \<exists>T'. sys_inv T' s'"
  unfolding evolves_def by blast

lemma evolves_refl: "sys_inv T s \<Longrightarrow> evolves A T s s"
  by (rule evolvesI [where K = UNIV and P = "{}"]) (auto simp: aside_def bystanders_def)

end
