(* ===== verification/Party_Steps.thy ===== *)
theory Party_Steps
  imports Parties
begin

text \<open>
  Every operation of the interface keeps the invariant of all parties: the operations and events on files, streams, processes
  and signals touch no party, an operation or step of a database touches that database only, and a request to open one
  turns into a database or into nothing.
\<close>

section \<open>SQLite objects are numbered once\<close>

definition objs_grow :: "osi \<Rightarrow> osi \<Rightarrow> bool" where
  "objs_grow s s' \<longleftrightarrow> sqlite_objs s' \<subseteq> sqlite_objs s \<union> {length (calls s)<..}"

lemma ask_objs: "ask E a q s = Some (r, s') \<Longrightarrow> sqlite_objs s' = sqlite_objs s"
proof (induction E a q s rule: ask.induct)
  case (1 E a cb s)
  then show ?case by (auto simp: osi_close_database_def submit_work_def osi_ops split: if_splits bind_splits)
next
  case (2 E a sql cb s)
  then show ?case by (auto simp: osi_prepare_statement_def submit_work_def osi_ops split: if_splits bind_splits option.splits ptr.splits)
next
  case (3 E a x cb s)
  then show ?case by (auto simp: osi_step_statement_def idle_statement_def submit_work_def osi_ops split: if_splits bind_splits)
next
  case (4 E a ps qs cb s)
  then show ?case by (auto simp: osi_bulk_execute_def idle_statement_def fill_bulk_def submit_work_def osi_ops split: if_splits bind_splits list.splits)
qed

lemma finish_work_objs: "finish_work arg a d s = Some s' \<Longrightarrow> sqlite_objs s' = sqlite_objs s"
  by (auto simp: finish_work_def osi_ops split: if_splits)

lemma queue_objs: "osi_add_callback1 cb v s = Some s' \<Longrightarrow> sqlite_objs s' = sqlite_objs s"
  by (auto simp: osi_queue split: option.splits)

lemma free_objs: "c_free a s = Some s' \<Longrightarrow> sqlite_objs s' = sqlite_objs s"
  by (auto simp: c_free_def split: if_splits)

lemma close_objs: "uv_close a cb s = Some s' \<Longrightarrow> sqlite_objs s' = sqlite_objs s"
  by (auto simp: uv_close_def split: if_splits)

lemmas prim_objs = finish_work_objs queue_objs free_objs close_objs

lemma cb_objs:
  "close_cb E msg a s = Some s' \<Longrightarrow> sqlite_objs s' = sqlite_objs s"
  "prepare_cb E msg a s = Some s' \<Longrightarrow> sqlite_objs s' = sqlite_objs s"
  "bulk_cb E msg a s = Some s' \<Longrightarrow> sqlite_objs s' = sqlite_objs s"
  by (auto simp: close_cb_def prepare_cb_def bulk_cb_def Let_def uv_void_def bind_eq_Some_conv dest!: prim_objs split: if_splits db_union.splits)

lemma step_cb_objs: "step_cb E i r msg a s = Some s' \<Longrightarrow> sqlite_objs s' = sqlite_objs s"
  by (auto simp: step_cb_def Let_def bind_eq_Some_conv dest!: prim_objs row_loop_heap split: if_splits prod.splits db_union.splits)

lemma async_cb_objs:
  assumes "async_cb E out a s = Some s'"
  shows "sqlite_objs s' = sqlite_objs s"
proof -
  obtain d s1 cb where s1: "store a (Database (d\<lparr>d_async_sent := False\<rparr>)) s = Some s1"
    and r: "(case cb of Close_cb \<Rightarrow> close_cb E (errmsg out) a s1 | Prepare_cb \<Rightarrow> prepare_cb E (errmsg out) a s1
       | Step_cb \<Rightarrow> step_cb E (fresh out) (row out) (errmsg out) a s1 | Bulk_cb \<Rightarrow> bulk_cb E (errmsg out) a s1) = Some s'"
    using assms unfolding async_cb_def by (auto simp: bind_eq_Some_conv)
  have "sqlite_objs s1 = sqlite_objs s" using s1 by (auto simp: store_def split: if_splits)
  moreover have "sqlite_objs s' = sqlite_objs s1" using r cb_objs [of E "errmsg out" a s1 s'] step_cb_objs by (cases cb) simp_all
  ultimately show ?thesis by simp
qed

lemma bulk_step_objs: "bulk_step E x q b k s = Some (rc, go, s') \<Longrightarrow> sqlite_objs s' = sqlite_objs s"
  by (auto simp: bulk_step_def calls_only_def store_def split: bind_splits if_splits dest!: stmt_do_result bind_bindings_result)

lemma bulk_loop_objs: "bulk_loop E work b k s = Some (rc, s') \<Longrightarrow> sqlite_objs s' = sqlite_objs s"
proof (induction work arbitrary: s)
  case (Cons w work)
  then show ?case by (cases w) (auto split: bind_splits if_splits dest!: bulk_step_objs)
qed simp

lemma close_worker_outcome:
  assumes inv: "db_inv X B a d xs s" and run: "close_worker E a s = Some s'"
  shows "sqlite_objs s' \<subseteq> sqlite_objs s" "\<exists>d1. heap s' a = Some (Database d1) \<and> d_db d1 = d_db d"
proof -
  note D = db_invD [OF inv]
  obtain r where "seg (heap s) a 0 (d_statement d) xs r 0" "distinct xs" "distinct (handles (heap s) xs)"
    "set (handles (heap s) xs) \<subseteq> sqlite_objs s" using D(5) by (auto simp: registry_def)
  note loop = close_loop_spec [OF D(3) this] and axs = db_inv_not_stmt [OF inv]
  show "sqlite_objs s' \<subseteq> sqlite_objs s"
    using run loop axs by (auto simp: close_worker_def load_db_def store_def sqlite3_close_def db_do_def uv_do_def detached_def
        split: bind_splits if_splits)
  show "\<exists>d1. heap s' a = Some (Database d1) \<and> d_db d1 = d_db d"
    using run loop axs by (auto simp: close_worker_def load_db_def store_def sqlite3_close_def db_do_def uv_do_def detached_def
        split: bind_splits if_splits)
qed

lemma prepare_worker_objs: "prepare_worker E g a s = Some s' \<Longrightarrow> objs_grow s s'"
  by (auto simp: objs_grow_def prepare_worker_def db_do_def sqlite3_finalize_def osi_ops Let_def
      split: if_splits option.splits bind_splits cobj.splits db_union.splits)

lemma do_work_objs:
  assumes inv: "db_inv X B a d xs s" and run: "do_work E out w a s = Some s'"
  shows "objs_grow s s'"
proof (cases w)
  case Close_worker
  then show ?thesis using close_worker_outcome(1) [OF inv] run by (auto simp: objs_grow_def)
next
  case Prepare_worker
  then show ?thesis using prepare_worker_objs run by simp
next
  case Step_worker
  then show ?thesis using run
    by (auto simp: objs_grow_def step_worker_def store_def calls_only_def split: bind_splits if_splits db_union.splits dest!: stmt_do_result)
next
  case Bulk_worker
  then show ?thesis using run
    by (auto simp: objs_grow_def bulk_worker_def store_def split: bind_splits if_splits db_union.splits dest!: bulk_loop_objs)
qed

lemma database_worker_objs:
  assumes inv: "db_inv X B a d xs s" and run: "database_worker E out a s = Some s'"
  shows "objs_grow s s'" "heap s' a = Some (Database d') \<Longrightarrow> d_thread d' = Gone \<Longrightarrow> d_db d' = d_db d"
proof -
  note D = db_invD [OF inv]
  have "objs_grow s s' \<and> (heap s' a = Some (Database d') \<and> d_thread d' = Gone \<longrightarrow> d_db d' = d_db d)"
  proof (cases "d_thread d")
    case (Running w)
    then obtain s1 d1 where s1: "do_work E out w a s = Some s1" "heap s1 a = Some (Database d1)"
      and s': "s' = s1\<lparr>heap := (heap s1)(a \<mapsto> Database (d1\<lparr>d_work := None, d_async_sent := True,
           d_thread := (if w = Close_worker \<and> d_sqlite_rc d1 = SQLITE_OK then Gone else Waiting)\<rparr>))\<rparr>"
      using run D(3) by (auto simp: database_worker_def load_db_def store_def split: bind_splits if_splits option.splits cobj.splits)
    have "d_db d1 = d_db d" if "w = Close_worker" using that s1 close_worker_outcome(2) [OF inv, of E s1] by auto
    then show ?thesis using do_work_objs [OF inv s1(1)] by (auto simp: s' objs_grow_def split: if_splits)
  qed (use run D(3) in \<open>auto simp: objs_grow_def database_worker_def load_db_def store_def split: option.splits\<close>)
  then show "objs_grow s s'" "heap s' a = Some (Database d') \<Longrightarrow> d_thread d' = Gone \<Longrightarrow> d_db d' = d_db d" by blast+
qed

section \<open>Steps that touch no party\<close>

text \<open>The bindings that pending work refers to are there.\<close>

lemma refs_bindings:
  assumes inv: "sys_inv T s" and p: "heap s p = Some x" "owner x" and q: "q \<in> refs (heap s) x"
  shows "q = 0 \<or> (\<exists>bs. heap s q = Some (Bindings bs))"
proof -
  obtain d b where d: "x = Database d" "d_arg d = Db_bulk b" using q by (auto simp: refs_def split: cobj.splits db_union.splits)
  then have db: "db_inv {#} (sqlite_objs s - conn (heap s) d (T p)) p d (T p) s"
    using sys_invD(2) [OF inv p] by (auto split: if_splits)
  have "d_busy d" using idle_no_blocks [OF db] d(2) by auto
  then obtain w where "arg_ok w d (T p) s" using db_invD(6) [OF db] by (auto simp: protocol_def)
  then have "bulk_ok (T p) b s" using d(2) by (cases w) (auto simp: arg_ok_def)
  then show ?thesis using q d unfolding bulk_ok_def refs_def by fastforce
qed

lemma sys_inv_undisturbed:
  assumes inv: "sys_inv T s" and osi: "osi_inv {#} s'" and un: "undisturbed (db_addrs s - C) s s'"
    and C: "\<And>b x. b \<in> C \<Longrightarrow> heap s b = Some x \<Longrightarrow> \<not> dbobj x"
  shows "evolves A T s s'"
proof -
  have "foot s (T p) p \<subseteq> db_addrs s - C" if "heap s p = Some x" "owner x" for p x
    using foot_db_addr [OF inv that] C unfolding db_addrs_def by fastforce
  then have as: "aside T (db_addrs s - C) {} s s'" using inv un by (auto simp: aside_def bystanders_def undisturbed_def)
  have "sqlite_objs s' = sqlite_objs s" "length (calls s) \<le> length (calls s')" using un sparesD(2) by (auto simp: undisturbed_def)
  then have "sys_inv T s'" using sys_invD(6,7) [OF inv] osi by (intro sys_inv_step [OF as]) (auto simp: left_def)
  then show ?thesis by (rule evolvesI [OF as]) simp_all
qed

lemma sys_inv_op:
  assumes inv: "sys_inv T s" and ok: "op_ok op s" and run: "run_op E op s = Some (r, s')"
  shows "evolves {} T s s'"
proof -
  have "osi_inv {#} s'" using op_keeps_accounts [OF sys_invD(1) [OF inv] ok, of E] run by (auto simp: op_accounts_def)
  moreover have "undisturbed (db_addrs s - {}) s s'" using run_op_frame [OF sys_invD(1) [OF inv] ok run] by simp
  ultimately show ?thesis by (rule sys_inv_undisturbed [OF inv]) simp
qed

text \<open>The end of closing a database frees it; every other event leaves the parties alone.\<close>

lemma sys_inv_event:
  assumes inv: "sys_inv T s" and ok: "event_ok ev s" and run: "run_event E ev s = Some s'" and q: "g_callbacks s = Some q"
  shows "evolves (closed_by_event ev) T s s'"
proof -
  have osi: "osi_inv {#} s'" using event_keeps_accounts [OF sys_invD(1) [OF inv] ok q, of E] run by (auto simp: event_accounts_def)
  note un = run_event_frame [OF sys_invD(1) [OF inv] ok run]
  show ?thesis
  proof (cases "\<exists>h d. ev = Handle_closed h \<and> heap s h = Some (Database d)")
    case False
    have "\<not> dbobj x" if "b \<in> closed_by_event ev" "heap s b = Some x" for b x
    proof -
      have h: "ev = Handle_closed b" using that(1) by (cases ev) auto
      then obtain cb where cb: "closing s b = Some cb" using ok by (auto simp: event_ok_def)
      then have "closes cb x" using closing_ok_closes [OF osi_inv_closing [OF sys_invD(1) [OF inv]] cb] that(2) by auto
      then show ?thesis using False h that(2) by (cases cb; cases x) auto
    qed
    then show ?thesis using sys_inv_undisturbed [OF inv osi un] by blast
  next
    case True
    then obtain h d where h: "ev = Handle_closed h" "heap s h = Some (Database d)" by blast
    then obtain cb where cb: "closing s h = Some cb" using ok by (auto simp: event_ok_def)
    then have "closes cb (Database d)" using closing_ok_closes [OF osi_inv_closing [OF sys_invD(1) [OF inv]] cb] h(2) by auto
    then have cb': "cb = Close_free_cb" by (cases cb) auto
    then have s': "s' = s\<lparr>closing := (closing s)(h := None), heap := (heap s)(h := None)\<rparr>"
      using run h cb osi_inv_null [OF sys_invD(1) [OF inv]] by (auto simp: c_free_def split: if_splits)
    have none: "T h = []" "d_arg d = Db_null" using sys_invD(2) [OF inv h(2)] cb by auto
    have mine: "foot s (T h) h = {h}" using none h(2) by (simp add: foot_def blocks_at_def)
    have "foot s (T p) p \<subseteq> - {h} \<and> refs (heap s) x \<inter> {h} = {}" if "heap s p = Some x" "owner x" "p \<noteq> h" for p x
    proof
      show "foot s (T p) p \<subseteq> - {h}" using foot_disjoint [OF inv that(1,2) h(2) _ that(3)] mine by auto
      show "refs (heap s) x \<inter> {h} = {}" using refs_bindings [OF inv that(1,2)] h(2) osi_inv_null [OF sys_invD(1) [OF inv]] by fastforce
    qed
    moreover have "spares (- {h}) {h} s s'" by (rule sparesI) (auto simp: s' split: if_splits)
    ultimately have as: "aside T (- {h}) {h} s s'" using inv by (auto simp: aside_def bystanders_def)
    have "objs s (T h) h = {}" using h(2) cb by (simp add: objs_def)
    moreover have "heap s' h = None" by (simp add: s')
    moreover have "sqlite_objs s' = sqlite_objs s" "calls s' = calls s" by (simp_all add: s')
    ultimately have "sys_inv T s'" using sys_invD(6,7) [OF inv] osi by (intro sys_inv_step [OF as]) (auto simp: left_def)
    then show ?thesis by (rule evolvesI [OF as]) (simp_all add: h(1))
  qed
qed

text \<open>A step that changes neither the heap nor the objects.\<close>

lemma sys_inv_quiet:
  assumes inv: "sys_inv T s" and osi: "osi_inv {#} s'" and s': "heap s' = heap s" "closing s' = closing s" "sqlite_objs s' = sqlite_objs s"
    "mallocs s \<le> mallocs s'" "length (calls s) \<le> length (calls s')"
  shows "evolves {} T s s'"
proof -
  have "undisturbed (db_addrs s - {}) s s'" by (rule undisturbedI) (simp_all add: s')
  then show ?thesis by (rule sys_inv_undisturbed [OF inv osi]) simp
qed

section \<open>Steps of a database\<close>

definition open_at :: "osi \<Rightarrow> uptr \<Rightarrow> database_t \<Rightarrow> bool" where
  "open_at s a d \<longleftrightarrow> heap s a = Some (Database d) \<and> closing s a = None"

abbreviation rest :: "(uptr \<Rightarrow> uptr list) \<Rightarrow> osi \<Rightarrow> uptr \<Rightarrow> database_t \<Rightarrow> nat set" where
  "rest T s a d \<equiv> sqlite_objs s - conn (heap s) d (T a)"

lemma sys_db:
  assumes "sys_inv T s" and "open_at s a d"
  shows "db_inv {#} (rest T s a d) a d (T a) s" "d_db d \<le> length (calls s)"
  using sys_invD(2) [OF assms(1), of a "Database d"] assms(2) by (simp_all add: open_at_def)

text \<open>No pending work refers to the bindings at an address.\<close>

definition unreferenced :: "osi \<Rightarrow> uptr \<Rightarrow> bool" where
  "unreferenced s p \<longleftrightarrow> (\<forall>a d. heap s a = Some (Database d) \<longrightarrow> p \<notin> refs (heap s) (Database d))"

lemma fresh_aside:
  assumes inv: "sys_inv T s" and sp: "spares {..mallocs s} A s s'" and A: "A \<subseteq> {mallocs s<..}"
  shows "aside T {..mallocs s} A s s'"
proof -
  have "foot s (T p) p \<subseteq> {..mallocs s} \<and> refs (heap s) x \<inter> A = {}" if "heap s p = Some x" "owner x" for p x
  proof
    show "foot s (T p) p \<subseteq> {..mallocs s}" using foot_db_addr [OF inv that] db_addrs_below [OF sys_invD(1) [OF inv]] by blast
    show "refs (heap s) x \<inter> A = {}"
      using refs_bindings [OF inv that] A osi_inv_above [OF sys_invD(1) [OF inv]] by fastforce
  qed
  then show ?thesis using inv sp unfolding aside_def bystanders_def by blast
qed

lemma actor_aside:
  assumes inv: "sys_inv T s" and a: "heap s a = Some x" "owner x" and un: "\<And>bs. x = Bindings bs \<Longrightarrow> unreferenced s a"
    and sp: "spares ({..mallocs s} - foot s (T a) a) A s s'" and A: "A \<subseteq> insert a {mallocs s<..}" "a \<in> A"
  shows "aside T ({..mallocs s} - foot s (T a) a) A s s'"
proof -
  have "foot s (T p) p \<subseteq> {..mallocs s} - foot s (T a) a \<and> refs (heap s) y \<inter> A = {}" if y: "heap s p = Some y" "owner y" "p \<noteq> a" for p y
  proof
    have "foot s (T p) p \<inter> foot s (T a) a = {}" by (rule foot_disjoint [OF inv y(1,2) a y(3)])
    moreover have "foot s (T p) p \<subseteq> {..mallocs s}" using foot_db_addr [OF inv y(1,2)] db_addrs_below [OF sys_invD(1) [OF inv]] by blast
    ultimately show "foot s (T p) p \<subseteq> {..mallocs s} - foot s (T a) a" by blast
    have "a \<notin> refs (heap s) y"
    proof
      assume r: "a \<in> refs (heap s) y"
      then obtain d where d: "y = Database d" by (auto simp: refs_def split: cobj.splits)
      have "\<exists>bs. x = Bindings bs" using refs_bindings [OF inv y(1,2) r] a osi_inv_null [OF sys_invD(1) [OF inv]] by auto
      then show False using un r d y(1) by (auto simp: unreferenced_def)
    qed
    moreover have "q \<le> mallocs s" if "q \<in> refs (heap s) y" for q
      using refs_bindings [OF inv y(1,2) that] osi_inv_addr [OF sys_invD(1) [OF inv], of q] by auto
    ultimately show "refs (heap s) y \<inter> A = {}" using A(1) by fastforce
  qed
  then show ?thesis using inv sp A(2) unfolding aside_def bystanders_def by blast
qed

lemma db_aside:
  assumes inv: "sys_inv T s" and a: "open_at s a d" and loc: "db_local a d (T a) s s'"
  shows "aside T ({..mallocs s} - region s a d (T a)) {a} s s'"
proof -
  have mine: "region s a d (T a) = foot s (T a) a" using a by (auto simp: open_at_def region_def foot_def blocks_at_some)
  show ?thesis unfolding mine
    by (rule actor_aside [OF inv, of a "Database d"]) (use a loc mine in \<open>auto simp: open_at_def db_local_def\<close>)
qed

lemma left_db: "open_at s a d \<Longrightarrow> left T {a} s = rest T s a d"
  by (simp add: left_def objs_def open_at_def)

lemma sys_inv_db:
  assumes inv: "sys_inv T s" and a: "open_at s a d" and loc: "db_local a d (T a) s s'"
    and db: "db_inv {#} (rest T s a d) a d' xs' s'" and grow: "objs_grow s s'" and num: "d_thread d' = Gone \<Longrightarrow> d_db d' \<le> length (calls s)"
  shows "evolves {a} T s s'"
proof (rule evolvesI [OF db_aside [OF inv a loc] sys_inv_step [OF db_aside [OF inv a loc], where T' = "T(a := xs')"]])
  note D = db_invD [OF db]
  have calls: "length (calls s) \<le> length (calls s')" using loc sparesD(2) unfolding db_local_def by blast
  have o: "objs s' xs' a = conn (heap s') d' xs'" using D(2,3) by (simp add: objs_def)
  have lft: "left T {a} s = rest T s a d" by (rule left_db [OF a])
  have old: "objs s (T a) a = conn (heap s) d (T a)" using a by (simp add: objs_def open_at_def)
  show "osi_inv {#} s'" by (rule D(1))
  show "sqlite_objs s' = left T {a} s \<union> (\<Union>p \<in> {a}. objs s' ((T(a := xs')) p) p)" using db_inv_conn(1) [OF db] o lft by simp
  show "(\<Union>p \<in> {a}. objs s' ((T(a := xs')) p) p) \<subseteq> (\<Union>q \<in> {a}. objs s (T q) q) \<union> {length (calls s)<..}"
    using db_inv_conn [OF db] grow o old by (auto simp: objs_grow_def)
  show "0 \<notin> sqlite_objs s'"
    using sys_invD(6) [OF inv] grow by (auto simp: objs_grow_def)
  show bound: "\<forall>n \<in> sqlite_objs s'. n \<le> length (calls s')" using D(5) by (simp add: registry_def)
  show "party_ok s' p ((T(a := xs')) p) x" if "p \<in> {a}" "heap s' p = Some x" "owner x" for p x
  proof -
    have "d_db d' \<le> length (calls s')"
    proof (cases "d_thread d' = Gone")
      case True
      then show ?thesis using num calls by simp
    next
      case False
      then have "d_db d' \<in> sqlite_objs s'" using db_inv_conn(1) [OF db] by (simp add: conn_def)
      then show ?thesis using bound by blast
    qed
    then show ?thesis using that D(2,3) db db_inv_rest [OF db] by auto
  qed
  show "blocks_at s' p \<subseteq> (\<Union>q \<in> {a}. blocks_at s q) \<union> {mallocs s<..}" if "p \<in> {a}" for p
    using that loc D(3) a by (simp add: db_local_def blocks_at_some open_at_def)
qed auto

lemma sys_inv_db_closed:
  assumes inv: "sys_inv T s" and a: "open_at s a d" and loc: "db_local a d (T a) s s'" and osi: "osi_inv {#} s'"
    and d': "heap s' a = Some (Database d')" "closing s' a \<noteq> None" "d_arg d' = Db_null" and objs: "sqlite_objs s' = rest T s a d"
  shows "evolves {a} T s s'"
proof (rule evolvesI [OF db_aside [OF inv a loc] sys_inv_step [OF db_aside [OF inv a loc] osi, where T' = "T(a := [])"]])
  have calls: "length (calls s) \<le> length (calls s')" using loc sparesD(2) unfolding db_local_def by blast
  have none: "objs s' [] a = {}" "blocks_at s' a = {}" using d' by (auto simp: objs_def blocks_at_some)
  show "sqlite_objs s' = left T {a} s \<union> (\<Union>p \<in> {a}. objs s' ((T(a := [])) p) p)" using none objs left_db [OF a] by simp
  show "(\<Union>p \<in> {a}. objs s' ((T(a := [])) p) p) \<subseteq> (\<Union>q \<in> {a}. objs s (T q) q) \<union> {length (calls s)<..}" using none by simp
  show "0 \<notin> sqlite_objs s'" "\<forall>n \<in> sqlite_objs s'. n \<le> length (calls s')" using sys_invD(6,7) [OF inv] objs calls by fastforce+
  show "party_ok s' p ((T(a := [])) p) x" if "p \<in> {a}" "heap s' p = Some x" "owner x" for p x using that d' by auto
  show "blocks_at s' p \<subseteq> (\<Union>q \<in> {a}. blocks_at s q) \<union> {mallocs s<..}" if "p \<in> {a}" for p using that none by simp
qed auto

lemma not_gone: "db_inv X B a d xs s \<Longrightarrow> \<not> d_busy d \<or> \<not> d_async_sent d \<Longrightarrow> d_thread d \<noteq> Gone"
  by (drule db_invD(6)) (auto simp: protocol_def split: if_splits)

text \<open>The operations of Scheme on a database, with what is promised.\<close>

lemma sys_inv_ask:
  assumes inv: "sys_inv T s" and a: "open_at s a d" and ok: "ask_ok a q s"
  shows "\<exists>r s'. ask E a q s = Some (r, s') \<and> evolves {a} T s s' \<and> g_callbacks s' = g_callbacks s
     \<and> owed s' = owed s + (if r = Strue then {#ask_cb q#} else {#})"
proof -
  note db = sys_db [OF inv a]
  obtain r s' d' where r: "ask E a q s = Some (r, s')" "db_inv {#} (rest T s a d) a d' (T a) s'" "g_callbacks s' = g_callbacks s"
    and o: "if r = Strue then \<not> d_busy d \<and> d_busy d' \<and> d_callback d' = ask_cb q \<and> \<not> d_async_sent d' \<and> owed s' = add_mset (ask_cb q) (owed s)
       else error_pair r \<and> d' = d \<and> owed s' = owed s \<and> heap s' = heap s \<and> locked s' = locked s"
    using ask_requested [OF db(1) ok, of E] unfolding requested_def by blast
  have "objs_grow s s'" using ask_objs [OF r(1)] by (auto simp: objs_grow_def)
  moreover have "d_db d' \<le> length (calls s)" if "d_thread d' = Gone" using that o not_gone [OF r(2)] db(2) by (auto split: if_splits)
  ultimately have "evolves {a} T s s'" by (rule sys_inv_db [OF inv a ask_local [OF db(1) ok r(1)] r(2)])
  then show ?thesis using r o by (auto split: if_splits)
qed

lemma sys_inv_immediate:
  assumes inv: "sys_inv T s" and a: "open_at s a d" and im: "immediate {#} (rest T s a d) a d (T a) s res"
  shows "\<exists>r s'. res = Some (r, s') \<and> evolves {a} T s s' \<and> g_callbacks s' = g_callbacks s \<and> owed s' = owed s"
proof -
  obtain r s' where r: "res = Some (r, s')" "db_inv {#} (rest T s a d) a d (T a) s'" "heap s' = heap s" "owed s' = owed s" "g_callbacks s' = g_callbacks s"
    "mallocs s \<le> mallocs s'" "length (calls s) \<le> length (calls s')" "closing s' = closing s" "sqlite_objs s' = sqlite_objs s"
    using im unfolding immediate_def by blast
  have "evolves {} T s s'" by (rule sys_inv_quiet [OF inv db_invD(1) [OF r(2)] r(3,8,9,6,7)])
  then have "evolves {a} T s s'" by (rule evolves_mono) simp
  then show ?thesis using r by blast
qed

lemma sys_inv_now:
  assumes inv: "sys_inv T s" and a: "open_at s a d" and ok: "now_ok a c s"
  shows "\<exists>r s'. now E try64 msg c s = Some (r, s') \<and> evolves {a} T s s' \<and> g_callbacks s' = g_callbacks s \<and> owed s' = owed s"
  by (rule sys_inv_immediate [OF inv a now_immediate [OF sys_db(1) [OF inv a] ok]])

text \<open>The queries, interrupting the work of a database, and the statistics of SQLite.\<close>

datatype db_query = Expanded_sql uptr "u8 list option" | Last_rowid u64

fun query :: "env \<Rightarrow> uptr \<Rightarrow> db_query \<Rightarrow> osi \<Rightarrow> (ptr \<times> osi) option" where
  "query E a (Expanded_sql x sql) s = osi_get_statement_expanded_sql E sql x s"
| "query E a (Last_rowid rowid) s = osi_get_last_insert_rowid E rowid a s"

fun query_ok :: "uptr \<Rightarrow> db_query \<Rightarrow> osi \<Rightarrow> bool" where
  "query_ok a (Expanded_sql x sql) s \<longleftrightarrow> on_list s a x"
| "query_ok a (Last_rowid rowid) s \<longleftrightarrow> True"

lemma rowid_immediate:
  assumes inv: "db_inv X B a d xs s"
  shows "immediate X B a d xs s (osi_get_last_insert_rowid E rowid a s)"
proof (cases "d_busy d")
  case True
  then show ?thesis using db_invD(3) [OF inv] immediate_busy [OF inv True] by (simp add: osi_get_last_insert_rowid_def load_db_def)
next
  case False
  have "d_db d \<in> sqlite_objs s" using db_live [OF inv] protocol_idle [OF db_invD(6) [OF inv] False] by auto
  then show ?thesis using False db_invD(3) [OF inv] immediateI [OF inv False, of s] by (simp add: osi_get_last_insert_rowid_def load_db_def)
qed

lemma sys_inv_query:
  assumes inv: "sys_inv T s" and a: "open_at s a d" and ok: "query_ok a c s"
  shows "\<exists>r s'. query E a c s = Some (r, s') \<and> evolves {a} T s s' \<and> g_callbacks s' = g_callbacks s \<and> owed s' = owed s"
proof (rule sys_inv_immediate [OF inv a])
  note db = sys_db(1) [OF inv a]
  show "immediate {#} (rest T s a d) a d (T a) s (query E a c s)"
    using ok query_immediate(2) [OF db on_list_registered [OF db]] rowid_immediate [OF db] by (cases c) auto
qed

lemma sys_inv_call:
  assumes inv: "sys_inv T s"
  shows "evolves {} T s (s\<lparr>calls := calls s @ cs\<rparr>)" "owed (s\<lparr>calls := calls s @ cs\<rparr>) = owed s"
proof -
  have "osi_inv {#} (s\<lparr>calls := calls s @ cs\<rparr>)" by (rule osi_inv_same [OF sys_invD(1) [OF inv]]) simp_all
  then show "evolves {} T s (s\<lparr>calls := calls s @ cs\<rparr>)" by (rule sys_inv_quiet [OF inv]) simp_all
  show "owed (s\<lparr>calls := calls s @ cs\<rparr>) = owed s" by (simp add: owed_def)
qed

lemma protocol_gone: "db_inv X B a d xs s \<Longrightarrow> d_thread d = Gone \<Longrightarrow> xs = []"
  by (drule db_invD(6)) (auto simp: protocol_def done_ok_def split: if_splits)

text \<open>An interrupt reaches a connection that exists, unless the thread has already closed it.\<close>

lemma interrupt_eq:
  assumes inv: "sys_inv T s" and a: "open_at s a d"
  shows "osi_interrupt_database E a s =
     (if d_thread d = Gone then None
      else Some (if d_busy d then Strue else Sfalse, s\<lparr>calls := calls s @ [Sql (Sqlite3_interrupt (d_db d))]\<rparr>))"
proof -
  note db = sys_db(1) [OF inv a]
  have "d_db d \<in> sqlite_objs s \<longleftrightarrow> d_thread d \<noteq> Gone"
  proof (cases "d_thread d = Gone")
    case True
    then have "conn (heap s) d (T a) = {}" using protocol_gone [OF db] by (simp add: conn_def)
    then show ?thesis using db_invD(4) [OF db] True by simp
  qed (simp add: db_live [OF db])
  then show ?thesis using a by (simp add: osi_interrupt_database_def load_db_def open_at_def db_do_def uv_do_def)
qed

lemma sys_inv_finalize:
  assumes inv: "sys_inv T s" and a: "open_at s a d" and x: "on_list s a x"
  shows "\<exists>r s'. osi_finalize_statement E x s = Some (r, s') \<and> evolves {a} T s s' \<and> g_callbacks s' = g_callbacks s \<and> owed s' = owed s"
proof -
  note db = sys_db [OF inv a]
  have xs: "x \<in> set (T a)" by (rule on_list_registered [OF db(1) x])
  note fin = finalize_statement_removes [OF db(1) xs, of E]
  show ?thesis
  proof (cases "d_busy d")
    case True
    then show ?thesis using fin evolves_refl [OF inv] by (auto simp: finalized_def)
  next
    case False
    then obtain s' q where r: "osi_finalize_statement E x s = Some (Strue, s')"
      "db_inv {#} (rest T s a d) a (d\<lparr>d_statement := q\<rparr>) (remove1 x (T a)) s'"
      "sqlite_objs s' = sqlite_objs s - set (handles (heap s) [x])" "owed s' = owed s" "g_callbacks s' = g_callbacks s"
      using fin unfolding finalized_def by auto
    have "evolves {a} T s s'"
      by (rule sys_inv_db [OF inv a finalize_local [OF db(1) xs r(1)] r(2)]) (use r(3) db(2) in \<open>auto simp: objs_grow_def\<close>)
    then show ?thesis using r by blast
  qed
qed

text \<open>A statement that outlived its database is only freed.\<close>

lemma sys_inv_finalize_orphan:
  assumes inv: "sys_inv T s" and x: "heap s x = Some (Statement st)" "st_database st = 0"
  shows "\<exists>s'. osi_finalize_statement E x s = Some (Strue, s') \<and> evolves {} T s s' \<and> g_callbacks s' = g_callbacks s \<and> owed s' = owed s"
proof -
  let ?s = "s\<lparr>heap := (heap s)(x := None)\<rparr>"
  have x0: "x \<noteq> 0" using x(1) osi_inv_null [OF sys_invD(1) [OF inv]] by (metis option.distinct(1))
  have osi: "osi_inv {#} ?s" using closing_statement [OF sys_invD(1) [OF inv] x(1)]
    by (intro osi_inv_del [OF sys_invD(1) [OF inv] x(1)]) (simp_all add: fun_upd_idem)
  have "foot s (T p) p \<subseteq> - {x}" if "heap s p = Some y" "owner y" for p y
    using that x sys_block_leaf [OF inv, of x p] party_statement [OF sys_invD(2) [OF inv that] that(2), of x]
    by (auto simp: foot_def dest: leaf_simps(3))
  moreover have "spares (- {x}) {} s ?s" by (rule sparesI) (auto split: if_splits)
  ultimately have as: "aside T (- {x}) {} s ?s" using inv by (auto simp: aside_def bystanders_def)
  have "sys_inv T ?s" using sys_invD(6,7) [OF inv] by (intro sys_inv_step [OF as osi]) (auto simp: left_def)
  then have "evolves {} T s ?s" by (rule evolvesI [OF as]) simp_all
  moreover have "owed ?s = owed s" using owed_del [OF sys_invD(1) [OF inv] x(1), of ?s] by simp
  ultimately show ?thesis using x x0 by (simp add: osi_finalize_statement_def load_stmt_def c_free_def)
qed

text \<open>The thread of a database, and the completion in the event loop.\<close>

lemma sys_inv_thread:
  assumes inv: "sys_inv T s" and a: "open_at s a d" and th: "d_thread d \<noteq> Gone"
  shows "\<exists>s'. database_worker E out a s = Some s' \<and> evolves {a} T s s' \<and> g_callbacks s' = g_callbacks s \<and> owed s' = owed s"
proof -
  note db = sys_db [OF inv a]
  obtain s' d' xs' where r: "database_worker E out a s = Some s'" "db_inv {#} (rest T s a d) a d' xs' s'"
    "owed s' = owed s" "g_callbacks s' = g_callbacks s"
    using database_worker_step [OF db(1) th, of E out] unfolding thread_step_def by blast
  note w = database_worker_objs [OF db(1) r(1)]
  have "evolves {a} T s s'"
    by (rule sys_inv_db [OF inv a database_worker_local [OF db(1) r(1)] r(2) w(1)]) (use w(2) [OF db_invD(3) [OF r(2)]] db(2) in simp)
  then show ?thesis using r by blast
qed

lemma bulk_cb_closing: "bulk_cb E msg a s = Some s' \<Longrightarrow> closing s' = closing s"
proof -
  have free: "c_free b s = Some s' \<Longrightarrow> closing s' = closing s" for b s s' by (auto simp: c_free_def split: if_splits)
  have fin: "finish_work arg b d s = Some s' \<Longrightarrow> closing s' = closing s" for arg b d s s' by (auto simp: finish_work_def osi_ops split: if_splits)
  have queue: "osi_add_callback1 cb v s = Some s' \<Longrightarrow> closing s' = closing s" for cb v s s' by (auto simp: osi_queue split: option.splits)
  show "bulk_cb E msg a s = Some s' \<Longrightarrow> closing s' = closing s"
    by (auto simp: bulk_cb_def Let_def bind_eq_Some_conv dest!: free fin queue split: if_splits db_union.splits)
qed

lemma closing_no_arg:
  assumes inv: "db_inv X B a d xs s" and sent: "d_async_sent d" and run: "async_cb E out a s = Some s'"
    and a: "heap s' a = Some (Database d')" "closing s' a \<noteq> None"
  shows "d_arg d' = Db_null"
proof -
  note D = db_invD [OF inv]
  obtain w where w: "d_async_data d = Some (cb_of w)" "arg_ok w d xs s" by (rule protocol_done [OF D(6) sent])
  show ?thesis
  proof (cases w)
    case Close_worker
    then have "d_arg d = Db_null" using w(2) by (simp add: arg_ok_def)
    then show ?thesis using run a D(2,3) w(1) Close_worker
      by (auto simp: async_cb_def close_cb_def finish_work_def load_db_def make_sqlite_error_def Let_def osi_ops osi_queue split: if_splits option.splits bind_splits)
  next
    case Prepare_worker
    then show ?thesis using run a D(2,3) w(1)
      by (auto simp: async_cb_def prepare_cb_def finish_work_def load_db_def make_sqlite_error_def Let_def osi_ops osi_queue split: if_splits option.splits bind_splits)
  next
    case Step_worker
    then show ?thesis using run a D(2,3) w(1)
      by (auto simp: async_cb_def step_cb_def finish_work_def load_db_def make_sqlite_error_def Let_def osi_ops osi_queue
          split: if_splits option.splits bind_splits prod.splits dest!: row_loop_heap)
  next
    case Bulk_worker
    then have "closing s' = closing s" using run D(3) w(1) bulk_cb_closing by (fastforce simp: async_cb_def load_db_def store_def)
    then show ?thesis using D(2) a by simp
  qed
qed

lemma sys_inv_answer:
  assumes inv: "sys_inv T s" and a: "open_at s a d" and sent: "d_async_sent d" and q: "g_callbacks s = Some q"
  shows "event_accounts {#} {#} s (async_cb E out a s) \<and> (\<exists>s'. async_cb E out a s = Some s' \<and> evolves {a} T s s')"
proof
  note db = sys_db [OF inv a]
  note ans = async_cb_answers [OF db(1) sent q, of E out, unfolded answered_def]
  show "event_accounts {#} {#} s (async_cb E out a s)" using ans completes_accounts by blast
  obtain s' where r: "async_cb E out a s = Some s'" "osi_inv {#} s'" using ans unfolding completes_def by blast
  note loc = async_cb_local [OF db(1) sent r(1)]
  have grow: "objs_grow s s'" using async_cb_objs [OF r(1)] by (simp add: objs_grow_def)
  from ans r(1) consider (idle) d' xs' where "db_inv {#} (rest T s a d) a d' xs' s'" "\<not> d_busy d'"
    | (closed) d' where "closing s' a = Some Close_free_cb" "heap s' a = Some (Database d')" "sqlite_objs s' = rest T s a d" by auto
  then show "\<exists>s'. async_cb E out a s = Some s' \<and> evolves {a} T s s'"
  proof cases
    case idle
    have "evolves {a} T s s'" by (rule sys_inv_db [OF inv a loc idle(1) grow]) (use not_gone [OF idle(1)] idle(2) in simp)
    then show ?thesis using r by blast
  next
    case closed
    have "d_arg d' = Db_null" by (rule closing_no_arg [OF db(1) sent r(1) closed(2)]) (simp add: closed(1))
    then have "evolves {a} T s s'" using closed by (intro sys_inv_db_closed [OF inv a loc r(2)]) simp_all
    then show ?thesis using r by blast
  qed
qed

section \<open>Opening a database\<close>

text \<open>A new party that has no SQLite objects yet: an open request or bindings.\<close>

lemma sys_inv_fresh:
  assumes inv: "sys_inv T s" and osi: "osi_inv {#} s'" and a: "mallocs s < a" "heap s' a = Some x" "closing s' a = None"
    and new: "objs s' [] a = {}" "party_ok s' a [] x" "blocks (heap s') x \<subseteq> {mallocs s<..}"
    and s': "\<And>b. b \<le> mallocs s \<Longrightarrow> heap s' b = heap s b" "\<And>b y. mallocs s < b \<Longrightarrow> b \<noteq> a \<Longrightarrow> heap s' b = Some y \<Longrightarrow> \<not> owner y"
      "closing s' = closing s" "sqlite_objs s' = sqlite_objs s" "mallocs s \<le> mallocs s'" "length (calls s) \<le> length (calls s')"
  shows "evolves {} T s s'"
proof (rule evolvesI)
  have "spares {..mallocs s} {a} s s'"
  proof (rule sparesI)
    show "heap s b = Some y" if "b \<notin> {a}" "heap s' b = Some y" "owner y" for b y
      using s'(1) [of b] s'(2) [of b y] that by (cases "b \<le> mallocs s") auto
  qed (use s' in simp_all)
  then show as: "aside T {..mallocs s} {a} s s'" using a(1) by (intro fresh_aside [OF inv]) auto
  show "heap s p \<noteq> Some (Database d)" if "p \<in> {a}" for p d using that osi_inv_above [OF sys_invD(1) [OF inv] a(1)] by simp
  show "sys_inv (T(a := [])) s'"
  proof (rule sys_inv_step [OF as])
    have none: "objs s (T a) a = {}" using osi_inv_above [OF sys_invD(1) [OF inv] a(1)] by simp
    show "sqlite_objs s' = left T {a} s \<union> (\<Union>p \<in> {a}. objs s' ((T(a := [])) p) p)" using new(1) none s'(4) by (simp add: left_def)
    show "0 \<notin> sqlite_objs s'" "\<forall>n \<in> sqlite_objs s'. n \<le> length (calls s')" using sys_invD(6,7) [OF inv] s'(4,6) by fastforce+
    show "blocks_at s' p \<subseteq> (\<Union>q \<in> {a}. blocks_at s q) \<union> {mallocs s<..}" if "p \<in> {a}" for p
      using that new(3) a(2) by (auto simp: blocks_at_some)
  qed (use osi new a in auto)
qed auto

lemma sys_inv_open:
  assumes inv: "sys_inv T s"
  shows "\<exists>r s'. osi_open_database E name flags cb s = Some (r, s') \<and> evolves {} T s s' \<and> g_callbacks s' = g_callbacks s
     \<and> owed s' = owed s + (if r = Strue then {#cb#} else {#}) \<and> (r = Strue \<or> error_pair r)"
proof -
  note osi = sys_invD(1) [OF inv]
  let ?m = "mallocs s"
  have ne: "osi_make_error_pair w e \<noteq> Strue" for w e by (simp add: osi_make_error_pair_def)
  have refused: ?thesis if "osi_open_database E name flags cb s = Some (osi_make_error_pair w e, s')"
    "heap s' = heap s" "locked s' = locked s" "?m \<le> mallocs s'" "closing s' = closing s" "sqlite_objs s' = sqlite_objs s"
    "length (calls s) \<le> length (calls s')" "g_callbacks s' = g_callbacks s" for w e s'
  proof -
    have "osi_inv {#} s'" by (rule osi_inv_same [OF osi that(2-5)])
    then have "evolves {} T s s'" by (rule sys_inv_quiet [OF inv _ that(2,5,6,4,7)])
    then show ?thesis using that ne by (auto simp: owed_def)
  qed
  show ?thesis
  proof (cases "oom E ?m \<or> uv E (Hnd (Uv_queue_work (Suc ?m))) (length (calls s)) < 0")
    case True
    have "heap s (Suc ?m) = None" "heap s (Suc (Suc ?m)) = None" by (rule osi_inv_above [OF osi], simp)+
    then have h: "(heap s)(Suc ?m := None) = heap s" "(heap s)(Suc (Suc ?m) := None, Suc ?m := None) = heap s"
      by (auto simp: fun_eq_iff)
    show ?thesis
    proof (cases "oom E ?m")
      case oom: True
      then show ?thesis by (intro refused [where s' = "s\<lparr>mallocs := Suc ?m\<rparr>"]) (auto simp: osi_open_database_def osi_ops)
    next
      case False
      let ?s = "s\<lparr>mallocs := Suc (Suc ?m), calls := calls s @ [Hnd (Uv_queue_work (Suc ?m))]\<rparr>"
      have "osi_open_database E name flags cb s =
          Some (osi_make_error_pair ''uv_queue_work'' (uv E (Hnd (Uv_queue_work (Suc ?m))) (length (calls s))), ?s)"
        using False True h by (cases "oom E (Suc ?m)") (simp_all add: osi_open_database_def osi_ops fun_upd_twist)
      then show ?thesis by (rule refused) simp_all
    qed
  next
    case False
    let ?f = "if oom E (Suc ?m) then 0 else Suc (Suc ?m)"
    let ?r = "\<lparr>or_filename = ?f, or_flags = flags, or_callback = cb, or_db = 0, or_sqlite_rc = 0\<rparr>"
    let ?h = "if oom E (Suc ?m) then heap s else (heap s)(Suc (Suc ?m) \<mapsto> C_string name)"
    let ?s1 = "s\<lparr>mallocs := Suc (Suc ?m), heap := ?h\<rparr>"
    let ?s = "s\<lparr>mallocs := Suc (Suc ?m), heap := ?h(Suc ?m \<mapsto> Open_req ?r), locked := add_mset cb (locked s),
        calls := calls s @ [Hnd (Uv_queue_work (Suc ?m))]\<rparr>"
    have run: "osi_open_database E name flags cb s = Some (Strue, ?s)"
      using False by (simp add: osi_open_database_def osi_ops fun_upd_twist)
    have free: "heap s (Suc ?m) = None" "heap s (Suc (Suc ?m)) = None" by (rule osi_inv_above [OF osi], simp)+
    have osi1: "osi_inv {#} ?s1 \<and> owed ?s1 = owed s"
    proof (cases "oom E (Suc ?m)")
      case True
      then show ?thesis using osi_inv_same [OF osi, of ?s1] by (simp add: owed_def)
    next
      case False
      have "heap_ok (heap ?s1)" using False heap_ok_new [OF osi_inv_heap [OF osi] free(2)] by simp
      then show ?thesis using False free(2) osi_inv_add [OF osi free(2), of ?s1 "C_string name"] owed_add [OF osi free(2), of ?s1 "C_string name"] by simp
    qed
    have free1: "heap ?s1 (Suc ?m) = None" using free by simp
    have ok: "heap_ok (heap ?s)" using heap_ok_new [OF osi_inv_heap [OF osi1 [THEN conjunct1]] free1, of "Open_req ?r"] by simp
    have osi2: "osi_inv {#} ?s" by (rule osi_inv_add [OF osi1 [THEN conjunct1] free1, where x = "Open_req ?r"]) (use ok in simp_all)
    have owed2: "owed ?s = add_mset cb (owed s)" using owed_add [OF osi1 [THEN conjunct1] free1, of ?s "Open_req ?r"] osi1 by simp
    have "closing s (Suc ?m) = None" by (rule osi_inv_fresh_closing [OF osi])
    then have "evolves {} T s ?s"
      by (intro sys_inv_fresh [OF inv osi2, of "Suc ?m" "Open_req ?r"]) (use osi_inv_above [OF osi] in \<open>auto simp: objs_def split: if_splits\<close>)
    then show ?thesis using run owed2 by (intro exI [of _ Strue] exI [of _ ?s]) auto
  qed
qed

text \<open>
  A request waits for the pool until SQLite's answer is stored in it; on success SQLite has made a connection.
\<close>

definition pending_open :: "open_req_t \<Rightarrow> bool" where
  "pending_open r \<longleftrightarrow> or_db r = 0 \<and> or_sqlite_rc r = SQLITE_OK"

definition open_answer :: "env \<Rightarrow> open_req_t \<Rightarrow> osi \<Rightarrow> int" where
  "open_answer E r s =
     uv E (Sql (Sqlite3_open_v2 (case heap s (or_filename r) of Some (C_string t) \<Rightarrow> t | _ \<Rightarrow> []) (or_flags r))) (length (calls s))"

lemma sys_inv_pool:
  assumes inv: "sys_inv T s" and req: "heap s req = Some (Open_req r)" "pending_open r"
  shows "\<exists>s'. open_worker E g req s = Some s' \<and> evolves {} T s s' \<and> g_callbacks s' = g_callbacks s \<and> owed s' = owed s"
proof -
  note osi = sys_invD(1) [OF inv]
  have nmok: "T req = []" "or_filename r \<noteq> 0 \<longrightarrow> (\<exists>t. heap s (or_filename r) = Some (C_string t))" using sys_invD(2) [OF inv req(1)] by auto
  obtain nm where nm: "(if or_filename r = 0 then Some [] else case heap s (or_filename r) of Some (C_string t) \<Rightarrow> Some t | _ \<Rightarrow> None) = Some nm"
    using nmok(2) by (cases "or_filename r = 0") auto
  let ?c = "calls s @ [Sql (Sqlite3_open_v2 nm (or_flags r))]" and ?n = "if g then Suc (length (calls s)) else 0"
  let ?r = "r\<lparr>or_db := ?n, or_sqlite_rc := uv E (Sql (Sqlite3_open_v2 nm (or_flags r))) (length (calls s))\<rparr>"
  let ?s = "s\<lparr>calls := ?c, sqlite_objs := (if g then insert ?n (sqlite_objs s) else sqlite_objs s), heap := (heap s)(req \<mapsto> Open_req ?r)\<rparr>"
  have run: "open_worker E g req s = Some ?s"
    unfolding open_worker_def load_open_req_def using nm req(1) by (simp add: uv_do_def store_def)
  have cl: "closing s req = None" by (rule osi_inv_not_closing [OF osi req(1)]) simp
  have osi': "osi_inv {#} ?s" using cl by (intro osi_inv_upd [OF osi req(1), where y = "Open_req ?r"]) simp_all
  have owed: "owed ?s = owed s" using owed_upd [OF osi req(1), of ?s "Open_req ?r"] by simp
  have old: "objs s (T req) req = {}" using req by (simp add: objs_def pending_open_def)
  have new: "objs ?s (T req) req = {?n} - {0}" by (simp add: objs_def)
  have bound: "\<forall>n \<in> sqlite_objs s. n \<le> length (calls s)" by (rule sys_invD(7) [OF inv])
  have "spares ({..mallocs s} - foot s (T req) req) {req} s ?s" by (rule sparesI) (auto simp: foot_def split: if_splits)
  then have as: "aside T ({..mallocs s} - foot s (T req) req) {req} s ?s" by (intro actor_aside [OF inv req(1)]) auto
  have "sys_inv T ?s"
  proof (rule sys_inv_step [OF as])
    show "osi_inv {#} ?s" by (rule osi')
    show "sqlite_objs ?s = left T {req} s \<union> (\<Union>p \<in> {req}. objs ?s (T p) p)" using old new by (auto simp: left_def)
    show "(\<Union>p \<in> {req}. objs ?s (T p) p) \<subseteq> (\<Union>q \<in> {req}. objs s (T q) q) \<union> {length (calls s)<..}" using new by auto
    show "0 \<notin> sqlite_objs ?s" using sys_invD(6) [OF inv] by simp
    show "\<forall>n \<in> sqlite_objs ?s. n \<le> length (calls ?s)" using bound by (auto intro: le_SucI)
    show "party_ok ?s p (T p) x" if "p \<in> {req}" "heap ?s p = Some x" "owner x" for p x
      using that nmok req(1) by auto
    show "blocks_at ?s p \<subseteq> (\<Union>q \<in> {req}. blocks_at s q) \<union> {mallocs s<..}" if "p \<in> {req}" for p
      using that req(1) by (simp add: blocks_at_def)
  qed auto
  then have "evolves {} T s ?s" using req(1) by (intro evolvesI [OF as]) auto
  then show ?thesis using run owed by (intro exI [of _ ?s]) simp
qed

text \<open>What the end of an open leaves in the heap: nothing, a database that is being closed, or an open one.\<close>

definition opening_outcome :: "uptr \<Rightarrow> nat \<Rightarrow> osi \<Rightarrow> osi \<Rightarrow> bool" where
  "opening_outcome a db s s' \<longleftrightarrow>
     mallocs s \<le> mallocs s' \<and> length (calls s) \<le> length (calls s') \<and> (\<forall>b. b \<noteq> a \<longrightarrow> heap s' b = heap s b \<and> closing s' b = closing s b)
     \<and> ((heap s' a = None \<or> heap s' a = Some (Database (new_database db)) \<and> closing s' a \<noteq> None) \<and> sqlite_objs s' = sqlite_objs s - {db}
        \<or> heap s' a = Some (Database ((new_database db)\<lparr>d_thread := At_top\<rparr>)) \<and> closing s' a = None \<and> sqlite_objs s' = sqlite_objs s \<and> db \<in> sqlite_objs s)"

lemma start_database_outcome:
  assumes a: "heap s a = Some (Database (new_database db))" "closing s a = None" "a \<noteq> 0" and db: "db \<in> sqlite_objs s" "db \<noteq> 0"
    and ok: "\<forall>n. uv E (Sql (Sqlite3_close db)) n = SQLITE_OK" and run: "start_database E a db cb s = Some s'"
  shows "opening_outcome a db s s'"
  using run a db ok
  by (auto simp: opening_outcome_def start_database_def Let_def sqlite3_close_def db_do_def osi_ops osi_queue
      split: if_splits option.splits bind_splits)

lemma open_result_outcome:
  assumes osi: "osi_inv X s" and rc: "or_sqlite_rc r = SQLITE_OK \<longrightarrow> or_db r \<noteq> 0" and db: "or_db r \<noteq> 0 \<longrightarrow> or_db r \<in> sqlite_objs s" "0 \<notin> sqlite_objs s"
    and ok: "\<forall>n. uv E (Sql (Sqlite3_close (or_db r))) n = SQLITE_OK" and run: "open_result E xrc msg r s = Some s'"
  shows "opening_outcome (Suc (mallocs s)) (or_db r) s s'"
proof (cases "or_sqlite_rc r = SQLITE_OK \<and> \<not> oom E (mallocs s)")
  case True
  let ?a = "Suc (mallocs s)"
  let ?s = "s\<lparr>calls := calls s @ [Sql (Sqlite3_extended_result_codes (or_db r))], mallocs := ?a, heap := (heap s)(?a \<mapsto> Database (new_database (or_db r)))\<rparr>"
  have n: "or_db r \<noteq> 0" "or_db r \<in> sqlite_objs s" using True rc db by simp_all
  have "start_database E ?a (or_db r) (or_callback r) ?s = Some s'"
    using run True n by (simp add: open_result_def db_do_def uv_do_def malloc_container_def store_def)
  from start_database_outcome [OF _ _ _ _ n(1) ok this] have "opening_outcome ?a (or_db r) ?s s'"
    using n osi_inv_fresh_closing [OF osi] by simp
  then show ?thesis by (auto simp: opening_outcome_def)
next
  case False
  have "heap s (Suc (mallocs s)) = None" by (rule osi_inv_fresh [OF osi])
  then show ?thesis using run False rc db ok
    by (auto simp: opening_outcome_def open_result_def Let_def make_sqlite_error_def sqlite3_close_def db_do_def osi_ops osi_queue
      split: if_splits option.splits bind_splits)
qed

lemma released_shape:
  assumes "(do { s \<leftarrow> c_free nm s; s \<leftarrow> Sunlock_object cb s; c_free req s }) = Some s1"
  shows "mallocs s1 = mallocs s" "closing s1 = closing s" "sqlite_objs s1 = sqlite_objs s" "calls s1 = calls s"
    "b \<noteq> req \<Longrightarrow> b \<noteq> nm \<or> b = 0 \<Longrightarrow> heap s1 b = heap s b" "heap s1 b = Some x \<Longrightarrow> heap s b = Some x" "req \<noteq> 0 \<Longrightarrow> heap s1 req = None"
  using assms by (auto simp: c_free_def Sunlock_object_def split: if_splits bind_splits)

lemma opening_objs:
  assumes out: "opening_outcome a db s s'" and db: "db \<noteq> 0 \<longrightarrow> db \<in> sqlite_objs s" and zero: "0 \<notin> sqlite_objs s"
  shows "sqlite_objs s' = (sqlite_objs s - ({db} - {0})) \<union> objs s' [] a" "objs s' [] a \<subseteq> {db} - {0}" "sqlite_objs s' \<subseteq> sqlite_objs s"
proof -
  from out have alt: "(heap s' a = None \<or> heap s' a = Some (Database (new_database db)) \<and> closing s' a \<noteq> None) \<and> sqlite_objs s' = sqlite_objs s - {db}
      \<or> heap s' a = Some (Database ((new_database db)\<lparr>d_thread := At_top\<rparr>)) \<and> closing s' a = None \<and> sqlite_objs s' = sqlite_objs s \<and> db \<in> sqlite_objs s"
    unfolding opening_outcome_def by blast
  from alt have "objs s' [] a = sqlite_objs s' - (sqlite_objs s - {db}) \<and> sqlite_objs s - {db} \<subseteq> sqlite_objs s' \<and> sqlite_objs s' \<subseteq> sqlite_objs s"
  proof (elim disjE conjE)
    assume "heap s' a = None" and o: "sqlite_objs s' = sqlite_objs s - {db}"
    then have "objs s' [] a = {}" by simp
    then show ?thesis unfolding o by blast
  next
    assume h: "heap s' a = Some (Database (new_database db))" and c: "closing s' a \<noteq> None" and o: "sqlite_objs s' = sqlite_objs s - {db}"
    have "objs s' [] a = {}" unfolding objs_def h using c by (simp only: option.case cobj.case if_False)
    then show ?thesis unfolding o by blast
  next
    assume "heap s' a = Some (Database ((new_database db)\<lparr>d_thread := At_top\<rparr>))" "closing s' a = None"
      and o: "sqlite_objs s' = sqlite_objs s" "db \<in> sqlite_objs s"
    then have "objs s' [] a = {db}" by (simp add: objs_def conn_def new_database_def)
    then show ?thesis unfolding o(1) using o(2) by auto
  qed
  then show "sqlite_objs s' = (sqlite_objs s - ({db} - {0})) \<union> objs s' [] a" "objs s' [] a \<subseteq> {db} - {0}" "sqlite_objs s' \<subseteq> sqlite_objs s"
    using zero db by blast+
qed

lemma opening_party:
  assumes out: "opening_outcome a db s s'" and osi: "osi_inv {#} s'" and zero: "0 \<notin> sqlite_objs s"
    and bound: "\<forall>n \<in> sqlite_objs s'. n \<le> length (calls s')" and x: "heap s' a = Some x"
  shows "party_ok s' a [] x" "blocks_at s' a = {}"
proof -
  consider (closed) "x = Database (new_database db)" "closing s' a \<noteq> None"
    | (live) "x = Database ((new_database db)\<lparr>d_thread := At_top\<rparr>)" "closing s' a = None" "sqlite_objs s' = sqlite_objs s" "db \<in> sqlite_objs s"
    using out x unfolding opening_outcome_def by auto
  then have "party_ok s' a [] x \<and> blocks_at s' a = {}"
  proof cases
    case closed
    have "d_arg (new_database db) = Db_null" by (simp add: new_database_def)
    then show ?thesis using closed(2) x unfolding closed(1) party_ok.simps(1) by (simp only: if_False blocks_at_some blocks.simps db_union.case simp_thms)
  next
    case live
    let ?d = "(new_database db)\<lparr>d_thread := At_top\<rparr>"
    have "db \<noteq> 0" using live(4) zero by metis
    then have "db_inv {#} (sqlite_objs s' - conn (heap s') ?d []) a ?d [] s'"
      using osi x live bound by (auto simp: db_inv_def registry_def others_def conn_def protocol_def new_database_def)
    moreover have "d_db ?d \<le> length (calls s')" using bound live(3,4) by (simp add: new_database_def)
    ultimately show ?thesis using live(1,2) x by (simp add: blocks_at_some) (simp add: new_database_def)
  qed
  then show "party_ok s' a [] x" "blocks_at s' a = {}" by blast+
qed

text \<open>The request with its file name goes, and a database may take its place.\<close>

lemma opened_evolves:
  assumes inv: "sys_inv T s" and req: "heap s req = Some (Open_req r)" and osi': "osi_inv {#} s'"
    and rel: "(do { s \<leftarrow> c_free (or_filename r) s; s \<leftarrow> Sunlock_object (or_callback r) s; c_free req s }) = Some s1"
    and out: "opening_outcome (Suc (mallocs s)) (or_db r) s1 s'"
  shows "evolves {} T s s'"
proof -
  note osi = sys_invD(1) [OF inv] and shape = released_shape [OF rel]
  let ?A = "insert req {mallocs s<..}" and ?a = "Suc (mallocs s)" and ?db = "or_db r"
  let ?T = "\<lambda>p. if p \<in> ?A then [] else T p"
  have o: "mallocs s \<le> mallocs s'" "length (calls s) \<le> length (calls s')" "\<And>b. b \<noteq> ?a \<Longrightarrow> heap s' b = heap s1 b" "\<And>b. b \<noteq> ?a \<Longrightarrow> closing s' b = closing s b"
    using out unfolding opening_outcome_def shape by blast+
  have r0: "req \<noteq> 0" "req \<le> mallocs s" using osi_inv_addr [OF osi, of req] req by auto
  have only: "p = ?a" if "p \<in> ?A" "heap s' p = Some x" "owner x" for p x
  proof (rule ccontr)
    assume "p \<noteq> ?a"
    then have "heap s1 p = Some x" using that(2) o(3) by simp
    then show False using that(1) shape(6) [of p x] shape(7) r0 osi_inv_above [OF osi, of p] by auto
  qed
  have none: "objs s' [] p = {}" "blocks_at s' p = {}" if "p \<in> ?A" "p \<noteq> ?a" for p
    using only [OF that(1)] that(2) owns_something [of _ s' p] by blast+
  have foot: "foot s (T req) req = insert req ({or_filename r} - {0})" using sys_invD(2) [OF inv req] req by (simp add: foot_def blocks_at_some)
  have "spares ({..mallocs s} - foot s (T req) req) ?A s s'"
  proof (rule sparesI)
    show "heap s b = Some x" if "b \<notin> ?A" "heap s' b = Some x" "owner x" for b x
      using that o(3) [of b] shape(6) [of b x] by auto
  qed (use o shape(5) in \<open>auto simp: foot\<close>)
  then have as: "aside T ({..mallocs s} - foot s (T req) req) ?A s s'" by (intro actor_aside [OF inv req]) auto
  have old: "(\<Union>p \<in> ?A. objs s (T p) p) = {?db} - {0}" using req osi_inv_above [OF osi] by (auto simp: objs_def)
  have new: "(\<Union>p \<in> ?A. objs s' (?T p) p) = objs s' [] ?a" using none(1) by auto
  have db: "?db \<noteq> 0 \<longrightarrow> ?db \<in> sqlite_objs s1" "0 \<notin> sqlite_objs s1" using sys_invD(2) [OF inv req] sys_invD(6) [OF inv] shape(3) by auto
  note obj = opening_objs [OF out db, unfolded shape(3)]
  have bound: "\<forall>n \<in> sqlite_objs s'. n \<le> length (calls s')" using obj(3) sys_invD(7) [OF inv] o(2) by fastforce
  note party = opening_party [OF out osi' db(2) bound]
  have "sys_inv ?T s'"
  proof (rule sys_inv_step [OF as osi'])
    show "sqlite_objs s' = left T ?A s \<union> (\<Union>p \<in> ?A. objs s' (?T p) p)" unfolding new left_def old by (rule obj(1))
    show "(\<Union>p \<in> ?A. objs s' (?T p) p) \<subseteq> (\<Union>q \<in> ?A. objs s (T q) q) \<union> {length (calls s)<..}" unfolding new old using obj(2) by blast
    show "0 \<notin> sqlite_objs s'" using sys_invD(6) [OF inv] obj(3) by blast
    show "p = p'" if "p \<in> ?A" "p' \<in> ?A" "heap s' p = Some x" "owner x" "heap s' p' = Some y" "owner y" for p p' x y
      using only that by blast
    show "party_ok s' p (?T p) x" if "p \<in> ?A" "heap s' p = Some x" "owner x" for p x using only [OF that] party(1) that(2) by simp
    show "blocks_at s' p \<subseteq> (\<Union>q \<in> ?A. blocks_at s q) \<union> {mallocs s<..}" if "p \<in> ?A" for p
      using none(2) [OF that] party(2) by (cases "p = ?a"; cases "heap s' ?a") auto
  qed (use bound in auto)
  then show ?thesis by (rule evolvesI [OF as]) (use req osi_inv_above [OF osi] in auto)
qed

lemma sys_inv_opened:
  assumes inv: "sys_inv T s" and req: "heap s req = Some (Open_req r)" "\<not> pending_open r" and q: "g_callbacks s = Some q"
    and ok: "\<forall>n. uv E (Sql (Sqlite3_close (or_db r))) n = SQLITE_OK"
  shows "event_accounts {#} {#} s (open_cb E xrc msg req s) \<and> (\<exists>s'. open_cb E xrc msg req s = Some s' \<and> evolves {} T s s')"
proof -
  note osi = sys_invD(1) [OF inv]
  have R: "or_sqlite_rc r = SQLITE_OK \<longrightarrow> or_db r \<noteq> 0" "or_db r \<noteq> 0 \<longrightarrow> or_db r \<in> sqlite_objs s"
    using req(2) sys_invD(2) [OF inv req(1)] by (auto simp: pending_open_def)
  have "open_request req r s" unfolding open_request_def using req(1) R sys_invD(2) [OF inv req(1)] sys_invD(6,7) [OF inv] by auto
  then obtain s1 where s1: "(do { s \<leftarrow> c_free (or_filename r) s; s \<leftarrow> Sunlock_object (or_callback r) s; c_free req s }) = Some s1"
    "osi_inv {#} s1" "owed s = add_mset (or_callback r) (owed s1)" "g_callbacks s1 = g_callbacks s"
    using open_request_released [OF osi] by blast
  note shape = released_shape [OF s1(1)]
  have eq: "open_cb E xrc msg req s = open_result E xrc msg r s1" by (simp add: open_cb_eq [OF req(1)] s1(1))
  have "opened {#} (or_db r) (or_callback r) s1 (open_result E xrc msg r s1)"
    by (rule open_result_opened [OF s1(2) _ _ _ _ _ ok]) (use R sys_invD(6,7) [OF inv] shape q s1(4) in auto)
  then obtain s' arg where s': "open_cb E xrc msg req s = Some s'" "osi_inv {#} s'" "owed s' = owed s1"
    "g_callbacks s' = Some (Scons (Scons (or_callback r) (Scons arg Snil)) q)"
    unfolding opened_def eq using q s1(4) by auto
  have "opening_outcome (Suc (mallocs s)) (or_db r) s1 s'"
    using open_result_outcome [OF s1(2) R(1) _ _ ok, of xrc msg s'] R(2) sys_invD(6) [OF inv] s'(1) shape eq by simp
  then have "evolves {} T s s'" by (rule opened_evolves [OF inv req(1) s'(2) s1(1)])
  moreover have "event_accounts {#} {#} s (open_cb E xrc msg req s)"
    unfolding event_accounts_def using s' s1(3) q by (intro exI [of _ s'] exI [of _ q] exI) auto
  ultimately show ?thesis using s'(1) by blast
qed

section \<open>Bindings\<close>

lemma osi_inv_add_plain:
  "osi_inv X s \<Longrightarrow> distinct L \<Longrightarrow> (\<And>y. y \<in> set L \<Longrightarrow> heap s y = None \<and> 0 < y \<and> y \<le> mallocs s' \<and> (\<exists>x. heap s' y = Some x \<and> plain x)) \<Longrightarrow>
   (\<And>y. y \<notin> set L \<Longrightarrow> heap s' y = heap s y) \<Longrightarrow> locked s' = locked s \<Longrightarrow> closing s' = closing s \<Longrightarrow> mallocs s \<le> mallocs s' \<Longrightarrow>
   osi_inv X s' \<and> owed s' = owed s"
proof (induction L arbitrary: s)
  case Nil
  then have "heap s' = heap s" by auto
  then show ?case using Nil osi_inv_same [of X s s'] by (simp add: owed_def)
next
  case (Cons a L)
  obtain x where x: "heap s a = None" "0 < a" "a \<le> mallocs s'" "heap s' a = Some x" "plain x" using Cons.prems(3) [of a] by auto
  let ?s = "s\<lparr>heap := (heap s)(a \<mapsto> x), mallocs := mallocs s'\<rparr>"
  have free: "obj_held x = {#}" "obj_owed x = {#}" "obj_link x = None" "obj_ok x" using x(5) by (cases x; simp)+
  have "heap_ok (heap ?s)" using heap_ok_new [OF osi_inv_heap [OF Cons.prems(1)] x(1) free(3,4)] by simp
  then have "osi_inv X ?s" using x free Cons.prems(7) by (intro osi_inv_add [OF Cons.prems(1) x(1), of ?s x]) simp_all
  moreover have "owed ?s = owed s" using owed_add [OF Cons.prems(1) x(1), of ?s x] free by simp
  moreover have "osi_inv X s' \<and> owed s' = owed ?s"
  proof (rule Cons.IH)
    show "heap ?s y = None \<and> 0 < y \<and> y \<le> mallocs s' \<and> (\<exists>x. heap s' y = Some x \<and> plain x)" if "y \<in> set L" for y
      using Cons.prems(2,3) that by auto
    show "heap s' y = heap ?s y" if "y \<notin> set L" for y using Cons.prems(4) [of y] that x(4) by auto
  qed (use Cons.prems calculation in simp_all)
  ultimately show ?case by simp
qed

lemma represents_block: "represents try64 bv h b d \<Longrightarrow> p \<in> set (owned b) \<Longrightarrow> \<exists>t. h p = Some (C_string t)"
  by (cases b) auto

lemma represents_value: "represents try64 (bytevectors s) (heap s') b d \<Longrightarrow> binding_value b s' \<noteq> None"
  by (cases b) (auto simp: c_bytes_def)

definition marshal_ok :: "ptr \<Rightarrow> osi \<Rightarrow> bool" where
  "marshal_ok v s \<longleftrightarrow>
     (\<exists>ds. (v = scheme_list ds \<or> v = Svector ds) \<and> length ds < 2 ^ 31 \<and> (\<forall>d \<in> set ds. small_datum s d))
     \<or> v \<noteq> Snil \<and> \<not> Spairp v \<and> \<not> Svectorp v"

lemma grown_evolves:
  assumes inv: "sys_inv T s" and "grown s [] s'"
  shows "evolves {} T s s' \<and> owed s' = owed s \<and> g_callbacks s' = g_callbacks s"
proof -
  from assms(2) obtain m h where s': "s' = s\<lparr>mallocs := m, heap := h\<rparr>" "mallocs s \<le> m" "\<forall>a. h a = heap s a" unfolding grown_def by auto
  then have "heap s' = heap s" by auto
  then show ?thesis using s' osi_inv_same [OF sys_invD(1) [OF inv], of s'] sys_inv_quiet [OF inv, of s'] by (simp add: owed_def)
qed

lemma marshalled_evolves:
  assumes inv: "sys_inv T s" and mb: "heap s' mb = Some (Bindings bs)" and m: "marshalled try64 s mb bs ds s'"
  shows "evolves {} T s s' \<and> owed s' = owed s \<and> g_callbacks s' = g_callbacks s"
proof -
  note osi = sys_invD(1) [OF inv]
  let ?L = "mb # concat (map owned bs)"
  have rep: "list_all2 (represents try64 (bytevectors s) (heap s')) bs ds" and g: "grown s ?L s'" using m by (simp_all add: marshalled_def)
  obtain m h where s': "s' = s\<lparr>mallocs := m, heap := h\<rparr>" "mallocs s \<le> m" "distinct ?L"
    "\<And>a. a \<in> set ?L \<Longrightarrow> mallocs s < a \<and> a \<le> m \<and> h a \<noteq> None" "\<And>a. a \<notin> set ?L \<Longrightarrow> h a = heap s a"
    using grownE [OF g] by metis
  have some: "\<exists>d. represents try64 (bytevectors s) (heap s') b d" if "b \<in> set bs" for b
    using rep that by (metis in_set_conv_nth list_all2_conv_all_nth)
  have str: "\<exists>t. heap s' y = Some (C_string t)" if "y \<in> set (concat (map owned bs))" for y
    using that some represents_block by fastforce
  have val: "binding_value b s' \<noteq> None" if "b \<in> set bs" for b using some [OF that] represents_value by blast
  have old: "heap s' b = heap s b" if "b \<notin> set ?L" for b using s'(1) s'(5) [OF that] by simp
  have osi': "osi_inv {#} s' \<and> owed s' = owed s"
  proof (rule osi_inv_add_plain [OF osi s'(3)])
    show "heap s y = None \<and> 0 < y \<and> y \<le> mallocs s' \<and> (\<exists>x. heap s' y = Some x \<and> plain x)" if "y \<in> set ?L" for y
    proof -
      have "\<exists>x. heap s' y = Some x \<and> plain x" using that str [of y] mb plain.simps(1,2) by (cases "y = mb") fastforce+
      then show ?thesis using s'(1) s'(4) [OF that] osi_inv_above [OF osi, of y] by auto
    qed
  qed (use s' in auto)
  have new: "mallocs s < mb" using s'(4) [of mb] by simp
  have "closing s mb = None" using osi_inv_free_closing [OF osi] osi_inv_above [OF osi new] by simp
  then have "evolves {} T s s'"
  proof (intro sys_inv_fresh [OF inv conjunct1 [OF osi'] new mb])
    show "heap s' b = heap s b" if "b \<le> mallocs s" for b using s'(4) [of b] old [of b] that by fastforce
    show "\<not> owner y" if "mallocs s < b" "b \<noteq> mb" "heap s' b = Some y" for b y
      using that str [of b] old [of b] osi_inv_above [OF osi that(1)] by (cases "b \<in> set (concat (map owned bs))") fastforce+
    show "blocks (heap s') (Bindings bs) \<subseteq> {mallocs s<..}" using s'(4) by auto
  qed (use s' val mb in \<open>auto simp: objs_def\<close>)
  then show ?thesis using osi' s'(1) by simp
qed

lemma sys_inv_marshal:
  assumes inv: "sys_inv T s" and ok: "marshal_ok v s"
  shows "\<exists>r s'. osi_marshal_bindings E try64 v s = Some (r, s') \<and> evolves {} T s s' \<and> g_callbacks s' = g_callbacks s \<and> owed s' = owed s"
proof (cases "\<exists>ds. (v = scheme_list ds \<or> v = Svector ds) \<and> length ds < 2 ^ 31 \<and> (\<forall>d \<in> set ds. small_datum s d)")
  case False
  then have "osi_marshal_bindings E try64 v s = Some (osi_make_error_pair ''osi_marshal_bindings'' (uv_errno E EINVAL), s)"
    using ok by (cases v) (auto simp: marshal_ok_def osi_marshal_bindings_def)
  then show ?thesis using evolves_refl [OF inv] by blast
next
  case True
  then obtain ds where ds: "v = scheme_list ds \<or> v = Svector ds" "length ds < 2 ^ 31" "\<forall>d \<in> set ds. small_datum s d" by blast
  obtain r s' where r: "osi_marshal_bindings E try64 v s = Some (r, s')"
    "grown s [] s' \<or> s' = s \<or> (\<exists>mb bs. heap s' mb = Some (Bindings bs) \<and> marshalled try64 s mb bs ds s')"
    using marshal_elements_spec [OF sys_invD(1) [OF inv] ds(2,3), of E try64] unfolding osi_marshal_bindings_elements [OF ds(1)] by blast
  then show ?thesis using grown_evolves [OF inv] marshalled_evolves [OF inv] evolves_refl [OF inv] by blast
qed

lemma get_bindings_loop_total:
  "\<forall>b \<in> set bs. binding_value b s \<noteq> None \<Longrightarrow> \<exists>r bv. get_bindings_loop E i bs s = Some (r, s\<lparr>bytevectors := bv\<rparr>)"
proof (induction bs arbitrary: i s)
  case Nil
  then show ?case by (auto intro: exI [of _ "bytevectors s"])
next
  case (Cons b bs)
  obtain x bv where x: "get_binding E i b s = Some (x, s\<lparr>bytevectors := bv\<rparr>)"
    using Cons.prems by (cases b) (auto split: bind_splits intro: that [of _ "bytevectors s"] that)
  have "binding_value c (s\<lparr>bytevectors := bv\<rparr>) = binding_value c s" for c by (rule binding_value_local) simp
  then obtain r bv' where "get_bindings_loop E (Suc i) bs (s\<lparr>bytevectors := bv\<rparr>) = Some (r, s\<lparr>bytevectors := bv'\<rparr>)"
    using Cons.IH [of "s\<lparr>bytevectors := bv\<rparr>" "Suc i"] Cons.prems by auto
  then show ?case using x by auto
qed

lemma sys_inv_get_bindings:
  assumes inv: "sys_inv T s" and mb: "mb = 0 \<or> (\<exists>bs. heap s mb = Some (Bindings bs))"
  shows "\<exists>r s'. osi_get_bindings E i mb s = Some (r, s') \<and> evolves {} T s s' \<and> g_callbacks s' = g_callbacks s \<and> owed s' = owed s"
proof -
  obtain bs where bs: "(if mb = 0 then Some [] else load_bindings mb s) = Some bs" "\<forall>b \<in> set bs. binding_value b s \<noteq> None"
    using mb sys_invD(2) [OF inv, of mb] by (cases "mb = 0") (auto simp: load_bindings_def)
  obtain r bv where r: "get_bindings_loop E i bs s = Some (r, s\<lparr>bytevectors := bv\<rparr>)" using get_bindings_loop_total [OF bs(2)] by blast
  have "osi_inv {#} (s\<lparr>bytevectors := bv\<rparr>)" by (rule osi_inv_same [OF sys_invD(1) [OF inv]]) simp_all
  then have "evolves {} T s (s\<lparr>bytevectors := bv\<rparr>)" by (rule sys_inv_quiet [OF inv]) simp_all
  then show ?thesis using bs(1) r by (simp add: osi_get_bindings_def owed_def)
qed

lemma sys_inv_unmarshal:
  assumes inv: "sys_inv T s" and mb: "mb = 0 \<or> (\<exists>bs. heap s mb = Some (Bindings bs)) \<and> unreferenced s mb"
  shows "\<exists>r s'. osi_unmarshal_bindings mb s = Some (r, s') \<and> evolves {} T s s' \<and> g_callbacks s' = g_callbacks s \<and> owed s' = owed s"
proof (cases "mb = 0")
  case True
  then show ?thesis using evolves_refl [OF inv] by (simp add: osi_unmarshal_bindings_def)
next
  case False
  then obtain bs where bs: "heap s mb = Some (Bindings bs)" and un: "unreferenced s mb" using mb by blast
  note osi = sys_invD(1) [OF inv]
  let ?B = "concat (map owned bs)" and ?L = "mb # concat (map owned bs)"
  have ok: "T mb = []" "distinct ?B" "\<forall>b \<in> set bs. binding_value b s \<noteq> None" using sys_invD(2) [OF inv bs] by auto
  have str: "\<exists>t. heap s y = Some (C_string t)" if "y \<in> set ?B" for y using that ok(3) binding_value_block by fastforce
  have dist: "distinct ?L" using ok(2) str [of mb] bs by auto
  have plain: "\<exists>x. heap s y = Some x \<and> plain x" if "y \<in> set ?L" for y using that str [of y] bs plain.simps(1,2) by (cases "y = mb") fastforce+
  let ?s = "s\<lparr>heap := (\<lambda>y. if y \<in> set ?L then None else heap s y)\<rparr>"
  have osi': "osi_inv {#} ?s \<and> owed ?s = owed s" by (rule osi_inv_free_plain [OF osi dist plain])
  have "free_bindings bs s = Some (s\<lparr>heap := (\<lambda>a. if a \<in> set ?B then None else heap s a)\<rparr>)"
    using str osi_inv_null [OF osi] by (intro free_bindings_spec [OF ok(2)]) (metis option.distinct(1))
  moreover have "mb \<notin> set ?B" using dist by simp
  ultimately have run: "osi_unmarshal_bindings mb s = Some (Strue, ?s)"
    using False bs by (auto simp: osi_unmarshal_bindings_def load_bindings_def c_free_def fun_eq_iff intro!: arg_cong [of _ _ "\<lambda>h. s\<lparr>heap := h\<rparr>"])
  have foot: "foot s (T mb) mb = set ?L" using ok(1) bs by (simp add: foot_def blocks_at_some)
  have "spares ({..mallocs s} - foot s (T mb) mb) {mb} s ?s" unfolding foot by (rule sparesI) (auto split: if_splits)
  then have as: "aside T ({..mallocs s} - foot s (T mb) mb) {mb} s ?s" using un by (intro actor_aside [OF inv bs]) auto
  have "sys_inv T ?s"
  proof (rule sys_inv_step [OF as conjunct1 [OF osi']])
    have "objs s (T mb) mb = {}" using bs by (simp add: objs_def)
    then show "sqlite_objs ?s = left T {mb} s \<union> (\<Union>p \<in> {mb}. objs ?s (T p) p)" by (simp add: left_def)
  qed (use sys_invD(6,7) [OF inv] in auto)
  then have "evolves {} T s ?s" using bs by (intro evolvesI [OF as]) auto
  then show ?thesis using run osi' by (intro exI [of _ Strue] exI [of _ ?s]) simp
qed

end
