(* ===== verification/Whole_Interface.thy ===== *)
theory Whole_Interface
  imports Party_Steps
begin

text \<open>
  The whole interface as one transition system: files, streams, processes and signals (\<^verbatim>\<open>osi.c\<close>) together with any number
  of databases (\<^verbatim>\<open>sqlite.c\<close>). They share the heap, the queue of callbacks and the event loop; each open
  database has a thread of its own, and opening one goes through libuv's thread pool. While \<^verbatim>\<open>osi_get_callbacks\<close> runs, Scheme
  waits and events are delivered; the threads run at any time.
\<close>

section \<open>Actions\<close>

datatype action =
    Op osi_op
  | Marshal "int \<Rightarrow> u64 option" ptr
  | Unmarshal uptr
  | Open_db "u8 list" int ptr
  | Ask uptr db_request
  | Finalize uptr
  | Now uptr "int \<Rightarrow> u64 option" "u8 list" db_now
  | Query uptr db_query
  | Read_bindings nat uptr
  | Status u64 u64 int int
  | Interrupt uptr
  | Thread uptr outcome
  | Pool uptr bool
  | Enter
  | Event event
  | Answer uptr outcome
  | Opened uptr int "u8 list"
  | Leave

text \<open>\<open>Enter\<close> and \<open>Leave\<close> are the two ends of \<^verbatim>\<open>osi_get_callbacks\<close>; the latter returns the list of callbacks.\<close>

fun perform :: "env \<Rightarrow> action \<Rightarrow> osi \<Rightarrow> (ptr \<times> osi) option" where
  "perform E (Op op) s = run_op E op s"
| "perform E (Marshal try64 v) s = osi_marshal_bindings E try64 v s"
| "perform E (Unmarshal mb) s = osi_unmarshal_bindings mb s"
| "perform E (Open_db name flags cb) s = osi_open_database E name flags cb s"
| "perform E (Ask a q) s = ask E a q s"
| "perform E (Finalize x) s = osi_finalize_statement E x s"
| "perform E (Now a try64 msg c) s = now E try64 msg c s"
| "perform E (Query a c) s = query E a c s"
| "perform E (Read_bindings i mb) s = osi_get_bindings E i mb s"
| "perform E (Status current highwater operation resetp) s = Some (osi_get_sqlite_status E current highwater operation resetp s)"
| "perform E (Interrupt a) s = osi_interrupt_database E a s"
| "perform E (Thread a out) s = map_option (Pair Svoid) (database_worker E out a s)"
| "perform E (Pool req g) s = map_option (Pair Svoid) (open_worker E g req s)"
| "perform E Enter s = Some (Svoid, s\<lparr>g_callbacks := Some Snil\<rparr>)"
| "perform E (Event ev) s = map_option (Pair Svoid) (run_event E ev s)"
| "perform E (Answer a out) s = map_option (Pair Svoid) (async_cb E out a s)"
| "perform E (Opened req xrc msg) s = map_option (Pair Svoid) (open_cb E xrc msg req s)"
| "perform E Leave s = map_option (\<lambda>q. (q, s\<lparr>g_callbacks := None\<rparr>)) (g_callbacks s)"

text \<open>
  When an action can happen. Scheme must respect that ports and databases are open, statements are on the
  list of their database or have outlived it, bindings are not freed while pending work refers to them, and a database is not
  interrupted after its thread has closed it. libuv delivers events
  for what is pending, and signals an async handle that was sent; SQLite makes a connection if opening succeeds, and closes
  one without statements.
\<close>

fun enabled :: "env \<Rightarrow> action \<Rightarrow> osi \<Rightarrow> bool" where
  "enabled E (Op op) s \<longleftrightarrow> g_callbacks s = None \<and> op_ok op s"
| "enabled E (Marshal try64 v) s \<longleftrightarrow> g_callbacks s = None \<and> marshal_ok v s"
| "enabled E (Unmarshal mb) s \<longleftrightarrow> g_callbacks s = None \<and> (mb = 0 \<or> (\<exists>bs. heap s mb = Some (Bindings bs)) \<and> unreferenced s mb)"
| "enabled E (Open_db name flags cb) s \<longleftrightarrow> g_callbacks s = None"
| "enabled E (Ask a q) s \<longleftrightarrow> g_callbacks s = None \<and> (\<exists>d. open_at s a d) \<and> ask_ok a q s"
| "enabled E (Finalize x) s \<longleftrightarrow> g_callbacks s = None
     \<and> ((\<exists>a d. open_at s a d \<and> on_list s a x) \<or> (\<exists>st. heap s x = Some (Statement st) \<and> st_database st = 0))"
| "enabled E (Now a try64 msg c) s \<longleftrightarrow> g_callbacks s = None \<and> (\<exists>d. open_at s a d) \<and> now_ok a c s"
| "enabled E (Query a c) s \<longleftrightarrow> g_callbacks s = None \<and> (\<exists>d. open_at s a d) \<and> query_ok a c s"
| "enabled E (Read_bindings i mb) s \<longleftrightarrow> g_callbacks s = None \<and> (mb = 0 \<or> (\<exists>bs. heap s mb = Some (Bindings bs)))"
| "enabled E (Status current highwater operation resetp) s \<longleftrightarrow> g_callbacks s = None"
| "enabled E (Interrupt a) s \<longleftrightarrow> g_callbacks s = None \<and> (\<exists>d. open_at s a d \<and> d_thread d \<noteq> Gone)"
| "enabled E (Thread a out) s \<longleftrightarrow> (\<exists>d. open_at s a d \<and> d_thread d \<noteq> Gone)"
| "enabled E (Pool req g) s \<longleftrightarrow> (\<exists>r. heap s req = Some (Open_req r) \<and> pending_open r \<and> (open_answer E r s = SQLITE_OK \<longrightarrow> g))"
| "enabled E Enter s \<longleftrightarrow> g_callbacks s = None"
| "enabled E (Event ev) s \<longleftrightarrow> g_callbacks s \<noteq> None \<and> event_ok ev s"
| "enabled E (Answer a out) s \<longleftrightarrow> g_callbacks s \<noteq> None \<and> (\<exists>d. open_at s a d \<and> d_async_sent d)"
| "enabled E (Opened req xrc msg) s \<longleftrightarrow> g_callbacks s \<noteq> None
     \<and> (\<exists>r. heap s req = Some (Open_req r) \<and> \<not> pending_open r \<and> (\<forall>n. uv E (Sql (Sqlite3_close (or_db r))) n = SQLITE_OK))"
| "enabled E Leave s \<longleftrightarrow> g_callbacks s \<noteq> None"

text \<open>The databases that take part in an action.\<close>

fun actors :: "action \<Rightarrow> osi \<Rightarrow> uptr set" where
  "actors (Ask a q) s = {a}"
| "actors (Finalize x) s = {a. on_list s a x}"
| "actors (Now a try64 msg c) s = {a}"
| "actors (Query a c) s = {a}"
| "actors (Thread a out) s = {a}"
| "actors (Event ev) s = closed_by_event ev"
| "actors (Answer a out) s = {a}"
| "actors _ s = {}"

text \<open>The callback an action promises, the notices it queues unasked, and the callbacks it hands to Scheme.\<close>

fun promise :: "action \<Rightarrow> ptr \<Rightarrow> ptr multiset" where
  "promise (Op op) r = promised op r"
| "promise (Open_db name flags cb) r = (if r = Strue then {#cb#} else {#})"
| "promise (Ask a q) r = (if r = Strue then {#ask_cb q#} else {#})"
| "promise _ r = {#}"

fun notice :: "action \<Rightarrow> osi \<Rightarrow> ptr multiset" where
  "notice (Event ev) s = standing ev s"
| "notice _ s = {#}"

fun handed :: "action \<Rightarrow> ptr \<Rightarrow> ptr multiset" where
  "handed Leave q = queued q"
| "handed _ q = {#}"

definition queue :: "osi \<Rightarrow> ptr multiset" where
  "queue s = (case g_callbacks s of None \<Rightarrow> {#} | Some q \<Rightarrow> queued q)"

lemma queue_simps [simp]: "g_callbacks s = None \<Longrightarrow> queue s = {#}" "g_callbacks s = Some q \<Longrightarrow> queue s = queued q"
  by (simp_all add: queue_def)

section \<open>Every action keeps the invariant and the balance\<close>

definition balanced :: "action \<Rightarrow> osi \<Rightarrow> ptr \<Rightarrow> osi \<Rightarrow> bool" where
  "balanced act s r s' \<longleftrightarrow> promise act r + notice act s + queue s + owed s = handed act r + queue s' + owed s'"

definition performs :: "env \<Rightarrow> (uptr \<Rightarrow> uptr list) \<Rightarrow> action \<Rightarrow> osi \<Rightarrow> bool" where
  "performs E T act s \<longleftrightarrow> (\<exists>r s'. perform E act s = Some (r, s') \<and> evolves (actors act s) T s s' \<and> balanced act s r s')"

lemma performsI_call:
  assumes "\<exists>r s'. perform E act s = Some (r, s') \<and> evolves (actors act s) T s s' \<and> g_callbacks s' = g_callbacks s \<and> owed s' = owed s + promise act r"
    and "notice act s = {#}" and "\<And>r. handed act r = {#}"
  shows "performs E T act s"
  using assms unfolding performs_def balanced_def queue_def by (fastforce simp: ac_simps)

lemma performsI_callback:
  assumes acc: "event_accounts {#} (notice act s) s res" and step: "\<exists>s'. res = Some s' \<and> evolves (actors act s) T s s'"
    and res: "perform E act s = map_option (Pair Svoid) res" and "\<And>r. promise act r = {#}" "\<And>r. handed act r = {#}"
  shows "performs E T act s"
proof -
  obtain s' q q' old where s': "res = Some s'" "g_callbacks s = Some q" "g_callbacks s' = Some q'"
    "queued q' = queued q + old + notice act s" "owed s = owed s' + old"
    using acc unfolding event_accounts_def by blast
  then have "perform E act s = Some (Svoid, s')" "evolves (actors act s) T s s'" "balanced act s Svoid s'"
    using step res assms(4,5) by (auto simp: balanced_def)
  then show ?thesis unfolding performs_def by blast
qed

lemma sys_inv_g_callbacks: "sys_inv T s \<Longrightarrow> evolves A T s (s\<lparr>g_callbacks := q\<rparr>)"
proof -
  assume inv: "sys_inv T s"
  have "osi_inv {#} (s\<lparr>g_callbacks := q\<rparr>)" by (rule osi_inv_same [OF sys_invD(1) [OF inv]]) simp_all
  then have "evolves {} T s (s\<lparr>g_callbacks := q\<rparr>)" by (rule sys_inv_quiet [OF inv]) simp_all
  then show "evolves A T s (s\<lparr>g_callbacks := q\<rparr>)" by (rule evolves_mono) simp
qed

lemma action_performs:
  assumes inv: "sys_inv T s" and en: "enabled E act s"
  shows "performs E T act s"
proof (cases act)
  case (Op op)
  then have ok: "op_ok op s" using en by simp
  obtain r s' where r: "run_op E op s = Some (r, s')" "g_callbacks s' = g_callbacks s" "owed s' = owed s + promised op r"
    using op_keeps_accounts [OF sys_invD(1) [OF inv] ok, of E] by (auto simp: op_accounts_def)
  then show ?thesis using sys_inv_op [OF inv ok r(1)] Op by (intro performsI_call) auto
next
  case (Marshal try64 v)
  then show ?thesis using sys_inv_marshal [OF inv, of v E try64] en by (intro performsI_call) auto
next
  case (Unmarshal mb)
  then have "mb = 0 \<or> (\<exists>bs. heap s mb = Some (Bindings bs)) \<and> unreferenced s mb" using en by simp
  from sys_inv_unmarshal [OF inv this] Unmarshal show ?thesis by (intro performsI_call) auto
next
  case (Open_db name flags cb)
  then show ?thesis using sys_inv_open [OF inv, of E name flags cb] by (intro performsI_call) auto
next
  case (Ask a q)
  then obtain d where "open_at s a d" "ask_ok a q s" using en by auto
  from sys_inv_ask [OF inv this, of E] Ask show ?thesis by (intro performsI_call) auto
next
  case (Finalize x)
  then consider a d where "open_at s a d" "on_list s a x" | st where "heap s x = Some (Statement st)" "st_database st = 0" using en by auto
  then show ?thesis
  proof cases
    case 1
    have "{a} \<subseteq> actors act s" using 1(2) Finalize by simp
    then show ?thesis using sys_inv_finalize [OF inv 1, of E] Finalize evolves_mono by (intro performsI_call) fastforce+
  next
    case 2
    then show ?thesis using sys_inv_finalize_orphan [OF inv 2, of E] Finalize evolves_mono by (intro performsI_call) fastforce+
  qed
next
  case (Now a try64 msg c)
  then obtain d where "open_at s a d" "now_ok a c s" using en by auto
  from sys_inv_now [OF inv this, of E try64 msg] Now show ?thesis by (intro performsI_call) auto
next
  case (Query a c)
  then obtain d where "open_at s a d" "query_ok a c s" using en by auto
  from sys_inv_query [OF inv this, of E] Query show ?thesis by (intro performsI_call) auto
next
  case (Read_bindings i mb)
  then have "mb = 0 \<or> (\<exists>bs. heap s mb = Some (Bindings bs))" using en by simp
  from sys_inv_get_bindings [OF inv this, of E i] Read_bindings show ?thesis by (intro performsI_call) auto
next
  case (Status current highwater operation resetp)
  then show ?thesis using sys_inv_call [OF inv] by (intro performsI_call) (auto simp: osi_get_sqlite_status_def uv_do_def)
next
  case (Interrupt a)
  then obtain d where "open_at s a d" "d_thread d \<noteq> Gone" using en by auto
  with interrupt_eq [OF inv this(1), of E] Interrupt sys_inv_call [OF inv] show ?thesis by (intro performsI_call) auto
next
  case (Thread a out)
  then obtain d where "open_at s a d" "d_thread d \<noteq> Gone" using en by auto
  from sys_inv_thread [OF inv this, of E out] Thread show ?thesis by (intro performsI_call) auto
next
  case (Pool req g)
  then obtain r where "heap s req = Some (Open_req r)" "pending_open r" using en by auto
  from sys_inv_pool [OF inv this, of E g] Pool show ?thesis by (intro performsI_call) auto
next
  case Enter
  then show ?thesis using en sys_inv_g_callbacks [OF inv, of _ "Some Snil"] by (auto simp: performs_def balanced_def owed_def)
next
  case (Event ev)
  then obtain q where ok: "event_ok ev s" and q: "g_callbacks s = Some q" using en by auto
  note acc = event_keeps_accounts [OF sys_invD(1) [OF inv] ok q, of E]
  then obtain s' where s': "run_event E ev s = Some s'" by (auto simp: event_accounts_def)
  show ?thesis using Event acc s' sys_inv_event [OF inv ok s' q] by (intro performsI_callback) auto
next
  case (Answer a out)
  then obtain d q where "open_at s a d" "d_async_sent d" "g_callbacks s = Some q" using en by auto
  from sys_inv_answer [OF inv this, of E out] Answer show ?thesis by (intro performsI_callback) auto
next
  case (Opened req xrc msg)
  then obtain r q where "heap s req = Some (Open_req r)" "\<not> pending_open r" "g_callbacks s = Some q"
    "\<forall>n. uv E (Sql (Sqlite3_close (or_db r))) n = SQLITE_OK" using en by auto
  from sys_inv_opened [OF inv this, of xrc msg] Opened show ?thesis by (intro performsI_callback) auto
next
  case Leave
  then obtain q where "g_callbacks s = Some q" using en by auto
  then show ?thesis using Leave sys_inv_g_callbacks [OF inv, of _ None] by (auto simp: performs_def balanced_def owed_def)
qed

section \<open>The system\<close>

text \<open>The state of the interface together with the callbacks promised, queued unasked, and handed over so far.\<close>

record system =
  y_osi :: osi
  y_promised :: "ptr multiset"
  y_noticed :: "ptr multiset"
  y_handed :: "ptr multiset"

definition advance :: "action \<Rightarrow> ptr \<Rightarrow> osi \<Rightarrow> system \<Rightarrow> system" where
  "advance act r s' y =
     \<lparr>y_osi = s', y_promised = y_promised y + promise act r, y_noticed = y_noticed y + notice act (y_osi y), y_handed = y_handed y + handed act r\<rparr>"

lemma advance_simps [simp]:
  "y_osi (advance act r s' y) = s'" "y_promised (advance act r s' y) = y_promised y + promise act r"
  "y_noticed (advance act r s' y) = y_noticed y + notice act (y_osi y)" "y_handed (advance act r s' y) = y_handed y + handed act r"
  by (simp_all add: advance_def)

inductive sys_reach :: "env \<Rightarrow> system \<Rightarrow> bool" for E where
  start: "sys_reach E \<lparr>y_osi = osi_start, y_promised = {#}, y_noticed = {#}, y_handed = {#}\<rparr>"
| step: "sys_reach E y \<Longrightarrow> enabled E act (y_osi y) \<Longrightarrow> perform E act (y_osi y) = Some (r, s') \<Longrightarrow> sys_reach E (advance act r s' y)"

definition system_inv :: "system \<Rightarrow> bool" where
  "system_inv y \<longleftrightarrow> (\<exists>T. sys_inv T (y_osi y)) \<and> y_promised y + y_noticed y = y_handed y + queue (y_osi y) + owed (y_osi y)"

lemma sys_inv_start: "sys_inv (\<lambda>_. []) osi_start"
  using osi_inv_start by (simp add: sys_inv_def osi_start_def blocks_at_def objs_def)

lemma system_inv_step:
  assumes inv: "system_inv y" and en: "enabled E act (y_osi y)" and run: "perform E act (y_osi y) = Some (r, s')"
  shows "system_inv (advance act r s' y)"
proof -
  obtain T where T: "sys_inv T (y_osi y)" using inv by (auto simp: system_inv_def)
  have "evolves (actors act (y_osi y)) T (y_osi y) s'" and bal: "balanced act (y_osi y) r s'"
    using action_performs [OF T en] run by (auto simp: performs_def)
  then have "\<exists>T'. sys_inv T' s'" using evolves_inv by blast
  moreover have "y_promised y + y_noticed y + (promise act r + notice act (y_osi y)) = y_handed y + handed act r + queue s' + owed s'"
    using inv bal unfolding system_inv_def balanced_def by (metis (no_types, opaque_lifting) add.assoc add.commute)
  ultimately show ?thesis by (simp add: system_inv_def ac_simps)
qed

lemma system_inv_reach: "sys_reach E y \<Longrightarrow> system_inv y"
proof (induction rule: sys_reach.induct)
  case start
  have "owed osi_start = {#}" "g_callbacks osi_start = None" by (simp_all add: osi_start_def owed_def heap_sum_def)
  then show ?case using sys_inv_start by (auto simp: system_inv_def)
qed (rule system_inv_step)

text \<open>
  Who owns an SQLite object: the open database whose connection it is, the one with the statement on its list, or the
  request that has just opened it.
\<close>

definition owned_by :: "osi \<Rightarrow> uptr \<Rightarrow> nat \<Rightarrow> bool" where
  "owned_by s p n \<longleftrightarrow>
     n \<noteq> 0 \<and>
     ((\<exists>d. open_at s p d \<and> d_thread d \<noteq> Gone \<and> d_db d = n)
      \<or> (\<exists>d x st. open_at s p d \<and> on_list s p x \<and> heap s x = Some (Statement st) \<and> st_stmt st = n)
      \<or> (\<exists>r. heap s p = Some (Open_req r) \<and> or_db r = n))"

lemma on_list_iff:
  assumes "db_inv X B a d xs s"
  shows "on_list s a x \<longleftrightarrow> x \<in> set xs"
proof
  assume "x \<in> set xs"
  then obtain us vs where xs: "xs = us @ [x] @ vs" by (metis append_Cons append_Nil split_list)
  obtain r where "seg (heap s) a 0 (d_statement d) (us @ [x] @ vs) r 0" using db_invD(5) [OF assms] by (auto simp: registry_def xs)
  then have "\<exists>r t. seg (heap s) a 0 (d_statement d) (us @ [x]) r t" unfolding append_assoc [symmetric] seg_append [of _ _ _ _ "us @ [x]"] by blast
  then show "on_list s a x" using db_invD(3) [OF assms] by (auto simp: on_list_def)
qed (rule on_list_registered [OF assms])

lemma handles_iff: "n \<in> set (handles h xs) \<longleftrightarrow> n \<noteq> 0 \<and> (\<exists>x \<in> set xs. handle h x = n)"
  by (auto simp: handles_def)

lemma owned_by_objs:
  assumes inv: "sys_inv T s"
  shows "owned_by s p n \<longleftrightarrow> n \<in> objs s (T p) p"
proof (cases "\<exists>d. open_at s p d")
  case True
  then obtain d where d: "open_at s p d" by blast
  note db = sys_db(1) [OF inv d]
  have o: "objs s (T p) p = conn (heap s) d (T p)" using d by (simp add: objs_def open_at_def)
  have "(\<exists>x st. on_list s p x \<and> heap s x = Some (Statement st) \<and> st_stmt st = n) \<longleftrightarrow> (\<exists>x \<in> set (T p). handle (heap s) x = n)"
  proof -
    have "(\<exists>st. heap s x = Some (Statement st) \<and> st_stmt st = n) \<longleftrightarrow> handle (heap s) x = n" if "x \<in> set (T p)" for x
      using registry_stmt [OF db_invD(5) [OF db] that] by (auto simp: handle_def)
    then show ?thesis unfolding on_list_iff [OF db] by blast
  qed
  moreover have "open_at s p d' \<longleftrightarrow> d' = d" "heap s p \<noteq> Some (Open_req r)" for d' r using d by (auto simp: open_at_def)
  moreover have "d_db d \<noteq> 0" using db_invD(4) [OF db] by auto
  ultimately show ?thesis unfolding o owned_by_def conn_def Un_iff handles_iff by auto
next
  case False
  then have "objs s (T p) p = (case heap s p of Some (Open_req r) \<Rightarrow> {or_db r} - {0} | _ \<Rightarrow> {})"
    by (auto simp: objs_def open_at_def split: option.splits cobj.splits)
  then show ?thesis using False by (auto simp: owned_by_def split: option.splits cobj.splits)
qed

lemma objects_owned_once:
  assumes inv: "sys_inv T s"
  shows "n \<in> sqlite_objs s \<longleftrightarrow> (\<exists>!p. owned_by s p n)"
proof
  assume "n \<in> sqlite_objs s"
  then obtain p where p: "n \<in> objs s (T p) p" using sys_invD(5) [OF inv] by auto
  show "\<exists>!p. owned_by s p n"
  proof (rule ex1I)
    show "owned_by s p n" using p by (simp add: owned_by_objs [OF inv])
    show "q = p" if "owned_by s q n" for q
      using that p sys_invD(4) [OF inv, of q p] unfolding owned_by_objs [OF inv] by blast
  qed
next
  assume "\<exists>!p. owned_by s p n"
  then show "n \<in> sqlite_objs s" unfolding owned_by_objs [OF inv] sys_invD(5) [OF inv] by blast
qed

lemma evolves_bystander:
  assumes ev: "evolves A T s s'" and b: "open_at s b d" "b \<notin> A"
  shows "open_at s' b d" "on_list s' b x \<longleftrightarrow> on_list s b x" "on_list s b x \<Longrightarrow> heap s' x = heap s x" "owned_by s' b n \<longleftrightarrow> owned_by s b n"
proof -
  obtain K P T' where as: "aside T K P s s'" and inv': "sys_inv T' s'" and T': "\<forall>p. p \<notin> P \<longrightarrow> T' p = T p"
    and P: "\<forall>p \<in> P. p \<in> A \<or> (\<forall>d. heap s p \<noteq> Some (Database d))" using ev unfolding evolves_def by blast
  have inv: "sys_inv T s" using as by (simp add: aside_def)
  have h: "heap s b = Some (Database d)" "owner (Database d)" "b \<notin> P" using b P by (auto simp: open_at_def)
  note same = aside_same [OF as h]
  show o: "open_at s' b d" using same [of b] b(1) by (simp add: open_at_def foot_def)
  have l: "on_list s b y \<longleftrightarrow> y \<in> set (T b)" "on_list s' b y \<longleftrightarrow> y \<in> set (T b)" for y
    using on_list_iff [OF sys_db(1) [OF inv b(1)]] on_list_iff [OF sys_db(1) [OF inv' o]] T' h(3) by simp_all
  then show "on_list s' b x \<longleftrightarrow> on_list s b x" by simp
  show "on_list s b x \<Longrightarrow> heap s' x = heap s x" using same(1) [of x] l by (simp add: foot_def)
  show "owned_by s' b n \<longleftrightarrow> owned_by s b n"
    using aside_objs [OF as h(3)] T' h(3) by (simp add: owned_by_objs [OF inv] owned_by_objs [OF inv'])
qed

section \<open>The event loop as actions\<close>

lemma reach_event:
  assumes y: "sys_reach E y" "g_callbacks (y_osi y) \<noteq> None" and ok: "event_ok ev (y_osi y)" and run: "run_event E ev (y_osi y) = Some s'"
  shows "\<exists>y'. sys_reach E y' \<and> y_osi y' = s' \<and> y_handed y' = y_handed y \<and> g_callbacks s' \<noteq> None"
proof -
  obtain T where inv: "sys_inv T (y_osi y)" using system_inv_reach [OF y(1)] by (auto simp: system_inv_def)
  obtain q where q: "g_callbacks (y_osi y) = Some q" using y(2) by auto
  have "g_callbacks s' \<noteq> None" using event_keeps_accounts [OF sys_invD(1) [OF inv] ok q, of E] run by (auto simp: event_accounts_def)
  moreover have "sys_reach E (advance (Event ev) Svoid s' y)" using y ok run by (intro sys_reach.step) simp_all
  ultimately show ?thesis by (intro exI [of _ "advance (Event ev) Svoid s' y"]) simp
qed

lemma reach_uv_run:
  assumes "sys_reach E y" and "y_osi y = s" and "g_callbacks s \<noteq> None" and "events_ok E evs (t, s)" and "uv_run E evs (t, s) = Some (t', s')"
  shows "\<exists>y'. sys_reach E y' \<and> y_osi y' = s' \<and> y_handed y' = y_handed y \<and> g_callbacks s' \<noteq> None"
  using assms
proof (induction evs arbitrary: t s y)
  case (Cons e evs)
  show ?case
  proof (cases e)
    case Timer_expired
    then show ?thesis using Cons.IH [OF Cons.prems(1-3), of "get_callbacks_timer_cb t"] Cons.prems(4,5) by simp
  next
    case (Io ev)
    then obtain s1 where s1: "run_event E ev s = Some s1" "uv_run E evs (t, s1) = Some (t', s')" "event_ok ev s" "events_ok E evs (t, s1)"
      using Cons.prems(4,5) by (auto simp: bind_eq_Some_conv)
    obtain y1 where "sys_reach E y1" "y_osi y1 = s1" "y_handed y1 = y_handed y" "g_callbacks s1 \<noteq> None"
      using reach_event [OF Cons.prems(1), of ev s1] Cons.prems(2,3) s1 by auto
    then show ?thesis using Cons.IH [of y1 s1 t] s1 by auto
  qed
qed auto

lemma uv_run_timer: "uv_run E evs (t, s) = Some (t', s') \<Longrightarrow> timer_data t' \<longleftrightarrow> timer_data t \<or> Timer_expired \<in> set evs"
proof (induction evs arbitrary: t s)
  case (Cons e evs)
  then show ?case by (cases e) (auto simp: get_callbacks_timer_cb_def bind_eq_Some_conv)
qed simp

section \<open>Properties\<close>

text \<open>C1: The interface keeps its promises with everything in it: files, streams, processes and signals, any number of
  databases with their threads, requests to open one, and bindings, in any interleaving. In every reachable state each callback that an operation promised,
  and each notice of a listener, watcher or signal, has been handed to Scheme exactly once, is in the queue, or is still owed by
  a live structure; the Scheme objects locked are exactly those the live structures hold; and every SQLite object in existence
  belongs to exactly one open database or open request, so that none leaks and none is finalized twice.\<close>

theorem system_keeps_promises:
  assumes "sys_reach E y"
  shows "y_promised y + y_noticed y = y_handed y + queue (y_osi y) + owed (y_osi y)
     \<and> locked (y_osi y) = heap_sum obj_held (heap (y_osi y))
     \<and> (\<forall>n. n \<in> sqlite_objs (y_osi y) \<longleftrightarrow> (\<exists>!p. owned_by (y_osi y) p n))"
proof -
  obtain T where inv: "sys_inv T (y_osi y)" and bal: "y_promised y + y_noticed y = y_handed y + queue (y_osi y) + owed (y_osi y)"
    using system_inv_reach [OF assms] by (auto simp: system_inv_def)
  show ?thesis using bal osi_inv_locked [OF sys_invD(1) [OF inv]] objects_owned_once [OF inv] by simp
qed


text \<open>C4: Databases do not disturb each other, and nothing else disturbs them. Whatever happens in a reachable state, a database that does not take part
  stays open and as it is: its structure, its list of statements, every statement on it, and the SQLite objects it owns.\<close>

theorem databases_isolated:
  assumes "sys_reach E y" and "enabled E act (y_osi y)" and "perform E act (y_osi y) = Some (r, s')"
    and "open_at (y_osi y) b d" and "b \<notin> actors act (y_osi y)"
  shows "open_at s' b d \<and> (\<forall>x. on_list s' b x \<longleftrightarrow> on_list (y_osi y) b x)
     \<and> (\<forall>x. on_list (y_osi y) b x \<longrightarrow> heap s' x = heap (y_osi y) x) \<and> (\<forall>n. owned_by s' b n \<longleftrightarrow> owned_by (y_osi y) b n)"
proof -
  obtain T where inv: "sys_inv T (y_osi y)" using system_inv_reach [OF assms(1)] by (auto simp: system_inv_def)
  have "evolves (actors act (y_osi y)) T (y_osi y) s'" using action_performs [OF inv assms(2)] assms(3) by (auto simp: performs_def)
  from evolves_bystander [OF this assms(4,5)] show ?thesis by blast
qed



section \<open>A database is opened\<close>

text \<open>The instance for the witnesses: Scheme asks for a database, the pool opens the file, and the event loop delivers the result.\<close>

definition sys_start :: system where
  "sys_start = \<lparr>y_osi = osi_start, y_promised = {#}, y_noticed = {#}, y_handed = {#}\<rparr>"

definition file_request :: "nat \<Rightarrow> open_req_t" where
  "file_request db = \<lparr>or_filename = 2, or_flags = 0, or_callback = Sprocedure 7, or_db = db, or_sqlite_rc = 0\<rparr>"

definition asked :: system where
  "asked = \<lparr>y_osi = osi_start\<lparr>mallocs := 2, heap := [2 \<mapsto> C_string [47, 97], 1 \<mapsto> Open_req (file_request 0)],
       locked := {#Sprocedure 7#}, calls := [Hnd (Uv_queue_work 1)]\<rparr>,
     y_promised = {#Sprocedure 7#}, y_noticed = {#}, y_handed = {#}\<rparr>"

definition connected :: system where
  "connected = asked\<lparr>y_osi := (y_osi asked)\<lparr>heap := [2 \<mapsto> C_string [47, 97], 1 \<mapsto> Open_req (file_request 2)],
       calls := [Hnd (Uv_queue_work 1), Sql (Sqlite3_open_v2 [47, 97] 0)], sqlite_objs := {2}\<rparr>\<rparr>"

definition database_open :: system where
  "database_open = \<lparr>y_osi = osi_start\<lparr>mallocs := 3, heap := [3 \<mapsto> Database ((new_database 2)\<lparr>d_thread := At_top\<rparr>)],
       calls := [Hnd (Uv_queue_work 1), Sql (Sqlite3_open_v2 [47, 97] 0), Sql (Sqlite3_extended_result_codes 2),
         Hnd (Uv_async_init 3), Hnd (Uv_mutex_init 3), Hnd (Uv_cond_init 3), Hnd (Uv_thread_create 3)], sqlite_objs := {2}\<rparr>,
     y_promised = {#Sprocedure 7#}, y_noticed = {#}, y_handed = {#Sprocedure 7#}\<rparr>"

lemma asked_reach: "sys_reach quiet_env asked"
proof -
  have "perform quiet_env (Open_db [47, 97] 0 (Sprocedure 7)) (y_osi sys_start) = Some (Strue, y_osi asked)"
    by (simp add: sys_start_def asked_def file_request_def osi_open_database_def osi_ops quiet_env_def osi_start_def numeral_2_eq_2)
  moreover have "sys_reach quiet_env sys_start" unfolding sys_start_def by (rule sys_reach.start)
  moreover have "enabled quiet_env (Open_db [47, 97] 0 (Sprocedure 7)) (y_osi sys_start)" by (simp add: sys_start_def osi_start_def)
  ultimately have "sys_reach quiet_env (advance (Open_db [47, 97] 0 (Sprocedure 7)) Strue (y_osi asked) sys_start)" by (intro sys_reach.step)
  then show ?thesis by (simp add: advance_def asked_def sys_start_def)
qed

lemma connected_reach: "sys_reach quiet_env connected"
proof -
  have "perform quiet_env (Pool 1 True) (y_osi asked) = Some (Svoid, y_osi connected)"
    by (simp add: asked_def connected_def file_request_def open_worker_def load_open_req_def osi_ops quiet_env_def osi_start_def numeral_2_eq_2)
  from sys_reach.step [OF asked_reach _ this] show ?thesis
    by (simp add: advance_def asked_def connected_def file_request_def pending_open_def SQLITE_OK_def)
qed

lemma database_open_reach: "sys_reach quiet_env database_open"
proof -
  let ?q = "Scons (Scons (Sprocedure 7) (Scons (Sunsigned 3) Snil)) Snil"
  let ?s3 = "(y_osi connected)\<lparr>g_callbacks := Some Snil\<rparr>" and ?s4 = "(y_osi database_open)\<lparr>g_callbacks := Some ?q\<rparr>"
  have e: "sys_reach quiet_env (advance Enter Svoid ?s3 connected)"
    by (rule sys_reach.step [OF connected_reach]) (simp_all add: connected_def asked_def osi_start_def)
  moreover have "perform quiet_env (Opened 1 0 []) ?s3 = Some (Svoid, ?s4)"
    by (simp add: connected_def asked_def database_open_def file_request_def open_cb_def load_open_req_def start_database_def db_do_def osi_ops osi_queue
        quiet_env_def osi_start_def new_database_def SQLITE_OK_def)
  moreover have "enabled quiet_env (Opened 1 0 []) ?s3"
    by (simp add: connected_def asked_def file_request_def pending_open_def quiet_env_def SQLITE_OK_def)
  ultimately have "sys_reach quiet_env (advance (Opened 1 0 []) Svoid ?s4 (advance Enter Svoid ?s3 connected))"
    using sys_reach.step [OF e, of "Opened 1 0 []" Svoid ?s4] by (simp only: advance_simps)
  from sys_reach.step [OF this, of Leave ?q "y_osi database_open"] show ?thesis
    by (simp add: advance_def connected_def asked_def database_open_def osi_start_def)
qed

theorem system_keeps_promises_witness:
  "y_promised connected = owed (y_osi connected) \<and> (\<exists>!p. owned_by (y_osi connected) p 2)"
proof -
  have "2 \<in> sqlite_objs (y_osi connected)" "y_noticed connected = {#}" "y_handed connected = {#}" "queue (y_osi connected) = {#}"
    by (simp_all add: connected_def asked_def osi_start_def)
  then show ?thesis using system_keeps_promises [OF connected_reach] by simp
qed


theorem databases_isolated_witness:
  "\<exists>s'. osi_open_database quiet_env [47, 98] 0 (Sprocedure 8) (y_osi database_open) = Some (Strue, s')
     \<and> open_at s' 3 ((new_database 2)\<lparr>d_thread := At_top\<rparr>) \<and> (owned_by s' 3 2 \<longleftrightarrow> owned_by (y_osi database_open) 3 2)"
proof -
  obtain s' where s': "osi_open_database quiet_env [47, 98] 0 (Sprocedure 8) (y_osi database_open) = Some (Strue, s')"
    by (simp add: database_open_def osi_open_database_def osi_ops quiet_env_def osi_start_def)
  have en: "enabled quiet_env (Open_db [47, 98] 0 (Sprocedure 8)) (y_osi database_open)" by (simp add: database_open_def osi_start_def)
  have "perform quiet_env (Open_db [47, 98] 0 (Sprocedure 8)) (y_osi database_open) = Some (Strue, s')" using s' by simp
  moreover have "open_at (y_osi database_open) 3 ((new_database 2)\<lparr>d_thread := At_top\<rparr>)" by (simp add: open_at_def database_open_def osi_start_def)
  ultimately show ?thesis using databases_isolated [OF database_open_reach en] s' by simp
qed


section \<open>A database is closed\<close>

text \<open>Scheme asks for the close, and the thread of the database does it; the completion has not been delivered yet.\<close>

definition closing_database :: "db_thread \<Rightarrow> database_t" where
  "closing_database th = (new_database 2)\<lparr>d_thread := th, d_async_data := Some Close_cb, d_busy := True, d_work := Some Close_worker, d_callback := Sprocedure 8\<rparr>"

definition close_waiting :: "db_thread \<Rightarrow> osi" where
  "close_waiting th = (y_osi database_open)\<lparr>heap := [3 \<mapsto> Database (closing_database th)], locked := {#Sprocedure 8#}\<rparr>"

definition close_done :: osi where
  "close_done = (close_waiting At_top)\<lparr>
     heap := [3 \<mapsto> Database ((closing_database Gone)\<lparr>d_work := None, d_async_sent := True\<rparr>)],
     calls := calls (y_osi database_open) @ [Sql (Sqlite3_close 2)], sqlite_objs := {}\<rparr>"

lemma reach_step:
  assumes "\<exists>y. sys_reach E y \<and> y_osi y = s" and "enabled E act s" and "perform E act s = Some (r, s')"
  shows "\<exists>y. sys_reach E y \<and> y_osi y = s'"
  using assms sys_reach.step advance_simps(1) by metis

lemma close_done_reach: "\<exists>y. sys_reach quiet_env y \<and> y_osi y = close_done"
proof -
  note defs = closing_database_def new_database_def database_open_def osi_start_def
  have run: "perform quiet_env (Ask 3 (Ask_close (Sprocedure 8))) (y_osi database_open) = Some (Strue, close_waiting At_top)"
    by (simp add: osi_close_database_def submit_work_def load_db_def close_waiting_def osi_ops defs quiet_env_def)
  have "open_at (y_osi database_open) 3 ((new_database 2)\<lparr>d_thread := At_top\<rparr>)" "g_callbacks (y_osi database_open) = None"
    by (simp_all add: database_open_def open_at_def osi_start_def)
  then have en: "enabled quiet_env (Ask 3 (Ask_close (Sprocedure 8))) (y_osi database_open)" by auto
  have 1: "\<exists>y. sys_reach quiet_env y \<and> y_osi y = close_waiting At_top" by (rule reach_step [OF _ en run]) (use database_open_reach in blast)
  have at: "open_at (close_waiting th) 3 (closing_database th)" for th by (simp add: open_at_def close_waiting_def database_open_def osi_start_def)
  have "database_worker quiet_env plain_outcome 3 (close_waiting At_top) = Some (close_waiting (Running Close_worker))"
    by (simp add: database_worker_def load_db_def store_def close_waiting_def defs)
  then have 2: "\<exists>y. sys_reach quiet_env y \<and> y_osi y = close_waiting (Running Close_worker)"
    using at [of At_top] by (intro reach_step [OF 1, where act = "Thread 3 plain_outcome"]) (auto simp: closing_database_def)
  have "close_loop 3 (close_waiting (Running Close_worker)) = Some (close_waiting (Running Close_worker))"
    by (subst close_loop.simps) (simp add: load_db_def close_waiting_def defs)
  then have "database_worker quiet_env plain_outcome 3 (close_waiting (Running Close_worker)) = Some close_done"
    by (simp add: database_worker_def close_worker_def load_db_def store_def sqlite3_close_def db_do_def uv_do_def close_waiting_def close_done_def
        defs quiet_env_def SQLITE_OK_def)
  then show ?thesis
    using at [of "Running Close_worker"] by (intro reach_step [OF 2, where act = "Thread 3 plain_outcome"]) (auto simp: closing_database_def)
qed


end
