(* ===== verification/Spec2Isabelle.thy ===== *)
theory Spec2Isabelle
  imports Sha1 Utf8 Osi_State Fs_Ports Stream_Ports Sys_Info Ports Process Event_Loop Digest
    Sqlite_Lifecycle Send_Request Run Programs Io_Constants Test_Libraries Mbedtls
    Sqlite_Varint Sqlite_Rowset Sqlite_Bitvec Sqlite_Arith Sqlite_Hash Whole_Interface
begin

text \<open>
  \<^bold>\<open>Swish: the operating-system interface and its programs.\<close>

  Swish is a framework for concurrent programs in Chez Scheme. Its C part, modelled here, connects Scheme with
  libuv, SQLite and the operating system: Scheme calls a function of the interface with a callback,
  the function starts an operation and returns, the event loop completes it and queues the callback, and
  \<^verbatim>\<open>osi_get_callbacks\<close> hands the queue to Scheme. Paths below are relative to \<^verbatim>\<open>src/src/swish\<close> unless they are given in full.

  \<^bold>\<open>How the model reads.\<close> A function of the C code is a HOL function of the same name from a state to an
  optional new state; \<^const>\<open>None\<close> stands for undefined behaviour (a stale or null pointer, an access out of bounds, a failed
  assertion, unlocking what is not locked) and, for the two loops defined by partial functions, for not
  returning. The state (\<^typ>\<open>osi\<close>, theory \<open>Osi_State\<close>) has the C heap as a map from addresses to structures, the lock
  table of the collector, the callback queue \<^verbatim>\<open>g_callbacks\<close>, the handles being closed, the contents of Scheme
  bytevectors and the SQLite objects that exist. Addresses are never reused, so that a stale pointer is
  recognized. Machine integers are words where the code computes with them. libuv, SQLite, Chez Scheme,
  systemd, Windows and Mbed TLS are parameters: the records \<^typ>\<open>env\<close>, \<open>host\<close>, \<open>service_manager\<close>, \<open>windows\<close> and \<open>mbedtls\<close> give the result of every call, so
  that every theorem holds for all combinations of failures.

  \<^bold>\<open>Theories and sources.\<close>

  \<^item> \<open>Prelude\<close>, \<open>Finite_Work\<close>, \<open>C_Text\<close>: word types, theorem collections, the contract of systems that do a finite amount of work,
    decimal formatting and \<^verbatim>\<open>snprintf\<close>.
  \<^item> \<open>Sha1\<close> (\<^verbatim>\<open>sha1.c\<close>, \<^verbatim>\<open>sha.h\<close>, \<^verbatim>\<open>sha-private.h\<close>): every function of the hash, with a bit-level
    definition of FIPS 180 as its specification. The code computes the standard, also for messages that
    do not end at a byte; the locale \<open>stream_digest\<close> is the contract of an incremental digest and is interpreted on the
    code. The length counter is proved to overrun the block buffer when it overflows within a call.
  \<^item> \<open>Utf8\<close> (\<^verbatim>\<open>osi_string_to_utf8\<close> of \<^verbatim>\<open>osi.c\<close>): both passes, the buffer is filled exactly, and decoding gives the string back.
  \<^item> \<open>Osi_State\<close> (\<^verbatim>\<open>osi.c\<close>, \<^verbatim>\<open>osi.h\<close>): the state, its invariant \<^const>\<open>osi_inv\<close> (every lock is owned by a live structure, handles
    are closed by their own callback, links between structures are sound), the multiset \<^const>\<open>owed\<close> of callbacks promised, and the
    contracts \<^const>\<open>accepts_or_refuses\<close> and \<^const>\<open>completes\<close>.
  \<^item> \<open>Fs_Ports\<close>, \<open>Stream_Ports\<close>, \<open>Process\<close>, \<open>Sys_Info\<close> (\<^verbatim>\<open>osi.c\<close>): files, directories, pipes, sockets, path watchers, processes, signals,
    and queries, each operation and each libuv callback on every branch.
  \<^item> \<open>Ports\<close> (\<^verbatim>\<open>osi.c\<close>): the virtual tables and the checked entry points; the locale \<open>port_impl\<close> is the contract of a port and
    is interpreted on the four kinds of ports and on the dispatching entry points.
  \<^item> \<open>Event_Loop\<close> (\<^verbatim>\<open>osi_get_callbacks\<close>, \<^verbatim>\<open>osi_init\<close>, \<^verbatim>\<open>osi_exit\<close>): events, one turn of the loop, and the whole interface as a transition system
    with a ledger of callbacks accepted and delivered.
  \<^item> \<open>Digest\<close> (\<^verbatim>\<open>osi.c\<close>): SHA-1 contexts in the heap, fed from bytevectors.
  \<^item> \<open>Sqlite_Bindings\<close>, \<open>Sqlite_Db\<close> (\<^verbatim>\<open>sqlite.c\<close>): data for SQLite, and all operations on databases and statements. \<open>Sqlite_Statements\<close>: the
    doubly linked list of statements against a HOL list. \<open>Sqlite_Worker\<close>: the thread of a database and the completions, with the invariant \<open>db_inv\<close>
    of their protocol. \<open>Sqlite_Requests\<close>: Scheme, thread and event loop as a transition system. \<open>Sqlite_Lifecycle\<close>: opening, the
    locale \<open>object_registry\<close> for the statements of a database, and the race between finalizing and closing.
  \<^item> \<open>Port_Frames\<close>, \<open>Sqlite_Frames\<close>: what each operation, event, thread step and completion leaves alone; \<open>Parties\<close>: the databases, open requests and
    bindings in one heap, their invariant \<^const>\<open>sys_inv\<close>, and the lemma that parties standing aside keep theirs; \<open>Party_Steps\<close>: every operation keeps it.
    \<open>Whole_Interface\<close>: ports and any number of databases with their threads, the thread pool and the event loop as one transition system. These
    theories add no code; their actions are the functions of the other theories.
  \<^item> \<open>Send_Request\<close> (\<^verbatim>\<open>osi_send_request\<close>): requests of foreign threads as steps between taking and releasing the mutex.
  \<^item> \<open>Run\<close> (\<^verbatim>\<open>run.c\<close>): registration of the foreign interface (compared with the names \<^verbatim>\<open>osi.ss\<close> and \<^verbatim>\<open>digest.ss\<close> look up), the boot file,
    the run of a program up to its exit status, and the Linux service. \<open>Programs\<close> (\<^verbatim>\<open>main.c\<close>, \<^verbatim>\<open>run.c\<close>): \<^verbatim>\<open>main\<close>, \<^verbatim>\<open>wmain\<close> and the Windows service.
  \<^item> \<open>Io_Constants\<close> (\<^verbatim>\<open>io-constants.c\<close>), \<open>Test_Libraries\<close> (\<^verbatim>\<open>test-request.c\<close>, \<^verbatim>\<open>shlibtest.c\<close>), \<open>Mbedtls\<close> (\<^verbatim>\<open>src/examples/mbedtls/mbedtls.c\<close>).
  \<^item> \<open>Sqlite_Varint\<close>, \<open>Sqlite_Rowset\<close>, \<open>Sqlite_Bitvec\<close>, \<open>Sqlite_Arith\<close>, \<open>Sqlite_Hash\<close> (\<^verbatim>\<open>src/sqlite/sqlite3.c\<close>): five self-contained parts of the SQLite library that is built with the
    program: the integers of the file format (unrolled reader against a byte-by-byte reference, round trip), row sets (merge sort, balanced trees,
    the locale \<open>batched_set\<close>), bit vectors (bitmap, linear probing, subdivision; the locale \<open>bit_set\<close>), arithmetic with overflow checks, and hash tables
    of strings (one list with contiguous buckets, resizing; the locale \<open>string_table\<close>).

  \<^bold>\<open>What is shown.\<close> The central statement is about promises: whatever Scheme does, whatever fails and in
  whatever order the events arrive, every callback accepted is delivered exactly once, nothing stays
  locked or allocated without an owner, no step is undefined, and the interface never gets stuck. It is
  proved for the whole interface, with any number of databases, as an invariant of all reachable states
  (\<open>Whole_Interface\<close>), together with the isolation of the databases from each other and from everything else; for the interface without databases and
  for one database with its thread in a sharper form; and for requests of foreign threads. The other theorems give the
  functional behaviour of the components: bounds of every transfer between C and Scheme memory, the results of
  conversions and hashes, the outcome of every error path, exit statuses. A few theorems state what
  the code does wrong. The theory at hand adds a statement that spans the service, the requests of foreign threads and the callback queue.

  \<^bold>\<open>Bounds and fuel.\<close> Two definitions take fuel, both in \<open>Sqlite_Bitvec\<close>: \<^const>\<open>probe\<close> (with \<^const>\<open>free_slot\<close>) visits each of the 124 slots of a hash table at most
  once, since a longer search repeats itself, and \<^const>\<open>bitvec_set\<close> descends at most 16 levels, which is proved to be enough for every 32-bit size. The
  theorems show that neither runs out. The other loops are structural recursions or have a termination proof, except
  \<^const>\<open>close_loop\<close>, which follows pointers and is proved to end on every list the operations can build, and \<^const>\<open>process_sd_bus_message\<close>,
  which may run for ever and is characterized completely. Theorems about SHA-1 assume messages below \<open>2 ^ 61\<close> bytes, the limit of the standard.

  \<^bold>\<open>Not modelled.\<close> The Scheme sources, build files, and documentation (another language); the rest of SQLite (\<^verbatim>\<open>src/sqlite\<close>, third-party code: the interface calls it
  as a parameter); the parts of \<^verbatim>\<open>sha.h\<close> that declare other hashes, which the repository does not define. Weak memory is not modelled: accesses
  under a mutex are steps, and the two unprotected accesses that matter are treated in \<open>Sqlite_Lifecycle\<close> (finalizing while closing) and
  \<open>Whole_Interface\<close> (interrupting while closing). The transition system of \<open>Whole_Interface\<close> does not
  include the digests and the requests of foreign threads, which have theories of their own. The self-test of the bit vectors belongs to SQLite's test harness.
\<close>

section \<open>Controls of the service reach Scheme\<close>

text \<open>
  A control of the service manager is passed on by \<^verbatim>\<open>osi_send_request\<close> with \<^verbatim>\<open>request_call\<close>, from a thread that is not the
  Scheme thread. The state the requests work on is that of the interface, \<^const>\<open>None\<close> if it became undefined.
\<close>

definition control_calls :: "host \<Rightarrow> string list \<Rightarrow> (string, osi option) send_call list" where
  "control_calls h names =
     List.map (\<lambda>name. \<lparr>caller = 1, call_code = Some (\<lambda>arg s. Option.bind s (request_call h arg)), call_payload = name\<rparr>) names"

lemma serve_controls:
  assumes "g_callbacks s = Some q" and "set ts \<subseteq> {..<length names}"
  shows "serve_all (control_calls h names) ts (Some s) = Some (s\<lparr>g_callbacks := Some (fold (push_call h) (List.map ((!) names) ts) q)\<rparr>)"
  using assms(2)
proof (induction ts rule: rev_induct)
  case Nil
  then show ?case using assms(1) by simp
next
  case (snoc t ts)
  then show ?case by (simp add: control_calls_def request_call_def osi_add_callback_list_def push_call_def)
qed

lemma mset_map_nth:
  assumes "distinct ts" and "set ts = {..<length xs}"
  shows "mset (List.map ((!) xs) ts) = mset xs"
proof -
  have "set ts = set [0 ..< length xs]" using assms(2) by (simp add: atLeast0LessThan)
  then have "mset ts = mset [0 ..< length xs]" using set_eq_iff_mset_eq_distinct [OF assms(1) distinct_upt] by blast
  then have "mset (List.map ((!) xs) ts) = mset (List.map ((!) xs) [0 ..< length xs])" by (simp only: mset_map)
  then show ?thesis by (simp only: map_nth)
qed



end
